(* ===== verification/JS_Prelude.thy ===== *)
theory JS_Prelude
  imports Main
begin

text \<open>
  The JavaScript fragment the modelled code runs on: values, own-property access, the
  underscore predicates the code calls, exceptions, and the state-and-exception monad in
  which every stateful function of the development is written.

  Values are the finite trees that \<open>JSON.parse\<close> and \<open>Reflect.parse\<close> build: undefined, null,
  booleans, numbers, strings, regular expressions (kept as the text \<open>toString\<close> prints), arrays
  and objects (own enumerable properties in insertion order). Numbers are the integral ones: the
  modelled code does arithmetic on counts, indices and pixel sizes only.

  A computation maps a state to an outcome and a state: like the code, it keeps the
  mutations made before an exception was thrown, and \<open>tryCatch\<close> resumes in that state.
\<close>

named_theorems run_simps \<open>running a computation in a state\<close>
named_theorems js_simps \<open>evaluation of the JavaScript primitives\<close>

section \<open>Exceptions and the monad\<close>

datatype jserr =
    TypeError
  | ReferenceError string
  | ASTTraverseException
  | ASTTraverseGrammarException
  | ASTTreeStringifyException
  | ASTTreeViewException
  | ASTTreeViewDrawerException
  | StagedException string
  | JSMSG string
  | MissingFunArg nat string
  | AssertionFailed string
  | Bailout
  | RecursionGuard

type_synonym ('s, 'a) jsm = "'s \<Rightarrow> (jserr + 'a) \<times> 's"

definition ret :: "'a \<Rightarrow> ('s, 'a) jsm" where
  "ret x s = (Inr x, s)"

definition throw :: "jserr \<Rightarrow> ('s, 'a) jsm" where
  "throw e s = (Inl e, s)"

definition bindM :: "('s, 'a) jsm \<Rightarrow> ('a \<Rightarrow> ('s, 'b) jsm) \<Rightarrow> ('s, 'b) jsm" where
  "bindM m f s = (case m s of (Inl e, s') \<Rightarrow> (Inl e, s') | (Inr x, s') \<Rightarrow> f x s')"

text \<open>
  \<open>RecursionGuard\<close> is not a JavaScript exception: it marks a recursive call that would not
  descend, so no handler catches it. \<open>Bailout\<close> is the abandonment of a parallel run.
\<close>

definition tryCatch :: "('s, 'a) jsm \<Rightarrow> (jserr \<Rightarrow> ('s, 'a) jsm) \<Rightarrow> ('s, 'a) jsm" where
  "tryCatch m h s = (case m s of
       (Inl e, s') \<Rightarrow> (if e = RecursionGuard then (Inl e, s') else h e s')
     | (Inr x, s') \<Rightarrow> (Inr x, s'))"

definition guardM :: "bool \<Rightarrow> jserr \<Rightarrow> ('s, unit) jsm" where
  "guardM b e = (if b then ret () else throw e)"

primrec mapM :: "('a \<Rightarrow> ('s, 'b) jsm) \<Rightarrow> 'a list \<Rightarrow> ('s, 'b list) jsm" where
  "mapM f [] = ret []"
| "mapM f (x # xs) = bindM (f x) (\<lambda>y. bindM (mapM f xs) (\<lambda>ys. ret (y # ys)))"

text \<open>
  A counting loop over the given indices, with the variables it updates; and one that is left when
  the body gives a result.
\<close>

primrec forLoop :: "nat list \<Rightarrow> 'x \<Rightarrow> (nat \<Rightarrow> 'x \<Rightarrow> ('s, 'x) jsm) \<Rightarrow> ('s, 'x) jsm" where
  "forLoop [] x body = ret x"
| "forLoop (i # js) x body = bindM (body i x) (\<lambda>y. forLoop js y body)"

primrec firstM :: "('a \<Rightarrow> ('s, 'b option) jsm) \<Rightarrow> 'a list \<Rightarrow> ('s, 'b option) jsm" where
  "firstM body [] = ret None"
| "firstM body (i # js) = bindM (body i) (\<lambda>r. case r of None \<Rightarrow> firstM body js | Some x \<Rightarrow> ret (Some x))"

lemma bindM_ret [simp]: "bindM (ret x) f = f x"
  by (simp add: bindM_def ret_def fun_eq_iff)

lemma bindM_throw [simp]: "bindM (throw e) f = throw e"
  by (simp add: bindM_def throw_def fun_eq_iff)

lemma bindM_ret_right [simp]: "bindM m ret = m"
  by (auto simp: bindM_def ret_def fun_eq_iff split: prod.splits sum.splits)

lemma bindM_assoc: "bindM (bindM m f) g = bindM m (\<lambda>x. bindM (f x) g)"
  by (auto simp: bindM_def fun_eq_iff split: prod.splits sum.splits)

lemma tryCatch_ret [simp]: "tryCatch (ret x) h = ret x"
  by (simp add: tryCatch_def ret_def fun_eq_iff)

lemma tryCatch_throw [simp]:
  "tryCatch (throw e) h = (if e = RecursionGuard then throw e else h e)"
  by (auto simp: tryCatch_def throw_def fun_eq_iff)

lemma ret_app [run_simps]: "ret x s = (Inr x, s)"
  by (simp add: ret_def)

lemma throw_app [run_simps]: "throw e s = (Inl e, s)"
  by (simp add: throw_def)

lemma bindM_Inr [run_simps]: "m s = (Inr x, s') \<Longrightarrow> bindM m f s = f x s'"
  by (simp add: bindM_def)

lemma bindM_Inl: "m s = (Inl e, s') \<Longrightarrow> bindM m f s = (Inl e, s')"
  by (simp add: bindM_def)

lemma tryCatch_Inr [run_simps]: "m s = (Inr x, s') \<Longrightarrow> tryCatch m h s = (Inr x, s')"
  by (simp add: tryCatch_def)

lemma tryCatch_Inl: "m s = (Inl e, s') \<Longrightarrow> e \<noteq> RecursionGuard \<Longrightarrow> tryCatch m h s = h e s'"
  by (simp add: tryCatch_def)

lemma guardM_True [simp]: "guardM True e = ret ()"
  by (simp add: guardM_def)

lemma guardM_False [simp]: "guardM False e = throw e"
  by (simp add: guardM_def)

lemma bindM_Inr_iff:
  "bindM m f s = (Inr y, t) \<longleftrightarrow> (\<exists>x s'. m s = (Inr x, s') \<and> f x s' = (Inr y, t))"
  by (auto simp: bindM_def split: prod.splits sum.splits)

lemma mapM_cong:
  assumes "\<And>x. x \<in> set xs \<Longrightarrow> f x = g x"
  shows "mapM f xs = mapM g xs"
  using assms by (induction xs) auto

lemma mapM_map: "mapM f (map g xs) = mapM (\<lambda>x. f (g x)) xs"
  by (induction xs) auto

text \<open>The same for a list of computations, and for an optional one that is null when absent.\<close>

primrec seqM :: "('s, 'a) jsm list \<Rightarrow> ('s, 'a list) jsm" where
  "seqM [] = ret []"
| "seqM (m # ms) = bindM m (\<lambda>y. bindM (seqM ms) (\<lambda>ys. ret (y # ys)))"

lemma mapM_seqM: "mapM f xs = seqM (map f xs)"
  by (induction xs) auto

lemma seqM_Inr:
  assumes "\<And>x. x \<in> set xs \<Longrightarrow> f x s = (Inr (g x), s)"
  shows "seqM (map f xs) s = (Inr (map g xs), s)"
  using assms by (induction xs) (auto simp: run_simps)

lemma mapM_Inr:
  assumes "\<And>x. x \<in> set xs \<Longrightarrow> f x s = (Inr (g x), s)"
  shows "mapM f xs s = (Inr (map g xs), s)"
  using assms by (induction xs) (auto simp: run_simps)

lemma mapM_length: "mapM f xs s = (Inr ys, t) \<Longrightarrow> length ys = length xs"
  by (induction xs arbitrary: s ys) (auto simp: bindM_Inr_iff run_simps)

section \<open>Values and own properties\<close>

datatype jsval =
    JUndef
  | JNull
  | JBool bool
  | JNum int
  | JStr string
  | JRegExp string
  | JArr "jsval list"
  | JObj "(string \<times> jsval) list"

text \<open>
  The measure on which every traversal of a value descends: a property and an element are
  smaller than the object or array that holds them.
\<close>

primrec vsize :: "jsval \<Rightarrow> nat" where
  "vsize JUndef = 0"
| "vsize JNull = 0"
| "vsize (JBool b) = 0"
| "vsize (JNum n) = 0"
| "vsize (JStr s) = 0"
| "vsize (JRegExp s) = 1"
| "vsize (JArr xs) = Suc (sum_list (map vsize xs))"
| "vsize (JObj fs) = Suc (sum_list (map snd (map (map_prod id vsize) fs)))"

lemma vsize_elem: "x \<in> set xs \<Longrightarrow> vsize x < vsize (JArr xs)"
  by (simp add: less_Suc_eq_le member_le_sum_list)

lemma vsize_field: "(k, v) \<in> set fs \<Longrightarrow> vsize v < vsize (JObj fs)"
proof -
  assume "(k, v) \<in> set fs"
  then have "vsize v \<in> set (map snd (map (map_prod id vsize) fs))"
    by force
  then show ?thesis by (simp add: less_Suc_eq_le member_le_sum_list)
qed

text \<open>\<open>obj.key\<close>: reading a property of undefined or null throws, a missing one is undefined.\<close>

definition fld :: "jsval \<Rightarrow> string \<Rightarrow> jsval" where
  "fld v k = (case v of
       JObj fs \<Rightarrow> (case map_of fs k of None \<Rightarrow> JUndef | Some x \<Rightarrow> x)
     | JArr xs \<Rightarrow> (if k = ''length'' then JNum (int (length xs)) else JUndef)
     | JStr s \<Rightarrow> (if k = ''length'' then JNum (int (length s)) else JUndef)
     | _ \<Rightarrow> JUndef)"

definition getp :: "jsval \<Rightarrow> string \<Rightarrow> ('s, jsval) jsm" where
  "getp v k = (if v = JUndef \<or> v = JNull then throw TypeError else ret (fld v k))"

section \<open>The underscore predicates\<close>

definition us_has :: "jsval \<Rightarrow> string \<Rightarrow> bool" where
  "us_has v k = (case v of
       JObj fs \<Rightarrow> map_of fs k \<noteq> None
     | JArr _ \<Rightarrow> k = ''length''
     | JStr _ \<Rightarrow> k = ''length''
     | _ \<Rightarrow> False)"

definition us_isObject :: "jsval \<Rightarrow> bool" where
  "us_isObject v = (case v of JRegExp _ \<Rightarrow> True | JArr _ \<Rightarrow> True | JObj _ \<Rightarrow> True | _ \<Rightarrow> False)"

definition us_isArray :: "jsval \<Rightarrow> bool" where
  "us_isArray v = (case v of JArr _ \<Rightarrow> True | _ \<Rightarrow> False)"

definition us_isEmpty :: "jsval \<Rightarrow> bool" where
  "us_isEmpty v = (case v of
       JArr xs \<Rightarrow> xs = []
     | JStr s \<Rightarrow> s = []
     | JObj fs \<Rightarrow> fs = []
     | _ \<Rightarrow> True)"

text \<open>
  Decimal notation, and \<open>String(v)\<close> as used for a computed property key: an array joins
  its elements with commas, null and undefined elements being empty.
\<close>

fun show_nat :: "nat \<Rightarrow> string" where
  "show_nat n = (if n < 10 then [char_of (48 + n)]
                 else show_nat (n div 10) @ [char_of (48 + n mod 10)])"

declare show_nat.simps [simp del]

definition show_int :: "int \<Rightarrow> string" where
  "show_int i = (if i < 0 then CHR ''-'' # show_nat (nat (- i)) else show_nat (nat i))"

fun join :: "string \<Rightarrow> string list \<Rightarrow> string" where
  "join sep [] = ''''"
| "join sep [x] = x"
| "join sep (x # y # zs) = x @ sep @ join sep (y # zs)"

fun to_str :: "jsval \<Rightarrow> string" where
  "to_str JUndef = ''undefined''"
| "to_str JNull = ''null''"
| "to_str (JBool b) = (if b then ''true'' else ''false'')"
| "to_str (JNum n) = show_int n"
| "to_str (JStr s) = s"
| "to_str (JRegExp s) = s"
| "to_str (JArr xs) =
     join '','' (map (\<lambda>x. if x = JUndef \<or> x = JNull then '''' else to_str x) xs)"
| "to_str (JObj fs) = ''[object Object]''"

text \<open>
  \<open>unescape\<close>: a percent sign with two hexadecimal digits, or with u and four of them, is the character
  of that number; every other character is kept. Strings have the characters below 256, so an escape
  of a greater one is kept too.
\<close>

definition hexDigit :: "char \<Rightarrow> nat option" where
  "hexDigit c =
     (let n = of_char c :: nat in
      if 48 \<le> n \<and> n \<le> 57 then Some (n - 48)
      else if 65 \<le> n \<and> n \<le> 70 then Some (n - 55)
      else if 97 \<le> n \<and> n \<le> 102 then Some (n - 87)
      else None)"

fun hexValue :: "nat \<Rightarrow> string \<Rightarrow> nat option" where
  "hexValue n [] = Some n"
| "hexValue n (c # cs) = (case hexDigit c of None \<Rightarrow> None | Some d \<Rightarrow> hexValue (16 * n + d) cs)"

fun js_unescape :: "string \<Rightarrow> string" where
  "js_unescape [] = []"
| "js_unescape (c # cs) =
     (if c = CHR ''%''
      then case (if take 1 cs = ''u'' \<and> 5 \<le> length cs then hexValue 0 (take 4 (drop 1 cs)) else None) of
             Some n \<Rightarrow> (if n < 256 then char_of n # js_unescape (drop 5 cs) else c # js_unescape cs)
           | None \<Rightarrow> (case (if 2 \<le> length cs then hexValue 0 (take 2 cs) else None) of
               Some n \<Rightarrow> char_of n # js_unescape (drop 2 cs)
             | None \<Rightarrow> c # js_unescape cs)
      else c # js_unescape cs)"

definition js_truthy :: "jsval \<Rightarrow> bool" where
  "js_truthy v = (case v of JUndef \<Rightarrow> False | JNull \<Rightarrow> False | JBool b \<Rightarrow> b | JNum n \<Rightarrow> n \<noteq> 0
     | JStr s \<Rightarrow> s \<noteq> [] | _ \<Rightarrow> True)"

text \<open>
  The elements \<open>_.map\<close> and \<open>_.each\<close> visit: those of an array, the characters of a string, the
  indices below \<open>length\<close> of an array-like object, and the property values of any other object.
\<close>

definition us_elems :: "jsval \<Rightarrow> jsval list" where
  "us_elems v = (case v of
       JArr xs \<Rightarrow> xs
     | JStr s \<Rightarrow> map (\<lambda>c. JStr [c]) s
     | JObj fs \<Rightarrow> (case map_of fs ''length'' of
           Some (JNum n) \<Rightarrow> (if 0 \<le> n \<and> n < 2 ^ 53
                            then map (\<lambda>i. fld v (show_nat i)) [0..<nat n] else map snd fs)
         | _ \<Rightarrow> map snd fs)
     | _ \<Rightarrow> [])"

section \<open>Facts about values\<close>

lemma us_has_JObj [js_simps]: "us_has (JObj fs) k \<longleftrightarrow> map_of fs k \<noteq> None"
  by (simp add: us_has_def)

lemma fld_JObj [js_simps]:
  "fld (JObj fs) k = (case map_of fs k of None \<Rightarrow> JUndef | Some x \<Rightarrow> x)"
  by (simp add: fld_def)

lemma getp_JObj [js_simps]: "getp (JObj fs) k = ret (fld (JObj fs) k)"
  by (simp add: getp_def)

lemma us_isArray_JArr [js_simps]: "us_isArray (JArr xs)"
  by (simp add: us_isArray_def)

lemma us_isObject_JObj [js_simps]: "us_isObject (JObj fs)"
  by (simp add: us_isObject_def)

lemma us_isEmpty_simps [js_simps]:
  "us_isEmpty (JObj fs) \<longleftrightarrow> fs = []" "us_isEmpty (JArr xs) \<longleftrightarrow> xs = []"
  "us_isEmpty JNull" "us_isEmpty JUndef"
  by (simp_all add: us_isEmpty_def)

lemma us_elems_JArr [js_simps]: "us_elems (JArr xs) = xs"
  by (simp add: us_elems_def)

lemma vsize_fld: "us_isObject v \<Longrightarrow> vsize (fld v k) < vsize v"
  by (auto simp: us_isObject_def fld_def split: jsval.splits option.splits
           dest!: map_of_SomeD vsize_field)

lemma vsize_fld_le: "vsize (fld v k) \<le> vsize v"
proof (cases "us_isObject v")
  case True
  then show ?thesis by (simp add: less_imp_le vsize_fld)
next
  case False
  then show ?thesis by (auto simp: us_isObject_def fld_def split: jsval.splits)
qed

lemma us_has_isObject: "us_has v k \<Longrightarrow> k \<noteq> ''length'' \<Longrightarrow> us_isObject v"
  by (auto simp: us_has_def us_isObject_def split: jsval.splits)

lemma vsize_us_elems: "x \<in> set (us_elems v) \<Longrightarrow> vsize x \<le> vsize v"
  using vsize_fld_le
  by (auto simp: us_elems_def less_imp_le simp del: vsize.simps
           split: jsval.splits option.splits if_splits dest: vsize_elem vsize_field)
     (auto)

text \<open>Decimal notation is unambiguous: the digits determine the number.\<close>

definition digits_value :: "string \<Rightarrow> nat" where
  "digits_value s = foldl (\<lambda>n c. 10 * n + (of_char c - 48)) 0 s"

lemma digits_value_snoc: "digits_value (s @ [c]) = 10 * digits_value s + (of_char c - 48)"
  by (simp add: digits_value_def)

lemma of_char_digit: "d < 10 \<Longrightarrow> (of_char (char_of (48 + d :: nat)) :: nat) = 48 + d"
  by simp

lemma digits_value_show_nat: "digits_value (show_nat n) = n"
proof (induction n rule: show_nat.induct)
  case (1 n)
  show ?case
  proof (cases "n < 10")
    case True
    then show ?thesis by (simp add: show_nat.simps [of n] digits_value_def)
  next
    case False
    then have "digits_value (show_nat n) = 10 * digits_value (show_nat (n div 10)) + n mod 10"
      by (simp add: show_nat.simps [of n] digits_value_snoc of_char_digit)
    with False 1 show ?thesis by simp
  qed
qed

lemma show_nat_inject [simp]: "show_nat m = show_nat n \<longleftrightarrow> m = n"
  by (metis digits_value_show_nat)

end
