(* ===== verification/Ast_Traverse.thy ===== *)
theory Ast_Traverse
  imports JS_Prelude
begin

text \<open>
  The AST traversal of the debugger's visualiser, \<open>Ast/asttraverse.js\<close>: one definition per
  \<open>trvs...\<close> function, over the JavaScript value of an AST node and a visitor.

  A visitor maps a node kind and an action (\<open>single\<close>, \<open>before\<close>, \<open>after\<close>, \<open>afterTest\<close>, ...) to a
  handler with its own state (the \<open>this\<close> of the code's visitors). Handlers receive nodes,
  the results of earlier handlers, null and lists of results, the type \<open>rv\<close>.

  The code's functions call each other through the variables \<open>trvsCallExpr\<close> and \<open>trvsCallStmt\<close>;
  each definition takes these two as the arguments \<open>E\<close> and \<open>S\<close>, and the recursion is tied
  at the dispatchers. The test \<open>vsize v < vsize e\<close> there is what makes the recursion total;
  \<open>traversal_recursion\<close> shows that it never fails.
\<close>

datatype 'r rv = RUndef | RNull | RNode jsval | RVal 'r | RList "'r rv list"

type_synonym ('s, 'r) handler = "'r rv list \<Rightarrow> ('s, 'r rv) jsm"
type_synonym ('s, 'r) visitor = "string \<rightharpoonup> (string \<rightharpoonup> ('s, 'r) handler)"
type_synonym ('s, 'r) walk = "jsval \<Rightarrow> ('s, 'r rv) jsm"

section \<open>Grammar checks and the visitor call\<close>

text \<open>
  \<open>TRVS_GrammarCheckCond\<close> throws \<open>new ASTTraverseGrammarException( msg )\<close> where no \<open>msg\<close> is in
  scope: evaluating the argument raises a ReferenceError first.
\<close>

definition TRVS_GrammarCheckCond :: "bool \<Rightarrow> ('s, unit) jsm" where
  "TRVS_GrammarCheckCond cond = (if \<not> cond then throw (ReferenceError ''msg'') else ret ())"

definition TRVS_GrammarCheck :: "jsval \<Rightarrow> string list \<Rightarrow> ('s, unit) jsm" where
  "TRVS_GrammarCheck targetObj keys =
     (if list_all (us_has targetObj) keys then ret () else throw ASTTraverseGrammarException)"

definition TRVS_Get :: "(string \<times> 'a) list \<Rightarrow> jsval \<Rightarrow> ('s, 'a) jsm" where
  "TRVS_Get obj key = (case map_of obj (to_str key) of
       None \<Rightarrow> throw ASTTraverseGrammarException
     | Some f \<Rightarrow> ret f)"

definition trvsCallVisitor ::
    "('s, 'r) visitor \<Rightarrow> string \<Rightarrow> string \<Rightarrow> 'r rv list \<Rightarrow> ('s, 'r rv) jsm" where
  "trvsCallVisitor visitor ty action args = (case visitor ty of
       None \<Rightarrow> ret RUndef
     | Some typeVal \<Rightarrow> (case typeVal action of
           None \<Rightarrow> ret RUndef
         | Some actionVal \<Rightarrow> actionVal args))"

text \<open>\<open>_.map\<close> of a traversal over a value, and a child that is null when it is empty.\<close>

definition us_map :: "('s, 'r) walk \<Rightarrow> jsval \<Rightarrow> ('s, 'r rv) jsm" where
  "us_map f v = bindM (mapM f (us_elems v)) (\<lambda>rs. ret (RList rs))"

definition emptyOr :: "jsval \<Rightarrow> ('s, 'r) walk \<Rightarrow> jsval \<Rightarrow> ('s, 'r rv) jsm" where
  "emptyOr c f v = (if us_isEmpty c then ret RNull else f v)"

section \<open>Variants\<close>

definition trvsLiteral :: "('s, 'r) visitor \<Rightarrow> ('s, 'r) walk" where
  "trvsLiteral V lit =
     bindM (TRVS_GrammarCheck lit [''value'']) (\<lambda>_.
     trvsCallVisitor V ''literal'' ''single'' [RNode lit, RNode (fld lit ''value'')])"

definition trvsIdentifier :: "('s, 'r) visitor \<Rightarrow> ('s, 'r) walk" where
  "trvsIdentifier V indent =
     bindM (TRVS_GrammarCheck indent [''name'']) (\<lambda>_.
     trvsCallVisitor V ''identifier'' ''single'' [RNode indent, RNode (fld indent ''name'')])"

definition trvsProperty :: "('s, 'r) visitor \<Rightarrow> ('s, 'r) walk \<Rightarrow> ('s, 'r) walk" where
  "trvsProperty V E prop =
     bindM (TRVS_GrammarCheck prop [''value'', ''key'']) (\<lambda>_.
     bindM (trvsCallVisitor V ''property'' ''before'' [RNode prop]) (\<lambda>bef.
     bindM (tryCatch (trvsLiteral V (fld prop ''key''))
                     (\<lambda>_. trvsIdentifier V (fld prop ''key''))) (\<lambda>key.
     bindM (trvsCallVisitor V ''property'' ''afterKey'' [RNode prop, bef, key]) (\<lambda>aftKey.
     bindM (E (fld prop ''value'')) (\<lambda>val.
     trvsCallVisitor V ''property'' ''after'' [RNode prop, bef, key, aftKey, val])))))"

definition trvsProperties :: "('s, 'r) visitor \<Rightarrow> ('s, 'r) walk \<Rightarrow> ('s, 'r) walk" where
  "trvsProperties V E props =
     bindM (TRVS_GrammarCheckCond (us_isArray props)) (\<lambda>_.
     us_map (trvsProperty V E) props)"

definition trvsPattern :: "('s, 'r) visitor \<Rightarrow> ('s, 'r) walk" where
  "trvsPattern V patt =
     bindM (TRVS_GrammarCheck patt [''type'', ''name'']) (\<lambda>_.
     trvsCallVisitor V ''pattern'' ''single''
       [RNode patt, RNode (fld patt ''type''), RNode (fld patt ''name'')])"

definition trvsPatterns :: "('s, 'r) visitor \<Rightarrow> ('s, 'r) walk" where
  "trvsPatterns V patts =
     bindM (TRVS_GrammarCheckCond (us_isArray patts)) (\<lambda>_.
     us_map (trvsPattern V) patts)"

definition trvsStmts :: "('s, 'r) walk \<Rightarrow> ('s, 'r) walk" where
  "trvsStmts S stmts =
     bindM (TRVS_GrammarCheckCond (us_isArray stmts)) (\<lambda>_.
     us_map S stmts)"

definition trvsExprs :: "('s, 'r) walk \<Rightarrow> ('s, 'r) walk" where
  "trvsExprs E exprs = us_map E exprs"

definition trvsStmtBlock :: "('s, 'r) visitor \<Rightarrow> ('s, 'r) walk \<Rightarrow> ('s, 'r) walk" where
  "trvsStmtBlock V S stmt =
     bindM (TRVS_GrammarCheck stmt [''body'']) (\<lambda>_.
     bindM (trvsCallVisitor V ''stmtBlock'' ''before'' [RNode stmt]) (\<lambda>bef.
     bindM (trvsStmts S (fld stmt ''body'')) (\<lambda>stmtsRet.
     trvsCallVisitor V ''stmtBlock'' ''after'' [RNode stmt, bef, stmtsRet])))"

text \<open>
  The catch clause tests the property \<open>test\<close>, which no catch clause has, before it visits
  \<open>guard\<close>.
\<close>

definition trvsCatchClause ::
    "('s, 'r) visitor \<Rightarrow> ('s, 'r) walk \<Rightarrow> ('s, 'r) walk \<Rightarrow> ('s, 'r) walk" where
  "trvsCatchClause V E S catchClause =
     bindM (TRVS_GrammarCheck catchClause [''param'', ''body'']) (\<lambda>_.
     bindM (trvsCallVisitor V ''catchClause'' ''before'' [RNode catchClause]) (\<lambda>bef.
     bindM (trvsPattern V (fld catchClause ''param'')) (\<lambda>pattern.
     bindM (trvsCallVisitor V ''catchClause'' ''afterPattern''
              [RNode catchClause, bef, pattern]) (\<lambda>aftPattern.
     bindM (emptyOr (fld catchClause ''test'') E (fld catchClause ''guard'')) (\<lambda>guard.
     bindM (trvsCallVisitor V ''catchClause'' ''afterGuard''
              [RNode catchClause, bef, pattern, aftPattern, guard]) (\<lambda>aftGuard.
     bindM (trvsStmtBlock V S (fld catchClause ''body'')) (\<lambda>block.
     trvsCallVisitor V ''catchClause'' ''after''
       [RNode catchClause, bef, pattern, aftPattern, guard, aftGuard, block])))))))"

definition trvsSwitchCase ::
    "('s, 'r) visitor \<Rightarrow> ('s, 'r) walk \<Rightarrow> ('s, 'r) walk \<Rightarrow> ('s, 'r) walk" where
  "trvsSwitchCase V E S cas =
     bindM (TRVS_GrammarCheck cas [''consequent'']) (\<lambda>_.
     bindM (trvsCallVisitor V ''switchCase'' ''before'' [RNode cas]) (\<lambda>bef.
     bindM (emptyOr (fld cas ''test'') E (fld cas ''test'')) (\<lambda>test.
     bindM (trvsCallVisitor V ''switchCase'' ''afterTest'' [RNode cas, bef, test]) (\<lambda>aftTest.
     bindM (trvsStmts S (fld cas ''consequent'')) (\<lambda>consequent.
     trvsCallVisitor V ''switchCase'' ''after''
       [RNode cas, bef, test, aftTest, consequent])))))"

definition trvsSwitchCases ::
    "('s, 'r) visitor \<Rightarrow> ('s, 'r) walk \<Rightarrow> ('s, 'r) walk \<Rightarrow> ('s, 'r) walk" where
  "trvsSwitchCases V E S cases =
     bindM (TRVS_GrammarCheckCond (us_isArray cases)) (\<lambda>_.
     us_map (trvsSwitchCase V E S) cases)"

definition trvsVariableDeclarator :: "('s, 'r) visitor \<Rightarrow> ('s, 'r) walk \<Rightarrow> ('s, 'r) walk" where
  "trvsVariableDeclarator V E varDeclar =
     bindM (TRVS_GrammarCheck varDeclar [''id'']) (\<lambda>_.
     bindM (trvsCallVisitor V ''variableDeclarator'' ''before'' [RNode varDeclar]) (\<lambda>bef.
     bindM (trvsPattern V (fld varDeclar ''id'')) (\<lambda>idr.
     bindM (trvsCallVisitor V ''variableDeclarator'' ''afterId''
              [RNode varDeclar, bef, idr]) (\<lambda>aftId.
     bindM (emptyOr (fld varDeclar ''init'') E (fld varDeclar ''init'')) (\<lambda>ini.
     trvsCallVisitor V ''variableDeclarator'' ''after''
       [RNode varDeclar, bef, idr, aftId, ini])))))"

definition trvsVariableDeclarators :: "('s, 'r) visitor \<Rightarrow> ('s, 'r) walk \<Rightarrow> ('s, 'r) walk" where
  "trvsVariableDeclarators V E varDeclars =
     bindM (TRVS_GrammarCheckCond (us_isArray varDeclars)) (\<lambda>_.
     us_map (trvsVariableDeclarator V E) varDeclars)"

definition trvsFunction :: "('s, 'r) visitor \<Rightarrow> ('s, 'r) walk \<Rightarrow> ('s, 'r) walk \<Rightarrow>
    jsval \<Rightarrow> string \<Rightarrow> 'r rv \<Rightarrow> ('s, 'r rv) jsm" where
  "trvsFunction V E S node visitorName bef =
     bindM (TRVS_GrammarCheck node [''params'', ''body'']) (\<lambda>_.
     bindM (emptyOr (fld node ''id'') (trvsIdentifier V) (fld node ''id'')) (\<lambda>idr.
     bindM (trvsCallVisitor V visitorName ''afterId'' [RNode node, bef, idr]) (\<lambda>aftId.
     bindM (trvsPatterns V (fld node ''params'')) (\<lambda>params.
     bindM (trvsCallVisitor V visitorName ''afterParams''
              [RNode node, bef, idr, aftId, params]) (\<lambda>aftParams.
     bindM (tryCatch (trvsStmtBlock V S (fld node ''body''))
                     (\<lambda>_. E (fld node ''body''))) (\<lambda>body.
     trvsCallVisitor V visitorName ''after''
       [RNode node, bef, idr, aftId, params, aftParams, body]))))))"

section \<open>Expressions\<close>

definition trvsExprThis :: "('s, 'r) visitor \<Rightarrow> ('s, 'r) walk" where
  "trvsExprThis V expr =
     bindM (TRVS_GrammarCheckCond (us_isObject expr)) (\<lambda>_.
     trvsCallVisitor V ''exprThis'' ''single'' [RNode expr])"

definition trvsExprArray :: "('s, 'r) visitor \<Rightarrow> ('s, 'r) walk \<Rightarrow> ('s, 'r) walk" where
  "trvsExprArray V E expr =
     bindM (TRVS_GrammarCheckCond (us_isObject expr)) (\<lambda>_.
     bindM (trvsCallVisitor V ''exprArray'' ''before'' [RNode expr]) (\<lambda>bef.
     bindM (emptyOr (fld expr ''elements'') (trvsExprs E) (fld expr ''elements'')) (\<lambda>elements.
     trvsCallVisitor V ''exprArray'' ''after'' [RNode expr, bef, elements])))"

definition trvsExprObject :: "('s, 'r) visitor \<Rightarrow> ('s, 'r) walk \<Rightarrow> ('s, 'r) walk" where
  "trvsExprObject V E expr =
     bindM (TRVS_GrammarCheck expr [''properties'']) (\<lambda>_.
     bindM (trvsCallVisitor V ''exprObject'' ''before'' [RNode expr]) (\<lambda>bef.
     bindM (trvsProperties V E (fld expr ''properties'')) (\<lambda>properties.
     trvsCallVisitor V ''exprObject'' ''after'' [RNode expr, bef, properties])))"

definition trvsExprFunction ::
    "('s, 'r) visitor \<Rightarrow> ('s, 'r) walk \<Rightarrow> ('s, 'r) walk \<Rightarrow> ('s, 'r) walk" where
  "trvsExprFunction V E S expr =
     bindM (TRVS_GrammarCheckCond (us_isObject expr)) (\<lambda>_.
     bindM (trvsCallVisitor V ''exprFunction'' ''before'' [RNode expr]) (\<lambda>bef.
     trvsFunction V E S expr ''exprFunction'' bef))"

definition trvsExprSequence :: "('s, 'r) visitor \<Rightarrow> ('s, 'r) walk \<Rightarrow> ('s, 'r) walk" where
  "trvsExprSequence V E expr =
     bindM (TRVS_GrammarCheck expr [''expressions'']) (\<lambda>_.
     bindM (trvsCallVisitor V ''exprSequence'' ''before'' [RNode expr]) (\<lambda>bef.
     bindM (trvsExprs E (fld expr ''expressions'')) (\<lambda>expressions.
     trvsCallVisitor V ''exprSequence'' ''after'' [RNode expr, bef, expressions])))"

definition trvsGenExprUnaryExpr ::
    "string \<Rightarrow> ('s, 'r) visitor \<Rightarrow> ('s, 'r) walk \<Rightarrow> ('s, 'r) walk" where
  "trvsGenExprUnaryExpr visitorName V E expr =
     bindM (TRVS_GrammarCheck expr [''argument'', ''prefix'', ''operator'']) (\<lambda>_.
     bindM (trvsCallVisitor V visitorName ''before'' [RNode expr]) (\<lambda>bef.
     bindM (E (fld expr ''argument'')) (\<lambda>arg.
     trvsCallVisitor V visitorName ''after''
       [RNode expr, bef, RNode (fld expr ''operator''), arg])))"

definition trvsExprUnary :: "('s, 'r) visitor \<Rightarrow> ('s, 'r) walk \<Rightarrow> ('s, 'r) walk" where
  "trvsExprUnary = trvsGenExprUnaryExpr ''exprUnary''"

definition trvsGenExprBinaryLeftRight ::
    "string \<Rightarrow> ('s, 'r) visitor \<Rightarrow> ('s, 'r) walk \<Rightarrow> ('s, 'r) walk" where
  "trvsGenExprBinaryLeftRight visitorName V E expr =
     bindM (TRVS_GrammarCheck expr [''left'', ''right'']) (\<lambda>_.
     bindM (trvsCallVisitor V visitorName ''before'' [RNode expr]) (\<lambda>bef.
     bindM (E (fld expr ''left'')) (\<lambda>left.
     bindM (trvsCallVisitor V visitorName ''afterLeft'' [RNode expr, bef, left]) (\<lambda>aftLeft.
     bindM (E (fld expr ''right'')) (\<lambda>right.
     trvsCallVisitor V visitorName ''after'' [RNode expr, bef, left, aftLeft, right])))))"

definition trvsExprBinary :: "('s, 'r) visitor \<Rightarrow> ('s, 'r) walk \<Rightarrow> ('s, 'r) walk" where
  "trvsExprBinary = trvsGenExprBinaryLeftRight ''exprBinary''"

definition trvsExprAssignment :: "('s, 'r) visitor \<Rightarrow> ('s, 'r) walk \<Rightarrow> ('s, 'r) walk" where
  "trvsExprAssignment = trvsGenExprBinaryLeftRight ''exprAssignment''"

definition trvsExprUpdate :: "('s, 'r) visitor \<Rightarrow> ('s, 'r) walk \<Rightarrow> ('s, 'r) walk" where
  "trvsExprUpdate = trvsGenExprUnaryExpr ''exprUpdate''"

definition trvsExprLogical :: "('s, 'r) visitor \<Rightarrow> ('s, 'r) walk \<Rightarrow> ('s, 'r) walk" where
  "trvsExprLogical = trvsGenExprBinaryLeftRight ''exprLogical''"

definition trvsExprConditional :: "('s, 'r) visitor \<Rightarrow> ('s, 'r) walk \<Rightarrow> ('s, 'r) walk" where
  "trvsExprConditional V E expr =
     bindM (TRVS_GrammarCheck expr [''test'', ''alternate'', ''consequent'']) (\<lambda>_.
     bindM (trvsCallVisitor V ''exprConditional'' ''before'' [RNode expr]) (\<lambda>bef.
     bindM (E (fld expr ''test'')) (\<lambda>test.
     bindM (trvsCallVisitor V ''exprConditional'' ''afterTest''
              [RNode expr, bef, test]) (\<lambda>aftTest.
     bindM (E (fld expr ''alternate'')) (\<lambda>alternate.
     bindM (trvsCallVisitor V ''exprConditional'' ''afterAlternate''
              [RNode expr, bef, test, aftTest, alternate]) (\<lambda>aftAlternate.
     bindM (E (fld expr ''consequent'')) (\<lambda>consequent.
     trvsCallVisitor V ''exprConditional'' ''after''
       [RNode expr, bef, test, aftTest, alternate, aftAlternate, consequent])))))))"

definition tvrsGenExprCalleeArgs ::
    "string \<Rightarrow> ('s, 'r) visitor \<Rightarrow> ('s, 'r) walk \<Rightarrow> ('s, 'r) walk" where
  "tvrsGenExprCalleeArgs visitorName V E expr =
     bindM (TRVS_GrammarCheck expr [''callee'', ''arguments'']) (\<lambda>_.
     bindM (trvsCallVisitor V visitorName ''before'' [RNode expr]) (\<lambda>bef.
     bindM (E (fld expr ''callee'')) (\<lambda>callee.
     bindM (trvsCallVisitor V visitorName ''afterCallee'' [RNode expr, bef, callee]) (\<lambda>aftCallee.
     bindM (trvsExprs E (fld expr ''arguments'')) (\<lambda>args.
     trvsCallVisitor V visitorName ''after''
       [RNode expr, bef, callee, aftCallee, args])))))"

definition trvsExprNew :: "('s, 'r) visitor \<Rightarrow> ('s, 'r) walk \<Rightarrow> ('s, 'r) walk" where
  "trvsExprNew = tvrsGenExprCalleeArgs ''exprNew''"

definition trvsExprCall :: "('s, 'r) visitor \<Rightarrow> ('s, 'r) walk \<Rightarrow> ('s, 'r) walk" where
  "trvsExprCall = tvrsGenExprCalleeArgs ''exprCall''"

definition trvsExprMember :: "('s, 'r) visitor \<Rightarrow> ('s, 'r) walk \<Rightarrow> ('s, 'r) walk" where
  "trvsExprMember V E expr =
     bindM (TRVS_GrammarCheck expr [''object'', ''property'']) (\<lambda>_.
     bindM (trvsCallVisitor V ''exprMember'' ''before'' [RNode expr]) (\<lambda>bef.
     bindM (E (fld expr ''object'')) (\<lambda>obj.
     bindM (trvsCallVisitor V ''exprMember'' ''afterObject'' [RNode expr, bef, obj]) (\<lambda>aftObj.
     bindM (tryCatch (trvsIdentifier V (fld expr ''property''))
                     (\<lambda>_. E (fld expr ''property''))) (\<lambda>prop.
     trvsCallVisitor V ''exprMember'' ''after'' [RNode expr, bef, obj, aftObj, prop])))))"

definition trvsStmtMetaQuazi :: "('s, 'r) visitor \<Rightarrow> ('s, 'r) walk \<Rightarrow> ('s, 'r) walk" where
  "trvsStmtMetaQuazi V S expr =
     bindM (TRVS_GrammarCheck expr [''body'']) (\<lambda>_.
     bindM (trvsCallVisitor V ''exprMetaQuazi'' ''before'' [RNode expr]) (\<lambda>bef.
     bindM (trvsStmts S (fld expr ''body'')) (\<lambda>stmtsRet.
     trvsCallVisitor V ''exprMetaQuazi'' ''after'' [RNode expr, bef, stmtsRet])))"

definition trvsStmtMetaExec :: "('s, 'r) visitor \<Rightarrow> ('s, 'r) walk \<Rightarrow> ('s, 'r) walk" where
  "trvsStmtMetaExec V S expr =
     bindM (TRVS_GrammarCheck expr [''body'']) (\<lambda>_.
     bindM (trvsCallVisitor V ''exprMetaExec'' ''before'' [RNode expr]) (\<lambda>bef.
     bindM (S (fld expr ''body'')) (\<lambda>stmtRet.
     trvsCallVisitor V ''exprMetaExec'' ''after'' [RNode expr, bef, stmtRet])))"

text \<open>The table of expression kinds.\<close>

definition exprsMap :: "('s, 'r) visitor \<Rightarrow> ('s, 'r) walk \<Rightarrow> ('s, 'r) walk \<Rightarrow>
    (string \<times> ('s, 'r) walk) list" where
  "exprsMap V E S =
     [(''Literal'', trvsLiteral V),
      (''Identifier'', trvsIdentifier V),
      (''ThisExpression'', trvsExprThis V),
      (''ArrayExpression'', trvsExprArray V E),
      (''ObjectExpression'', trvsExprObject V E),
      (''FunctionExpression'', trvsExprFunction V E S),
      (''SequenceExpression'', trvsExprSequence V E),
      (''UnaryExpression'', trvsExprUnary V E),
      (''BinaryExpression'', trvsExprBinary V E),
      (''AssignmentExpression'', trvsExprAssignment V E),
      (''UpdateExpression'', trvsExprUpdate V E),
      (''LogicalExpression'', trvsExprLogical V E),
      (''ConditionalExpression'', trvsExprConditional V E),
      (''NewExpression'', trvsExprNew V E),
      (''CallExpression'', trvsExprCall V E),
      (''MemberExpression'', trvsExprMember V E),
      (''MetaQuaziStatement'', trvsStmtMetaQuazi V S),
      (''MetaExecStatement'', trvsStmtMetaExec V S)]"

section \<open>Statements\<close>

definition trvsStmtEmpty :: "('s, 'r) visitor \<Rightarrow> ('s, 'r) walk" where
  "trvsStmtEmpty V stmt =
     bindM (TRVS_GrammarCheckCond (us_isObject stmt)) (\<lambda>_.
     trvsCallVisitor V ''stmtEmpty'' ''single'' [RNode stmt])"

definition trvsStmtExpr :: "('s, 'r) visitor \<Rightarrow> ('s, 'r) walk \<Rightarrow> ('s, 'r) walk" where
  "trvsStmtExpr V E stmt =
     bindM (TRVS_GrammarCheck stmt [''expression'']) (\<lambda>_.
     bindM (trvsCallVisitor V ''stmtExpr'' ''before'' [RNode stmt]) (\<lambda>bef.
     bindM (E (fld stmt ''expression'')) (\<lambda>expr.
     trvsCallVisitor V ''stmtExpr'' ''after'' [RNode stmt, bef, expr])))"

definition trvsStmtIf ::
    "('s, 'r) visitor \<Rightarrow> ('s, 'r) walk \<Rightarrow> ('s, 'r) walk \<Rightarrow> ('s, 'r) walk" where
  "trvsStmtIf V E S stmt =
     bindM (TRVS_GrammarCheck stmt [''test'', ''consequent'']) (\<lambda>_.
     bindM (trvsCallVisitor V ''stmtIf'' ''before'' [RNode stmt]) (\<lambda>bef.
     bindM (E (fld stmt ''test'')) (\<lambda>testRet.
     bindM (trvsCallVisitor V ''stmtIf'' ''afterTest'' [RNode stmt, bef, testRet]) (\<lambda>aftTest.
     bindM (S (fld stmt ''consequent'')) (\<lambda>consRet.
     bindM (trvsCallVisitor V ''stmtIf'' ''afterCons''
              [RNode stmt, bef, testRet, aftTest, consRet]) (\<lambda>aftCons.
     bindM (emptyOr (fld stmt ''alternate'') S (fld stmt ''alternate'')) (\<lambda>altRet.
     trvsCallVisitor V ''stmtIf'' ''after''
       [RNode stmt, bef, testRet, aftTest, consRet, aftCons, altRet])))))))"

definition trvsStmtLabeled :: "('s, 'r) visitor \<Rightarrow> ('s, 'r) walk \<Rightarrow> ('s, 'r) walk" where
  "trvsStmtLabeled V S stmt =
     bindM (TRVS_GrammarCheck stmt [''label'', ''body'']) (\<lambda>_.
     bindM (trvsCallVisitor V ''stmtLabeled'' ''before'' [RNode stmt]) (\<lambda>bef.
     bindM (trvsIdentifier V (fld stmt ''label'')) (\<lambda>ident.
     bindM (trvsCallVisitor V ''stmtLabeled'' ''afterLabel'' [RNode stmt, bef, ident]) (\<lambda>aftIdent.
     bindM (S (fld stmt ''body'')) (\<lambda>bodyRet.
     trvsCallVisitor V ''stmtLabeled'' ''after''
       [RNode stmt, bef, ident, aftIdent, bodyRet])))))"

definition trvsGenStmtUnaryIdent :: "string \<Rightarrow> ('s, 'r) visitor \<Rightarrow> ('s, 'r) walk" where
  "trvsGenStmtUnaryIdent visitorName V stmt =
     bindM (TRVS_GrammarCheckCond (us_isObject stmt)) (\<lambda>_.
     bindM (trvsCallVisitor V visitorName ''before'' [RNode stmt]) (\<lambda>bef.
     bindM (emptyOr (fld stmt ''label'') (trvsIdentifier V) (fld stmt ''label'')) (\<lambda>ident.
     trvsCallVisitor V visitorName ''after'' [RNode stmt, bef, ident])))"

definition trvsStmtBreak :: "('s, 'r) visitor \<Rightarrow> ('s, 'r) walk" where
  "trvsStmtBreak = trvsGenStmtUnaryIdent ''stmtBreak''"

definition trvsStmtContinue :: "('s, 'r) visitor \<Rightarrow> ('s, 'r) walk" where
  "trvsStmtContinue = trvsGenStmtUnaryIdent ''stmtContinue''"

definition trvsStmtSwitch ::
    "('s, 'r) visitor \<Rightarrow> ('s, 'r) walk \<Rightarrow> ('s, 'r) walk \<Rightarrow> ('s, 'r) walk" where
  "trvsStmtSwitch V E S stmt =
     bindM (TRVS_GrammarCheck stmt [''discriminant'', ''cases'']) (\<lambda>_.
     bindM (trvsCallVisitor V ''stmtSwitch'' ''before'' [RNode stmt]) (\<lambda>bef.
     bindM (E (fld stmt ''discriminant'')) (\<lambda>discr.
     bindM (trvsCallVisitor V ''stmtSwitch'' ''afterDiscr'' [RNode stmt, bef, discr]) (\<lambda>aftDiscr.
     bindM (trvsSwitchCases V E S (fld stmt ''cases'')) (\<lambda>cases.
     trvsCallVisitor V ''stmtSwitch'' ''after''
       [RNode stmt, bef, discr, aftDiscr, cases])))))"

definition trvsStmtReturn :: "('s, 'r) visitor \<Rightarrow> ('s, 'r) walk \<Rightarrow> ('s, 'r) walk" where
  "trvsStmtReturn V E stmt =
     bindM (TRVS_GrammarCheckCond (us_isObject stmt)) (\<lambda>_.
     bindM (trvsCallVisitor V ''stmtReturn'' ''before'' [RNode stmt]) (\<lambda>bef.
     bindM (emptyOr (fld stmt ''argument'') E (fld stmt ''argument'')) (\<lambda>argRet.
     trvsCallVisitor V ''stmtReturn'' ''after'' [RNode stmt, bef, argRet])))"

definition trvsStmtThrow :: "('s, 'r) visitor \<Rightarrow> ('s, 'r) walk \<Rightarrow> ('s, 'r) walk" where
  "trvsStmtThrow V E stmt =
     bindM (TRVS_GrammarCheck stmt [''argument'']) (\<lambda>_.
     bindM (trvsCallVisitor V ''stmtThrow'' ''before'' [RNode stmt]) (\<lambda>bef.
     bindM (E (fld stmt ''argument'')) (\<lambda>argRet.
     trvsCallVisitor V ''stmtThrow'' ''after'' [RNode stmt, bef, argRet])))"

definition trvsStmtTry ::
    "('s, 'r) visitor \<Rightarrow> ('s, 'r) walk \<Rightarrow> ('s, 'r) walk \<Rightarrow> ('s, 'r) walk" where
  "trvsStmtTry V E S stmt =
     bindM (TRVS_GrammarCheck stmt [''block'']) (\<lambda>_.
     bindM (trvsCallVisitor V ''stmtTry'' ''before'' [RNode stmt]) (\<lambda>bef.
     bindM (trvsStmtBlock V S (fld stmt ''block'')) (\<lambda>block.
     bindM (trvsCallVisitor V ''stmtTry'' ''afterBlock'' [RNode stmt, bef, block]) (\<lambda>afterBlock.
     bindM (emptyOr (fld stmt ''handler'') (trvsCatchClause V E S) (fld stmt ''handler'')) (\<lambda>handler.
     bindM (trvsCallVisitor V ''stmtTry'' ''afterHandler''
              [RNode stmt, bef, block, afterBlock, handler]) (\<lambda>afterhandler.
     bindM (emptyOr (fld stmt ''finalizer'') (trvsStmtBlock V S) (fld stmt ''finalizer'')) (\<lambda>finalizer.
     trvsCallVisitor V ''stmtTry'' ''after''
       [RNode stmt, bef, block, afterBlock, handler, afterhandler, finalizer])))))))"

definition trvsGenStmtWhile ::
    "string \<Rightarrow> ('s, 'r) visitor \<Rightarrow> ('s, 'r) walk \<Rightarrow> ('s, 'r) walk \<Rightarrow> ('s, 'r) walk" where
  "trvsGenStmtWhile visitorName V E S stmt =
     bindM (TRVS_GrammarCheck stmt [''test'', ''body'']) (\<lambda>_.
     bindM (trvsCallVisitor V visitorName ''before'' [RNode stmt]) (\<lambda>bef.
     bindM (E (fld stmt ''test'')) (\<lambda>test.
     bindM (trvsCallVisitor V visitorName ''afterTest'' [RNode stmt, bef, test]) (\<lambda>afterTest.
     bindM (S (fld stmt ''body'')) (\<lambda>body.
     trvsCallVisitor V visitorName ''after'' [RNode stmt, bef, test, afterTest, body])))))"

definition trvsStmtWhile ::
    "('s, 'r) visitor \<Rightarrow> ('s, 'r) walk \<Rightarrow> ('s, 'r) walk \<Rightarrow> ('s, 'r) walk" where
  "trvsStmtWhile = trvsGenStmtWhile ''stmtWhile''"

definition trvsStmtDoWhile ::
    "('s, 'r) visitor \<Rightarrow> ('s, 'r) walk \<Rightarrow> ('s, 'r) walk \<Rightarrow> ('s, 'r) walk" where
  "trvsStmtDoWhile = trvsGenStmtWhile ''stmtDoWhile''"

definition trvsStmtDeclVariable :: "('s, 'r) visitor \<Rightarrow> ('s, 'r) walk \<Rightarrow> ('s, 'r) walk" where
  "trvsStmtDeclVariable V E stmt =
     bindM (TRVS_GrammarCheck stmt [''declarations'']) (\<lambda>_.
     bindM (trvsCallVisitor V ''stmtDeclVariable'' ''before'' [RNode stmt]) (\<lambda>bef.
     bindM (trvsVariableDeclarators V E (fld stmt ''declarations'')) (\<lambda>declarations.
     trvsCallVisitor V ''stmtDeclVariable'' ''after'' [RNode stmt, bef, declarations])))"

definition trvsStmtFor ::
    "('s, 'r) visitor \<Rightarrow> ('s, 'r) walk \<Rightarrow> ('s, 'r) walk \<Rightarrow> ('s, 'r) walk" where
  "trvsStmtFor V E S stmt =
     bindM (TRVS_GrammarCheck stmt [''body'']) (\<lambda>_.
     bindM (trvsCallVisitor V ''stmtFor'' ''before'' [RNode stmt]) (\<lambda>bef.
     bindM (if fld stmt ''init'' = JNull then ret RNull
            else tryCatch (trvsStmtDeclVariable V E (fld stmt ''init''))
                          (\<lambda>_. E (fld stmt ''init''))) (\<lambda>ini.
     bindM (trvsCallVisitor V ''stmtFor'' ''afterInit'' [RNode stmt, bef, ini]) (\<lambda>afterInit.
     bindM (emptyOr (fld stmt ''test'') E (fld stmt ''test'')) (\<lambda>test.
     bindM (trvsCallVisitor V ''stmtFor'' ''afterTest''
              [RNode stmt, bef, ini, afterInit, test]) (\<lambda>afterTest.
     bindM (emptyOr (fld stmt ''update'') E (fld stmt ''update'')) (\<lambda>update.
     bindM (trvsCallVisitor V ''stmtFor'' ''afterUpdated''
              [RNode stmt, bef, ini, afterInit, test, afterTest, update]) (\<lambda>afterUpdate.
     bindM (S (fld stmt ''body'')) (\<lambda>body.
     trvsCallVisitor V ''stmtFor'' ''after''
       [RNode stmt, bef, ini, afterInit, test, afterTest, update, afterUpdate, body])))))))))"

definition trvsStmtForIn ::
    "('s, 'r) visitor \<Rightarrow> ('s, 'r) walk \<Rightarrow> ('s, 'r) walk \<Rightarrow> ('s, 'r) walk" where
  "trvsStmtForIn V E S stmt =
     bindM (TRVS_GrammarCheck stmt [''left'', ''right'', ''body'']) (\<lambda>_.
     bindM (trvsCallVisitor V ''stmtForIn'' ''before'' [RNode stmt]) (\<lambda>bef.
     bindM (tryCatch (trvsStmtDeclVariable V E (fld stmt ''left''))
                     (\<lambda>_. E (fld stmt ''left''))) (\<lambda>left.
     bindM (trvsCallVisitor V ''stmtForIn'' ''afterLeft'' [RNode stmt, bef, left]) (\<lambda>afterLeft.
     bindM (E (fld stmt ''right'')) (\<lambda>right.
     bindM (trvsCallVisitor V ''stmtForIn'' ''afterRight''
              [RNode stmt, bef, left, afterLeft, right]) (\<lambda>afterRight.
     bindM (S (fld stmt ''body'')) (\<lambda>body.
     trvsCallVisitor V ''stmtForIn'' ''after''
       [RNode stmt, bef, left, afterLeft, right, body])))))))"

definition trvsStmtDebugger :: "('s, 'r) visitor \<Rightarrow> ('s, 'r) walk" where
  "trvsStmtDebugger V stmt =
     bindM (TRVS_GrammarCheckCond (us_isObject stmt)) (\<lambda>_.
     trvsCallVisitor V ''stmtDebugger'' ''single'' [RNode stmt])"

definition trvsStmtDeclFunction ::
    "('s, 'r) visitor \<Rightarrow> ('s, 'r) walk \<Rightarrow> ('s, 'r) walk \<Rightarrow> ('s, 'r) walk" where
  "trvsStmtDeclFunction V E S stmt =
     bindM (TRVS_GrammarCheckCond (us_isObject stmt)) (\<lambda>_.
     bindM (trvsCallVisitor V ''stmtDeclFunction'' ''before'' [RNode stmt]) (\<lambda>bef.
     trvsFunction V E S stmt ''stmtDeclFunction'' bef))"

text \<open>The table of statement kinds.\<close>

definition stmtsMap :: "('s, 'r) visitor \<Rightarrow> ('s, 'r) walk \<Rightarrow> ('s, 'r) walk \<Rightarrow>
    (string \<times> ('s, 'r) walk) list" where
  "stmtsMap V E S =
     [(''EmptyStatement'', trvsStmtEmpty V),
      (''BlockStatement'', trvsStmtBlock V S),
      (''ExpressionStatement'', trvsStmtExpr V E),
      (''IfStatement'', trvsStmtIf V E S),
      (''LabeledStatement'', trvsStmtLabeled V S),
      (''BreakStatement'', trvsStmtBreak V),
      (''ContinueStatement'', trvsStmtContinue V),
      (''SwitchStatement'', trvsStmtSwitch V E S),
      (''ReturnStatement'', trvsStmtReturn V E),
      (''ThrowStatement'', trvsStmtThrow V E),
      (''TryStatement'', trvsStmtTry V E S),
      (''WhileStatement'', trvsStmtWhile V E S),
      (''DoWhileStatement'', trvsStmtDoWhile V E S),
      (''ForStatement'', trvsStmtFor V E S),
      (''ForInStatement'', trvsStmtForIn V E S),
      (''DebuggerStatement'', trvsStmtDebugger V),
      (''FunctionDeclaration'', trvsStmtDeclFunction V E S),
      (''VariableDeclaration'', trvsStmtDeclVariable V E)]"

section \<open>Dispatch and the recursion\<close>

text \<open>One call of a dispatcher: look the handler of \<open>node.type\<close> up and apply it.\<close>

definition trvsDispatch :: "(string \<times> ('s, 'r) walk) list \<Rightarrow> ('s, 'r) walk" where
  "trvsDispatch table node =
     bindM (getp node ''type'') (\<lambda>ty.
     bindM (TRVS_Get table ty) (\<lambda>func. func node))"

definition below :: "jsval \<Rightarrow> ('s, 'r) walk \<Rightarrow> ('s, 'r) walk" where
  "below e W v = (if vsize v < vsize e then W v else throw RecursionGuard)"

lemma below_cong [fundef_cong]:
  "e = e' \<Longrightarrow> (\<And>v. vsize v < vsize e' \<Longrightarrow> W v = W' v) \<Longrightarrow> below e W = below e' W'"
  by (auto simp: below_def fun_eq_iff)

function trvsCallExpr :: "('s, 'r) visitor \<Rightarrow> ('s, 'r) walk"
  and trvsCallStmt :: "('s, 'r) visitor \<Rightarrow> ('s, 'r) walk" where
  "trvsCallExpr V expr =
     trvsDispatch (exprsMap V (below expr (trvsCallExpr V)) (below expr (trvsCallStmt V))) expr"
| "trvsCallStmt V stmt =
     trvsDispatch (stmtsMap V (below stmt (trvsCallExpr V)) (below stmt (trvsCallStmt V))) stmt"
  by pat_completeness auto
termination
  by (relation "measure (case_sum (\<lambda>(V, e). vsize e) (\<lambda>(V, e). vsize e))") auto

declare trvsCallExpr.simps [simp del] trvsCallStmt.simps [simp del]

text \<open>The program, whose \<open>before\<close> handler is called without the node, and any node.\<close>

definition trvsProgram :: "('s, 'r) visitor \<Rightarrow> ('s, 'r) walk" where
  "trvsProgram V ast =
     bindM (TRVS_GrammarCheck ast [''body'']) (\<lambda>_.
     bindM (trvsCallVisitor V ''program'' ''before'' []) (\<lambda>bef.
     bindM (trvsStmts (trvsCallStmt V) (fld ast ''body'')) (\<lambda>stmts.
     trvsCallVisitor V ''program'' ''after'' [RNode ast, bef, stmts])))"

definition nodeTypes :: "('s, 'r) visitor \<Rightarrow> ('s, 'r) walk \<Rightarrow> ('s, 'r) walk \<Rightarrow>
    (string \<times> ('s, 'r) walk) list" where
  "nodeTypes V E S =
     [(''VariableDeclarator'', trvsVariableDeclarator V E),
      (''Property'', trvsProperty V E)] @ stmtsMap V E S @ exprsMap V E S @
     [(''Program'', trvsProgram V)]"

definition trvsUnknown :: "('s, 'r) visitor \<Rightarrow> ('s, 'r) walk" where
  "trvsUnknown V node = trvsDispatch (nodeTypes V (trvsCallExpr V) (trvsCallStmt V)) node"

end
