(* ===== verification/Ast_Traverse_Facts.thy ===== *)
theory Ast_Traverse_Facts
  imports Ast_Traverse
begin

text \<open>
  Facts about the traversal for every visitor and every value: the recursion equations the
  code is written with, the errors of the grammar checks, and the agreement of
  \<open>trvsUnknown\<close> with the two dispatchers.
\<close>

section \<open>Recursive calls descend\<close>

text \<open>
  Each \<open>trvs...\<close> function, given a node no larger than \<open>e\<close>, calls \<open>E\<close> and \<open>S\<close> only at values
  smaller than \<open>e\<close>: restricting them with \<open>below e\<close> changes nothing. Where the node is not an
  object the function's own check has thrown before any such call.
\<close>

named_theorems walk_below \<open>the restriction to smaller values can be dropped\<close>

lemma below_fld [walk_below]:
  "us_isObject v \<Longrightarrow> vsize v \<le> vsize e \<Longrightarrow> below e W (fld v k) = W (fld v k)"
  using vsize_fld [of v k] by (simp add: below_def)

lemma us_map_sub:
  assumes "vsize v \<le> vsize e" and "\<And>x. vsize x \<le> vsize e \<Longrightarrow> F x = F' x"
  shows "us_map F v = us_map F' v"
proof -
  have "mapM F (us_elems v) = mapM F' (us_elems v)"
    using assms by (intro mapM_cong) (auto dest!: vsize_us_elems)
  then show ?thesis by (simp add: us_map_def)
qed

lemma us_map_below [walk_below]:
  assumes "us_isObject v" and "vsize v \<le> vsize e"
  shows "us_map (below e W) (fld v k) = us_map W (fld v k)"
proof -
  have "mapM (below e W) (us_elems (fld v k)) = mapM W (us_elems (fld v k))"
    using assms vsize_fld [of v k]
    by (intro mapM_cong) (auto simp: below_def dest!: vsize_us_elems)
  then show ?thesis by (simp add: us_map_def)
qed

lemma vsize_fld_trans [walk_below]: "vsize v \<le> vsize e \<Longrightarrow> vsize (fld v k) \<le> vsize e"
  using vsize_fld_le order_trans by blast

lemma emptyOr_cong: "W v = W' v \<Longrightarrow> emptyOr c W v = emptyOr c W' v"
  by (simp add: emptyOr_def)

lemma GrammarCheck_nonobject:
  "\<not> us_isObject e \<Longrightarrow> k \<noteq> ''length'' \<Longrightarrow>
   TRVS_GrammarCheck e (k # ks) = throw ASTTraverseGrammarException"
  by (auto simp: TRVS_GrammarCheck_def dest: us_has_isObject)

lemma GrammarCheckCond_False: "TRVS_GrammarCheckCond False = throw (ReferenceError ''msg'')"
  by (simp add: TRVS_GrammarCheckCond_def)

lemmas walk_checks = GrammarCheck_nonobject GrammarCheckCond_False emptyOr_def

lemma trvsStmts_below [walk_below]:
  "us_isObject v \<Longrightarrow> vsize v \<le> vsize e \<Longrightarrow> trvsStmts (below e S) (fld v k) = trvsStmts S (fld v k)"
  by (simp add: trvsStmts_def walk_below)

lemma trvsExprs_below [walk_below]:
  "us_isObject v \<Longrightarrow> vsize v \<le> vsize e \<Longrightarrow> trvsExprs (below e E) (fld v k) = trvsExprs E (fld v k)"
  by (simp add: trvsExprs_def walk_below)

lemma trvsStmtBlock_below [walk_below]:
  "vsize v \<le> vsize e \<Longrightarrow> trvsStmtBlock V (below e S) v = trvsStmtBlock V S v"
  by (cases "us_isObject v") (simp_all add: trvsStmtBlock_def walk_checks walk_below)

lemma trvsProperty_below [walk_below]:
  "vsize v \<le> vsize e \<Longrightarrow> trvsProperty V (below e E) v = trvsProperty V E v"
  by (cases "us_isObject v") (simp_all add: trvsProperty_def walk_checks walk_below)

lemma trvsProperties_below [walk_below]:
  "vsize v \<le> vsize e \<Longrightarrow> trvsProperties V (below e E) v = trvsProperties V E v"
  by (simp add: trvsProperties_def us_map_sub [OF _ trvsProperty_below])

lemma trvsCatchClause_below [walk_below]:
  "vsize v \<le> vsize e \<Longrightarrow> trvsCatchClause V (below e E) (below e S) v = trvsCatchClause V E S v"
  by (cases "us_isObject v") (simp_all add: trvsCatchClause_def walk_checks walk_below)

lemma trvsSwitchCase_below [walk_below]:
  "vsize v \<le> vsize e \<Longrightarrow> trvsSwitchCase V (below e E) (below e S) v = trvsSwitchCase V E S v"
  by (cases "us_isObject v") (simp_all add: trvsSwitchCase_def walk_checks walk_below)

lemma trvsSwitchCases_below [walk_below]:
  "vsize v \<le> vsize e \<Longrightarrow> trvsSwitchCases V (below e E) (below e S) v = trvsSwitchCases V E S v"
  by (simp add: trvsSwitchCases_def us_map_sub [OF _ trvsSwitchCase_below])

lemma trvsVariableDeclarator_below [walk_below]:
  "vsize v \<le> vsize e \<Longrightarrow> trvsVariableDeclarator V (below e E) v = trvsVariableDeclarator V E v"
  by (cases "us_isObject v") (simp_all add: trvsVariableDeclarator_def walk_checks walk_below)

lemma trvsVariableDeclarators_below [walk_below]:
  "vsize v \<le> vsize e \<Longrightarrow> trvsVariableDeclarators V (below e E) v = trvsVariableDeclarators V E v"
  by (simp add: trvsVariableDeclarators_def us_map_sub [OF _ trvsVariableDeclarator_below])

lemma trvsFunction_below [walk_below]:
  "vsize v \<le> vsize e \<Longrightarrow>
   trvsFunction V (below e E) (below e S) v name bef = trvsFunction V E S v name bef"
  by (cases "us_isObject v") (simp_all add: trvsFunction_def walk_checks walk_below)

lemma trvsStmtDeclVariable_below [walk_below]:
  "vsize v \<le> vsize e \<Longrightarrow> trvsStmtDeclVariable V (below e E) v = trvsStmtDeclVariable V E v"
  by (simp add: trvsStmtDeclVariable_def walk_below)

text \<open>The same for the entries of the two tables, in one bundle of definitions.\<close>

lemmas trvsExpr_defs = trvsExprArray_def trvsExprObject_def trvsExprFunction_def
  trvsExprSequence_def trvsGenExprUnaryExpr_def trvsExprUnary_def trvsExprUpdate_def
  trvsGenExprBinaryLeftRight_def trvsExprBinary_def trvsExprAssignment_def
  trvsExprLogical_def trvsExprConditional_def tvrsGenExprCalleeArgs_def trvsExprNew_def
  trvsExprCall_def trvsExprMember_def trvsStmtMetaQuazi_def trvsStmtMetaExec_def

lemmas trvsStmt_defs = trvsStmtExpr_def trvsStmtIf_def trvsStmtLabeled_def
  trvsStmtSwitch_def trvsStmtReturn_def trvsStmtThrow_def trvsStmtTry_def
  trvsGenStmtWhile_def trvsStmtWhile_def trvsStmtDoWhile_def trvsStmtFor_def
  trvsStmtForIn_def trvsStmtDeclFunction_def

lemma exprsMap_below:
  "map (\<lambda>(ty, f). (ty, f e)) (exprsMap V (below e E) (below e S)) =
   map (\<lambda>(ty, f). (ty, f e)) (exprsMap V E S)"
  by (cases "us_isObject e")
     (simp_all add: exprsMap_def trvsExpr_defs walk_checks walk_below)

lemma stmtsMap_below:
  "map (\<lambda>(ty, f). (ty, f e)) (stmtsMap V (below e E) (below e S)) =
   map (\<lambda>(ty, f). (ty, f e)) (stmtsMap V E S)"
  by (cases "us_isObject e")
     (simp_all add: stmtsMap_def trvsStmt_defs walk_checks walk_below)

lemma map_of_apply: "map_of (map (\<lambda>(k, f). (k, f e)) t) k = map_option (\<lambda>f. f e) (map_of t k)"
  by (induction t) auto

lemma trvsDispatch_cong:
  assumes "map (\<lambda>(ty, f). (ty, f e)) t = map (\<lambda>(ty, f). (ty, f e)) t'"
  shows "trvsDispatch t e = trvsDispatch t' e"
proof -
  have "map_option (\<lambda>f. f e) (map_of t k) = map_option (\<lambda>f. f e) (map_of t' k)" for k
    using arg_cong [OF assms, of "\<lambda>m. map_of m k"] by (simp add: map_of_apply)
  then have "bindM (TRVS_Get t ty) (\<lambda>f. f e) = bindM (TRVS_Get t' ty) (\<lambda>f. f e)" for ty
    by (auto simp: TRVS_Get_def split: option.splits) (metis option.simps)+
  then show ?thesis by (simp add: trvsDispatch_def)
qed

lemma trvsCallExpr_eq:
  "trvsCallExpr V expr = trvsDispatch (exprsMap V (trvsCallExpr V) (trvsCallStmt V)) expr"
  by (subst trvsCallExpr.simps) (rule trvsDispatch_cong [OF exprsMap_below])

lemma trvsCallStmt_eq:
  "trvsCallStmt V stmt = trvsDispatch (stmtsMap V (trvsCallExpr V) (trvsCallStmt V)) stmt"
  by (subst trvsCallStmt.simps) (rule trvsDispatch_cong [OF stmtsMap_below])

section \<open>Properties\<close>

text \<open>
  C8: The recursion of the traversal is total: for every visitor and every value the dispatchers
  satisfy the equations the code is written with, with no restriction on the recursive calls.
\<close>

theorem traversal_recursion:
  "trvsCallExpr V expr = trvsDispatch (exprsMap V (trvsCallExpr V) (trvsCallStmt V)) expr \<and>
   trvsCallStmt V stmt = trvsDispatch (stmtsMap V (trvsCallExpr V) (trvsCallStmt V)) stmt"
  by (simp only: trvsCallExpr_eq [symmetric] trvsCallStmt_eq [symmetric])

text \<open>
  A value whose type is no kind of expression is rejected before the visitor is called: with
  a TypeError when it is null or undefined, with the grammar exception otherwise, and in both
  cases the visitor's state is untouched.
\<close>

theorem unknown_kind_rejected:
  assumes "map_of (exprsMap V (trvsCallExpr V) (trvsCallStmt V)) (to_str (fld v ''type'')) = None"
  shows "trvsCallExpr V v s =
    (Inl (if v = JUndef \<or> v = JNull then TypeError else ASTTraverseGrammarException), s)"
  using assms
  by (simp add: trvsCallExpr_eq [of V v] trvsDispatch_def getp_def TRVS_Get_def run_simps)

lemma unknown_kind_rejected_witness:
  "trvsCallExpr (Map.empty :: (nat, unit) visitor) (JObj [(''type'', JStr ''ArrowFunctionExpression'')]) 3 =
     (Inl ASTTraverseGrammarException, 3)"
  using unknown_kind_rejected [of "Map.empty :: (nat, unit) visitor"
      "JObj [(''type'', JStr ''ArrowFunctionExpression'')]" 3]
  by (simp add: exprsMap_def js_simps)

text \<open>
  A list-valued property that is not an array does not raise the grammar exception that the
  check names: building the exception already fails with a ReferenceError, after the \<open>before\<close>
  call has run.
\<close>

theorem program_body_not_array:
  assumes "us_has ast ''body''" and "\<not> us_isArray (fld ast ''body'')"
    and "trvsCallVisitor V ''program'' ''before'' [] s = (Inr r, s')"
  shows "trvsProgram V ast s = (Inl (ReferenceError ''msg''), s')"
  using assms
  by (simp add: trvsProgram_def TRVS_GrammarCheck_def trvsStmts_def TRVS_GrammarCheckCond_def
      bindM_def throw_app)

lemma program_body_not_array_witness:
  "trvsProgram (Map.empty :: (nat, unit) visitor) (JObj [(''body'', JObj [])]) 3 =
     (Inl (ReferenceError ''msg''), 3)"
  using program_body_not_array [of "JObj [(''body'', JObj [])]" "Map.empty :: (nat, unit) visitor" 3 RUndef 3]
  by (simp add: js_simps us_isArray_def trvsCallVisitor_def run_simps)

text \<open>
  The guard of a catch clause is never visited, because the code tests the property \<open>test\<close>
  that a catch clause does not have: what would visit it can be anything.
\<close>

theorem catch_guard_unvisited:
  assumes "us_isEmpty (fld v ''test'')"
  shows "trvsCatchClause V E S v = trvsCatchClause V E' S v"
  using assms by (simp add: trvsCatchClause_def emptyOr_def)

lemma catch_guard_unvisited_witness:
  "trvsCatchClause (Map.empty :: (nat, unit) visitor) (\<lambda>_. throw TypeError) (\<lambda>_. ret RNull)
      (JObj [(''param'', JNull), (''guard'', JObj [(''type'', JStr ''Literal'')]), (''body'', JNull)]) =
   trvsCatchClause Map.empty (\<lambda>_. ret RNull) (\<lambda>_. ret RNull)
      (JObj [(''param'', JNull), (''guard'', JObj [(''type'', JStr ''Literal'')]), (''body'', JNull)])"
  by (rule catch_guard_unvisited) (simp add: js_simps)

end
