(* ===== verification/Ast_Syntax.thy ===== *)
theory Ast_Syntax
  imports Ast_Traverse_Facts
begin

text \<open>
  The abstract syntax of the programs the traversal supports, its encoding as the objects
  \<open>Reflect.parse\<close> builds (\<open>js/src/jsreflect.cpp\<close>; samples stand in
  \<open>Ast/asttreeviewwithoptions.js\<close>), and the visit of a syntax tree by structural recursion.

  \<open>traverse_expr\<close> and \<open>traverse_stmt\<close> refine the code's traversal of an encoded tree, with its
  grammar checks, tables and exception handlers, to that visit, for every visitor. The visit
  keeps the code's exception handlers only where a visitor's own exception could reach one.

  Functions have block bodies and arrays have no holes: \<open>Ast_Traverse_Facts\<close> states what the
  traversal does on the others.
\<close>

section \<open>Syntax trees\<close>

datatype lit = LStr string | LBool bool | LNull | LNum int | LRegExp string

datatype pkey = KeyLiteral lit | KeyIdentifier string

datatype expr =
    Literal lit
  | is_Identifier: Identifier string
  | ThisExpression
  | ArrayExpression "expr list"
  | ObjectExpression "property list"
  | FunctionExpression "string option" "string list" "stmt list"
  | SequenceExpression "expr list"
  | UnaryExpression string bool expr
  | BinaryExpression string expr expr
  | AssignmentExpression string expr expr
  | UpdateExpression string bool expr
  | LogicalExpression string expr expr
  | ConditionalExpression (ctest: expr) (cons: expr) (altn: expr)
  | NewExpression expr "expr list"
  | CallExpression expr "expr list"
  | MemberExpression expr expr bool
  | MetaQuaziStatement "stmt list"
  | MetaExecStatement stmt
and property = Property pkey expr
and declarator = VariableDeclarator string "expr option"
and switchcase = SwitchCase "expr option" "stmt list"
and catchclause = CatchClause string "expr option" "stmt list"
and forinit = InitDecl "declarator list" | InitExpr expr
and stmt =
    EmptyStatement
  | BlockStatement "stmt list"
  | ExpressionStatement expr
  | IfStatement expr stmt "stmt option"
  | LabeledStatement string stmt
  | BreakStatement "string option"
  | ContinueStatement "string option"
  | SwitchStatement expr "switchcase list"
  | ReturnStatement "expr option"
  | ThrowStatement expr
  | TryStatement "stmt list" "catchclause option" "stmt list option"
  | WhileStatement expr stmt
  | DoWhileStatement expr stmt
  | ForStatement "forinit option" "expr option" "expr option" stmt
  | ForInStatement forinit expr stmt
  | DebuggerStatement
  | FunctionDeclaration string "string list" "stmt list"
  | VariableDeclaration "declarator list"

section \<open>Encoding as parser objects\<close>

definition node :: "string \<Rightarrow> (string \<times> jsval) list \<Rightarrow> jsval" where
  "node ty fs = JObj ((''loc'', JNull) # (''type'', JStr ty) # fs)"

definition enc_opt :: "jsval option \<Rightarrow> jsval" where
  "enc_opt v = (case v of None \<Rightarrow> JNull | Some x \<Rightarrow> x)"

definition enc_ident :: "string \<Rightarrow> jsval" where
  "enc_ident n = node ''Identifier'' [(''name'', JStr n)]"

definition enc_block :: "jsval list \<Rightarrow> jsval" where
  "enc_block vs = node ''BlockStatement'' [(''body'', JArr vs)]"

definition enc_decls :: "jsval list \<Rightarrow> jsval" where
  "enc_decls ds = node ''VariableDeclaration'' [(''kind'', JStr ''var''), (''declarations'', JArr ds)]"

definition enc_function :: "string \<Rightarrow> jsval \<Rightarrow> string list \<Rightarrow> jsval list \<Rightarrow> jsval" where
  "enc_function ty idv ps body = node ty
     [(''id'', idv), (''params'', JArr (map enc_ident ps)), (''defaults'', JArr []),
      (''body'', enc_block body), (''rest'', JNull), (''generator'', JBool False),
      (''expression'', JBool False)]"

primrec enc_lit :: "lit \<Rightarrow> jsval" where
  "enc_lit (LStr s) = JStr s"
| "enc_lit (LBool b) = JBool b"
| "enc_lit LNull = JNull"
| "enc_lit (LNum n) = JNum n"
| "enc_lit (LRegExp s) = JRegExp s"

definition enc_literal :: "lit \<Rightarrow> jsval" where
  "enc_literal l = node ''Literal'' [(''value'', enc_lit l)]"

primrec enc_key :: "pkey \<Rightarrow> jsval" where
  "enc_key (KeyLiteral l) = enc_literal l"
| "enc_key (KeyIdentifier n) = enc_ident n"

primrec enc_expr :: "expr \<Rightarrow> jsval"
  and enc_property :: "property \<Rightarrow> jsval"
  and enc_declarator :: "declarator \<Rightarrow> jsval"
  and enc_case :: "switchcase \<Rightarrow> jsval"
  and enc_catch :: "catchclause \<Rightarrow> jsval"
  and enc_init :: "forinit \<Rightarrow> jsval"
  and enc_stmt :: "stmt \<Rightarrow> jsval" where
  "enc_expr (Literal l) = enc_literal l"
| "enc_expr (Identifier n) = enc_ident n"
| "enc_expr ThisExpression = node ''ThisExpression'' []"
| "enc_expr (ArrayExpression es) = node ''ArrayExpression'' [(''elements'', JArr (map enc_expr es))]"
| "enc_expr (ObjectExpression ps) =
     node ''ObjectExpression'' [(''properties'', JArr (map enc_property ps))]"
| "enc_expr (FunctionExpression n ps body) =
     enc_function ''FunctionExpression'' (enc_opt (map_option enc_ident n)) ps (map enc_stmt body)"
| "enc_expr (SequenceExpression es) =
     node ''SequenceExpression'' [(''expressions'', JArr (map enc_expr es))]"
| "enc_expr (UnaryExpression op pre e) = node ''UnaryExpression''
     [(''operator'', JStr op), (''argument'', enc_expr e), (''prefix'', JBool pre)]"
| "enc_expr (BinaryExpression op l r) = node ''BinaryExpression''
     [(''operator'', JStr op), (''left'', enc_expr l), (''right'', enc_expr r)]"
| "enc_expr (AssignmentExpression op l r) = node ''AssignmentExpression''
     [(''operator'', JStr op), (''left'', enc_expr l), (''right'', enc_expr r)]"
| "enc_expr (UpdateExpression op pre e) = node ''UpdateExpression''
     [(''operator'', JStr op), (''argument'', enc_expr e), (''prefix'', JBool pre)]"
| "enc_expr (LogicalExpression op l r) = node ''LogicalExpression''
     [(''operator'', JStr op), (''left'', enc_expr l), (''right'', enc_expr r)]"
| "enc_expr (ConditionalExpression t c a) = node ''ConditionalExpression''
     [(''test'', enc_expr t), (''consequent'', enc_expr c), (''alternate'', enc_expr a)]"
| "enc_expr (NewExpression f es) = node ''NewExpression''
     [(''callee'', enc_expr f), (''arguments'', JArr (map enc_expr es))]"
| "enc_expr (CallExpression f es) = node ''CallExpression''
     [(''callee'', enc_expr f), (''arguments'', JArr (map enc_expr es))]"
| "enc_expr (MemberExpression e p computed) = node ''MemberExpression''
     [(''object'', enc_expr e), (''property'', enc_expr p), (''computed'', JBool computed)]"
| "enc_expr (MetaQuaziStatement ss) = node ''MetaQuaziStatement'' [(''body'', JArr (map enc_stmt ss))]"
| "enc_expr (MetaExecStatement s) = node ''MetaExecStatement'' [(''body'', enc_stmt s)]"
| "enc_property (Property k e) = node ''Property''
     [(''key'', enc_key k), (''value'', enc_expr e), (''kind'', JStr ''init'')]"
| "enc_declarator (VariableDeclarator n e) = node ''VariableDeclarator''
     [(''id'', enc_ident n), (''init'', enc_opt (map_option enc_expr e))]"
| "enc_case (SwitchCase t ss) = node ''SwitchCase''
     [(''test'', enc_opt (map_option enc_expr t)), (''consequent'', JArr (map enc_stmt ss))]"
| "enc_catch (CatchClause p g ss) = node ''CatchClause''
     [(''param'', enc_ident p), (''guard'', enc_opt (map_option enc_expr g)),
      (''body'', enc_block (map enc_stmt ss))]"
| "enc_init (InitDecl ds) = enc_decls (map enc_declarator ds)"
| "enc_init (InitExpr e) = enc_expr e"
| "enc_stmt EmptyStatement = node ''EmptyStatement'' []"
| "enc_stmt (BlockStatement ss) = enc_block (map enc_stmt ss)"
| "enc_stmt (ExpressionStatement e) = node ''ExpressionStatement'' [(''expression'', enc_expr e)]"
| "enc_stmt (IfStatement t c a) = node ''IfStatement''
     [(''test'', enc_expr t), (''consequent'', enc_stmt c),
      (''alternate'', enc_opt (map_option enc_stmt a))]"
| "enc_stmt (LabeledStatement l s) = node ''LabeledStatement''
     [(''label'', enc_ident l), (''body'', enc_stmt s)]"
| "enc_stmt (BreakStatement l) = node ''BreakStatement'' [(''label'', enc_opt (map_option enc_ident l))]"
| "enc_stmt (ContinueStatement l) =
     node ''ContinueStatement'' [(''label'', enc_opt (map_option enc_ident l))]"
| "enc_stmt (SwitchStatement e cs) = node ''SwitchStatement''
     [(''discriminant'', enc_expr e), (''cases'', JArr (map enc_case cs)),
      (''lexical'', JBool False)]"
| "enc_stmt (ReturnStatement e) =
     node ''ReturnStatement'' [(''argument'', enc_opt (map_option enc_expr e))]"
| "enc_stmt (ThrowStatement e) = node ''ThrowStatement'' [(''argument'', enc_expr e)]"
| "enc_stmt (TryStatement b h f) = node ''TryStatement''
     [(''block'', enc_block (map enc_stmt b)), (''guardedHandlers'', JArr []),
      (''handler'', enc_opt (map_option enc_catch h)),
      (''finalizer'', enc_opt (map_option enc_block (map_option (map enc_stmt) f)))]"
| "enc_stmt (WhileStatement e s) =
     node ''WhileStatement'' [(''test'', enc_expr e), (''body'', enc_stmt s)]"
| "enc_stmt (DoWhileStatement e s) =
     node ''DoWhileStatement'' [(''test'', enc_expr e), (''body'', enc_stmt s)]"
| "enc_stmt (ForStatement i t u s) = node ''ForStatement''
     [(''init'', enc_opt (map_option enc_init i)), (''test'', enc_opt (map_option enc_expr t)),
      (''update'', enc_opt (map_option enc_expr u)), (''body'', enc_stmt s)]"
| "enc_stmt (ForInStatement i e s) = node ''ForInStatement''
     [(''left'', enc_init i), (''right'', enc_expr e), (''body'', enc_stmt s),
      (''each'', JBool False)]"
| "enc_stmt DebuggerStatement = node ''DebuggerStatement'' []"
| "enc_stmt (FunctionDeclaration n ps body) =
     enc_function ''FunctionDeclaration'' (enc_ident n) ps (map enc_stmt body)"
| "enc_stmt (VariableDeclaration ds) = enc_decls (map enc_declarator ds)"

definition enc_program :: "stmt list \<Rightarrow> jsval" where
  "enc_program ss = node ''Program'' [(''body'', JArr (map enc_stmt ss))]"

end
