(* ===== verification/Ast_Visit.thy ===== *)
theory Ast_Visit
  imports Ast_Syntax
begin

text \<open>
  The visit of a syntax tree by structural recursion, and the refinement of the code's
  traversal to it: \<open>traverse_program\<close> and, for single nodes, \<open>traverse_unknown\<close>.
\<close>

section \<open>The visit\<close>

abbreviation call :: "('s, 'r) visitor \<Rightarrow> string \<Rightarrow> string \<Rightarrow> 'r rv list \<Rightarrow> ('s, 'r rv) jsm" where
  "call \<equiv> trvsCallVisitor"

text \<open>A list of children, an optional child, and a first attempt whose exceptions are replaced.\<close>

definition visits :: "('s, 'r rv) jsm list \<Rightarrow> ('s, 'r rv) jsm" where
  "visits ms = bindM (seqM ms) (\<lambda>rs. ret (RList rs))"

definition visit_opt :: "('s, 'r rv) jsm option \<Rightarrow> ('s, 'r rv) jsm" where
  "visit_opt m = (case m of None \<Rightarrow> ret RNull | Some m \<Rightarrow> m)"

definition attempt :: "('s, 'r rv) jsm \<Rightarrow> ('s, 'r rv) jsm" where
  "attempt m = tryCatch m (\<lambda>_. throw ASTTraverseGrammarException)"

definition visit_lit :: "('s, 'r) visitor \<Rightarrow> lit \<Rightarrow> ('s, 'r rv) jsm" where
  "visit_lit V l = call V ''literal'' ''single'' [RNode (enc_literal l), RNode (enc_lit l)]"

definition visit_ident :: "('s, 'r) visitor \<Rightarrow> string \<Rightarrow> ('s, 'r rv) jsm" where
  "visit_ident V n = call V ''identifier'' ''single'' [RNode (enc_ident n), RNode (JStr n)]"

definition visit_pattern :: "('s, 'r) visitor \<Rightarrow> string \<Rightarrow> ('s, 'r rv) jsm" where
  "visit_pattern V n = call V ''pattern'' ''single''
     [RNode (enc_ident n), RNode (JStr ''Identifier''), RNode (JStr n)]"

primrec visit_key :: "('s, 'r) visitor \<Rightarrow> pkey \<Rightarrow> ('s, 'r rv) jsm" where
  "visit_key V (KeyLiteral l) = attempt (visit_lit V l)"
| "visit_key V (KeyIdentifier n) = visit_ident V n"

definition visit_block ::
    "('s, 'r) visitor \<Rightarrow> jsval list \<Rightarrow> ('s, 'r rv) jsm list \<Rightarrow> ('s, 'r rv) jsm" where
  "visit_block V vs ms =
     bindM (call V ''stmtBlock'' ''before'' [RNode (enc_block vs)]) (\<lambda>bef.
     bindM (visits ms) (\<lambda>ss.
     call V ''stmtBlock'' ''after'' [RNode (enc_block vs), bef, ss]))"

definition visit_decls ::
    "('s, 'r) visitor \<Rightarrow> jsval list \<Rightarrow> ('s, 'r rv) jsm list \<Rightarrow> ('s, 'r rv) jsm" where
  "visit_decls V vs ms =
     bindM (call V ''stmtDeclVariable'' ''before'' [RNode (enc_decls vs)]) (\<lambda>bef.
     bindM (visits ms) (\<lambda>ds.
     call V ''stmtDeclVariable'' ''after'' [RNode (enc_decls vs), bef, ds]))"

definition visit_function :: "('s, 'r) visitor \<Rightarrow> string \<Rightarrow> jsval \<Rightarrow> ('s, 'r rv) jsm \<Rightarrow> string list \<Rightarrow>
    jsval list \<Rightarrow> ('s, 'r rv) jsm list \<Rightarrow> ('s, 'r rv) jsm" where
  "visit_function V vname n idm ps vs ms =
     bindM (call V vname ''before'' [RNode n]) (\<lambda>bef.
     bindM idm (\<lambda>i.
     bindM (call V vname ''afterId'' [RNode n, bef, i]) (\<lambda>ai.
     bindM (visits (map (visit_pattern V) ps)) (\<lambda>p.
     bindM (call V vname ''afterParams'' [RNode n, bef, i, ai, p]) (\<lambda>ap.
     bindM (attempt (visit_block V vs ms)) (\<lambda>b.
     call V vname ''after'' [RNode n, bef, i, ai, p, ap, b]))))))"

text \<open>The shapes the generated handlers share: one child with an operator, two, a call.\<close>

definition visit_unary ::
    "('s, 'r) visitor \<Rightarrow> string \<Rightarrow> jsval \<Rightarrow> string \<Rightarrow> ('s, 'r rv) jsm \<Rightarrow> ('s, 'r rv) jsm" where
  "visit_unary V vname n op m =
     bindM (call V vname ''before'' [RNode n]) (\<lambda>bef.
     bindM m (\<lambda>arg.
     call V vname ''after'' [RNode n, bef, RNode (JStr op), arg]))"

definition visit_one :: "('s, 'r) visitor \<Rightarrow> string \<Rightarrow> jsval \<Rightarrow> ('s, 'r rv) jsm \<Rightarrow> ('s, 'r rv) jsm" where
  "visit_one V vname n m =
     bindM (call V vname ''before'' [RNode n]) (\<lambda>bef.
     bindM m (\<lambda>r.
     call V vname ''after'' [RNode n, bef, r]))"

definition visit_two :: "('s, 'r) visitor \<Rightarrow> string \<Rightarrow> string \<Rightarrow> jsval \<Rightarrow>
    ('s, 'r rv) jsm \<Rightarrow> ('s, 'r rv) jsm \<Rightarrow> ('s, 'r rv) jsm" where
  "visit_two V vname mid n m1 m2 =
     bindM (call V vname ''before'' [RNode n]) (\<lambda>bef.
     bindM m1 (\<lambda>a.
     bindM (call V vname mid [RNode n, bef, a]) (\<lambda>aa.
     bindM m2 (\<lambda>b.
     call V vname ''after'' [RNode n, bef, a, aa, b]))))"

definition visit_three :: "('s, 'r) visitor \<Rightarrow> string \<Rightarrow> string \<Rightarrow> string \<Rightarrow> jsval \<Rightarrow>
    ('s, 'r rv) jsm \<Rightarrow> ('s, 'r rv) jsm \<Rightarrow> ('s, 'r rv) jsm \<Rightarrow> ('s, 'r rv) jsm" where
  "visit_three V vname mid1 mid2 n m1 m2 m3 =
     bindM (call V vname ''before'' [RNode n]) (\<lambda>bef.
     bindM m1 (\<lambda>a.
     bindM (call V vname mid1 [RNode n, bef, a]) (\<lambda>aa.
     bindM m2 (\<lambda>b.
     bindM (call V vname mid2 [RNode n, bef, a, aa, b]) (\<lambda>ab.
     bindM m3 (\<lambda>c.
     call V vname ''after'' [RNode n, bef, a, aa, b, ab, c]))))))"

text \<open>The two loops over a left-hand side: \<open>for\<close>, and \<open>for in\<close>, whose third result is dropped.\<close>

definition visit_for :: "('s, 'r) visitor \<Rightarrow> jsval \<Rightarrow> ('s, 'r rv) jsm \<Rightarrow> ('s, 'r rv) jsm \<Rightarrow>
    ('s, 'r rv) jsm \<Rightarrow> ('s, 'r rv) jsm \<Rightarrow> ('s, 'r rv) jsm" where
  "visit_for V n mi mt mu mb =
     bindM (call V ''stmtFor'' ''before'' [RNode n]) (\<lambda>bef.
     bindM mi (\<lambda>i.
     bindM (call V ''stmtFor'' ''afterInit'' [RNode n, bef, i]) (\<lambda>ai.
     bindM mt (\<lambda>t.
     bindM (call V ''stmtFor'' ''afterTest'' [RNode n, bef, i, ai, t]) (\<lambda>at.
     bindM mu (\<lambda>u.
     bindM (call V ''stmtFor'' ''afterUpdated'' [RNode n, bef, i, ai, t, at, u]) (\<lambda>au.
     bindM mb (\<lambda>b.
     call V ''stmtFor'' ''after'' [RNode n, bef, i, ai, t, at, u, au, b]))))))))"

definition visit_forin :: "('s, 'r) visitor \<Rightarrow> jsval \<Rightarrow> ('s, 'r rv) jsm \<Rightarrow> ('s, 'r rv) jsm \<Rightarrow>
    ('s, 'r rv) jsm \<Rightarrow> ('s, 'r rv) jsm" where
  "visit_forin V n ml mr mb =
     bindM (call V ''stmtForIn'' ''before'' [RNode n]) (\<lambda>bef.
     bindM ml (\<lambda>l.
     bindM (call V ''stmtForIn'' ''afterLeft'' [RNode n, bef, l]) (\<lambda>al.
     bindM mr (\<lambda>r.
     bindM (call V ''stmtForIn'' ''afterRight'' [RNode n, bef, l, al, r]) (\<lambda>ar.
     bindM mb (\<lambda>b.
     call V ''stmtForIn'' ''after'' [RNode n, bef, l, al, r, b]))))))"

primrec visit_expr :: "('s, 'r) visitor \<Rightarrow> expr \<Rightarrow> ('s, 'r rv) jsm"
  and visit_property :: "('s, 'r) visitor \<Rightarrow> property \<Rightarrow> ('s, 'r rv) jsm"
  and visit_declarator :: "('s, 'r) visitor \<Rightarrow> declarator \<Rightarrow> ('s, 'r rv) jsm"
  and visit_case :: "('s, 'r) visitor \<Rightarrow> switchcase \<Rightarrow> ('s, 'r rv) jsm"
  and visit_catch :: "('s, 'r) visitor \<Rightarrow> catchclause \<Rightarrow> ('s, 'r rv) jsm"
  and visit_init :: "('s, 'r) visitor \<Rightarrow> forinit \<Rightarrow> ('s, 'r rv) jsm"
  and visit_stmt :: "('s, 'r) visitor \<Rightarrow> stmt \<Rightarrow> ('s, 'r rv) jsm" where
  "visit_expr V (Literal l) = visit_lit V l"
| "visit_expr V (Identifier n) = visit_ident V n"
| "visit_expr V ThisExpression =
     call V ''exprThis'' ''single'' [RNode (enc_expr ThisExpression)]"
| "visit_expr V (ArrayExpression es) =
     visit_one V ''exprArray'' (enc_expr (ArrayExpression es))
       (if es = [] then ret RNull else visits (map (visit_expr V) es))"
| "visit_expr V (ObjectExpression ps) =
     visit_one V ''exprObject'' (enc_expr (ObjectExpression ps)) (visits (map (visit_property V) ps))"
| "visit_expr V (FunctionExpression n ps body) =
     visit_function V ''exprFunction'' (enc_expr (FunctionExpression n ps body))
       (visit_opt (map_option (visit_ident V) n)) ps (map enc_stmt body) (map (visit_stmt V) body)"
| "visit_expr V (SequenceExpression es) =
     visit_one V ''exprSequence'' (enc_expr (SequenceExpression es)) (visits (map (visit_expr V) es))"
| "visit_expr V (UnaryExpression op pre e) =
     visit_unary V ''exprUnary'' (enc_expr (UnaryExpression op pre e)) op (visit_expr V e)"
| "visit_expr V (BinaryExpression op l r) =
     visit_two V ''exprBinary'' ''afterLeft'' (enc_expr (BinaryExpression op l r))
       (visit_expr V l) (visit_expr V r)"
| "visit_expr V (AssignmentExpression op l r) =
     visit_two V ''exprAssignment'' ''afterLeft'' (enc_expr (AssignmentExpression op l r))
       (visit_expr V l) (visit_expr V r)"
| "visit_expr V (UpdateExpression op pre e) =
     visit_unary V ''exprUpdate'' (enc_expr (UpdateExpression op pre e)) op (visit_expr V e)"
| "visit_expr V (LogicalExpression op l r) =
     visit_two V ''exprLogical'' ''afterLeft'' (enc_expr (LogicalExpression op l r))
       (visit_expr V l) (visit_expr V r)"
| "visit_expr V (ConditionalExpression t c a) =
     visit_three V ''exprConditional'' ''afterTest'' ''afterAlternate''
       (enc_expr (ConditionalExpression t c a)) (visit_expr V t) (visit_expr V a) (visit_expr V c)"
| "visit_expr V (NewExpression f es) =
     visit_two V ''exprNew'' ''afterCallee'' (enc_expr (NewExpression f es))
       (visit_expr V f) (visits (map (visit_expr V) es))"
| "visit_expr V (CallExpression f es) =
     visit_two V ''exprCall'' ''afterCallee'' (enc_expr (CallExpression f es))
       (visit_expr V f) (visits (map (visit_expr V) es))"
| "visit_expr V (MemberExpression e p computed) =
     visit_two V ''exprMember'' ''afterObject'' (enc_expr (MemberExpression e p computed))
       (visit_expr V e)
       (if is_Identifier p then tryCatch (visit_expr V p) (\<lambda>_. visit_expr V p) else visit_expr V p)"
| "visit_expr V (MetaQuaziStatement ss) =
     visit_one V ''exprMetaQuazi'' (enc_expr (MetaQuaziStatement ss)) (visits (map (visit_stmt V) ss))"
| "visit_expr V (MetaExecStatement s) =
     visit_one V ''exprMetaExec'' (enc_expr (MetaExecStatement s)) (visit_stmt V s)"
| "visit_property V (Property k e) =
     visit_two V ''property'' ''afterKey'' (enc_property (Property k e))
       (visit_key V k) (visit_expr V e)"
| "visit_declarator V (VariableDeclarator n e) =
     visit_two V ''variableDeclarator'' ''afterId'' (enc_declarator (VariableDeclarator n e))
       (visit_pattern V n) (visit_opt (map_option (visit_expr V) e))"
| "visit_case V (SwitchCase t ss) =
     visit_two V ''switchCase'' ''afterTest'' (enc_case (SwitchCase t ss))
       (visit_opt (map_option (visit_expr V) t)) (visits (map (visit_stmt V) ss))"
| "visit_catch V (CatchClause p g ss) =
     visit_three V ''catchClause'' ''afterPattern'' ''afterGuard'' (enc_catch (CatchClause p g ss))
       (visit_pattern V p) (ret RNull) (visit_block V (map enc_stmt ss) (map (visit_stmt V) ss))"
| "visit_init V (InitDecl ds) =
     attempt (visit_decls V (map enc_declarator ds) (map (visit_declarator V) ds))"
| "visit_init V (InitExpr e) = visit_expr V e"
| "visit_stmt V EmptyStatement =
     call V ''stmtEmpty'' ''single'' [RNode (enc_stmt EmptyStatement)]"
| "visit_stmt V (BlockStatement ss) =
     visit_block V (map enc_stmt ss) (map (visit_stmt V) ss)"
| "visit_stmt V (ExpressionStatement e) =
     visit_one V ''stmtExpr'' (enc_stmt (ExpressionStatement e)) (visit_expr V e)"
| "visit_stmt V (IfStatement t c a) =
     visit_three V ''stmtIf'' ''afterTest'' ''afterCons'' (enc_stmt (IfStatement t c a))
       (visit_expr V t) (visit_stmt V c) (visit_opt (map_option (visit_stmt V) a))"
| "visit_stmt V (LabeledStatement l s) =
     visit_two V ''stmtLabeled'' ''afterLabel'' (enc_stmt (LabeledStatement l s))
       (visit_ident V l) (visit_stmt V s)"
| "visit_stmt V (BreakStatement l) =
     visit_one V ''stmtBreak'' (enc_stmt (BreakStatement l)) (visit_opt (map_option (visit_ident V) l))"
| "visit_stmt V (ContinueStatement l) =
     visit_one V ''stmtContinue'' (enc_stmt (ContinueStatement l))
       (visit_opt (map_option (visit_ident V) l))"
| "visit_stmt V (SwitchStatement e cs) =
     visit_two V ''stmtSwitch'' ''afterDiscr'' (enc_stmt (SwitchStatement e cs))
       (visit_expr V e) (visits (map (visit_case V) cs))"
| "visit_stmt V (ReturnStatement e) =
     visit_one V ''stmtReturn'' (enc_stmt (ReturnStatement e)) (visit_opt (map_option (visit_expr V) e))"
| "visit_stmt V (ThrowStatement e) =
     visit_one V ''stmtThrow'' (enc_stmt (ThrowStatement e)) (visit_expr V e)"
| "visit_stmt V (TryStatement b h f) =
     visit_three V ''stmtTry'' ''afterBlock'' ''afterHandler'' (enc_stmt (TryStatement b h f))
       (visit_block V (map enc_stmt b) (map (visit_stmt V) b))
       (visit_opt (map_option (visit_catch V) h))
       (visit_opt (map_option (\<lambda>ms. visit_block V (case f of None \<Rightarrow> [] | Some ss \<Rightarrow> map enc_stmt ss) ms)
                     (map_option (map (visit_stmt V)) f)))"
| "visit_stmt V (WhileStatement e s) =
     visit_two V ''stmtWhile'' ''afterTest'' (enc_stmt (WhileStatement e s))
       (visit_expr V e) (visit_stmt V s)"
| "visit_stmt V (DoWhileStatement e s) =
     visit_two V ''stmtDoWhile'' ''afterTest'' (enc_stmt (DoWhileStatement e s))
       (visit_expr V e) (visit_stmt V s)"
| "visit_stmt V (ForStatement i t u s) =
     visit_for V (enc_stmt (ForStatement i t u s)) (visit_opt (map_option (visit_init V) i))
       (visit_opt (map_option (visit_expr V) t)) (visit_opt (map_option (visit_expr V) u))
       (visit_stmt V s)"
| "visit_stmt V (ForInStatement i e s) =
     visit_forin V (enc_stmt (ForInStatement i e s)) (visit_init V i) (visit_expr V e)
       (visit_stmt V s)"
| "visit_stmt V DebuggerStatement =
     call V ''stmtDebugger'' ''single'' [RNode (enc_stmt DebuggerStatement)]"
| "visit_stmt V (FunctionDeclaration n ps body) =
     visit_function V ''stmtDeclFunction'' (enc_stmt (FunctionDeclaration n ps body))
       (visit_ident V n) ps (map enc_stmt body) (map (visit_stmt V) body)"
| "visit_stmt V (VariableDeclaration ds) =
     visit_decls V (map enc_declarator ds) (map (visit_declarator V) ds)"

definition visit_program :: "('s, 'r) visitor \<Rightarrow> stmt list \<Rightarrow> ('s, 'r rv) jsm" where
  "visit_program V ss =
     bindM (call V ''program'' ''before'' []) (\<lambda>bef.
     bindM (visits (map (visit_stmt V) ss)) (\<lambda>r.
     call V ''program'' ''after'' [RNode (enc_program ss), bef, r]))"

section \<open>The traversal of an encoded tree is the visit\<close>

named_theorems enc_simps \<open>fields of encoded nodes\<close>

lemma us_isObject_node [enc_simps]: "us_isObject (node ty fs)"
  by (simp add: node_def js_simps)

lemma node_neq [enc_simps]: "node ty fs \<noteq> JNull" "node ty fs \<noteq> JUndef"
  by (simp_all add: node_def)

lemma us_isEmpty_node [enc_simps]: "\<not> us_isEmpty (node ty fs)"
  by (simp add: node_def js_simps)

lemma us_has_node [enc_simps]:
  "us_has (node ty fs) k \<longleftrightarrow> k = ''loc'' \<or> k = ''type'' \<or> map_of fs k \<noteq> None"
  by (auto simp: node_def js_simps)

lemma fld_node [enc_simps]:
  "fld (node ty fs) k = (if k = ''loc'' then JNull else if k = ''type'' then JStr ty
     else case map_of fs k of None \<Rightarrow> JUndef | Some x \<Rightarrow> x)"
  by (simp add: node_def js_simps)

lemma GrammarCheck_Nil [enc_simps]: "TRVS_GrammarCheck v [] = ret ()"
  by (simp add: TRVS_GrammarCheck_def)

lemma GrammarCheck_Cons [enc_simps]:
  "TRVS_GrammarCheck v (k # ks) =
     (if us_has v k then TRVS_GrammarCheck v ks else throw ASTTraverseGrammarException)"
  by (simp add: TRVS_GrammarCheck_def)

lemma GrammarCheckCond_True [enc_simps]: "TRVS_GrammarCheckCond True = ret ()"
  by (simp add: TRVS_GrammarCheckCond_def)

lemma dispatch_node [enc_simps]:
  "trvsDispatch table (node ty fs) =
     (case map_of table ty of None \<Rightarrow> throw ASTTraverseGrammarException | Some f \<Rightarrow> f (node ty fs))"
  by (auto simp: trvsDispatch_def TRVS_Get_def getp_def enc_simps split: option.splits)

lemma us_map_enc:
  assumes "\<And>x. x \<in> set xs \<Longrightarrow> W (enc x) = m x"
  shows "us_map W (JArr (map enc xs)) = visits (map m xs)"
proof -
  have "mapM W (map enc xs) = seqM (map m xs)"
    using assms by (simp add: mapM_seqM cong: map_cong)
  then show ?thesis by (simp add: us_map_def visits_def js_simps)
qed

lemmas enc_shapes = enc_literal_def enc_ident_def enc_function_def enc_block_def enc_decls_def

lemma us_isEmpty_enc_ident [enc_simps]: "\<not> us_isEmpty (enc_ident n)" "\<not> us_isEmpty (enc_block vs)"
  by (simp_all add: enc_shapes enc_simps)

lemma us_isEmpty_enc_expr [enc_simps]: "\<not> us_isEmpty (enc_expr e)"
  by (cases e) (simp_all add: enc_shapes enc_simps)

lemma us_isEmpty_enc_stmt [enc_simps]: "\<not> us_isEmpty (enc_stmt s)"
  by (cases s) (simp_all add: enc_shapes enc_simps)

lemma us_isEmpty_enc_catch [enc_simps]: "\<not> us_isEmpty (enc_catch h)"
  by (cases h) (simp_all add: enc_simps)

lemma enc_expr_neq [enc_simps]: "enc_expr e \<noteq> JNull"
  by (cases e) (simp_all add: enc_shapes enc_simps)

lemma enc_init_neq [enc_simps]: "enc_init i \<noteq> JNull"
  by (cases i) (simp_all add: enc_shapes enc_simps)

lemma emptyOr_None [enc_simps]: "emptyOr (enc_opt None) W v = ret RNull"
  by (simp add: emptyOr_def enc_opt_def js_simps)

lemma emptyOr_Some [enc_simps]:
  "\<not> us_isEmpty x \<Longrightarrow> emptyOr (enc_opt (Some x)) W (enc_opt (Some x)) = W x"
  by (simp add: emptyOr_def enc_opt_def)

text \<open>
  Attempts on the wrong kind of node fail before the visitor is called: an expression has no
  \<open>declarations\<close>, only an identifier has a \<open>name\<close>.
\<close>

lemma DeclVariable_expr [enc_simps]:
  "trvsStmtDeclVariable V E (enc_expr e) = throw ASTTraverseGrammarException"
  by (cases e) (simp_all add: trvsStmtDeclVariable_def enc_shapes enc_simps)

lemma trvsIdentifier_ident [enc_simps]: "trvsIdentifier V (enc_ident n) = visit_ident V n"
  by (simp add: trvsIdentifier_def visit_ident_def enc_simps enc_ident_def)

lemma trvsIdentifier_expr [enc_simps]:
  "\<not> is_Identifier e \<Longrightarrow> trvsIdentifier V (enc_expr e) = throw ASTTraverseGrammarException"
  by (cases e) (simp_all add: trvsIdentifier_def enc_shapes enc_simps)

lemma trvsIdentifier_expr_ident [enc_simps]:
  "is_Identifier e \<Longrightarrow> trvsIdentifier V (enc_expr e) = visit_expr V e"
  by (cases e) (simp_all add: trvsIdentifier_ident)

lemma trvsPattern_ident [enc_simps]: "trvsPattern V (enc_ident n) = visit_pattern V n"
  by (simp add: trvsPattern_def visit_pattern_def enc_simps enc_ident_def)

lemma trvsLiteral_literal [enc_simps]: "trvsLiteral V (enc_literal l) = visit_lit V l"
  by (simp add: trvsLiteral_def visit_lit_def enc_simps enc_literal_def)

lemma trvsKey [enc_simps]:
  "tryCatch (trvsLiteral V (enc_key k)) (\<lambda>_. trvsIdentifier V (enc_key k)) = visit_key V k"
  by (cases k)
     (simp_all add: enc_simps attempt_def trvsIdentifier_def trvsLiteral_def visit_lit_def
        visit_ident_def enc_shapes)

lemma trvsPatterns_idents [enc_simps]:
  "trvsPatterns V (JArr (map enc_ident ps)) = visits (map (visit_pattern V) ps)"
  by (simp add: trvsPatterns_def js_simps enc_simps us_map_enc [where m = "visit_pattern V"])

lemma trvsStmts_enc:
  assumes "\<And>s. s \<in> set ss \<Longrightarrow> S (enc_stmt s) = visit_stmt V s"
  shows "trvsStmts S (JArr (map enc_stmt ss)) = visits (map (visit_stmt V) ss)"
  using assms by (simp add: trvsStmts_def js_simps enc_simps us_map_enc [where m = "visit_stmt V"])

lemma trvsExprs_enc:
  assumes "\<And>e. e \<in> set es \<Longrightarrow> E (enc_expr e) = visit_expr V e"
  shows "trvsExprs E (JArr (map enc_expr es)) = visits (map (visit_expr V) es)"
  using assms by (simp add: trvsExprs_def us_map_enc [where m = "visit_expr V"])

lemma trvsStmtBlock_enc:
  assumes "\<And>s. s \<in> set ss \<Longrightarrow> S (enc_stmt s) = visit_stmt V s"
  shows "trvsStmtBlock V S (enc_block (map enc_stmt ss)) =
    visit_block V (map enc_stmt ss) (map (visit_stmt V) ss)"
  using trvsStmts_enc [of ss S V, OF assms]
  by (simp add: trvsStmtBlock_def visit_block_def enc_simps enc_block_def)

text \<open>
  The induction: the traversal of each kind of node is the visit, given that of its children.
\<close>

lemma visit_opt_simps [enc_simps]: "visit_opt None = ret RNull" "visit_opt (Some m) = m"
  by (simp_all add: visit_opt_def)

lemmas visit_shapes = visit_one_def visit_two_def visit_three_def visit_unary_def visit_for_def
  visit_forin_def visit_function_def visit_decls_def

lemma trvsFunction_enc:
  assumes "\<And>s. s \<in> set body \<Longrightarrow> S (enc_stmt s) = visit_stmt V s"
    and "\<And>vs. E (enc_block vs) = throw ASTTraverseGrammarException"
    and "emptyOr idv (trvsIdentifier V) idv = m"
  shows "bindM (call V vname ''before'' [RNode (enc_function ty idv ps (map enc_stmt body))])
       (trvsFunction V E S (enc_function ty idv ps (map enc_stmt body)) vname) =
     visit_function V vname (enc_function ty idv ps (map enc_stmt body)) m ps
       (map enc_stmt body) (map (visit_stmt V) body)"
  using trvsStmtBlock_enc [of body S V, OF assms(1)] assms(2,3)
  by (simp add: trvsFunction_def [abs_def] visit_function_def enc_function_def enc_simps attempt_def)

lemma trvsCallExpr_block: "trvsCallExpr V (enc_block vs) = throw ASTTraverseGrammarException"
  by (subst trvsCallExpr_eq) (simp add: enc_block_def enc_simps exprsMap_def)

lemma trvsCallExpr_decls: "trvsCallExpr V (enc_decls vs) = throw ASTTraverseGrammarException"
  by (subst trvsCallExpr_eq) (simp add: enc_decls_def enc_simps exprsMap_def)

lemma trvsDecls_enc:
  assumes "\<And>d. d \<in> set ds \<Longrightarrow> trvsVariableDeclarator V E (enc_declarator d) = visit_declarator V d"
  shows "trvsStmtDeclVariable V E (enc_decls (map enc_declarator ds)) =
    visit_decls V (map enc_declarator ds) (map (visit_declarator V) ds)"
  using assms
  by (simp add: trvsStmtDeclVariable_def trvsVariableDeclarators_def visit_decls_def enc_decls_def
      enc_simps js_simps us_map_enc [where m = "visit_declarator V"])

text \<open>Each dispatcher at a node of a given kind, whatever form its encoding has.\<close>

lemma trvsCallExpr_kind [enc_simps]:
  "trvsCallExpr V (node ty fs) =
     (case map_of (exprsMap V (trvsCallExpr V) (trvsCallStmt V)) ty of
        None \<Rightarrow> throw ASTTraverseGrammarException | Some f \<Rightarrow> f (node ty fs))"
  by (subst trvsCallExpr_eq) (simp add: enc_simps)

lemma trvsCallStmt_kind [enc_simps]:
  "trvsCallStmt V (node ty fs) =
     (case map_of (stmtsMap V (trvsCallExpr V) (trvsCallStmt V)) ty of
        None \<Rightarrow> throw ASTTraverseGrammarException | Some f \<Rightarrow> f (node ty fs))"
  by (subst trvsCallStmt_eq) (simp add: enc_simps)

lemma trvsCallExpr_literal: "trvsCallExpr V (enc_literal l) = visit_lit V l"
  by (simp add: enc_literal_def trvsCallExpr_kind exprsMap_def)
     (simp add: trvsLiteral_literal [unfolded enc_literal_def])

lemma trvsCallExpr_ident: "trvsCallExpr V (enc_ident n) = visit_ident V n"
  by (simp add: enc_ident_def trvsCallExpr_kind exprsMap_def)
     (simp add: trvsIdentifier_ident [unfolded enc_ident_def])

lemma trvsCallExpr_function:
  assumes "\<And>s. s \<in> set body \<Longrightarrow> trvsCallStmt V (enc_stmt s) = visit_stmt V s"
  shows "trvsCallExpr V (enc_expr (FunctionExpression n ps body)) =
    visit_expr V (FunctionExpression n ps body)"
proof -
  let ?f = "enc_expr (FunctionExpression n ps body)"
  have "trvsCallExpr V ?f = trvsExprFunction V (trvsCallExpr V) (trvsCallStmt V) ?f"
    by (simp add: enc_function_def trvsCallExpr_kind exprsMap_def)
  also have "us_isObject ?f" by (simp add: enc_function_def enc_simps)
  then have "trvsExprFunction V (trvsCallExpr V) (trvsCallStmt V) ?f = visit_expr V (FunctionExpression n ps body)"
    using trvsFunction_enc [of body "trvsCallStmt V" V "trvsCallExpr V", OF assms trvsCallExpr_block refl]
    by (cases n) (simp_all add: trvsExprFunction_def enc_simps)
  finally show ?thesis .
qed

lemma trvsCallStmt_function:
  assumes "\<And>s. s \<in> set body \<Longrightarrow> trvsCallStmt V (enc_stmt s) = visit_stmt V s"
  shows "trvsCallStmt V (enc_stmt (FunctionDeclaration n ps body)) =
    visit_stmt V (FunctionDeclaration n ps body)"
proof -
  let ?f = "enc_stmt (FunctionDeclaration n ps body)"
  have "trvsCallStmt V ?f = trvsStmtDeclFunction V (trvsCallExpr V) (trvsCallStmt V) ?f"
    by (simp add: enc_function_def trvsCallStmt_kind stmtsMap_def)
  also have "us_isObject ?f" by (simp add: enc_function_def enc_simps)
  then have "trvsStmtDeclFunction V (trvsCallExpr V) (trvsCallStmt V) ?f = visit_stmt V (FunctionDeclaration n ps body)"
    using trvsFunction_enc [of body "trvsCallStmt V" V "trvsCallExpr V", OF assms trvsCallExpr_block refl]
    by (simp add: trvsStmtDeclFunction_def enc_simps emptyOr_def)
  finally show ?thesis .
qed

lemma trvsCallStmt_block:
  assumes "\<And>s. s \<in> set ss \<Longrightarrow> trvsCallStmt V (enc_stmt s) = visit_stmt V s"
  shows "trvsCallStmt V (enc_block (map enc_stmt ss)) =
    visit_block V (map enc_stmt ss) (map (visit_stmt V) ss)"
  using trvsStmtBlock_enc [of ss "trvsCallStmt V" V, OF assms]
  by (simp add: enc_block_def trvsCallStmt_kind stmtsMap_def)

lemma trvsCallStmt_decls:
  assumes "\<And>d. d \<in> set ds \<Longrightarrow>
    trvsVariableDeclarator V (trvsCallExpr V) (enc_declarator d) = visit_declarator V d"
  shows "trvsCallStmt V (enc_decls (map enc_declarator ds)) =
    visit_decls V (map enc_declarator ds) (map (visit_declarator V) ds)"
  using trvsDecls_enc [of ds V "trvsCallExpr V", OF assms]
  by (simp add: enc_decls_def trvsCallStmt_kind stmtsMap_def)

lemmas walk_cases = trvsCallExpr_literal trvsCallExpr_ident trvsStmts_enc trvsExprs_enc
  trvsStmtBlock_enc us_map_enc trvsProperties_def trvsSwitchCases_def

lemma traversal_is_visit:
  "trvsCallExpr V (enc_expr e) = visit_expr V e"
  "trvsProperty V (trvsCallExpr V) (enc_property p) = visit_property V p"
  "trvsVariableDeclarator V (trvsCallExpr V) (enc_declarator d) = visit_declarator V d"
  "trvsSwitchCase V (trvsCallExpr V) (trvsCallStmt V) (enc_case c) = visit_case V c"
  "trvsCatchClause V (trvsCallExpr V) (trvsCallStmt V) (enc_catch h) = visit_catch V h"
  "tryCatch (trvsStmtDeclVariable V (trvsCallExpr V) (enc_init i))
     (\<lambda>_. trvsCallExpr V (enc_init i)) = visit_init V i"
  "trvsCallStmt V (enc_stmt s) = visit_stmt V s"
proof (induction e and p and d and c and h and i and s)
  case (FunctionExpression n ps body)
  then show ?case by (rule trvsCallExpr_function)
next
  case (FunctionDeclaration n ps body)
  then show ?case by (rule trvsCallStmt_function)
next
  case (BlockStatement ss)
  then show ?case by (simp add: trvsCallStmt_block)
next
  case (VariableDeclaration ds)
  then show ?case by (simp add: trvsCallStmt_decls)
next
  case (InitDecl ds)
  then show ?case by (simp add: trvsDecls_enc attempt_def trvsCallExpr_decls)
next
  case (IfStatement t c a)
  then show ?case
    by (cases a) (simp_all add: enc_simps stmtsMap_def trvsStmtIf_def visit_shapes)
next
  case (MemberExpression e p computed)
  then show ?case
    by (cases "is_Identifier p")
       (simp_all add: enc_simps exprsMap_def trvsExprMember_def visit_shapes)
next
  case (VariableDeclarator n e)
  then show ?case
    by (cases e) (simp_all add: enc_simps trvsVariableDeclarator_def visit_shapes)
next
  case (SwitchCase t ss)
  then show ?case
    by (cases t) (simp_all add: enc_simps trvsSwitchCase_def visit_shapes walk_cases)
next
  case (BreakStatement l)
  then show ?case
    by (cases l) (simp_all add: enc_simps stmtsMap_def trvsStmtBreak_def trvsGenStmtUnaryIdent_def visit_shapes)
next
  case (ContinueStatement l)
  then show ?case
    by (cases l) (simp_all add: enc_simps stmtsMap_def trvsStmtContinue_def trvsGenStmtUnaryIdent_def visit_shapes)
next
  case (ReturnStatement e)
  then show ?case
    by (cases e) (simp_all add: enc_simps stmtsMap_def trvsStmtReturn_def visit_shapes)
next
  case (TryStatement b h f)
  then show ?case
    by (cases h; cases f) (simp_all add: enc_simps stmtsMap_def trvsStmtTry_def visit_shapes walk_cases)
next
  case (ForStatement i t u s)
  then show ?case
    by (cases i; cases t; cases u)
       (simp_all add: enc_simps stmtsMap_def trvsStmtFor_def visit_shapes enc_opt_def emptyOr_def js_simps)
qed (simp_all add: enc_simps walk_cases exprsMap_def stmtsMap_def trvsExpr_defs trvsStmt_defs
       trvsExprThis_def trvsStmtEmpty_def trvsStmtDebugger_def trvsProperty_def
       trvsCatchClause_def visit_shapes emptyOr_def js_simps)

lemma program_is_visit: "trvsProgram V (enc_program ss) = visit_program V ss"
  using trvsStmts_enc [of ss "trvsCallStmt V" V, OF traversal_is_visit(7)]
  by (simp add: trvsProgram_def visit_program_def enc_program_def enc_simps)

text \<open>The entry for any node agrees with the dispatcher of its kind.\<close>

lemma unknown_dispatch:
  "trvsUnknown V (enc_expr e) = trvsCallExpr V (enc_expr e)"
  "trvsUnknown V (enc_stmt s) = trvsCallStmt V (enc_stmt s)"
  "trvsUnknown V (enc_property p) = trvsProperty V (trvsCallExpr V) (enc_property p)"
  "trvsUnknown V (enc_declarator d) = trvsVariableDeclarator V (trvsCallExpr V) (enc_declarator d)"
  "trvsUnknown V (enc_program ss) = trvsProgram V (enc_program ss)"
proof -
  note tables = trvsUnknown_def enc_simps nodeTypes_def stmtsMap_def exprsMap_def
  show "trvsUnknown V (enc_expr e) = trvsCallExpr V (enc_expr e)"
    by (cases e) (simp_all add: tables enc_shapes)
  show "trvsUnknown V (enc_stmt s) = trvsCallStmt V (enc_stmt s)"
    by (cases s) (simp_all add: tables enc_shapes)
  show "trvsUnknown V (enc_property p) = trvsProperty V (trvsCallExpr V) (enc_property p)"
    by (cases p) (simp add: tables)
  show "trvsUnknown V (enc_declarator d) = trvsVariableDeclarator V (trvsCallExpr V) (enc_declarator d)"
    by (cases d) (simp add: tables)
  show "trvsUnknown V (enc_program ss) = trvsProgram V (enc_program ss)"
    by (simp add: tables enc_program_def)
qed

lemma unknown_is_visit:
  "trvsUnknown V (enc_expr e) = visit_expr V e"
  "trvsUnknown V (enc_stmt s) = visit_stmt V s"
  "trvsUnknown V (enc_property p) = visit_property V p"
  "trvsUnknown V (enc_declarator d) = visit_declarator V d"
  "trvsUnknown V (enc_program ss) = visit_program V ss"
  by (simp_all add: unknown_dispatch traversal_is_visit program_is_visit)

section \<open>Properties\<close>

text \<open>
  C1: For every visitor and every program, the traversal of the parser's objects is the visit of
  the syntax tree: the handlers run in the order the structural recursion gives, each with the
  results of its children.
\<close>

theorem traverse_program: "trvsProgram V (enc_program ss) = visit_program V ss"
  by (rule program_is_visit)

text \<open>
  The entry for a node of unknown kind visits every expression, statement, property,
  declarator and program the way the entry for its own kind does.
\<close>

theorem traverse_unknown:
  "trvsUnknown V (enc_expr e) = visit_expr V e \<and> trvsUnknown V (enc_stmt s) = visit_stmt V s \<and>
   trvsUnknown V (enc_property p) = visit_property V p \<and>
   trvsUnknown V (enc_declarator d) = visit_declarator V d \<and>
   trvsUnknown V (enc_program ss) = visit_program V ss"
  by (simp add: unknown_is_visit)

end
