(* ===== verification/Ast_Visitor.thy ===== *)
theory Ast_Visitor
  imports Ast_Visit
begin

text \<open>
  What the visualiser's two visitors share: the handler objects both files build with the same
  helpers, and an interface of visitors whose handlers keep a property of their state.

  The interface says nothing about the arguments a handler gets, so its consequences hold for
  every value passed as an AST, well-formed or not, and for runs that end in an exception.
\<close>

section \<open>Handler objects\<close>

text \<open>An argument the caller did not pass is undefined.\<close>

definition arg :: "'r rv list \<Rightarrow> nat \<Rightarrow> 'r rv" where
  "arg args i = (if i < length args then args ! i else RUndef)"

definition argNode :: "'r rv list \<Rightarrow> jsval" where
  "argNode args = (case arg args 0 of RNode v \<Rightarrow> v | _ \<Rightarrow> JUndef)"

definition visitorCallNullary :: "('s, 'r) handler \<Rightarrow> (string \<rightharpoonup> ('s, 'r) handler)" where
  "visitorCallNullary func = Map.empty(''single'' \<mapsto> func)"

definition visitorCallUnary :: "('s, 'r) handler option \<Rightarrow> ('s, 'r) handler option \<Rightarrow>
    (string \<rightharpoonup> ('s, 'r) handler)" where
  "visitorCallUnary beforeFunc afterFunc =
     (Map.empty(''before'' := beforeFunc))(''after'' := afterFunc)"

definition visitorCallAfter :: "('s, 'r) handler \<Rightarrow> (string \<rightharpoonup> ('s, 'r) handler)" where
  "visitorCallAfter func = Map.empty(''after'' \<mapsto> func)"

named_theorems visitor_simps \<open>looking up the handlers of a visitor\<close>

lemma visitor_calls [visitor_simps]:
  "visitorCallAfter f ''after'' = Some f"
  "action \<noteq> ''after'' \<Longrightarrow> visitorCallAfter f action = None"
  "visitorCallUnary b a ''before'' = b" "visitorCallUnary b a ''after'' = a"
  "action \<noteq> ''after'' \<Longrightarrow> action \<noteq> ''before'' \<Longrightarrow> visitorCallUnary b a action = None"
  "visitorCallNullary f ''single'' = Some f"
  by (simp_all add: visitorCallAfter_def visitorCallUnary_def visitorCallNullary_def)

section \<open>Properties of the state a computation keeps\<close>

definition keeps :: "('s \<Rightarrow> bool) \<Rightarrow> ('s, 'a) jsm \<Rightarrow> bool" where
  "keeps P m \<longleftrightarrow> (\<forall>s. P s \<longrightarrow> P (snd (m s)))"

named_theorems keep_intros \<open>computations that keep a property of the state\<close>

lemma keeps_ret [keep_intros]: "keeps P (ret x)"
  by (simp add: keeps_def ret_def)

lemma keeps_throw [keep_intros]: "keeps P (throw e)"
  by (simp add: keeps_def throw_def)

lemma keeps_bindM [keep_intros]: "keeps P m \<Longrightarrow> (\<And>x. keeps P (f x)) \<Longrightarrow> keeps P (bindM m f)"
  by (force simp: keeps_def bindM_def split: prod.splits sum.splits)

lemma keeps_tryCatch [keep_intros]:
  "keeps P m \<Longrightarrow> (\<And>e. keeps P (h e)) \<Longrightarrow> keeps P (tryCatch m h)"
  by (force simp: keeps_def tryCatch_def split: prod.splits sum.splits)

lemma keeps_mapM [keep_intros]: "(\<And>x. keeps P (f x)) \<Longrightarrow> keeps P (mapM f xs)"
  by (induction xs) (auto intro!: keep_intros)

lemma keeps_guardM [keep_intros]: "keeps P (guardM b e)"
  by (simp add: guardM_def keep_intros)

lemma keeps_getp [keep_intros]: "keeps P (getp v k)"
  by (simp add: getp_def keep_intros)

lemma keeps_checks [keep_intros]:
  "keeps P (TRVS_GrammarCheck v ks)" "keeps P (TRVS_GrammarCheckCond b)"
  "keeps P (TRVS_Get table ty)"
  by (simp_all add: TRVS_GrammarCheck_def TRVS_GrammarCheckCond_def TRVS_Get_def keep_intros
        split: option.split)

lemma keeps_us_map [keep_intros]: "(\<And>x. keeps P (f x)) \<Longrightarrow> keeps P (us_map f v)"
  by (auto simp: us_map_def intro!: keep_intros)

lemma keeps_emptyOr [keep_intros]: "(\<And>x. keeps P (f x)) \<Longrightarrow> keeps P (emptyOr c f v)"
  by (auto simp: emptyOr_def intro!: keep_intros)

lemma keeps_if [keep_intros]: "keeps P m \<Longrightarrow> keeps P n \<Longrightarrow> keeps P (if b then m else n)"
  by simp

text \<open>The same for every handler of one kind of node.\<close>

definition keep_actions :: "('s \<Rightarrow> bool) \<Rightarrow> (string \<rightharpoonup> ('s, 'r) handler) \<Rightarrow> bool" where
  "keep_actions P actions \<longleftrightarrow> (\<forall>act h args. actions act = Some h \<longrightarrow> keeps P (h args))"

lemma keep_actions_objects [keep_intros]:
  "(\<And>args. keeps P (f args)) \<Longrightarrow> keep_actions P (visitorCallAfter f)"
  "(\<And>args. keeps P (f args)) \<Longrightarrow> keep_actions P (visitorCallNullary f)"
  "(\<And>args. keeps P (f args)) \<Longrightarrow> keep_actions P (visitorCallUnary None (Some f))"
  "(\<And>args. keeps P (g args)) \<Longrightarrow> (\<And>args. keeps P (f args)) \<Longrightarrow>
   keep_actions P (visitorCallUnary (Some g) (Some f))"
  by (simp_all add: keep_actions_def visitorCallAfter_def visitorCallNullary_def
        visitorCallUnary_def)

lemma keep_actions_table:
  assumes "map_of table ty = Some actions" and "list_all (keep_actions P) (map snd table)"
  shows "keep_actions P actions"
  using map_of_SomeD [OF assms(1)] assms(2) by (force simp: list_all_iff)

section \<open>Visitors that keep a property of their state\<close>

locale visitor_frame =
  fixes V :: "('s, 'r) visitor" and P :: "'s \<Rightarrow> bool"
  assumes handler_keeps: "V ty = Some actions \<Longrightarrow> keep_actions P actions"
begin

lemma call_keeps [keep_intros]: "keeps P (trvsCallVisitor V ty act args)"
  by (auto simp: trvsCallVisitor_def keep_actions_def intro!: keep_intros
      dest: handler_keeps split: option.split)

lemmas walk_defs = trvsLiteral_def trvsIdentifier_def trvsProperty_def trvsProperties_def
  trvsPattern_def trvsPatterns_def trvsStmts_def trvsExprs_def trvsStmtBlock_def
  trvsCatchClause_def trvsSwitchCase_def trvsSwitchCases_def trvsVariableDeclarator_def
  trvsVariableDeclarators_def trvsFunction_def trvsExprThis_def trvsStmtEmpty_def
  trvsGenStmtUnaryIdent_def trvsStmtBreak_def trvsStmtContinue_def trvsStmtDebugger_def
  trvsStmtDeclVariable_def

text \<open>Each entry of the tables keeps the property when the two dispatchers it calls do.\<close>

lemma tables_keep:
  assumes "\<And>v. keeps P (E v)" and "\<And>v. keeps P (S v)"
  shows "(ty, f) \<in> set (exprsMap V E S) \<Longrightarrow> keeps P (f v)"
    and "(ty, f) \<in> set (stmtsMap V E S) \<Longrightarrow> keeps P (f v)"
  by (auto simp: exprsMap_def stmtsMap_def trvsExpr_defs trvsStmt_defs walk_defs
      intro!: keep_intros call_keeps assms)

lemma dispatch_keeps:
  assumes "\<And>ty f v. (ty, f) \<in> set table \<Longrightarrow> keeps P (f v)"
  shows "keeps P (trvsDispatch table v)"
proof -
  have "keeps P (bindM (TRVS_Get table ty) (\<lambda>func. func v))" for ty
    using assms by (auto simp: TRVS_Get_def intro!: keep_intros split: option.split dest: map_of_SomeD)
  then show ?thesis unfolding trvsDispatch_def by (rule keeps_bindM [OF keeps_getp])
qed

lemma below_keeps: "(\<And>x. vsize x < vsize e \<Longrightarrow> keeps P (W x)) \<Longrightarrow> keeps P (below e W v)"
  by (auto simp: below_def intro: keep_intros)

lemma traversal_keeps: "keeps P (trvsCallExpr V v)" "keeps P (trvsCallStmt V v)"
proof (induction v rule: measure_induct_rule [where f = vsize])
  case (less v)
  have E: "keeps P (below v (trvsCallExpr V) x)" and S: "keeps P (below v (trvsCallStmt V) x)" for x
    by (auto intro: below_keeps less)
  show "keeps P (trvsCallExpr V v)"
    by (subst trvsCallExpr.simps) (rule dispatch_keeps, erule tables_keep(1) [OF E S, rotated -1])
  show "keeps P (trvsCallStmt V v)"
    by (subst trvsCallStmt.simps) (rule dispatch_keeps, erule tables_keep(2) [OF E S, rotated -1])
qed

lemma program_keeps: "keeps P (trvsProgram V v)"
  by (auto simp: trvsProgram_def trvsStmts_def intro!: keep_intros call_keeps traversal_keeps)

lemma unknown_keeps: "keeps P (trvsUnknown V v)"
  unfolding trvsUnknown_def
  by (rule dispatch_keeps)
     (auto simp: nodeTypes_def trvsVariableDeclarator_def trvsProperty_def trvsPattern_def
        trvsLiteral_def trvsIdentifier_def
        intro!: keep_intros call_keeps traversal_keeps program_keeps
        dest: tables_keep [OF traversal_keeps])

end

end
