(* ===== verification/Ast_Events.thy ===== *)
theory Ast_Events
  imports Ast_Visitor
begin

text \<open>
  The order in which a traversal calls its visitor: a visitor that logs every call, and the
  discipline its log obeys. A \<open>before\<close> call opens a node, the \<open>after\<close> call of the same kind closes
  it, the calls in between are made for the innermost open node.
\<close>

type_synonym event = "string \<times> string"

definition logging :: "(event list, unit) visitor" where
  "logging ty = Some (\<lambda>act. Some (\<lambda>args log. (Inr RUndef, log @ [(ty, act)])))"

definition step :: "event \<Rightarrow> string list \<Rightarrow> string list option" where
  "step e st = (case e of (ty, act) \<Rightarrow>
     if act = ''single'' then Some st
     else if act = ''before'' then Some (ty # st)
     else (case st of [] \<Rightarrow> None
           | t # ts \<Rightarrow> if t \<noteq> ty then None else if act = ''after'' then Some ts else Some st))"

primrec steps :: "event list \<Rightarrow> string list \<Rightarrow> string list option" where
  "steps [] st = Some st"
| "steps (e # es) st = Option.bind (step e st) (steps es)"

lemma steps_append: "steps (xs @ ys) st = Option.bind (steps xs st) (steps ys)"
  by (induction xs arbitrary: st) (auto split: bind_splits)

text \<open>\<open>logs m P\<close>: the run appends a log that takes the stack from \<open>st\<close> to \<open>st'\<close>.\<close>

definition logs :: "(event list, 'a) jsm \<Rightarrow> string list \<Rightarrow> string list \<Rightarrow> bool" where
  "logs m st st' \<longleftrightarrow> (\<forall>log. \<exists>r tr. m log = (Inr r, log @ tr) \<and> steps tr st = Some st')"

definition neutral :: "(event list, 'a) jsm \<Rightarrow> bool" where
  "neutral m \<longleftrightarrow> (\<forall>st. logs m st st)"

named_theorems log_intros \<open>logs of computations\<close>

lemma logs_ret: "logs (ret x) st st"
  by (simp add: logs_def ret_def)

lemma logs_bind:
  assumes "logs m st st1" and "\<And>x. logs (f x) st1 st2"
  shows "logs (bindM m f) st st2"
  unfolding logs_def
proof
  fix log
  obtain r tr where 1: "m log = (Inr r, log @ tr)" "steps tr st = Some st1"
    using assms(1) unfolding logs_def by blast
  obtain r' tr' where 2: "f r (log @ tr) = (Inr r', (log @ tr) @ tr')" "steps tr' st1 = Some st2"
    using assms(2) [of r] unfolding logs_def by blast
  show "\<exists>r tr. bindM m f log = (Inr r, log @ tr) \<and> steps tr st = Some st2"
    using 1 2 by (intro exI [of _ r'] exI [of _ "tr @ tr'"]) (simp add: bindM_def steps_append)
qed

lemma logs_call: "step (ty, act) st = Some st' \<Longrightarrow> logs (trvsCallVisitor logging ty act args) st st'"
  by (simp add: logs_def trvsCallVisitor_def logging_def)

lemma logs_single: "neutral (trvsCallVisitor logging ty ''single'' args)"
  by (auto simp: neutral_def step_def intro!: logs_call)

lemma logs_before: "logs (trvsCallVisitor logging ty ''before'' args) st (ty # st)"
  by (rule logs_call) (simp add: step_def)

lemma logs_after: "logs (trvsCallVisitor logging ty ''after'' args) (ty # st) st"
  by (rule logs_call) (simp add: step_def)

lemma logs_mid: "act \<notin> {''single'', ''before'', ''after''} \<Longrightarrow>
    logs (trvsCallVisitor logging ty act args) (ty # st) (ty # st)"
  by (rule logs_call) (simp add: step_def)

lemma neutral_logs: "neutral m \<Longrightarrow> logs m st st"
  by (simp add: neutral_def)

lemma neutral_ret [log_intros]: "neutral (ret x)"
  by (simp add: neutral_def logs_ret)

lemma neutral_bind: "neutral m \<Longrightarrow> (\<And>x. neutral (f x)) \<Longrightarrow> neutral (bindM m f)"
  by (auto simp: neutral_def intro: logs_bind)

lemma neutral_tryCatch [log_intros]: "neutral m \<Longrightarrow> neutral (tryCatch m h)"
  unfolding neutral_def logs_def
proof (intro allI)
  fix st log
  assume "\<forall>st log. \<exists>r tr. m log = (Inr r, log @ tr) \<and> steps tr st = Some st"
  then obtain r tr where "m log = (Inr r, log @ tr)" "steps tr st = Some st" by blast
  then show "\<exists>r tr. tryCatch m h log = (Inr r, log @ tr) \<and> steps tr st = Some st"
    by (auto simp: tryCatch_def)
qed

lemma neutral_attempt [log_intros]: "neutral m \<Longrightarrow> neutral (attempt m)"
  by (simp add: attempt_def neutral_tryCatch)

lemma neutral_visits [log_intros]: "(\<And>m. m \<in> set ms \<Longrightarrow> neutral m) \<Longrightarrow> neutral (visits ms)"
proof -
  assume "\<And>m. m \<in> set ms \<Longrightarrow> neutral m"
  then have "neutral (seqM ms)"
    by (induction ms) (auto intro!: neutral_bind neutral_ret)
  then show ?thesis by (auto simp: visits_def intro!: neutral_bind neutral_ret)
qed

lemma neutral_opt [log_intros]: "(\<And>m. v = Some m \<Longrightarrow> neutral m) \<Longrightarrow> neutral (visit_opt v)"
  by (cases v) (auto simp: visit_opt_def intro: neutral_ret)

lemmas log_steps = logs_bind [OF logs_before] logs_bind [OF neutral_logs] logs_bind [OF logs_mid] logs_after

lemma neutralI: "(\<And>st. logs m st st) \<Longrightarrow> neutral m"
  by (simp add: neutral_def)

lemma neutral_one [log_intros]: "neutral m \<Longrightarrow> neutral (visit_one logging ty n m)"
  unfolding visit_one_def by (rule neutralI) (intro log_steps; simp)

lemma neutral_unary [log_intros]: "neutral m \<Longrightarrow> neutral (visit_unary logging ty n opr m)"
  unfolding visit_unary_def by (rule neutralI) (intro log_steps; simp)

lemma neutral_two [log_intros]:
  "neutral m1 \<Longrightarrow> neutral m2 \<Longrightarrow> mid \<notin> {''single'', ''before'', ''after''} \<Longrightarrow>
   neutral (visit_two logging ty mid n m1 m2)"
  unfolding visit_two_def by (rule neutralI) (intro log_steps; simp)

lemma neutral_three [log_intros]:
  "neutral m1 \<Longrightarrow> neutral m2 \<Longrightarrow> neutral m3 \<Longrightarrow> mid1 \<notin> {''single'', ''before'', ''after''} \<Longrightarrow>
   mid2 \<notin> {''single'', ''before'', ''after''} \<Longrightarrow> neutral (visit_three logging ty mid1 mid2 n m1 m2 m3)"
  unfolding visit_three_def by (rule neutralI) (intro log_steps; simp)

lemma neutral_for [log_intros]:
  "neutral mi \<Longrightarrow> neutral mt \<Longrightarrow> neutral mu \<Longrightarrow> neutral mb \<Longrightarrow> neutral (visit_for logging n mi mt mu mb)"
  unfolding visit_for_def by (rule neutralI) (intro log_steps; simp)

lemma neutral_forin [log_intros]:
  "neutral ml \<Longrightarrow> neutral mr \<Longrightarrow> neutral mb \<Longrightarrow> neutral (visit_forin logging n ml mr mb)"
  unfolding visit_forin_def by (rule neutralI) (intro log_steps; simp)

lemma neutral_block [log_intros]:
  "(\<And>m. m \<in> set ms \<Longrightarrow> neutral m) \<Longrightarrow> neutral (visit_block logging vs ms)"
  unfolding visit_block_def by (rule neutralI) (intro log_steps neutral_visits)

lemma neutral_decls [log_intros]:
  "(\<And>m. m \<in> set ms \<Longrightarrow> neutral m) \<Longrightarrow> neutral (visit_decls logging vs ms)"
  unfolding visit_decls_def by (rule neutralI) (intro log_steps neutral_visits)

lemma neutral_leaves [log_intros]:
  "neutral (visit_lit logging l)" "neutral (visit_ident logging n)" "neutral (visit_pattern logging n)"
  "neutral (visit_key logging k)"
  by (cases k; simp add: visit_lit_def visit_ident_def visit_pattern_def logs_single neutral_attempt)+

lemma neutral_function [log_intros]:
  "neutral idm \<Longrightarrow> (\<And>m. m \<in> set ms \<Longrightarrow> neutral m) \<Longrightarrow> neutral (visit_function logging ty n idm ps vs ms)"
  unfolding visit_function_def
  by (rule neutralI) (intro log_steps neutral_visits neutral_attempt neutral_block; auto intro: neutral_leaves)

lemma neutral_visit:
  "neutral (visit_expr logging e)" "neutral (visit_property logging p)" "neutral (visit_declarator logging d)"
  "neutral (visit_case logging c)" "neutral (visit_catch logging h)" "neutral (visit_init logging i)"
  "neutral (visit_stmt logging s)"
  by (induction e and p and d and c and h and i and s) (auto intro!: log_intros logs_single)

text \<open>
  C9: A traversal calls its visitor in a well-bracketed order. Whatever the program, a visitor
  that only logs sees every \<open>before\<close> call closed by the \<open>after\<close> call of the same kind of node,
  properly nested, and every intermediate call inside the brackets of its own node.
\<close>

theorem calls_are_bracketed:
  "\<exists>r tr. trvsProgram logging (enc_program ss) log = (Inr r, log @ tr) \<and> steps tr [] = Some []"
proof -
  have "neutral (visit_program logging ss)"
    unfolding neutral_def visit_program_def
    by (intro allI log_steps neutral_visits) (auto intro: neutral_visit)
  then show ?thesis by (simp add: program_is_visit neutral_def logs_def)
qed

end
