(* ===== verification/Ast_Stringify.thy ===== *)
theory Ast_Stringify
  imports Ast_Visitor
begin

text \<open>
  The visitor that prints an AST back to source text, \<open>Ast/asttreestringify.js\<close>: the format
  directives, the tab counter the handlers raise and lower (\<open>this.opts.tab\<close>), one definition
  per handler, and the visitor table.
\<close>

record stringify_opts =
  tab :: int

type_synonym str_rv = "string rv"
type_synonym str_handler = "(stringify_opts, string) handler"
type_synonym str_actions = "string \<rightharpoonup> str_handler"

abbreviation NL :: char where "NL \<equiv> CHR 0x0A"
abbreviation TAB :: char where "TAB \<equiv> CHR 0x09"
abbreviation QUOTE :: char where "QUOTE \<equiv> CHR 0x27"

section \<open>The tab counter\<close>

definition raiseTabs :: "(stringify_opts, int) jsm" where
  "raiseTabs s = (if tab s \<ge> 0 then (Inr (tab s + 1), s\<lparr>tab := tab s + 1\<rparr>)
                  else (Inl ASTTreeStringifyException, s))"

definition decrTabs :: "(stringify_opts, int) jsm" where
  "decrTabs s = (if tab s > 0 then (Inr (tab s - 1), s\<lparr>tab := tab s - 1\<rparr>)
                 else (Inl ASTTreeStringifyException, s))"

definition tabs :: "(stringify_opts, int) jsm" where
  "tabs s = (if tab s \<ge> 0 then (Inr (tab s), s) else (Inl ASTTreeStringifyException, s))"

definition CreateStringifyOptions :: stringify_opts where
  "CreateStringifyOptions = \<lparr>tab = 0\<rparr>"

section \<open>Format strings\<close>

datatype fmtarg = FNum int | FVal str_rv

text \<open>\<open>%s\<close> prints strings only, anything else is empty; \<open>%tb\<close> prints that many tabs.\<close>

fun format_s :: "fmtarg \<Rightarrow> string" where
  "format_s (FVal (RVal s)) = s"
| "format_s (FVal (RNode (JStr s))) = s"
| "format_s _ = ''''"

fun format_tb :: "fmtarg \<Rightarrow> string" where
  "format_tb (FNum n) = replicate (nat n) TAB"
| "format_tb _ = ''''"

definition nextArg :: "fmtarg list \<Rightarrow> fmtarg" where
  "nextArg args = (case args of [] \<Rightarrow> FVal RUndef | a # _ \<Rightarrow> a)"

fun format :: "string \<Rightarrow> fmtarg list \<Rightarrow> string" where
  "format [] args = []"
| "format (c # cs) args =
     (if c = CHR ''%'' \<and> take 1 cs = ''s''
        then format_s (nextArg args) @ format (drop 1 cs) (tl args)
      else if c = CHR ''%'' \<and> take 2 cs = ''tb''
        then format_tb (nextArg args) @ format (drop 2 cs) (tl args)
      else c # format cs args)"

definition truthy :: "str_rv \<Rightarrow> bool" where
  "truthy r = (case r of RUndef \<Rightarrow> False | RNull \<Rightarrow> False | RVal s \<Rightarrow> s \<noteq> [] | RList _ \<Rightarrow> True
     | RNode v \<Rightarrow> js_truthy v)"

text \<open>\<open>String(r)\<close> of a result inside \<open>join\<close>, where null and undefined are empty.\<close>

fun rv_text :: "str_rv \<Rightarrow> string" where
  "rv_text RUndef = ''''"
| "rv_text RNull = ''''"
| "rv_text (RVal s) = s"
| "rv_text (RNode v) = (if v = JUndef \<or> v = JNull then '''' else to_str v)"
| "rv_text (RList rs) = join '','' (map rv_text rs)"

definition rv_join :: "str_rv \<Rightarrow> string \<Rightarrow> ('s, str_rv) jsm" where
  "rv_join r sep = (case r of RList rs \<Rightarrow> ret (RVal (join sep (map rv_text rs)))
                    | _ \<Rightarrow> throw TypeError)"

text \<open>The exception the last branch names is not defined in this file.\<close>

definition stringifyValue :: "str_rv \<Rightarrow> bool \<Rightarrow> ('s, str_rv) jsm" where
  "stringifyValue val quoteString = (case val of
       RVal s \<Rightarrow> ret (RVal (if quoteString then [QUOTE] @ s @ [QUOTE] else s))
     | RNull \<Rightarrow> ret RNull
     | RNode (JStr s) \<Rightarrow> ret (RVal (if quoteString then [QUOTE] @ s @ [QUOTE] else s))
     | RNode (JBool b) \<Rightarrow> ret (RVal (if b then ''true'' else ''false''))
     | RNode JNull \<Rightarrow> ret RNull
     | RNode JUndef \<Rightarrow> throw (ReferenceError ''ASTTreeViewException'')
     | RUndef \<Rightarrow> throw (ReferenceError ''ASTTreeViewException'')
     | RNode v \<Rightarrow> ret (RVal (to_str v))
     | RList rs \<Rightarrow> ret (RVal (rv_text (RList rs))))"

definition whiteSpacesWrap :: "str_handler \<Rightarrow> str_handler" where
  "whiteSpacesWrap func args =
     bindM (func args) (\<lambda>str.
     bindM tabs (\<lambda>n. ret (RVal (format (''%tb%s;'' @ [NL]) [FNum n, FVal str]))))"

definition whiteSpacesNotSemiWrap :: "str_handler \<Rightarrow> str_handler" where
  "whiteSpacesNotSemiWrap func args =
     bindM (func args) (\<lambda>str.
     bindM tabs (\<lambda>n. ret (RVal (format (''%tb%s'' @ [NL]) [FNum n, FVal str]))))"

definition visitorStmtCallNullary :: "str_handler \<Rightarrow> str_actions" where
  "visitorStmtCallNullary func = Map.empty(''single'' \<mapsto> whiteSpacesWrap func)"

definition visitorStmtCallAfter :: "str_handler \<Rightarrow> str_actions" where
  "visitorStmtCallAfter func = Map.empty(''after'' \<mapsto> whiteSpacesWrap func)"

definition visitorStmtNotSemiCallAfter :: "str_handler \<Rightarrow> str_actions" where
  "visitorStmtNotSemiCallAfter func = Map.empty(''after'' \<mapsto> whiteSpacesNotSemiWrap func)"

section \<open>Variants\<close>

definition handlerFunction :: "str_rv \<Rightarrow> str_rv \<Rightarrow> str_rv \<Rightarrow> ('s, str_rv) jsm" where
  "handlerFunction ident params body =
     bindM (rv_join params '','') (\<lambda>ps.
     ret (RVal (format ''function%s(%s) %s''
       [FVal (if truthy ident then RVal ('' '' @ rv_text ident) else ident), FVal ps, FVal body])))"

definition handlerLiteral :: str_actions where
  "handlerLiteral = visitorCallNullary (\<lambda>args. stringifyValue (arg args 1) True)"

definition handlerProperty :: str_actions where
  "handlerProperty = visitorCallAfter (\<lambda>args.
     ret (RVal (format ''%s: %s'' [FVal (arg args 2), FVal (arg args 4)])))"

definition handlerIdentifier :: str_actions where
  "handlerIdentifier = visitorCallNullary (\<lambda>args. stringifyValue (arg args 1) False)"

definition handlerPattern :: str_actions where
  "handlerPattern = visitorCallNullary (\<lambda>args. stringifyValue (arg args 2) False)"

definition handlerVariableDeclarator :: str_actions where
  "handlerVariableDeclarator = visitorCallAfter (\<lambda>args.
     ret (RVal (format (if truthy (arg args 4) then ''%s = %s'' else ''%s'')
       [FVal (arg args 2), FVal (arg args 4)])))"

definition handlerCatchClause :: str_actions where
  "handlerCatchClause = visitorCallAfter (\<lambda>args.
     ret (RVal (format ''catch(%s) %s'' [FVal (arg args 2), FVal (arg args 6)])))"

definition handlerSwitchCase :: str_actions where
  "handlerSwitchCase = visitorCallAfter (\<lambda>args.
     bindM tabs (\<lambda>n.
     bindM (rv_join (arg args 4) '''') (\<lambda>consequent.
     ret (RVal (format (''%tb%s: %s'' @ [NL])
       [FNum n, FVal (if truthy (arg args 2) then arg args 2 else RVal ''default''),
        FVal consequent])))))"

section \<open>Expressions\<close>

definition handlerGenExprUnaryExpr :: "bool \<Rightarrow> str_actions" where
  "handlerGenExprUnaryExpr space = visitorCallAfter (\<lambda>args.
     let spaceStr = FVal (RVal (if space then '' '' else ''''));
         opr = FVal (arg args 2); opd = FVal (arg args 3)
     in ret (RVal (if truthy (RNode (fld (argNode args) ''prefix''))
                   then format ''%s%s%s'' [opr, spaceStr, opd]
                   else format ''%s%s%s'' [opd, spaceStr, opr])))"

definition handlerExprThis :: str_actions where
  "handlerExprThis = visitorCallNullary (\<lambda>args. ret (RVal ''this''))"

definition handlerExprArray :: str_actions where
  "handlerExprArray = visitorCallAfter (\<lambda>args.
     if truthy (arg args 2)
     then bindM (rv_join (arg args 2) '', '') (\<lambda>es. ret (RVal (format ''[ %s ]'' [FVal es])))
     else ret (RVal ''[]''))"

definition handlerExprObject :: str_actions where
  "handlerExprObject = visitorCallAfter (\<lambda>args.
     if truthy (arg args 2)
     then bindM (rv_join (arg args 2) '', '') (\<lambda>ps. ret (RVal (format ''{ %s }'' [FVal ps])))
     else ret (RVal ''{}''))"

definition handlerExprFunction :: str_actions where
  "handlerExprFunction = visitorCallAfter (\<lambda>args.
     handlerFunction (arg args 2) (arg args 4) (arg args 6))"

definition handlerExprSequence :: str_actions where
  "handlerExprSequence = visitorCallAfter (\<lambda>args. rv_join (arg args 2) '', '')"

definition handlerExprUnary :: str_actions where
  "handlerExprUnary = handlerGenExprUnaryExpr True"

definition handlerExprBinaryLeftRight :: str_actions where
  "handlerExprBinaryLeftRight = visitorCallAfter (\<lambda>args.
     ret (RVal (format ''(%s %s %s)''
       [FVal (arg args 2), FVal (RNode (fld (argNode args) ''operator'')), FVal (arg args 4)])))"

definition handlerExprAssignment :: str_actions where
  "handlerExprAssignment = handlerExprBinaryLeftRight"

definition handlerExprUpdate :: str_actions where
  "handlerExprUpdate = handlerGenExprUnaryExpr False"

definition handlerExprBinary :: str_actions where
  "handlerExprBinary = handlerExprBinaryLeftRight"

definition handlerExprLogical :: str_actions where
  "handlerExprLogical = handlerExprBinaryLeftRight"

definition handlerExprConditional :: str_actions where
  "handlerExprConditional = visitorCallAfter (\<lambda>args.
     ret (RVal (format ''%s ? %s : %s'' [FVal (arg args 2), FVal (arg args 4), FVal (arg args 6)])))"

definition handlerExprNew :: str_actions where
  "handlerExprNew = visitorCallAfter (\<lambda>args.
     bindM (rv_join (arg args 4) '','') (\<lambda>argsStr.
     ret (RVal (format ''new %s(%s)'' [FVal (arg args 2), FVal argsStr]))))"

definition handlerExprCall :: str_actions where
  "handlerExprCall = visitorCallAfter (\<lambda>args.
     bindM (rv_join (arg args 4) '','') (\<lambda>argsStr.
     ret (RVal (format ''%s(%s)'' [FVal (arg args 2), FVal argsStr]))))"

definition handlerExprMember :: str_actions where
  "handlerExprMember = visitorCallAfter (\<lambda>args.
     ret (RVal (format (if truthy (RNode (fld (argNode args) ''computed'')) then ''%s[%s]'' else ''%s.%s'')
       [FVal (arg args 2), FVal (arg args 4)])))"

definition handlerExprMetaQuazi :: str_actions where
  "handlerExprMetaQuazi = visitorCallAfter (\<lambda>args.
     bindM (rv_join (arg args 2) '''') (\<lambda>stmts.
     ret (RVal (format ''.< %s >.'' [FVal stmts]))))"

definition handlerExprMetaExec :: str_actions where
  "handlerExprMetaExec = visitorCallAfter (\<lambda>args.
     ret (RVal (format ''.& { %s }'' [FVal (arg args 2)])))"

section \<open>Statements\<close>

definition handlerStmtEmpty :: str_actions where
  "handlerStmtEmpty = visitorStmtCallNullary (\<lambda>args. ret (RVal ''''))"

definition handlerStmtBlock :: str_actions where
  "handlerStmtBlock = visitorCallUnary
     (Some (\<lambda>args. bindM raiseTabs (\<lambda>_. ret RUndef)))
     (Some (\<lambda>args.
        bindM decrTabs (\<lambda>n.
        bindM (rv_join (arg args 2) '''') (\<lambda>stmts.
        ret (RVal (format (''{'' @ [NL] @ ''%s%tb}'') [FVal stmts, FNum n]))))))"

definition handlerStmtExpr :: str_actions where
  "handlerStmtExpr = visitorStmtCallAfter (\<lambda>args. ret (arg args 2))"

definition handlerStmtIf :: str_actions where
  "handlerStmtIf = visitorStmtNotSemiCallAfter (\<lambda>args.
     let ifStr = ''if(%s) %s'' @ (if truthy (arg args 6) then ''else %s'' else '''')
     in ret (RVal (format ifStr [FVal (arg args 2), FVal (arg args 4), FVal (arg args 6)])))"

definition handlerStmtLabeled :: str_actions where
  "handlerStmtLabeled = visitorCallAfter (\<lambda>args.
     ret (RVal (format (''%s: '' @ [NL] @ ''%s'') [FVal (arg args 2), FVal (arg args 4)])))"

definition handlerGenStmtUnaryIdent :: "string \<Rightarrow> str_actions" where
  "handlerGenStmtUnaryIdent name = visitorStmtCallAfter (\<lambda>args. ret (RVal name))"

definition handlerStmtBreak :: str_actions where
  "handlerStmtBreak = handlerGenStmtUnaryIdent ''break''"

definition handlerStmtContinue :: str_actions where
  "handlerStmtContinue = handlerGenStmtUnaryIdent ''continue''"

definition handlerStmtSwitch :: str_actions where
  "handlerStmtSwitch = visitorCallUnary
     (Some (\<lambda>args. bindM raiseTabs (\<lambda>_. ret RUndef)))
     (Some (whiteSpacesWrap (\<lambda>args.
        bindM decrTabs (\<lambda>n.
        bindM (rv_join (arg args 4) '''') (\<lambda>cases.
        ret (RVal (format (''switch(%s) {'' @ [NL] @ ''%s%tb}'')
          [FVal (arg args 2), FVal cases, FNum n])))))))"

definition handlerStmtReturn :: str_actions where
  "handlerStmtReturn = visitorStmtCallAfter (\<lambda>args.
     ret (RVal (format ''return %s'' [FVal (arg args 2)])))"

definition handlerStmtThrow :: str_actions where
  "handlerStmtThrow = visitorStmtCallAfter (\<lambda>args.
     ret (RVal (format ''throw %s'' [FVal (arg args 2)])))"

text \<open>The finalizer is formatted and passed on, but the format string has no place for it.\<close>

definition handlerStmtTry :: str_actions where
  "handlerStmtTry = visitorStmtCallAfter (\<lambda>args.
     let finalizer = (if truthy (arg args 6)
                      then RVal (format ''finally %s'' [FVal (arg args 6)]) else arg args 6)
     in ret (RVal (format ''try %s %s'' [FVal (arg args 2), FVal (arg args 4), FVal finalizer])))"

definition handlerStmtWhile :: str_actions where
  "handlerStmtWhile = visitorStmtCallAfter (\<lambda>args.
     ret (RVal (format ''while(%s) %s'' [FVal (arg args 2), FVal (arg args 4)])))"

definition handlerStmtDoWhile :: str_actions where
  "handlerStmtDoWhile = visitorCallAfter (\<lambda>args. ret (RVal ''Do While''))"

definition handlerStmtFor :: str_actions where
  "handlerStmtFor = visitorStmtCallAfter (\<lambda>args.
     ret (RVal (format ''for(%s;%s;%s) %s''
       [FVal (arg args 2), FVal (arg args 4), FVal (arg args 6), FVal (arg args 8)])))"

definition handlerStmtForIn :: str_actions where
  "handlerStmtForIn = visitorStmtCallAfter (\<lambda>args.
     ret (RVal (format ''for(%s in %s) %s''
       [FVal (arg args 2), FVal (arg args 4), FVal (arg args 5)])))"

definition handlerStmtDebugger :: str_actions where
  "handlerStmtDebugger = visitorStmtCallNullary (\<lambda>args. ret (RVal ''debugger''))"

definition handlerStmtDeclFunction :: str_actions where
  "handlerStmtDeclFunction = visitorStmtCallAfter (\<lambda>args.
     handlerFunction (arg args 2) (arg args 4) (arg args 6))"

definition handlerStmtDeclVariable :: str_actions where
  "handlerStmtDeclVariable = visitorStmtCallAfter (\<lambda>args.
     bindM (rv_join (arg args 2) '', '') (\<lambda>ds. ret (RVal (format ''var %s'' [FVal ds]))))"

definition handlerProgram :: str_actions where
  "handlerProgram = visitorCallUnary None (Some (\<lambda>args. rv_join (arg args 2) ''''))"

section \<open>The visitor\<close>

definition AstStringify :: "(stringify_opts, string) visitor" where
  "AstStringify = map_of
     [(''literal'', handlerLiteral), (''property'', handlerProperty),
      (''identifier'', handlerIdentifier), (''pattern'', handlerPattern),
      (''variableDeclarator'', handlerVariableDeclarator), (''catchClause'', handlerCatchClause),
      (''switchCase'', handlerSwitchCase),
      (''exprThis'', handlerExprThis), (''exprArray'', handlerExprArray),
      (''exprObject'', handlerExprObject), (''exprFunction'', handlerExprFunction),
      (''exprSequence'', handlerExprSequence), (''exprUnary'', handlerExprUnary),
      (''exprAssignment'', handlerExprAssignment), (''exprUpdate'', handlerExprUpdate),
      (''exprBinary'', handlerExprBinary), (''exprLogical'', handlerExprLogical),
      (''exprConditional'', handlerExprConditional), (''exprNew'', handlerExprNew),
      (''exprCall'', handlerExprCall), (''exprMember'', handlerExprMember),
      (''exprMetaQuazi'', handlerExprMetaQuazi), (''exprMetaExec'', handlerExprMetaExec),
      (''stmtEmpty'', handlerStmtEmpty), (''stmtBlock'', handlerStmtBlock),
      (''stmtExpr'', handlerStmtExpr), (''stmtIf'', handlerStmtIf),
      (''stmtLabeled'', handlerStmtLabeled), (''stmtBreak'', handlerStmtBreak),
      (''stmtContinue'', handlerStmtContinue), (''stmtSwitch'', handlerStmtSwitch),
      (''stmtReturn'', handlerStmtReturn), (''stmtThrow'', handlerStmtThrow),
      (''stmtTry'', handlerStmtTry), (''stmtWhile'', handlerStmtWhile),
      (''stmtDoWhile'', handlerStmtDoWhile), (''stmtFor'', handlerStmtFor),
      (''stmtForIn'', handlerStmtForIn), (''stmtDebugger'', handlerStmtDebugger),
      (''stmtDeclFunction'', handlerStmtDeclFunction),
      (''stmtDeclVariable'', handlerStmtDeclVariable),
      (''program'', handlerProgram)]"

section \<open>The tab counter stays non-negative\<close>

text \<open>
  Whatever value is passed as an AST, and also when the run throws, no handler leaves a negative
  tab counter: the assertions of \<open>tabs\<close> and \<open>raiseTabs\<close> never fail.
\<close>

lemma stringify_keeps [keep_intros]:
  "keeps (\<lambda>s. 0 \<le> tab s) raiseTabs" "keeps (\<lambda>s. 0 \<le> tab s) decrTabs" "keeps P tabs"
  "keeps P (rv_join r sep)" "keeps P (stringifyValue v q)" "keeps P (handlerFunction i ps b)"
  by (auto simp: keeps_def raiseTabs_def decrTabs_def tabs_def rv_join_def stringifyValue_def
      handlerFunction_def throw_def ret_def bindM_def split: rv.split jsval.split)

lemma whiteSpaces_keep [keep_intros]:
  "keeps P (f args) \<Longrightarrow> keeps P (whiteSpacesWrap f args)"
  "keeps P (f args) \<Longrightarrow> keeps P (whiteSpacesNotSemiWrap f args)"
  by (auto simp: whiteSpacesWrap_def whiteSpacesNotSemiWrap_def intro!: keep_intros)

lemma keep_stmt_objects [keep_intros]:
  "(\<And>args. keeps P (f args)) \<Longrightarrow> keep_actions P (visitorStmtCallAfter f)"
  "(\<And>args. keeps P (f args)) \<Longrightarrow> keep_actions P (visitorStmtNotSemiCallAfter f)"
  "(\<And>args. keeps P (f args)) \<Longrightarrow> keep_actions P (visitorStmtCallNullary f)"
  by (simp_all add: keep_actions_def visitorStmtCallAfter_def visitorStmtNotSemiCallAfter_def
        visitorStmtCallNullary_def whiteSpaces_keep)

lemmas handler_defs = handlerLiteral_def handlerIdentifier_def handlerPattern_def
  handlerExprThis_def handlerExprArray_def handlerExprObject_def
  handlerExprFunction_def handlerExprSequence_def handlerExprUnary_def handlerExprAssignment_def
  handlerExprUpdate_def handlerExprBinary_def handlerExprLogical_def handlerExprConditional_def
  handlerExprNew_def handlerExprCall_def handlerExprMember_def handlerExprMetaQuazi_def
  handlerExprMetaExec_def handlerGenExprUnaryExpr_def handlerExprBinaryLeftRight_def
  handlerProperty_def handlerVariableDeclarator_def handlerCatchClause_def handlerSwitchCase_def

lemmas handler_stmt_defs = handlerStmtEmpty_def handlerStmtBlock_def handlerStmtExpr_def handlerStmtIf_def
  handlerStmtLabeled_def handlerGenStmtUnaryIdent_def handlerStmtBreak_def
  handlerStmtContinue_def handlerStmtSwitch_def handlerStmtReturn_def handlerStmtThrow_def
  handlerStmtTry_def handlerStmtWhile_def handlerStmtDoWhile_def handlerStmtFor_def
  handlerStmtForIn_def handlerStmtDebugger_def handlerStmtDeclFunction_def
  handlerStmtDeclVariable_def

lemma AstStringify_handlers: "AstStringify ty = Some actions \<Longrightarrow> keep_actions (\<lambda>s. 0 \<le> tab s) actions"
  unfolding AstStringify_def
  by (erule keep_actions_table)
     (auto simp: handler_defs handler_stmt_defs handlerProgram_def Let_def simp del: format.simps
        intro!: keep_intros)

interpretation stringify: visitor_frame AstStringify "\<lambda>s. 0 \<le> tab s"
  by unfold_locales (rule AstStringify_handlers)

section \<open>The uses\<close>

text \<open>The two uses: the text of a whole program, and the text of the node a popover shows.\<close>

definition stringifyProgram :: "jsval \<Rightarrow> (jserr + str_rv)" where
  "stringifyProgram ast = fst (trvsProgram AstStringify ast CreateStringifyOptions)"

definition stringifyNode :: "jsval \<Rightarrow> (jserr + str_rv)" where
  "stringifyNode astNode = fst (trvsUnknown AstStringify astNode CreateStringifyOptions)"

end
