(* ===== verification/Ast_Print.thy ===== *)
theory Ast_Print
  imports Ast_Stringify
begin

text \<open>
  A printer of syntax trees by structural recursion, with the indentation depth as an
  argument instead of a mutable counter and no visitor: the specification of the text
  \<open>Ast_Stringify\<close> produces, and the refinement of the code to it. An expression prints as
  \<open>None\<close> where the code's result is null, which every enclosing construct drops.
\<close>

section \<open>The printer\<close>

definition otxt :: "string option \<Rightarrow> string" where
  "otxt v = (case v of None \<Rightarrow> '''' | Some s \<Rightarrow> s)"

definition otxt_or :: "string \<Rightarrow> string option \<Rightarrow> string" where
  "otxt_or def v = (if otxt v = '''' then def else otxt v)"

definition pp_line :: "nat \<Rightarrow> string \<Rightarrow> string" where
  "pp_line d s = replicate d TAB @ s @ '';'' @ [NL]"

definition pp_block :: "nat \<Rightarrow> string list \<Rightarrow> string" where
  "pp_block d ss = ''{'' @ [NL] @ concat ss @ replicate d TAB @ ''}''"

definition pp_function :: "string \<Rightarrow> string list \<Rightarrow> string \<Rightarrow> string" where
  "pp_function n ps body =
     ''function'' @ (if n = '''' then '''' else '' '' @ n) @ ''('' @ join '','' ps @ '') '' @ body"

primrec pp_lit :: "lit \<Rightarrow> string option" where
  "pp_lit (LStr s) = Some ([QUOTE] @ s @ [QUOTE])"
| "pp_lit (LBool b) = Some (if b then ''true'' else ''false'')"
| "pp_lit LNull = None"
| "pp_lit (LNum n) = Some (show_int n)"
| "pp_lit (LRegExp s) = Some s"

primrec pp_key :: "pkey \<Rightarrow> string option" where
  "pp_key (KeyLiteral l) = pp_lit l"
| "pp_key (KeyIdentifier n) = Some n"

definition pp_infix :: "string \<Rightarrow> string option \<Rightarrow> string option \<Rightarrow> string" where
  "pp_infix op l r = ''('' @ otxt l @ '' '' @ op @ '' '' @ otxt r @ '')''"

definition pp_affix :: "string \<Rightarrow> string \<Rightarrow> bool \<Rightarrow> string option \<Rightarrow> string" where
  "pp_affix space op pre e = (if pre then op @ space @ otxt e else otxt e @ space @ op)"

definition pp_declaration :: "nat \<Rightarrow> string list \<Rightarrow> string" where
  "pp_declaration d ds = pp_line d (''var '' @ join '', '' ds)"

primrec pp_expr :: "expr \<Rightarrow> nat \<Rightarrow> string option"
  and pp_property :: "property \<Rightarrow> nat \<Rightarrow> string"
  and pp_declarator :: "declarator \<Rightarrow> nat \<Rightarrow> string"
  and pp_case :: "switchcase \<Rightarrow> nat \<Rightarrow> string"
  and pp_catch :: "catchclause \<Rightarrow> nat \<Rightarrow> string"
  and pp_init :: "forinit \<Rightarrow> nat \<Rightarrow> string option"
  and pp_stmt :: "stmt \<Rightarrow> nat \<Rightarrow> string" where
  "pp_expr (Literal l) d = pp_lit l"
| "pp_expr (Identifier n) d = Some n"
| "pp_expr ThisExpression d = Some ''this''"
| "pp_expr (ArrayExpression es) d = Some (if es = [] then ''[]''
     else ''[ '' @ join '', '' (map (\<lambda>e. otxt (pp_expr e d)) es) @ '' ]'')"
| "pp_expr (ObjectExpression ps) d =
     Some (''{ '' @ join '', '' (map (\<lambda>p. pp_property p d) ps) @ '' }'')"
| "pp_expr (FunctionExpression n ps body) d =
     Some (pp_function (otxt n) ps (pp_block d (map (\<lambda>s. pp_stmt s (Suc d)) body)))"
| "pp_expr (SequenceExpression es) d = Some (join '', '' (map (\<lambda>e. otxt (pp_expr e d)) es))"
| "pp_expr (UnaryExpression op pre e) d = Some (pp_affix '' '' op pre (pp_expr e d))"
| "pp_expr (BinaryExpression op l r) d = Some (pp_infix op (pp_expr l d) (pp_expr r d))"
| "pp_expr (AssignmentExpression op l r) d = Some (pp_infix op (pp_expr l d) (pp_expr r d))"
| "pp_expr (UpdateExpression op pre e) d = Some (pp_affix '''' op pre (pp_expr e d))"
| "pp_expr (LogicalExpression op l r) d = Some (pp_infix op (pp_expr l d) (pp_expr r d))"
| "pp_expr (ConditionalExpression t c a) d =
     Some (otxt (pp_expr t d) @ '' ? '' @ otxt (pp_expr a d) @ '' : '' @ otxt (pp_expr c d))"
| "pp_expr (NewExpression f es) d = Some (''new '' @ otxt (pp_expr f d) @
     ''('' @ join '','' (map (\<lambda>e. otxt (pp_expr e d)) es) @ '')'')"
| "pp_expr (CallExpression f es) d = Some (otxt (pp_expr f d) @
     ''('' @ join '','' (map (\<lambda>e. otxt (pp_expr e d)) es) @ '')'')"
| "pp_expr (MemberExpression e p computed) d = Some (otxt (pp_expr e d) @
     (if computed then ''['' @ otxt (pp_expr p d) @ '']'' else ''.'' @ otxt (pp_expr p d)))"
| "pp_expr (MetaQuaziStatement ss) d = Some (''.< '' @ concat (map (\<lambda>s. pp_stmt s d) ss) @ '' >.'')"
| "pp_expr (MetaExecStatement s) d = Some (''.& { '' @ pp_stmt s d @ '' }'')"
| "pp_property (Property k e) d = otxt (pp_key k) @ '': '' @ otxt (pp_expr e d)"
| "pp_declarator (VariableDeclarator n e) d = n @
     (case map_option (\<lambda>e. otxt (pp_expr e d)) e of None \<Rightarrow> ''''
      | Some s \<Rightarrow> if s = '''' then '''' else '' = '' @ s)"
| "pp_case (SwitchCase t ss) d = replicate d TAB @
     otxt_or ''default'' (map_option (\<lambda>e. otxt (pp_expr e d)) t) @ '': '' @
     concat (map (\<lambda>s. pp_stmt s d) ss) @ [NL]"
| "pp_catch (CatchClause p g ss) d =
     ''catch('' @ p @ '') '' @ pp_block d (map (\<lambda>s. pp_stmt s (Suc d)) ss)"
| "pp_init (InitDecl ds) d = Some (pp_declaration d (map (\<lambda>x. pp_declarator x d) ds))"
| "pp_init (InitExpr e) d = pp_expr e d"
| "pp_stmt EmptyStatement d = pp_line d ''''"
| "pp_stmt (BlockStatement ss) d = pp_block d (map (\<lambda>s. pp_stmt s (Suc d)) ss)"
| "pp_stmt (ExpressionStatement e) d = pp_line d (otxt (pp_expr e d))"
| "pp_stmt (IfStatement t c a) d = replicate d TAB @ ''if('' @ otxt (pp_expr t d) @ '') '' @
     pp_stmt c d @ (case map_option (\<lambda>s. pp_stmt s d) a of None \<Rightarrow> '''' | Some s \<Rightarrow> ''else '' @ s) @ [NL]"
| "pp_stmt (LabeledStatement l s) d = l @ '': '' @ [NL] @ pp_stmt s d"
| "pp_stmt (BreakStatement l) d = pp_line d ''break''"
| "pp_stmt (ContinueStatement l) d = pp_line d ''continue''"
| "pp_stmt (SwitchStatement e cs) d = pp_line d (''switch('' @ otxt (pp_expr e (Suc d)) @ '') '' @
     pp_block d (map (\<lambda>c. pp_case c (Suc d)) cs))"
| "pp_stmt (ReturnStatement e) d =
     pp_line d (''return '' @ otxt (map_option (\<lambda>e. otxt (pp_expr e d)) e))"
| "pp_stmt (ThrowStatement e) d = pp_line d (''throw '' @ otxt (pp_expr e d))"
| "pp_stmt (TryStatement b h f) d =
     pp_line d (''try '' @ pp_block d (map (\<lambda>s. pp_stmt s (Suc d)) b) @ '' '' @
       otxt (map_option (\<lambda>h. pp_catch h d) h))"
| "pp_stmt (WhileStatement e s) d = pp_line d (''while('' @ otxt (pp_expr e d) @ '') '' @ pp_stmt s d)"
| "pp_stmt (DoWhileStatement e s) d = ''Do While''"
| "pp_stmt (ForStatement i t u s) d =
     pp_line d (''for('' @ otxt (map_option (\<lambda>i. otxt (pp_init i d)) i) @ '';'' @
       otxt (map_option (\<lambda>e. otxt (pp_expr e d)) t) @ '';'' @
       otxt (map_option (\<lambda>e. otxt (pp_expr e d)) u) @ '') '' @ pp_stmt s d)"
| "pp_stmt (ForInStatement i e s) d =
     pp_line d (''for('' @ otxt (pp_init i d) @ '' in '' @ otxt (pp_expr e d) @ '') '' @ pp_stmt s d)"
| "pp_stmt DebuggerStatement d = pp_line d ''debugger''"
| "pp_stmt (FunctionDeclaration n ps body) d =
     pp_line d (pp_function n ps (pp_block d (map (\<lambda>s. pp_stmt s (Suc d)) body)))"
| "pp_stmt (VariableDeclaration ds) d = pp_declaration d (map (\<lambda>x. pp_declarator x d) ds)"

definition pp_program :: "stmt list \<Rightarrow> string" where
  "pp_program ss = concat (map (\<lambda>s. pp_stmt s 0) ss)"

section \<open>The handlers, evaluated\<close>

named_theorems str_simps \<open>the stringify visitor at each kind of node\<close>

lemma call_AstStringify:
  "trvsCallVisitor AstStringify ty action args =
     (case Option.bind (AstStringify ty) (\<lambda>tv. tv action) of None \<Rightarrow> ret RUndef | Some f \<Rightarrow> f args)"
  by (simp add: trvsCallVisitor_def split: option.splits)

lemma AstStringify_variants [str_simps]:
  "AstStringify ''literal'' = Some handlerLiteral"
  "AstStringify ''property'' = Some handlerProperty"
  "AstStringify ''identifier'' = Some handlerIdentifier"
  "AstStringify ''pattern'' = Some handlerPattern"
  "AstStringify ''variableDeclarator'' = Some handlerVariableDeclarator"
  "AstStringify ''catchClause'' = Some handlerCatchClause"
  "AstStringify ''switchCase'' = Some handlerSwitchCase"
  "AstStringify ''program'' = Some handlerProgram"
  by (simp_all add: AstStringify_def)

lemma AstStringify_exprs [str_simps]:
  "AstStringify ''exprThis'' = Some handlerExprThis"
  "AstStringify ''exprArray'' = Some handlerExprArray"
  "AstStringify ''exprObject'' = Some handlerExprObject"
  "AstStringify ''exprFunction'' = Some handlerExprFunction"
  "AstStringify ''exprSequence'' = Some handlerExprSequence"
  "AstStringify ''exprUnary'' = Some handlerExprUnary"
  "AstStringify ''exprAssignment'' = Some handlerExprAssignment"
  "AstStringify ''exprUpdate'' = Some handlerExprUpdate"
  "AstStringify ''exprBinary'' = Some handlerExprBinary"
  "AstStringify ''exprLogical'' = Some handlerExprLogical"
  "AstStringify ''exprConditional'' = Some handlerExprConditional"
  "AstStringify ''exprNew'' = Some handlerExprNew"
  "AstStringify ''exprCall'' = Some handlerExprCall"
  "AstStringify ''exprMember'' = Some handlerExprMember"
  "AstStringify ''exprMetaQuazi'' = Some handlerExprMetaQuazi"
  "AstStringify ''exprMetaExec'' = Some handlerExprMetaExec"
  by (simp_all add: AstStringify_def)

lemma AstStringify_stmts [str_simps]:
  "AstStringify ''stmtEmpty'' = Some handlerStmtEmpty"
  "AstStringify ''stmtBlock'' = Some handlerStmtBlock"
  "AstStringify ''stmtExpr'' = Some handlerStmtExpr"
  "AstStringify ''stmtIf'' = Some handlerStmtIf"
  "AstStringify ''stmtLabeled'' = Some handlerStmtLabeled"
  "AstStringify ''stmtBreak'' = Some handlerStmtBreak"
  "AstStringify ''stmtContinue'' = Some handlerStmtContinue"
  "AstStringify ''stmtSwitch'' = Some handlerStmtSwitch"
  "AstStringify ''stmtReturn'' = Some handlerStmtReturn"
  "AstStringify ''stmtThrow'' = Some handlerStmtThrow"
  "AstStringify ''stmtTry'' = Some handlerStmtTry"
  "AstStringify ''stmtWhile'' = Some handlerStmtWhile"
  "AstStringify ''stmtDoWhile'' = Some handlerStmtDoWhile"
  "AstStringify ''stmtFor'' = Some handlerStmtFor"
  "AstStringify ''stmtForIn'' = Some handlerStmtForIn"
  "AstStringify ''stmtDebugger'' = Some handlerStmtDebugger"
  "AstStringify ''stmtDeclFunction'' = Some handlerStmtDeclFunction"
  "AstStringify ''stmtDeclVariable'' = Some handlerStmtDeclVariable"
  by (simp_all add: AstStringify_def)

section \<open>The refinement\<close>

definition ops :: "nat \<Rightarrow> stringify_opts" where
  "ops d = \<lparr>tab = int d\<rparr>"

definition ov :: "string option \<Rightarrow> str_rv" where
  "ov v = (case v of None \<Rightarrow> RNull | Some s \<Rightarrow> RVal s)"

lemma raiseTabs_ops [str_simps]: "raiseTabs (ops d) = (Inr (int (Suc d)), ops (Suc d))"
  by (simp add: raiseTabs_def ops_def)

lemma decrTabs_ops [str_simps]: "decrTabs (ops (Suc d)) = (Inr (int d), ops d)"
  by (simp add: decrTabs_def ops_def)

lemma tabs_ops [str_simps]: "tabs (ops d) = (Inr (int d), ops d)"
  by (simp add: tabs_def ops_def)

lemma ov_simps [simp]: "ov None = RNull" "ov (Some s) = RVal s"
  by (simp_all add: ov_def)

lemma join_empty [str_simps]: "join '''' ss = concat ss"
  by (induction "''''::string" ss rule: join.induct) auto

lemma nextArg_Cons [str_simps]: "nextArg (a # as) = a"
  by (simp add: nextArg_def)

lemma otxt_simps [simp]: "otxt None = ''''" "otxt (Some s) = s"
  by (simp_all add: otxt_def)

lemma ov_observed [str_simps]:
  "format_s (FVal (ov v)) = otxt v" "rv_text (ov v) = otxt v" "truthy (ov v) \<longleftrightarrow> otxt v \<noteq> ''''"
  by (cases v; simp add: truthy_def)+

lemma visits_prints:
  assumes "\<And>x. x \<in> set xs \<Longrightarrow> f x (ops d) = (Inr (g x), ops d)"
  shows "visits (map f xs) (ops d) = (Inr (RList (map g xs)), ops d)"
  using seqM_Inr [of xs f "ops d" g, OF assms] by (simp add: visits_def run_simps)

lemma lit_prints [str_simps]: "visit_lit AstStringify l (ops d) = (Inr (ov (pp_lit l)), ops d)"
  by (cases l) (simp_all add: visit_lit_def call_AstStringify str_simps handlerLiteral_def
      visitorCallNullary_def arg_def stringifyValue_def run_simps)

lemma ident_prints [str_simps]: "visit_ident AstStringify n (ops d) = (Inr (RVal n), ops d)"
  by (simp add: visit_ident_def call_AstStringify str_simps handlerIdentifier_def
      visitorCallNullary_def arg_def stringifyValue_def run_simps)

lemma pattern_prints [str_simps]: "visit_pattern AstStringify n (ops d) = (Inr (RVal n), ops d)"
  by (simp add: visit_pattern_def call_AstStringify str_simps handlerPattern_def
      visitorCallNullary_def arg_def stringifyValue_def run_simps)

lemma key_prints [str_simps]: "visit_key AstStringify k (ops d) = (Inr (ov (pp_key k)), ops d)"
  by (cases k) (simp_all add: str_simps attempt_def tryCatch_def)

lemma visitor_stmt_calls [visitor_simps]:
  "visitorStmtCallAfter f ''after'' = Some (whiteSpacesWrap f)"
  "action \<noteq> ''after'' \<Longrightarrow> visitorStmtCallAfter f action = None"
  "visitorStmtNotSemiCallAfter f ''after'' = Some (whiteSpacesNotSemiWrap f)"
  "action \<noteq> ''after'' \<Longrightarrow> visitorStmtNotSemiCallAfter f action = None"
  "visitorStmtCallNullary f ''single'' = Some (whiteSpacesWrap f)"
  by (simp_all add: visitorStmtCallAfter_def visitorStmtNotSemiCallAfter_def
      visitorStmtCallNullary_def)

lemma block_prints:
  assumes "\<And>s. s \<in> set ss \<Longrightarrow> f s (ops (Suc d)) = (Inr (RVal (g s)), ops (Suc d))"
  shows "visit_block AstStringify vs (map f ss) (ops d) = (Inr (RVal (pp_block d (map g ss))), ops d)"
proof -
  have "visits (map f ss) (ops (Suc d)) = (Inr (RList (map (\<lambda>s. RVal (g s)) ss)), ops (Suc d))"
    using assms by (rule visits_prints)
  then show ?thesis
    by (simp add: visit_block_def call_AstStringify str_simps visitor_simps handlerStmtBlock_def bindM_def ret_def
        arg_def rv_join_def pp_block_def o_def)
qed

lemma truthy_simps:
  "\<not> truthy RNull" "\<not> truthy RUndef" "truthy (RVal s) \<longleftrightarrow> s \<noteq> []" "truthy (RList rs)"
  "truthy (RNode (JBool b)) \<longleftrightarrow> b"
  by (simp_all add: truthy_def js_truthy_def)

lemma pp_stmt_nonempty [simp]: "pp_stmt s d \<noteq> []"
  by (cases s) (simp_all add: pp_line_def pp_block_def pp_declaration_def)

lemma otxt_or_simps [simp]: "otxt_or def None = def" "otxt_or def (Some s) = (if s = [] then def else s)"
  by (simp_all add: otxt_or_def)

text \<open>Lists of children, and optional children, that print as the printer says.\<close>

lemma opt_prints:
  assumes "\<And>x. v = Some x \<Longrightarrow> f x (ops d) = (Inr (g x), ops d)"
  shows "visit_opt (map_option f v) (ops d) =
    (Inr (case v of None \<Rightarrow> RNull | Some x \<Rightarrow> g x), ops d)"
  using assms by (cases v) (simp_all add: visit_opt_def run_simps)

lemmas child_lists =
  visits_prints [where f = "visit_expr AstStringify" and g = "\<lambda>e. ov (pp_expr e d)" and d = d for d]
  visits_prints [where f = "visit_property AstStringify" and g = "\<lambda>p. RVal (pp_property p d)" and d = d for d]
  visits_prints [where f = "visit_declarator AstStringify" and g = "\<lambda>v. RVal (pp_declarator v d)" and d = d for d]
  visits_prints [where f = "visit_case AstStringify" and g = "\<lambda>c. RVal (pp_case c d)" and d = d for d]
  visits_prints [where f = "visit_stmt AstStringify" and g = "\<lambda>s. RVal (pp_stmt s d)" and d = d for d]
  visits_prints [where f = "visit_pattern AstStringify" and g = "\<lambda>n. RVal n" and d = d for d]
  block_prints [where f = "visit_stmt AstStringify" and g = "\<lambda>s. pp_stmt s (Suc d)" and d = d for d]

lemmas child_opts =
  opt_prints [where f = "visit_expr AstStringify" and g = "\<lambda>e. ov (pp_expr e d)" and d = d for d]
  opt_prints [where f = "visit_stmt AstStringify" and g = "\<lambda>s. RVal (pp_stmt s d)" and d = d for d]
  opt_prints [where f = "visit_catch AstStringify" and g = "\<lambda>h. RVal (pp_catch h d)" and d = d for d]
  opt_prints [where f = "visit_init AstStringify" and g = "\<lambda>i. ov (pp_init i d)" and d = d for d]
  opt_prints [where f = "visit_ident AstStringify" and g = "\<lambda>n. RVal n" and d = d for d]

lemmas print_run = call_AstStringify str_simps visitor_simps bindM_def ret_app arg_def argNode_def rv_join_def
  whiteSpacesWrap_def whiteSpacesNotSemiWrap_def visit_shapes attempt_def enc_simps
  o_def tryCatch_def pp_line_def truthy_simps child_lists child_opts

lemmas pp_defs = pp_infix_def pp_affix_def pp_function_def pp_declaration_def pp_block_def
  handlerFunction_def

lemma visit_prints:
  "visit_expr AstStringify e (ops d) = (Inr (ov (pp_expr e d)), ops d)"
  "visit_property AstStringify p (ops d) = (Inr (RVal (pp_property p d)), ops d)"
  "visit_declarator AstStringify v (ops d) = (Inr (RVal (pp_declarator v d)), ops d)"
  "visit_case AstStringify c (ops d) = (Inr (RVal (pp_case c d)), ops d)"
  "visit_catch AstStringify h (ops d) = (Inr (RVal (pp_catch h d)), ops d)"
  "visit_init AstStringify i (ops d) = (Inr (ov (pp_init i d)), ops d)"
  "visit_stmt AstStringify s (ops d) = (Inr (RVal (pp_stmt s d)), ops d)"
  by (induction e and p and v and c and h and i and s arbitrary: d and d and d and d and d and d and d)
     (simp_all add: print_run handler_defs handler_stmt_defs pp_defs split: option.splits)

section \<open>Properties\<close>

lemma ops_0: "CreateStringifyOptions = ops 0"
  by (simp add: CreateStringifyOptions_def ops_def)

lemma stringify_run:
  "trvsProgram AstStringify (enc_program ss) (ops d) =
     (Inr (RVal (concat (map (\<lambda>s. pp_stmt s d) ss))), ops d)"
  using visits_prints [where f = "visit_stmt AstStringify" and g = "\<lambda>s. RVal (pp_stmt s d)", OF visit_prints(7)]
  by (simp add: program_is_visit visit_program_def call_AstStringify str_simps visitor_simps
      handlerProgram_def bindM_def ret_app arg_def rv_join_def o_def)

lemma stringifyNode_syntax:
  "stringifyNode (enc_expr e) = Inr (ov (pp_expr e 0))"
  "stringifyNode (enc_stmt s) = Inr (RVal (pp_stmt s 0))"
  by (simp_all add: stringifyNode_def unknown_is_visit ops_0 visit_prints)

text \<open>
  C2: Stringifying a program gives exactly the text of the structural printer, for every syntax
  tree: no handler throws, and the counter of tabs is back at its initial value afterwards.
\<close>

theorem stringify_program:
  "trvsProgram AstStringify (enc_program ss) CreateStringifyOptions =
     (Inr (RVal (pp_program ss)), CreateStringifyOptions)"
  unfolding ops_0 by (simp add: stringify_run pp_program_def)

text \<open>
  The text shown for a single node is the printer's text of that expression or statement at
  depth 0, and null for the null literal.
\<close>

theorem stringify_node:
  "stringifyNode (enc_expr e) = Inr (case pp_expr e 0 of None \<Rightarrow> RNull | Some s \<Rightarrow> RVal s) \<and>
   stringifyNode (enc_stmt s) = Inr (RVal (pp_stmt s 0))"
  by (simp add: stringifyNode_syntax ov_def)

text \<open>
  The printed text does not determine the program. The finally block of a try statement, the
  labels of break and continue, the guard of a catch clause and both parts of a do-while loop
  leave no trace in it.
\<close>

theorem stringify_forgets:
  "stringifyProgram (enc_program [TryStatement b h f]) = stringifyProgram (enc_program [TryStatement b h f']) \<and>
   stringifyProgram (enc_program [BreakStatement l]) = stringifyProgram (enc_program [BreakStatement l']) \<and>
   stringifyProgram (enc_program [ContinueStatement l]) = stringifyProgram (enc_program [ContinueStatement l']) \<and>
   stringifyProgram (enc_program [TryStatement b (Some (CatchClause p g ss)) f]) =
     stringifyProgram (enc_program [TryStatement b (Some (CatchClause p g' ss)) f]) \<and>
   stringifyProgram (enc_program [DoWhileStatement e s]) = stringifyProgram (enc_program [DoWhileStatement e' s'])"
  by (simp add: stringifyProgram_def ops_0 stringify_run)

text \<open>
  The printed conditional expression has its two branches swapped: the text of
  \<open>t ? c : a\<close> is the one a correct printer gives for \<open>t ? a : c\<close>.
\<close>

lemma stringify_conditional:
  "stringifyNode (enc_expr (ConditionalExpression t c a)) =
     Inr (RVal (otxt (pp_expr t 0) @ '' ? '' @ otxt (pp_expr a 0) @ '' : '' @ otxt (pp_expr c 0)))"
  unfolding stringifyNode_syntax by simp

text \<open>
  Whatever value is stringified, well-formed or not, and also when the run throws, the tab
  counter is not negative afterwards: the assertions that guard it never fail.
\<close>

theorem stringify_tabs:
  assumes "0 \<le> tab s"
  shows "0 \<le> tab (snd (trvsUnknown AstStringify v s))"
  using stringify.unknown_keeps assms by (simp add: keeps_def)

lemma stringify_tabs_witness:
  "0 \<le> tab (snd (trvsUnknown AstStringify
     (node ''BlockStatement'' [(''body'', JArr [JNull])]) \<lparr>tab = 2\<rparr>))"
  by (rule stringify_tabs) simp

end
