(* ===== verification/Ast_TreeView.thy ===== *)
theory Ast_TreeView
  imports Ast_Visitor
begin

text \<open>
  The visitor that builds the tree the visualiser draws, \<open>Ast/asttreeview.js\<close>: the allocation of
  tree nodes with their unique ids and parent links, the two walks over a built tree, one
  definition per handler, and the visitor table.

  Tree nodes are mutable objects that handlers pass around by reference: the state is a store
  from addresses to nodes. \<open>CreateTreeNode\<close> takes one id per object it creates, so the counter of
  \<open>getNextUniqueNodeId\<close> also serves as the address of the new object. The html of a node is a
  jQuery object, kept as its class and the name shown in it.
\<close>

section \<open>Nodes and the state\<close>

datatype item = Item (item_class: string) (item_name: string)

datatype view_obj = TreeNode nat | Tree nat

type_synonym view_rv = "view_obj rv"

record tree_node =
  astNode :: jsval
  item :: item
  children :: "view_rv list option"
  parent :: "nat option"
  node_id :: string
  isLeaf :: bool

record view_state =
  currId :: nat
  store :: "nat \<rightharpoonup> tree_node"

type_synonym view_handler = "(view_state, view_obj) handler"
type_synonym view_actions = "string \<rightharpoonup> view_handler"

section \<open>View generators\<close>

text \<open>\<open>name || ''\<close>: the name null prints as the empty one.\<close>

definition genNodeWithMenuGenerator :: "string \<Rightarrow> string option \<Rightarrow> item" where
  "genNodeWithMenuGenerator className name =
     Item className (case name of None \<Rightarrow> '''' | Some n \<Rightarrow> n)"

definition genExpr :: "string \<Rightarrow> item" where
  "genExpr name = genNodeWithMenuGenerator ''btn btn-xs asttree-node asttree-node-expr'' (Some name)"

definition genStmt :: "string \<Rightarrow> item" where
  "genStmt name = genNodeWithMenuGenerator ''btn btn-xs asttree-node asttree-node-stmt'' (Some name)"

definition genList :: "string \<Rightarrow> item" where
  "genList name = genNodeWithMenuGenerator ''btn btn-xs asttree-node asttree-node-list'' (Some name)"

definition genVar :: "string \<Rightarrow> item" where
  "genVar name = genNodeWithMenuGenerator ''btn btn-xs asttree-node asttree-node-var'' (Some name)"

definition genVariant :: "string \<Rightarrow> item" where
  "genVariant name = genNodeWithMenuGenerator ''btn btn-xs asttree-node asttree-node-variant'' (Some name)"

definition genSingleVal :: "string option \<Rightarrow> item" where
  "genSingleVal = genNodeWithMenuGenerator ''btn btn-xs asttree-node asttree-node-singleval''"

section \<open>Utilities\<close>

definition rv_isEmpty :: "view_rv \<Rightarrow> bool" where
  "rv_isEmpty r = (case r of RUndef \<Rightarrow> True | RNull \<Rightarrow> True | RNode v \<Rightarrow> us_isEmpty v
     | RVal _ \<Rightarrow> False | RList rs \<Rightarrow> rs = [])"

definition rv_truthy :: "view_rv \<Rightarrow> bool" where
  "rv_truthy r = (case r of RUndef \<Rightarrow> False | RNull \<Rightarrow> False | RNode v \<Rightarrow> js_truthy v
     | RVal _ \<Rightarrow> True | RList _ \<Rightarrow> True)"

text \<open>
  The arguments the code iterates over include the list itself; every caller passes a new
  empty list, which is skipped like any empty argument.
\<close>

definition pushIfNotEmpty :: "view_rv list \<Rightarrow> view_rv list" where
  "pushIfNotEmpty args = filter (\<lambda>a. \<not> rv_isEmpty a) args"

fun rv_string :: "view_rv \<Rightarrow> string" where
  "rv_string RUndef = ''''"
| "rv_string RNull = ''''"
| "rv_string (RNode v) = (if v = JUndef \<or> v = JNull then '''' else to_str v)"
| "rv_string (RVal _) = ''[object Object]''"
| "rv_string (RList rs) = join '','' (map rv_string rs)"

definition stringifyValue_view :: "view_rv \<Rightarrow> (view_state, string option) jsm" where
  "stringifyValue_view val = (case val of
       RUndef \<Rightarrow> throw ASTTreeViewException
     | RNode JUndef \<Rightarrow> throw ASTTreeViewException
     | RNull \<Rightarrow> ret None
     | RNode JNull \<Rightarrow> ret None
     | RNode (JBool b) \<Rightarrow> ret (Some (if b then ''true'' else ''false''))
     | RNode v \<Rightarrow> ret (Some (to_str v))
     | r \<Rightarrow> ret (Some (rv_string r)))"

section \<open>Tree structure\<close>

definition node_id_of :: "nat \<Rightarrow> string" where
  "node_id_of n = ''treeid_'' @ show_nat n"

definition getNextUniqueNodeId :: "(view_state, nat) jsm" where
  "getNextUniqueNodeId s = (Inr (currId s + 1), s\<lparr>currId := currId s + 1\<rparr>)"

text \<open>\<open>child.parent = treeNode\<close> for every child.\<close>

fun setParent :: "nat \<Rightarrow> view_rv \<Rightarrow> (nat \<rightharpoonup> tree_node) \<Rightarrow> (nat \<rightharpoonup> tree_node)" where
  "setParent p (RVal (TreeNode c)) st =
     (case st c of None \<Rightarrow> st | Some nd \<Rightarrow> st(c \<mapsto> nd\<lparr>parent := Some p\<rparr>))"
| "setParent p _ st = st"

text \<open>
  The children are a list of results or are left out; null counts as left out.
\<close>

definition CreateTreeNode :: "view_rv \<Rightarrow> item \<Rightarrow> view_rv list option \<Rightarrow> (view_state, view_rv) jsm" where
  "CreateTreeNode ast itm childs =
     bindM (guardM (case childs of None \<Rightarrow> True | Some cs \<Rightarrow> list_all (\<lambda>c. \<not> rv_isEmpty c) cs)
              ASTTreeViewException) (\<lambda>_.
     bindM (guardM (rv_truthy ast) ASTTreeViewException) (\<lambda>_.
     bindM getNextUniqueNodeId (\<lambda>n s.
       let treeNode = \<lparr>astNode = (case ast of RNode v \<Rightarrow> v | _ \<Rightarrow> JUndef), item = itm,
             children = childs, parent = None, node_id = node_id_of n,
             isLeaf = (case childs of None \<Rightarrow> True | Some cs \<Rightarrow> cs = [])\<rparr>
       in (Inr (RVal (TreeNode n)),
           s\<lparr>store := fold (setParent n) (case childs of None \<Rightarrow> [] | Some cs \<Rightarrow> cs)
                        ((store s)(n \<mapsto> treeNode))\<rparr>))))"

text \<open>A list result used as children; null and undefined are no children.\<close>

definition childrenOf :: "view_rv \<Rightarrow> view_rv list option" where
  "childrenOf r = (case r of RList rs \<Rightarrow> Some rs | _ \<Rightarrow> None)"

text \<open>
  The walks of \<open>CreateTree\<close>: the nodes the applier is called with, in order. A store may hold
  cycles, on which the code would not return: fuel bounds the depth of the recursion.
\<close>

fun childAddresses :: "view_rv list \<Rightarrow> nat list option" where
  "childAddresses [] = Some []"
| "childAddresses (RVal (TreeNode c) # rs) = map_option (Cons c) (childAddresses rs)"
| "childAddresses (_ # rs) = None"

primrec topDownVisitor :: "nat \<Rightarrow> (nat \<rightharpoonup> tree_node) \<Rightarrow> nat \<Rightarrow> nat list option" where
  "topDownVisitor 0 st a = None"
| "topDownVisitor (Suc f) st a =
     Option.bind (st a) (\<lambda>nd.
     Option.bind (childAddresses (case children nd of None \<Rightarrow> [] | Some cs \<Rightarrow> cs)) (\<lambda>cs.
     map_option (\<lambda>tss. a # concat tss) (those (map (topDownVisitor f st) cs))))"

text \<open>
  From a node to the root, not including the node. A node without a parent that is not the root
  makes the code read \<open>undefined.parent\<close>, after the applier got that undefined.
\<close>

primrec ancestors :: "nat \<Rightarrow> (nat \<rightharpoonup> tree_node) \<Rightarrow> nat \<Rightarrow> nat \<Rightarrow> (jserr + nat list) option" where
  "ancestors 0 st root a = None"
| "ancestors (Suc f) st root a = (case st a of None \<Rightarrow> Some (Inl TypeError)
     | Some nd \<Rightarrow> (case parent nd of None \<Rightarrow> Some (Inl TypeError)
        | Some p \<Rightarrow> if p = root then Some (Inr [p])
                   else map_option (map_sum id (Cons p)) (ancestors f st root p)))"

definition parentToRootVisitor ::
    "nat \<Rightarrow> (nat \<rightharpoonup> tree_node) \<Rightarrow> nat \<Rightarrow> nat \<Rightarrow> (jserr + nat list) option" where
  "parentToRootVisitor f st root target =
     (if target = root then Some (Inr []) else ancestors f st root target)"

section \<open>Variants\<close>

definition handlerFunction_view ::
    "view_rv list \<Rightarrow> item \<Rightarrow> view_rv \<Rightarrow> view_rv \<Rightarrow> view_rv \<Rightarrow> (view_state, view_rv) jsm" where
  "handlerFunction_view args root i params body =
     bindM (CreateTreeNode (RNode (fld (argNode args) ''params'')) (genList ''Args'') (childrenOf params))
       (\<lambda>paramsNode.
     CreateTreeNode (arg args 0) root (Some (pushIfNotEmpty [i, paramsNode, body])))"

definition handlerLiteral_view :: view_actions where
  "handlerLiteral_view = visitorCallNullary (\<lambda>args.
     bindM (stringifyValue_view (arg args 1)) (\<lambda>name.
     CreateTreeNode (arg args 0) (genSingleVal name) None))"

definition handlerProperty_view :: view_actions where
  "handlerProperty_view = visitorCallAfter (\<lambda>args.
     CreateTreeNode (arg args 0) (genVariant ''Property'') (Some [arg args 2, arg args 4]))"

definition handlerIdentifier_view :: view_actions where
  "handlerIdentifier_view = visitorCallNullary (\<lambda>args.
     bindM (stringifyValue_view (arg args 1)) (\<lambda>name.
     CreateTreeNode (arg args 0) (genSingleVal name) None))"

definition handlerPattern_view :: view_actions where
  "handlerPattern_view = visitorCallNullary (\<lambda>args.
     bindM (stringifyValue_view (arg args 2)) (\<lambda>name.
     CreateTreeNode (arg args 0) (genSingleVal name) None))"

definition handlerVariableDeclarator_view :: view_actions where
  "handlerVariableDeclarator_view = visitorCallAfter (\<lambda>args.
     CreateTreeNode (arg args 0) (genVar ''var'') (Some (pushIfNotEmpty [arg args 2, arg args 4])))"

definition handlerCatchClause_view :: view_actions where
  "handlerCatchClause_view = visitorCallAfter (\<lambda>args.
     CreateTreeNode (arg args 0) (genVariant ''Catch'')
       (Some (pushIfNotEmpty [arg args 2, arg args 4, arg args 6])))"

definition handlerSwitchCase_view :: view_actions where
  "handlerSwitchCase_view = visitorCallAfter (\<lambda>args.
     bindM (CreateTreeNode (RNode (fld (argNode args) ''consequent'')) (genList ''consequent'')
              (childrenOf (arg args 4))) (\<lambda>consequentNode.
     CreateTreeNode (arg args 0) (genVariant ''Case'')
       (Some (pushIfNotEmpty [arg args 2, consequentNode]))))"

section \<open>Expressions\<close>

definition opText :: "jsval \<Rightarrow> jsval \<Rightarrow> string" where
  "opText expr opr = (if us_has expr ''prefix''
     then (if js_truthy (fld expr ''prefix'') then to_str opr @ ''* '' else ''* '' @ to_str opr)
     else to_str opr)"

definition handlerGenExprUnaryExpr_view :: "string \<Rightarrow> view_actions" where
  "handlerGenExprUnaryExpr_view name = visitorCallAfter (\<lambda>args.
     bindM (case arg args 2 of
              RNode opr \<Rightarrow> (if js_truthy opr
                 then CreateTreeNode (RNode (fld (argNode args) ''argument''))
                        (genSingleVal (Some (opText (argNode args) opr))) None
                 else ret RUndef)
            | _ \<Rightarrow> ret RUndef) (\<lambda>opNode.
     CreateTreeNode (arg args 0) (genExpr name) (Some (pushIfNotEmpty [opNode, arg args 3]))))"

definition handlerExprThis_view :: view_actions where
  "handlerExprThis_view = visitorCallNullary (\<lambda>args.
     CreateTreeNode (arg args 0) (genExpr ''This'') None)"

definition handlerExprArray_view :: view_actions where
  "handlerExprArray_view = visitorCallAfter (\<lambda>args.
     CreateTreeNode (arg args 0) (genExpr ''Array'')
       (if rv_truthy (arg args 2) then childrenOf (arg args 2) else None))"

definition handlerExprObject_view :: view_actions where
  "handlerExprObject_view = visitorCallAfter (\<lambda>args.
     CreateTreeNode (arg args 0) (genExpr ''Object'')
       (if rv_isEmpty (arg args 2) then None else childrenOf (arg args 2)))"

definition handlerExprFunction_view :: view_actions where
  "handlerExprFunction_view = visitorCallAfter (\<lambda>args.
     handlerFunction_view args (genExpr ''Function'') (arg args 2) (arg args 4) (arg args 6))"

definition handlerExprSequence_view :: view_actions where
  "handlerExprSequence_view = visitorCallAfter (\<lambda>args.
     CreateTreeNode (arg args 0) (genExpr ''Sequence'') (childrenOf (arg args 2)))"

definition handlerExprUnary_view :: view_actions where
  "handlerExprUnary_view = handlerGenExprUnaryExpr_view ''Unary''"

text \<open>The operator names the node; a missing one is \<open>undefined || ''\<close>.\<close>

definition operatorItem :: "jsval \<Rightarrow> item" where
  "operatorItem expr = genExpr (if js_truthy (fld expr ''operator'')
     then to_str (fld expr ''operator'') else '''')"

definition handlerExprBinaryLeftRight_view :: view_actions where
  "handlerExprBinaryLeftRight_view = visitorCallAfter (\<lambda>args.
     CreateTreeNode (arg args 0) (operatorItem (argNode args)) (Some [arg args 2, arg args 4]))"

definition handlerExprAssignment_view :: view_actions where
  "handlerExprAssignment_view = handlerExprBinaryLeftRight_view"

definition handlerExprUpdate_view :: view_actions where
  "handlerExprUpdate_view = handlerGenExprUnaryExpr_view ''Update''"

definition handlerExprBinary_view :: view_actions where
  "handlerExprBinary_view = handlerExprBinaryLeftRight_view"

definition handlerExprLogical_view :: view_actions where
  "handlerExprLogical_view = handlerExprBinaryLeftRight_view"

definition handlerExprConditional_view :: view_actions where
  "handlerExprConditional_view = visitorCallAfter (\<lambda>args.
     CreateTreeNode (arg args 0) (genExpr ''conditional'')
       (Some [arg args 2, arg args 4, arg args 6]))"

definition handlerExprCalleeArgs_view :: "string \<Rightarrow> view_actions" where
  "handlerExprCalleeArgs_view name = visitorCallAfter (\<lambda>args.
     bindM (CreateTreeNode (RNode (fld (argNode args) ''arguments'')) (genList ''Args'')
              (childrenOf (arg args 4))) (\<lambda>argsNode.
     CreateTreeNode (arg args 0) (genExpr name) (Some [arg args 2, argsNode])))"

definition handlerExprNew_view :: view_actions where
  "handlerExprNew_view = handlerExprCalleeArgs_view ''New''"

definition handlerExprCall_view :: view_actions where
  "handlerExprCall_view = handlerExprCalleeArgs_view ''Call''"

definition handlerExprMember_view :: view_actions where
  "handlerExprMember_view = visitorCallAfter (\<lambda>args.
     CreateTreeNode (arg args 0) (genExpr ''Member'') (Some [arg args 2, arg args 4]))"

definition handlerExprMetaQuazi_view :: view_actions where
  "handlerExprMetaQuazi_view = visitorCallAfter (\<lambda>args.
     CreateTreeNode (arg args 0) (genStmt ''MetaQuazi'') (childrenOf (arg args 2)))"

definition handlerExprMetaExec_view :: view_actions where
  "handlerExprMetaExec_view = visitorCallAfter (\<lambda>args.
     CreateTreeNode (arg args 0) (genStmt ''MetaExec'') (Some [arg args 2]))"

section \<open>Statements\<close>

definition handlerStmtEmpty_view :: view_actions where
  "handlerStmtEmpty_view = visitorCallNullary (\<lambda>args.
     CreateTreeNode (arg args 0) (genStmt ''Empty'') None)"

definition handlerStmtBlock_view :: view_actions where
  "handlerStmtBlock_view = visitorCallAfter (\<lambda>args.
     CreateTreeNode (arg args 0) (genStmt ''{}'') (childrenOf (arg args 2)))"

definition handlerStmtExpr_view :: view_actions where
  "handlerStmtExpr_view = visitorCallAfter (\<lambda>args.
     CreateTreeNode (arg args 0) (genStmt ''Expr'') (Some [arg args 2]))"

definition handlerStmtIf_view :: view_actions where
  "handlerStmtIf_view = visitorCallAfter (\<lambda>args.
     CreateTreeNode (arg args 0) (genStmt ''If'')
       (Some (pushIfNotEmpty [arg args 2, arg args 4, arg args 6])))"

definition handlerStmtLabeled_view :: view_actions where
  "handlerStmtLabeled_view = visitorCallAfter (\<lambda>args.
     CreateTreeNode (arg args 0) (genStmt ''Labeled'') (Some [arg args 2, arg args 4]))"

definition handlerGenStmtUnaryIdent_view :: "string \<Rightarrow> view_actions" where
  "handlerGenStmtUnaryIdent_view name = visitorCallAfter (\<lambda>args.
     CreateTreeNode (arg args 0) (genStmt name)
       (if rv_truthy (arg args 2) then Some [arg args 2] else None))"

definition handlerStmtBreak_view :: view_actions where
  "handlerStmtBreak_view = handlerGenStmtUnaryIdent_view ''Break''"

definition handlerStmtContinue_view :: view_actions where
  "handlerStmtContinue_view = handlerGenStmtUnaryIdent_view ''Continue''"

definition handlerStmtSwitch_view :: view_actions where
  "handlerStmtSwitch_view = visitorCallAfter (\<lambda>args.
     bindM (CreateTreeNode (RNode (fld (argNode args) ''cases'')) (genList ''cases'')
              (childrenOf (arg args 4))) (\<lambda>casesNode.
     CreateTreeNode (arg args 0) (genStmt ''Switch'') (Some [arg args 2, casesNode])))"

definition handlerStmtReturn_view :: view_actions where
  "handlerStmtReturn_view = visitorCallAfter (\<lambda>args.
     CreateTreeNode (arg args 0) (genStmt ''Return'')
       (if rv_truthy (arg args 2) then Some [arg args 2] else None))"

definition handlerStmtThrow_view :: view_actions where
  "handlerStmtThrow_view = visitorCallAfter (\<lambda>args.
     CreateTreeNode (arg args 0) (genStmt ''Throw'') (Some [arg args 2]))"

definition handlerStmtTry_view :: view_actions where
  "handlerStmtTry_view = visitorCallAfter (\<lambda>args.
     CreateTreeNode (arg args 0) (genStmt ''Try'')
       (Some (pushIfNotEmpty [arg args 2, arg args 4, arg args 6])))"

definition handlerStmtWhile_view :: view_actions where
  "handlerStmtWhile_view = visitorCallAfter (\<lambda>args.
     CreateTreeNode (arg args 0) (genStmt ''While'') (Some [arg args 2, arg args 4]))"

definition handlerStmtDoWhile_view :: view_actions where
  "handlerStmtDoWhile_view = visitorCallAfter (\<lambda>args.
     CreateTreeNode (arg args 0) (genStmt ''Do While'') (Some [arg args 2, arg args 4]))"

definition handlerStmtFor_view :: view_actions where
  "handlerStmtFor_view = visitorCallAfter (\<lambda>args.
     CreateTreeNode (arg args 0) (genStmt ''For'')
       (Some (pushIfNotEmpty [arg args 2, arg args 4, arg args 6, arg args 8])))"

definition handlerStmtForIn_view :: view_actions where
  "handlerStmtForIn_view = visitorCallAfter (\<lambda>args.
     CreateTreeNode (arg args 0) (genStmt ''For In'')
       (Some (pushIfNotEmpty [arg args 2, arg args 4, arg args 5])))"

definition handlerStmtDebugger_view :: view_actions where
  "handlerStmtDebugger_view = visitorCallNullary (\<lambda>args.
     CreateTreeNode (arg args 0) (genStmt ''Debugger'') None)"

definition handlerStmtDeclFunction_view :: view_actions where
  "handlerStmtDeclFunction_view = visitorCallAfter (\<lambda>args.
     handlerFunction_view args (genStmt ''Function'') (arg args 2) (arg args 4) (arg args 6))"

definition handlerStmtDeclVariable_view :: view_actions where
  "handlerStmtDeclVariable_view = visitorCallAfter (\<lambda>args.
     CreateTreeNode (arg args 0) (genStmt ''Var decl'') (childrenOf (arg args 2)))"

definition handlerProgram_view :: view_actions where
  "handlerProgram_view = visitorCallUnary None (Some (\<lambda>args.
     bindM (CreateTreeNode (arg args 0) (genStmt ''program'') (childrenOf (arg args 2))) (\<lambda>root.
     ret (case root of RVal (TreeNode a) \<Rightarrow> RVal (Tree a) | r \<Rightarrow> r))))"

section \<open>The visitor\<close>

definition AstTreeView :: "(view_state, view_obj) visitor" where
  "AstTreeView = map_of
     [(''literal'', handlerLiteral_view), (''property'', handlerProperty_view),
      (''identifier'', handlerIdentifier_view), (''pattern'', handlerPattern_view),
      (''variableDeclarator'', handlerVariableDeclarator_view),
      (''catchClause'', handlerCatchClause_view), (''switchCase'', handlerSwitchCase_view),
      (''exprThis'', handlerExprThis_view), (''exprArray'', handlerExprArray_view),
      (''exprObject'', handlerExprObject_view), (''exprFunction'', handlerExprFunction_view),
      (''exprSequence'', handlerExprSequence_view), (''exprUnary'', handlerExprUnary_view),
      (''exprBinary'', handlerExprBinary_view), (''exprAssignment'', handlerExprAssignment_view),
      (''exprUpdate'', handlerExprUpdate_view), (''exprLogical'', handlerExprLogical_view),
      (''exprConditional'', handlerExprConditional_view), (''exprNew'', handlerExprNew_view),
      (''exprCall'', handlerExprCall_view), (''exprMember'', handlerExprMember_view),
      (''exprMetaQuazi'', handlerExprMetaQuazi_view), (''exprMetaExec'', handlerExprMetaExec_view),
      (''stmtEmpty'', handlerStmtEmpty_view), (''stmtBlock'', handlerStmtBlock_view),
      (''stmtExpr'', handlerStmtExpr_view), (''stmtIf'', handlerStmtIf_view),
      (''stmtLabeled'', handlerStmtLabeled_view), (''stmtBreak'', handlerStmtBreak_view),
      (''stmtContinue'', handlerStmtContinue_view), (''stmtSwitch'', handlerStmtSwitch_view),
      (''stmtReturn'', handlerStmtReturn_view), (''stmtThrow'', handlerStmtThrow_view),
      (''stmtTry'', handlerStmtTry_view), (''stmtWhile'', handlerStmtWhile_view),
      (''stmtDoWhile'', handlerStmtDoWhile_view), (''stmtFor'', handlerStmtFor_view),
      (''stmtForIn'', handlerStmtForIn_view), (''stmtDebugger'', handlerStmtDebugger_view),
      (''stmtDeclFunction'', handlerStmtDeclFunction_view),
      (''stmtDeclVariable'', handlerStmtDeclVariable_view),
      (''program'', handlerProgram_view)]"

section \<open>Every node has its own id\<close>

text \<open>
  For every value passed as an AST: the store holds one node per id handed out, each with its
  own id, marked a leaf exactly when it has no children.
\<close>

definition view_node_ok :: "nat \<Rightarrow> tree_node \<Rightarrow> bool" where
  "view_node_ok a nd \<longleftrightarrow> node_id nd = node_id_of a \<and>
     (isLeaf nd \<longleftrightarrow> children nd = None \<or> children nd = Some [])"

definition view_inv :: "view_state \<Rightarrow> bool" where
  "view_inv s \<longleftrightarrow> dom (store s) = {1..currId s} \<and>
     (\<forall>a nd. store s a = Some nd \<longrightarrow> view_node_ok a nd)"

lemma setParent_ok:
  assumes "\<And>a nd. st a = Some nd \<Longrightarrow> view_node_ok a nd"
  shows "setParent p r st a = Some nd \<Longrightarrow> view_node_ok a nd"
  using assms
  by (induction p r st rule: setParent.induct)
     (auto simp: view_node_ok_def split: option.splits if_splits)

lemma setParent_dom: "dom (setParent p r st) = dom st"
  by (induction p r st rule: setParent.induct) (auto split: option.splits)

lemma setParents_dom: "dom (fold (setParent p) rs st) = dom st"
  by (induction rs arbitrary: st) (simp_all add: setParent_dom)

lemma setParents_ok:
  assumes "\<And>a nd. st a = Some nd \<Longrightarrow> view_node_ok a nd"
  shows "fold (setParent p) rs st a = Some nd \<Longrightarrow> view_node_ok a nd"
  using assms
proof (induction rs arbitrary: st)
  case (Cons r rs)
  then show ?case using setParent_ok by (metis fold_simps(2))
qed simp

lemma getNextUniqueNodeId_app: "getNextUniqueNodeId s = (Inr (currId s + 1), s\<lparr>currId := currId s + 1\<rparr>)"
  by (simp add: getNextUniqueNodeId_def)

lemma CreateTreeNode_keeps [keep_intros]: "keeps view_inv (CreateTreeNode r i cs)"
proof -
  have alloc: "view_inv (s\<lparr>currId := n, store := fold (setParent n) rs ((store s)(n \<mapsto> nd))\<rparr>)"
    if "view_inv s" and "n = currId s + 1" and "view_node_ok n nd" for s n nd rs
  proof -
    have ok: "((store s)(n \<mapsto> nd)) a = Some nd' \<Longrightarrow> view_node_ok a nd'" for a nd'
      using that by (auto simp: view_inv_def split: if_splits)
    have "dom ((store s)(n \<mapsto> nd)) = {1..n}"
      using that by (auto simp: view_inv_def)
    then show ?thesis
      using setParents_ok [of "(store s)(n \<mapsto> nd)" n rs, OF ok]
      by (auto simp: view_inv_def setParents_dom)
  qed
  show ?thesis
    by (auto simp: keeps_def CreateTreeNode_def guardM_def bindM_def ret_def throw_def Let_def
        getNextUniqueNodeId_def intro!: alloc)
       (auto simp: view_node_ok_def split: option.splits)
qed

lemma handlerFunction_view_keeps [keep_intros]: "keeps view_inv (handlerFunction_view args i n ps b)"
  by (auto simp: handlerFunction_view_def intro!: keep_intros)

lemma stringifyValue_view_keeps [keep_intros]: "keeps P (stringifyValue_view v)"
  by (simp add: stringifyValue_view_def keep_intros split: rv.split jsval.split)

lemmas view_handlers = handlerLiteral_view_def handlerIdentifier_view_def handlerPattern_view_def
  handlerProperty_view_def handlerVariableDeclarator_view_def handlerCatchClause_view_def
  handlerSwitchCase_view_def handlerGenExprUnaryExpr_view_def handlerExprThis_view_def
  handlerExprArray_view_def handlerExprObject_view_def handlerExprFunction_view_def
  handlerExprSequence_view_def handlerExprUnary_view_def handlerExprBinaryLeftRight_view_def
  handlerExprAssignment_view_def handlerExprUpdate_view_def handlerExprBinary_view_def
  handlerExprLogical_view_def handlerExprConditional_view_def handlerExprCalleeArgs_view_def
  handlerExprNew_view_def handlerExprCall_view_def handlerExprMember_view_def
  handlerExprMetaQuazi_view_def handlerExprMetaExec_view_def handlerStmtEmpty_view_def
  handlerStmtBlock_view_def handlerStmtExpr_view_def handlerStmtIf_view_def
  handlerStmtLabeled_view_def handlerGenStmtUnaryIdent_view_def handlerStmtBreak_view_def
  handlerStmtContinue_view_def handlerStmtSwitch_view_def handlerStmtReturn_view_def
  handlerStmtThrow_view_def handlerStmtTry_view_def handlerStmtWhile_view_def
  handlerStmtDoWhile_view_def handlerStmtFor_view_def handlerStmtForIn_view_def
  handlerStmtDebugger_view_def handlerStmtDeclFunction_view_def handlerStmtDeclVariable_view_def

lemma AstTreeView_handlers: "AstTreeView ty = Some actions \<Longrightarrow> keep_actions view_inv actions"
  unfolding AstTreeView_def
  by (erule keep_actions_table)
     (auto simp: view_handlers handlerProgram_view_def intro!: keep_intros split: rv.split)

interpretation tree_view: visitor_frame AstTreeView view_inv
  by unfold_locales (rule AstTreeView_handlers)

lemma view_ids_distinct:
  assumes "view_inv s" and "store s a = Some x" and "store s b = Some y"
    and "node_id x = node_id y"
  shows "a = b"
  using assms by (force simp: view_inv_def view_node_ok_def node_id_of_def)

end
