(* ===== verification/Ast_TreeView_Spec.thy ===== *)
theory Ast_TreeView_Spec
  imports Ast_TreeView "HOL-Library.Multiset"
begin

text \<open>
  What the tree view of a syntax tree is: a pure tree, by structural recursion, and the
  refinement of the visitor to it. The nodes a run allocates represent that tree in the store
  (each node with its children, and each child linked to its parent), the nodes allocated
  before are left alone, and the two walks over the result return.
\<close>

section \<open>The view of a syntax tree\<close>

datatype vtree = VTree jsval item "vtree list option"

abbreviation leaf :: "jsval \<Rightarrow> item \<Rightarrow> vtree" where "leaf v i \<equiv> VTree v i None"
abbreviation branch :: "jsval \<Rightarrow> item \<Rightarrow> vtree list \<Rightarrow> vtree" where
  "branch v i ts \<equiv> VTree v i (Some ts)"

primrec lit_name :: "lit \<Rightarrow> string option" where
  "lit_name (LStr s) = Some s"
| "lit_name (LBool b) = Some (if b then ''true'' else ''false'')"
| "lit_name LNull = None"
| "lit_name (LNum n) = Some (show_int n)"
| "lit_name (LRegExp s) = Some s"

definition view_lit :: "lit \<Rightarrow> vtree" where
  "view_lit l = leaf (enc_literal l) (genSingleVal (lit_name l))"

definition view_ident :: "string \<Rightarrow> vtree" where
  "view_ident n = leaf (enc_ident n) (genSingleVal (Some n))"

primrec view_key :: "pkey \<Rightarrow> vtree" where
  "view_key (KeyLiteral l) = view_lit l"
| "view_key (KeyIdentifier n) = view_ident n"

definition view_block :: "jsval list \<Rightarrow> vtree list \<Rightarrow> vtree" where
  "view_block vs ts = branch (enc_block vs) (genStmt ''{}'') ts"

definition view_decls :: "jsval list \<Rightarrow> vtree list \<Rightarrow> vtree" where
  "view_decls vs ts = branch (enc_decls vs) (genStmt ''Var decl'') ts"

definition view_function :: "jsval \<Rightarrow> item \<Rightarrow> vtree list \<Rightarrow> string list \<Rightarrow> vtree \<Rightarrow> vtree" where
  "view_function v i name ps body =
     branch v i (name @ [branch (JArr (map enc_ident ps)) (genList ''Args'') (map view_ident ps), body])"

definition view_affix :: "jsval \<Rightarrow> string \<Rightarrow> jsval \<Rightarrow> string \<Rightarrow> bool \<Rightarrow> vtree \<Rightarrow> vtree" where
  "view_affix v name operand opr pre t = branch v (genExpr name)
     ((if opr = '''' then [] else
        [leaf operand (genSingleVal (Some (if pre then opr @ ''* '' else ''* '' @ opr)))]) @ [t])"

definition opt_list :: "'a option \<Rightarrow> 'a list" where
  "opt_list v = (case v of None \<Rightarrow> [] | Some x \<Rightarrow> [x])"

primrec view_expr :: "expr \<Rightarrow> vtree"
  and view_property :: "property \<Rightarrow> vtree"
  and view_declarator :: "declarator \<Rightarrow> vtree"
  and view_case :: "switchcase \<Rightarrow> vtree"
  and view_catch :: "catchclause \<Rightarrow> vtree"
  and view_init :: "forinit \<Rightarrow> vtree"
  and view_stmt :: "stmt \<Rightarrow> vtree" where
  "view_expr (Literal l) = view_lit l"
| "view_expr (Identifier n) = view_ident n"
| "view_expr ThisExpression = leaf (enc_expr ThisExpression) (genExpr ''This'')"
| "view_expr (ArrayExpression es) = VTree (enc_expr (ArrayExpression es)) (genExpr ''Array'')
     (if es = [] then None else Some (map view_expr es))"
| "view_expr (ObjectExpression ps) = VTree (enc_expr (ObjectExpression ps)) (genExpr ''Object'')
     (if ps = [] then None else Some (map view_property ps))"
| "view_expr (FunctionExpression n ps body) =
     view_function (enc_expr (FunctionExpression n ps body)) (genExpr ''Function'')
       (opt_list (map_option view_ident n)) ps (view_block (map enc_stmt body) (map view_stmt body))"
| "view_expr (SequenceExpression es) =
     branch (enc_expr (SequenceExpression es)) (genExpr ''Sequence'') (map view_expr es)"
| "view_expr (UnaryExpression opr pre e) =
     view_affix (enc_expr (UnaryExpression opr pre e)) ''Unary'' (enc_expr e) opr pre (view_expr e)"
| "view_expr (BinaryExpression opr l r) =
     branch (enc_expr (BinaryExpression opr l r)) (genExpr opr) [view_expr l, view_expr r]"
| "view_expr (AssignmentExpression opr l r) =
     branch (enc_expr (AssignmentExpression opr l r)) (genExpr opr) [view_expr l, view_expr r]"
| "view_expr (UpdateExpression opr pre e) =
     view_affix (enc_expr (UpdateExpression opr pre e)) ''Update'' (enc_expr e) opr pre (view_expr e)"
| "view_expr (LogicalExpression opr l r) =
     branch (enc_expr (LogicalExpression opr l r)) (genExpr opr) [view_expr l, view_expr r]"
| "view_expr (ConditionalExpression t c a) =
     branch (enc_expr (ConditionalExpression t c a)) (genExpr ''conditional'')
       [view_expr t, view_expr a, view_expr c]"
| "view_expr (NewExpression f es) = branch (enc_expr (NewExpression f es)) (genExpr ''New'')
     [view_expr f, branch (JArr (map enc_expr es)) (genList ''Args'') (map view_expr es)]"
| "view_expr (CallExpression f es) = branch (enc_expr (CallExpression f es)) (genExpr ''Call'')
     [view_expr f, branch (JArr (map enc_expr es)) (genList ''Args'') (map view_expr es)]"
| "view_expr (MemberExpression e p computed) =
     branch (enc_expr (MemberExpression e p computed)) (genExpr ''Member'') [view_expr e, view_expr p]"
| "view_expr (MetaQuaziStatement ss) =
     branch (enc_expr (MetaQuaziStatement ss)) (genStmt ''MetaQuazi'') (map view_stmt ss)"
| "view_expr (MetaExecStatement s) =
     branch (enc_expr (MetaExecStatement s)) (genStmt ''MetaExec'') [view_stmt s]"
| "view_property (Property k e) =
     branch (enc_property (Property k e)) (genVariant ''Property'') [view_key k, view_expr e]"
| "view_declarator (VariableDeclarator n e) = branch (enc_declarator (VariableDeclarator n e))
     (genVar ''var'') (view_ident n # opt_list (map_option view_expr e))"
| "view_case (SwitchCase t ss) = branch (enc_case (SwitchCase t ss)) (genVariant ''Case'')
     (opt_list (map_option view_expr t) @
      [branch (JArr (map enc_stmt ss)) (genList ''consequent'') (map view_stmt ss)])"
| "view_catch (CatchClause p g ss) = branch (enc_catch (CatchClause p g ss)) (genVariant ''Catch'')
     [view_ident p, view_block (map enc_stmt ss) (map view_stmt ss)]"
| "view_init (InitDecl ds) = view_decls (map enc_declarator ds) (map view_declarator ds)"
| "view_init (InitExpr e) = view_expr e"
| "view_stmt EmptyStatement = leaf (enc_stmt EmptyStatement) (genStmt ''Empty'')"
| "view_stmt (BlockStatement ss) = view_block (map enc_stmt ss) (map view_stmt ss)"
| "view_stmt (ExpressionStatement e) =
     branch (enc_stmt (ExpressionStatement e)) (genStmt ''Expr'') [view_expr e]"
| "view_stmt (IfStatement t c a) = branch (enc_stmt (IfStatement t c a)) (genStmt ''If'')
     ([view_expr t, view_stmt c] @ opt_list (map_option view_stmt a))"
| "view_stmt (LabeledStatement l s) =
     branch (enc_stmt (LabeledStatement l s)) (genStmt ''Labeled'') [view_ident l, view_stmt s]"
| "view_stmt (BreakStatement l) = VTree (enc_stmt (BreakStatement l)) (genStmt ''Break'')
     (map_option (\<lambda>n. [view_ident n]) l)"
| "view_stmt (ContinueStatement l) = VTree (enc_stmt (ContinueStatement l)) (genStmt ''Continue'')
     (map_option (\<lambda>n. [view_ident n]) l)"
| "view_stmt (SwitchStatement e cs) = branch (enc_stmt (SwitchStatement e cs)) (genStmt ''Switch'')
     [view_expr e, branch (JArr (map enc_case cs)) (genList ''cases'') (map view_case cs)]"
| "view_stmt (ReturnStatement e) = VTree (enc_stmt (ReturnStatement e)) (genStmt ''Return'')
     (map_option (\<lambda>t. [t]) (map_option view_expr e))"
| "view_stmt (ThrowStatement e) =
     branch (enc_stmt (ThrowStatement e)) (genStmt ''Throw'') [view_expr e]"
| "view_stmt (TryStatement b h f) = branch (enc_stmt (TryStatement b h f)) (genStmt ''Try'')
     ([view_block (map enc_stmt b) (map view_stmt b)] @ opt_list (map_option view_catch h) @
      opt_list (map_option (\<lambda>ts. view_block (case f of None \<Rightarrow> [] | Some ss \<Rightarrow> map enc_stmt ss) ts)
                  (map_option (map view_stmt) f)))"
| "view_stmt (WhileStatement e s) =
     branch (enc_stmt (WhileStatement e s)) (genStmt ''While'') [view_expr e, view_stmt s]"
| "view_stmt (DoWhileStatement e s) =
     branch (enc_stmt (DoWhileStatement e s)) (genStmt ''Do While'') [view_expr e, view_stmt s]"
| "view_stmt (ForStatement i t u s) = branch (enc_stmt (ForStatement i t u s)) (genStmt ''For'')
     (opt_list (map_option view_init i) @ opt_list (map_option view_expr t) @
      opt_list (map_option view_expr u) @ [view_stmt s])"
| "view_stmt (ForInStatement i e s) = branch (enc_stmt (ForInStatement i e s)) (genStmt ''For In'')
     [view_init i, view_expr e, view_stmt s]"
| "view_stmt DebuggerStatement = leaf (enc_stmt DebuggerStatement) (genStmt ''Debugger'')"
| "view_stmt (FunctionDeclaration n ps body) =
     view_function (enc_stmt (FunctionDeclaration n ps body)) (genStmt ''Function'')
       [view_ident n] ps (view_block (map enc_stmt body) (map view_stmt body))"
| "view_stmt (VariableDeclaration ds) = view_decls (map enc_declarator ds) (map view_declarator ds)"

definition view_program :: "stmt list \<Rightarrow> vtree" where
  "view_program ss = branch (enc_program ss) (genStmt ''program'') (map view_stmt ss)"

section \<open>Trees in the store\<close>

text \<open>
  \<open>tree_at st A a t\<close>: the nodes at the addresses \<open>A\<close> are exactly those of a tree at \<open>a\<close> that
  represents \<open>t\<close>; \<open>forest_at st A p cs ts\<close>: the same for separate trees, whose parent is \<open>p\<close>.
  Disjoint address sets say that no node is shared.
\<close>

abbreviation ref :: "nat \<Rightarrow> view_rv" where "ref a \<equiv> RVal (TreeNode a)"

inductive tree_at :: "(nat \<rightharpoonup> tree_node) \<Rightarrow> nat set \<Rightarrow> nat \<Rightarrow> vtree \<Rightarrow> bool"
  and forest_at :: "(nat \<rightharpoonup> tree_node) \<Rightarrow> nat set \<Rightarrow> nat option \<Rightarrow> nat list \<Rightarrow> vtree list \<Rightarrow> bool"
  for st where
  tree: "st a = Some nd \<Longrightarrow> astNode nd = v \<Longrightarrow> item nd = i \<Longrightarrow>
     children nd = (case ts of None \<Rightarrow> None | Some _ \<Rightarrow> Some (map ref cs)) \<Longrightarrow>
     forest_at st A (Some a) cs (case ts of None \<Rightarrow> [] | Some us \<Rightarrow> us) \<Longrightarrow>
     a \<notin> A \<Longrightarrow> (\<forall>x\<in>A. x < a) \<Longrightarrow> tree_at st (insert a A) a (VTree v i ts)"
| forest_nil: "forest_at st {} p [] []"
| forest_cons: "tree_at st A c t \<Longrightarrow> st c = Some nd \<Longrightarrow> parent nd = p \<Longrightarrow>
     forest_at st B p cs ts \<Longrightarrow> A \<inter> B = {} \<Longrightarrow> forest_at st (A \<union> B) p (c # cs) (t # ts)"

inductive_cases tree_atE: "tree_at st A a t"
inductive_cases forest_consE: "forest_at st A p (c # cs) ts"
inductive_cases forest_nilE: "forest_at st A p [] ts"

inductive_simps forest_nil_iff [simp]: "forest_at st A p [] ts" "forest_at st A p cs []"

lemma tree_at_root: "tree_at st A a t \<Longrightarrow> a \<in> A \<and> (\<forall>x\<in>A. x \<le> a)"
  by (erule tree_atE) auto

lemma forest_length: "forest_at st A p cs ts \<Longrightarrow> length cs = length ts"
  by (induction cs arbitrary: A ts) (auto elim: forest_consE)

lemma forest_roots: "forest_at st A p cs ts \<Longrightarrow> set cs \<subseteq> A"
  by (induction cs arbitrary: A ts) (auto elim!: forest_consE dest: tree_at_root)

text \<open>A tree only depends on its own nodes, and not on the parent of its root.\<close>

lemma tree_frame:
  "tree_at st A a t \<Longrightarrow> (\<And>x. x \<in> A \<Longrightarrow> x \<noteq> a \<Longrightarrow> st' x = st x) \<Longrightarrow>
     (\<exists>nd nd' p. st a = Some nd \<and> st' a = Some nd' \<and> nd' = nd\<lparr>parent := p\<rparr>) \<Longrightarrow> tree_at st' A a t"
  "forest_at st A p cs ts \<Longrightarrow> (\<And>x. x \<in> A \<Longrightarrow> st' x = st x) \<Longrightarrow> forest_at st' A p cs ts"
proof (induction arbitrary: and rule: tree_at_forest_at.inducts)
  case (tree a nd v i ts cs A)
  then have "forest_at st' A (Some a) cs (case ts of None \<Rightarrow> [] | Some us \<Rightarrow> us)" by auto
  with tree show ?case by (auto intro!: tree_at_forest_at.tree)
next
  case (forest_cons A c t nd p B cs ts)
  have "st' c = Some nd" using forest_cons tree_at_root [OF forest_cons(1)] by auto
  moreover have "nd = nd\<lparr>parent := parent nd\<rparr>" by simp
  ultimately have "tree_at st' A c t" using forest_cons by (metis UnCI)
  with forest_cons \<open>st' c = Some nd\<close> show ?case by (auto intro!: tree_at_forest_at.forest_cons)
qed (auto intro: forest_nil)

lemma forest_append:
  "forest_at st A p cs ts \<Longrightarrow> forest_at st B p ds us \<Longrightarrow> A \<inter> B = {} \<Longrightarrow>
   forest_at st (A \<union> B) p (cs @ ds) (ts @ us)"
proof (induction cs arbitrary: A ts)
  case (Cons c cs)
  from Cons.prems(1) obtain A1 A2 t ts' nd where "ts = t # ts'" "A = A1 \<union> A2" "A1 \<inter> A2 = {}"
    "tree_at st A1 c t" "st c = Some nd" "parent nd = p" "forest_at st A2 p cs ts'"
    by (auto elim: forest_consE)
  moreover from this have "forest_at st (A2 \<union> B) p (cs @ ds) (ts' @ us)"
    using Cons by (intro Cons.IH) auto
  ultimately show ?case
    using Cons.prems(3) forest_cons [of st A1 c t nd p "A2 \<union> B"] by (simp add: Un_assoc Int_Un_distrib Int_Un_distrib2)
qed simp

lemma forest_split:
  "forest_at st A p (cs @ ds) ts \<Longrightarrow> \<exists>A1 A2 us vs. A = A1 \<union> A2 \<and> A1 \<inter> A2 = {} \<and> ts = us @ vs \<and>
     forest_at st A1 p cs us \<and> forest_at st A2 p ds vs"
proof (induction cs arbitrary: A ts)
  case (Cons c cs)
  from Cons.prems obtain A1 A2 t ts' nd where c: "ts = t # ts'" "A = A1 \<union> A2" "A1 \<inter> A2 = {}"
    "tree_at st A1 c t" "st c = Some nd" "parent nd = p" "forest_at st A2 p (cs @ ds) ts'"
    by (auto elim: forest_consE)
  from Cons.IH [OF c(7)] obtain B1 B2 us vs where d: "A2 = B1 \<union> B2" "B1 \<inter> B2 = {}" "ts' = us @ vs"
    "forest_at st B1 p cs us" "forest_at st B2 p ds vs"
    by auto
  with c have "forest_at st (A1 \<union> B1) p (c # cs) (t # us)"
    by (auto intro!: forest_cons)
  with c d show ?case
    by (intro exI [of _ "A1 \<union> B1"] exI [of _ B2] exI [of _ "t # us"] exI [of _ vs]) auto
qed auto

text \<open>Forests as lists of roots with their trees, whose order does not matter.\<close>

definition roots_at :: "(nat \<rightharpoonup> tree_node) \<Rightarrow> nat set \<Rightarrow> (nat \<times> vtree) list \<Rightarrow> bool" where
  "roots_at st A L \<longleftrightarrow> forest_at st A None (map fst L) (map snd L)"

lemma roots_append:
  "roots_at st A (K @ L) \<longleftrightarrow> (\<exists>B C. A = B \<union> C \<and> B \<inter> C = {} \<and> roots_at st B K \<and> roots_at st C L)"
proof
  assume "roots_at st A (K @ L)"
  then obtain B C us vs where "A = B \<union> C" "B \<inter> C = {}" "map snd K @ map snd L = us @ vs"
    "forest_at st B None (map fst K) us" "forest_at st C None (map fst L) vs"
    by (auto simp: roots_at_def dest: forest_split)
  moreover from this have "us = map snd K" "vs = map snd L"
    by (auto dest!: forest_length simp: append_eq_append_conv)
  ultimately show "\<exists>B C. A = B \<union> C \<and> B \<inter> C = {} \<and> roots_at st B K \<and> roots_at st C L"
    by (auto simp: roots_at_def)
qed (auto simp: roots_at_def intro: forest_append)

lemma roots_commute: "roots_at st A (K @ L) \<Longrightarrow> roots_at st A (L @ K)"
  by (metis Int_commute Un_commute roots_append)

lemma roots_perm:
  assumes "mset K = mset L" and "roots_at st A K"
  shows "roots_at st A L"
  using assms
proof (induction L arbitrary: A K)
  case (Cons x L)
  then have "x \<in> set K" by (metis list.set_intros(1) mset_eq_setD)
  then obtain K1 K2 where K: "K = K1 @ x # K2" by (meson split_list)
  then have "roots_at st A ([x] @ (K2 @ K1))"
    using roots_commute [of st A K1 "x # K2"] Cons.prems(2) by simp
  then obtain B C where "A = B \<union> C" "B \<inter> C = {}" "roots_at st B [x]" "roots_at st C (K2 @ K1)"
    unfolding roots_append by blast
  moreover from this have "roots_at st C L"
    using Cons.prems(1) K by (intro Cons.IH [of "K2 @ K1"]) (auto simp: ac_simps)
  ultimately have "roots_at st A ([x] @ L)" unfolding roots_append by blast
  then show ?case by simp
qed simp

section \<open>Runs that build trees\<close>

text \<open>
  \<open>holds s0 L s\<close>: since \<open>s0\<close> the run has allocated exactly the nodes of the trees \<open>L\<close>, whose
  roots have no parent yet. \<open>builds m K Q\<close>: from any such state with the trees \<open>K\<close> at hand, \<open>m\<close>
  returns, without an exception, a result related by \<open>Q\<close> to the trees that replace \<open>K\<close>.
\<close>

definition holds :: "view_state \<Rightarrow> (nat \<times> vtree) list \<Rightarrow> view_state \<Rightarrow> bool" where
  "holds s0 L s \<longleftrightarrow> currId s0 \<le> currId s \<and> (\<forall>x\<le>currId s0. store s x = store s0 x) \<and>
     roots_at (store s) {currId s0<..currId s} L"

definition builds ::
    "(view_state, 'a) jsm \<Rightarrow> (nat \<times> vtree) list \<Rightarrow> ('a \<Rightarrow> (nat \<times> vtree) list \<Rightarrow> bool) \<Rightarrow> bool" where
  "builds m K Q \<longleftrightarrow> (\<forall>s0 R s. holds s0 (K @ R) s \<longrightarrow>
     (\<exists>r L s'. m s = (Inr r, s') \<and> Q r L \<and> holds s0 (L @ R) s'))"

lemma holds_perm: "holds s0 K s \<Longrightarrow> mset K = mset L \<Longrightarrow> holds s0 L s"
  unfolding holds_def using roots_perm [of K L] by blast

lemma holds_start: "holds s [] s"
  by (simp add: holds_def roots_at_def)

named_theorems build_intros \<open>rules for runs that build trees\<close>

lemma builds_ret: "Q r K \<Longrightarrow> builds (ret r) K Q"
  by (auto simp: builds_def ret_def)

lemma buildsD:
  assumes "builds m K Q" and "holds s0 (K @ R) s"
  obtains r L s' where "m s = (Inr r, s')" and "Q r L" and "holds s0 (L @ R) s'"
  using assms unfolding builds_def by blast

lemma builds_bind:
  assumes "builds m K Q" and "\<And>r L. Q r L \<Longrightarrow> builds (f r) (L @ R) Q'"
    and "mset (K @ R) = mset K'"
  shows "builds (bindM m f) K' Q'"
  unfolding builds_def
proof (intro allI impI)
  fix s0 X s
  assume "holds s0 (K' @ X) s"
  then have "holds s0 (K @ (R @ X)) s" using assms(3) by (auto elim!: holds_perm)
  with assms(1) obtain r L s1 where 1: "m s = (Inr r, s1)" "Q r L" "holds s0 (L @ (R @ X)) s1"
    by (rule buildsD)
  from 1(3) have "holds s0 ((L @ R) @ X) s1" by simp
  with assms(2) [OF 1(2)] obtain r' L' s2
    where "f r s1 = (Inr r', s2)" "Q' r' L'" "holds s0 (L' @ X) s2"
    by (rule buildsD)
  with 1 show "\<exists>r L s'. bindM m f s = (Inr r, s') \<and> Q' r L \<and> holds s0 (L @ X) s'"
    by (auto simp: bindM_def)
qed

lemma builds_tryCatch: "builds m K Q \<Longrightarrow> builds (tryCatch m h) K Q"
  by (fastforce simp: builds_def tryCatch_def)

lemma builds_perm:
  assumes "builds m K Q" and "mset K = mset L"
  shows "builds m L Q"
  unfolding builds_def
proof (intro allI impI)
  fix s0 R s
  assume "holds s0 (L @ R) s"
  then have "holds s0 (K @ R) s" using assms(2) by (auto elim!: holds_perm)
  with assms(1) show "\<exists>r K s'. m s = (Inr r, s') \<and> Q r K \<and> holds s0 (K @ R) s'"
    unfolding builds_def by blast
qed

section \<open>Creating a node\<close>

lemma fold_setParent:
  "fold (setParent p) (map ref cs) st x =
     (if x \<in> set cs then map_option (\<lambda>nd. nd\<lparr>parent := Some p\<rparr>) (st x) else st x)"
  by (induction cs arbitrary: st)
     (auto simp: option.map_comp o_def split: option.splits if_splits)

lemma forest_reparent:
  assumes "forest_at st A None cs ts"
    and "\<And>x. x \<in> A \<Longrightarrow> st' x =
      (if x \<in> set cs then map_option (\<lambda>nd. nd\<lparr>parent := Some p\<rparr>) (st x) else st x)"
  shows "forest_at st' A (Some p) cs ts"
  using assms
proof (induction cs arbitrary: A ts)
  case (Cons c cs)
  from Cons.prems(1) obtain A1 A2 t ts' nd where c: "ts = t # ts'" "A = A1 \<union> A2" "A1 \<inter> A2 = {}"
    "tree_at st A1 c t" "st c = Some nd" "parent nd = None" "forest_at st A2 None cs ts'"
    by (auto elim: forest_consE)
  have sub: "set cs \<subseteq> A2" and root: "c \<in> A1"
    using forest_roots [OF c(7)] tree_at_root [OF c(4)] by auto
  have "tree_at st' A1 c t"
    using c sub root Cons.prems(2) by (intro tree_frame(1) [OF c(4)]) auto
  moreover have "forest_at st' A2 (Some p) cs ts'"
    using c root Cons.prems(2) by (intro Cons.IH [OF c(7)]) auto
  moreover have "st' c = Some (nd\<lparr>parent := Some p\<rparr>)"
    using c(2,5) root Cons.prems(2) [of c] by simp
  ultimately show ?case
    using c by (auto intro!: forest_cons)
qed simp

definition is_tree :: "vtree \<Rightarrow> view_rv \<Rightarrow> (nat \<times> vtree) list \<Rightarrow> bool" where
  "is_tree t r L \<longleftrightarrow> (\<exists>a. r = ref a \<and> L = [(a, t)])"

definition is_opt :: "vtree option \<Rightarrow> view_rv \<Rightarrow> (nat \<times> vtree) list \<Rightarrow> bool" where
  "is_opt v r L \<longleftrightarrow> (case v of None \<Rightarrow> r = RNull \<and> L = [] | Some t \<Rightarrow> is_tree t r L)"

definition is_list :: "vtree list \<Rightarrow> view_rv \<Rightarrow> (nat \<times> vtree) list \<Rightarrow> bool" where
  "is_list ts r L \<longleftrightarrow> (\<exists>cs. length cs = length ts \<and> r = RList (map ref cs) \<and> L = zip cs ts)"

definition add_node :: "tree_node \<Rightarrow> nat list \<Rightarrow> view_state \<Rightarrow> view_state" where
  "add_node nd cs s = s\<lparr>currId := currId s + 1,
     store := fold (setParent (currId s + 1)) (map ref cs) ((store s)(currId s + 1 \<mapsto> nd))\<rparr>"

lemma store_add_node:
  "currId s + 1 \<notin> set cs \<Longrightarrow> store (add_node nd cs s) (currId s + 1) = Some nd"
  "x \<noteq> currId s + 1 \<Longrightarrow> store (add_node nd cs s) x =
     (if x \<in> set cs then map_option (\<lambda>nd. nd\<lparr>parent := Some (currId s + 1)\<rparr>) (store s x)
      else store s x)"
  by (simp_all add: add_node_def fold_setParent)

lemma holds_add_node:
  assumes h: "holds s0 (zip cs us @ R) s" and len: "length cs = length us"
    and us: "us = (case ts of None \<Rightarrow> [] | Some us \<Rightarrow> us)"
    and nd: "astNode nd = v" "item nd = i" "parent nd = None"
      "children nd = (case ts of None \<Rightarrow> None | Some _ \<Rightarrow> Some (map ref cs))"
  shows "holds s0 ([(currId s + 1, VTree v i ts)] @ R) (add_node nd cs s)"
proof -
  let ?n = "currId s + 1" and ?st = "store (add_node nd cs s)"
  from h obtain B C where BC: "{currId s0<..currId s} = B \<union> C" "B \<inter> C = {}"
    "roots_at (store s) B (zip cs us)" "roots_at (store s) C R"
    by (auto simp: holds_def roots_append)
  have forest: "forest_at (store s) B None cs us"
    using BC(3) len by (simp add: roots_at_def)
  have fresh: "x < ?n" "currId s0 < x" if "x \<in> B \<or> x \<in> C" for x
    using BC(1) that by (metis UnCI add.commute greaterThanAtMost_iff less_Suc_eq_le plus_1_eq_Suc)+
  have sub: "set cs \<subseteq> B" by (rule forest_roots [OF forest])
  have root: "?st ?n = Some nd"
    using fresh sub by (intro store_add_node(1)) auto
  have "forest_at ?st B (Some ?n) cs us"
    using fresh by (intro forest_reparent [OF forest] store_add_node(2)) force
  then have tree: "tree_at ?st (insert ?n B) ?n (VTree v i ts)"
    using fresh nd us root by (intro tree_at_forest_at.tree [where nd = nd]) auto
  have "?st x = store s x" if "x \<in> C" for x
    using that BC(2) fresh [of x] sub by (subst store_add_node(2)) auto
  then have rest: "roots_at ?st C R"
    using BC(4) tree_frame(2) unfolding roots_at_def by blast
  have "roots_at ?st (insert ?n B) [(?n, VTree v i ts)]"
    using forest_cons [OF tree root nd(3), of "{}" "[]" "[]"] by (simp add: roots_at_def)
  moreover have "insert ?n B \<inter> C = {}" using BC(2) fresh by auto
  ultimately have "roots_at ?st (insert ?n B \<union> C) ([(?n, VTree v i ts)] @ R)"
    using rest unfolding roots_append by blast
  moreover have "insert ?n B \<union> C = {currId s0<..?n}"
  proof -
    have "insert ?n {currId s0<..currId s} = {currId s0<..?n}"
      using h by (auto simp: holds_def)
    then show ?thesis by (simp add: BC(1))
  qed
  moreover have "?st x = store s0 x" if "x \<le> currId s0" for x
    using that h sub fresh [of x] by (subst store_add_node(2)) (auto simp: holds_def)
  ultimately show ?thesis using h by (simp add: holds_def add_node_def)
qed

lemma CreateTreeNode_run:
  assumes "js_truthy v"
  shows "CreateTreeNode (RNode v) i (map_option (map ref) cs) s =
    (Inr (ref (currId s + 1)),
     add_node \<lparr>astNode = v, item = i, children = map_option (map ref) cs, parent = None,
       node_id = node_id_of (currId s + 1), isLeaf = (case cs of None \<Rightarrow> True | Some c \<Rightarrow> c = [])\<rparr>
       (case cs of None \<Rightarrow> [] | Some c \<Rightarrow> c) s)"
  using assms
  by (cases cs) (simp_all add: CreateTreeNode_def bindM_def ret_def getNextUniqueNodeId_def
      rv_truthy_def rv_isEmpty_def list_all_iff add_node_def)

lemma builds_create_some:
  assumes "js_truthy v" and "length cs = length ts"
  shows "builds (CreateTreeNode (RNode v) i (Some (map ref cs))) (zip cs ts) (is_tree (branch v i ts))"
  using CreateTreeNode_run [OF assms(1), of i "Some cs"] assms(2)
  by (auto simp: builds_def is_tree_def intro: holds_add_node [simplified])

lemma builds_create_none:
  assumes "js_truthy v"
  shows "builds (CreateTreeNode (RNode v) i None) [] (is_tree (leaf v i))"
  using CreateTreeNode_run [OF assms(1), of i None] holds_add_node [of _ "[]" "[]"]
  by (auto simp: builds_def is_tree_def)

section \<open>The handlers build the view\<close>

text \<open>\<open>kids rs K ts\<close>: the results \<open>rs\<close> are the roots, in order, of the trees \<open>ts\<close> among \<open>K\<close>.\<close>

definition kids :: "view_rv list \<Rightarrow> (nat \<times> vtree) list \<Rightarrow> vtree list \<Rightarrow> bool" where
  "kids rs K ts \<longleftrightarrow> (\<exists>cs. rs = map ref cs \<and> length cs = length ts \<and> mset K = mset (zip cs ts))"

lemma kids_Nil [build_intros]: "kids [] [] []"
  by (simp add: kids_def)

lemma kids_Cons [build_intros]:
  assumes "is_tree t r L" and "kids rs K ts"
  shows "kids (r # rs) (L @ K) (t # ts)"
proof -
  from assms obtain a cs where "r = ref a" "L = [(a, t)]" "rs = map ref cs"
    "length cs = length ts" "mset K = mset (zip cs ts)"
    by (auto simp: is_tree_def kids_def)
  then show ?thesis unfolding kids_def by (intro exI [of _ "a # cs"]) simp
qed

lemma kids_push_Nil [build_intros]: "kids (pushIfNotEmpty []) [] []"
  by (simp add: pushIfNotEmpty_def kids_Nil)

lemma kids_push_opt [build_intros]:
  assumes "is_opt v r L" and "kids (pushIfNotEmpty rs) K ts"
  shows "kids (pushIfNotEmpty (r # rs)) (L @ K) (opt_list v @ ts)"
  using assms kids_Cons [of _ r L]
  by (cases v) (auto simp: pushIfNotEmpty_def rv_isEmpty_def is_opt_def is_tree_def opt_list_def)

lemma kids_push [build_intros]:
  assumes "is_tree t r L" and "kids (pushIfNotEmpty rs) K ts"
  shows "kids (pushIfNotEmpty (r # rs)) (L @ K) (t # ts)"
  using kids_push_opt [of "Some t" r L rs K ts] assms by (simp add: is_opt_def opt_list_def)

lemma kids_push_null [build_intros]:
  "kids (pushIfNotEmpty rs) K ts \<Longrightarrow> kids (pushIfNotEmpty (RNull # rs)) K ts"
  "kids (pushIfNotEmpty rs) K ts \<Longrightarrow> kids (pushIfNotEmpty (RUndef # rs)) K ts"
  by (simp_all add: pushIfNotEmpty_def rv_isEmpty_def)

lemma builds_create:
  assumes "kids rs K' ts" and "js_truthy v" and "mset K = mset K'"
  shows "builds (CreateTreeNode (RNode v) i (Some rs)) K (is_tree (branch v i ts))"
  using assms builds_create_some [of v _ ts i] unfolding kids_def by (metis builds_perm)

lemma builds_create_list:
  assumes "is_list ts r L" and "js_truthy v"
  shows "builds (CreateTreeNode (RNode v) i (childrenOf r)) L (is_tree (branch v i ts))"
  using assms by (auto simp: is_list_def childrenOf_def intro: builds_create_some)

text \<open>A node for a list of results that becomes one of the children itself.\<close>

lemma builds_bind_list:
  assumes "is_list ts r L" and "js_truthy v" and "mset K' = mset (K @ L)"
    and "\<And>x M. is_tree (branch v i ts) x M \<Longrightarrow> builds (f x) (M @ K) Q"
  shows "builds (bindM (CreateTreeNode (RNode v) i (childrenOf r)) f) K' Q"
  using assms(3)
  by (intro builds_bind [OF builds_create_list [OF assms(1,2)] assms(4)]) auto

lemma builds_seq:
  assumes "builds m [] Q" and "\<And>r L. Q r L \<Longrightarrow> builds (f r) (K @ L) Q'"
  shows "builds (bindM m f) K Q'"
  by (rule builds_bind [OF assms(1), where R = K]) (auto intro: assms(2) builds_perm)

lemma builds_visits:
  assumes "\<And>x. x \<in> set xs \<Longrightarrow> builds (f x) [] (is_tree (g x))"
  shows "builds (visits (map f xs)) [] (is_list (map g xs))"
proof -
  define Q where "Q ts = (\<lambda>rs L. is_list ts (RList rs) L)" for ts
  have Q_Cons: "Q (t # ts) (r # rs) (K @ L)" if tree: "is_tree t r K" and list: "Q ts rs L"
    for t r K ts rs L
  proof -
    from tree list obtain a cs where "r = ref a" "K = [(a, t)]" "length cs = length ts"
      "rs = map ref cs" "L = zip cs ts"
      by (auto simp: is_tree_def is_list_def Q_def)
    then show ?thesis unfolding Q_def is_list_def by (intro exI [of _ "a # cs"]) simp
  qed
  have "builds (seqM (map f xs)) [] (Q (map g xs))"
    using assms
  proof (induction xs)
    case (Cons x xs)
    then show ?case
      by (auto intro!: builds_seq [of "f x"] builds_seq [of "seqM (map f xs)"] builds_ret Q_Cons)
  qed (auto intro!: builds_ret simp: Q_def is_list_def)
  then show ?thesis
    unfolding visits_def by (rule builds_seq) (simp add: builds_ret Q_def)
qed

lemma builds_opt:
  assumes "\<And>x. v = Some x \<Longrightarrow> builds (f x) [] (is_tree (g x))"
  shows "builds (visit_opt (map_option f v)) [] (is_opt (map_option g v))"
  using assms
  by (cases v) (auto simp: visit_opt_def is_opt_def [abs_def] intro!: builds_ret)

lemma AstTreeView_kinds:
  "AstTreeView ''literal'' = Some handlerLiteral_view"
  "AstTreeView ''property'' = Some handlerProperty_view"
  "AstTreeView ''identifier'' = Some handlerIdentifier_view"
  "AstTreeView ''pattern'' = Some handlerPattern_view"
  "AstTreeView ''variableDeclarator'' = Some handlerVariableDeclarator_view"
  "AstTreeView ''catchClause'' = Some handlerCatchClause_view"
  "AstTreeView ''switchCase'' = Some handlerSwitchCase_view"
  "AstTreeView ''exprThis'' = Some handlerExprThis_view"
  "AstTreeView ''exprArray'' = Some handlerExprArray_view"
  "AstTreeView ''exprObject'' = Some handlerExprObject_view"
  "AstTreeView ''exprFunction'' = Some handlerExprFunction_view"
  "AstTreeView ''exprSequence'' = Some handlerExprSequence_view"
  "AstTreeView ''exprUnary'' = Some handlerExprUnary_view"
  "AstTreeView ''exprBinary'' = Some handlerExprBinary_view"
  "AstTreeView ''exprAssignment'' = Some handlerExprAssignment_view"
  "AstTreeView ''exprUpdate'' = Some handlerExprUpdate_view"
  "AstTreeView ''exprLogical'' = Some handlerExprLogical_view"
  "AstTreeView ''exprConditional'' = Some handlerExprConditional_view"
  "AstTreeView ''exprNew'' = Some handlerExprNew_view"
  "AstTreeView ''exprCall'' = Some handlerExprCall_view"
  "AstTreeView ''exprMember'' = Some handlerExprMember_view"
  "AstTreeView ''exprMetaQuazi'' = Some handlerExprMetaQuazi_view"
  "AstTreeView ''exprMetaExec'' = Some handlerExprMetaExec_view"
  "AstTreeView ''stmtEmpty'' = Some handlerStmtEmpty_view"
  "AstTreeView ''stmtBlock'' = Some handlerStmtBlock_view"
  "AstTreeView ''stmtExpr'' = Some handlerStmtExpr_view"
  "AstTreeView ''stmtIf'' = Some handlerStmtIf_view"
  "AstTreeView ''stmtLabeled'' = Some handlerStmtLabeled_view"
  "AstTreeView ''stmtBreak'' = Some handlerStmtBreak_view"
  "AstTreeView ''stmtContinue'' = Some handlerStmtContinue_view"
  "AstTreeView ''stmtSwitch'' = Some handlerStmtSwitch_view"
  "AstTreeView ''stmtReturn'' = Some handlerStmtReturn_view"
  "AstTreeView ''stmtThrow'' = Some handlerStmtThrow_view"
  "AstTreeView ''stmtTry'' = Some handlerStmtTry_view"
  "AstTreeView ''stmtWhile'' = Some handlerStmtWhile_view"
  "AstTreeView ''stmtDoWhile'' = Some handlerStmtDoWhile_view"
  "AstTreeView ''stmtFor'' = Some handlerStmtFor_view"
  "AstTreeView ''stmtForIn'' = Some handlerStmtForIn_view"
  "AstTreeView ''stmtDebugger'' = Some handlerStmtDebugger_view"
  "AstTreeView ''stmtDeclFunction'' = Some handlerStmtDeclFunction_view"
  "AstTreeView ''stmtDeclVariable'' = Some handlerStmtDeclVariable_view"
  "AstTreeView ''program'' = Some handlerProgram_view"
  by (simp_all add: AstTreeView_def)

lemmas view_kinds = AstTreeView_kinds [unfolded view_handlers handlerProgram_view_def]

lemma builds_single:
  assumes "AstTreeView k = Some (visitorCallNullary h)" and "builds (h args) [] Q"
  shows "builds (trvsCallVisitor AstTreeView k ''single'' args) [] Q"
  using assms by (simp add: trvsCallVisitor_def visitor_simps)

lemma builds_one:
  assumes "AstTreeView k = Some (visitorCallAfter h)" and "builds m [] P"
    and "\<And>r L. P r L \<Longrightarrow> builds (h [RNode n, RUndef, r]) L Q"
  shows "builds (visit_one AstTreeView k n m) [] Q"
  using assms by (auto simp: visit_one_def trvsCallVisitor_def visitor_simps intro!: builds_seq)

lemma builds_unary:
  assumes "AstTreeView k = Some (visitorCallAfter h)" and "builds m [] P"
    and "\<And>r L. P r L \<Longrightarrow> builds (h [RNode n, RUndef, RNode (JStr opr), r]) L Q"
  shows "builds (visit_unary AstTreeView k n opr m) [] Q"
  using assms by (auto simp: visit_unary_def trvsCallVisitor_def visitor_simps intro!: builds_seq)

lemma builds_two:
  assumes "AstTreeView k = Some (visitorCallAfter h)" and "mid \<noteq> ''after''"
    and "builds m1 [] P1" and "builds m2 [] P2"
    and "\<And>r K q L. P1 r K \<Longrightarrow> P2 q L \<Longrightarrow> builds (h [RNode n, RUndef, r, RUndef, q]) (K @ L) Q"
  shows "builds (visit_two AstTreeView k mid n m1 m2) [] Q"
  using assms by (auto simp: visit_two_def trvsCallVisitor_def visitor_simps intro!: builds_seq)

lemma builds_three:
  assumes "AstTreeView k = Some (visitorCallAfter h)" and "mid1 \<noteq> ''after''" and "mid2 \<noteq> ''after''"
    and "builds m1 [] P1" and "builds m2 [] P2" and "builds m3 [] P3"
    and "\<And>r J q K p L. P1 r J \<Longrightarrow> P2 q K \<Longrightarrow> P3 p L \<Longrightarrow>
      builds (h [RNode n, RUndef, r, RUndef, q, RUndef, p]) (J @ K @ L) Q"
  shows "builds (visit_three AstTreeView k mid1 mid2 n m1 m2 m3) [] Q"
  unfolding visit_three_def using assms
  by (simp add: trvsCallVisitor_def visitor_simps)
     (rule builds_seq, assumption, rule builds_seq, assumption, rule builds_seq, assumption, simp)

text \<open>Nodes and lists of nodes are truthy.\<close>

lemma truthy_nodes [build_intros]:
  "js_truthy (node ty fs)" "js_truthy (JArr vs)" "js_truthy (enc_expr e)" "js_truthy (enc_ident n)"
  "js_truthy (enc_block vs)" "js_truthy (enc_decls vs)" "js_truthy (enc_literal l)"
  by (simp_all add: js_truthy_def node_def enc_shapes) (cases e, simp_all add: node_def enc_shapes)

lemma truthy_syntax [build_intros]:
  "js_truthy (enc_property p)" "js_truthy (enc_declarator d)" "js_truthy (enc_case c)"
  "js_truthy (enc_catch h)" "js_truthy (enc_stmt s)" "js_truthy (enc_program ss)"
  by (cases p, cases d, cases c, cases h, cases s;
      simp add: build_intros enc_program_def enc_function_def)+

lemma rv_truthy_opt: "is_opt v r L \<Longrightarrow> rv_truthy r \<longleftrightarrow> v \<noteq> None"
  by (auto simp: is_opt_def is_tree_def rv_truthy_def split: option.splits)

lemma visit_block_one: "visit_block V vs ms = visit_one V ''stmtBlock'' (enc_block vs) (visits ms)"
  by (simp add: visit_block_def visit_one_def)

lemma visit_decls_one: "visit_decls V vs ms = visit_one V ''stmtDeclVariable'' (enc_decls vs) (visits ms)"
  by (simp add: visit_decls_def visit_one_def)

lemmas handler_run = arg_def argNode_def handlerFunction_view_def enc_simps

lemma builds_leaf_lit: "builds (visit_lit AstTreeView l) [] (is_tree (view_lit l))"
  unfolding visit_lit_def view_lit_def
  by (rule builds_single, rule view_kinds)
     (cases l; simp add: handler_run stringifyValue_view_def builds_create_none build_intros)

lemma builds_leaf_ident: "builds (visit_ident AstTreeView n) [] (is_tree (view_ident n))"
  unfolding visit_ident_def view_ident_def
  by (rule builds_single, rule view_kinds)
     (simp add: handler_run stringifyValue_view_def builds_create_none build_intros)

lemma builds_leaf_pattern: "builds (visit_pattern AstTreeView n) [] (is_tree (view_ident n))"
  unfolding visit_pattern_def view_ident_def
  by (rule builds_single, rule view_kinds)
     (simp add: handler_run stringifyValue_view_def builds_create_none build_intros)

lemma builds_key: "builds (visit_key AstTreeView k) [] (is_tree (view_key k))"
  by (cases k) (simp_all add: attempt_def builds_tryCatch builds_leaf_lit builds_leaf_ident)

lemma builds_block:
  assumes "\<And>s. s \<in> set ss \<Longrightarrow> builds (f s) [] (is_tree (g s))"
  shows "builds (visit_block AstTreeView vs (map f ss)) [] (is_tree (view_block vs (map g ss)))"
  unfolding visit_block_one view_block_def
  by (rule builds_one [OF _ builds_visits [OF assms]], rule view_kinds)
     (simp_all add: handler_run builds_create_list build_intros)

lemma builds_decls:
  assumes "\<And>s. s \<in> set ss \<Longrightarrow> builds (f s) [] (is_tree (g s))"
  shows "builds (visit_decls AstTreeView vs (map f ss)) [] (is_tree (view_decls vs (map g ss)))"
  unfolding visit_decls_one view_decls_def
  by (rule builds_one [OF _ builds_visits [OF assms]], rule view_kinds)
     (simp_all add: handler_run builds_create_list build_intros)


lemma opt_list_simps [simp]: "opt_list None = []" "opt_list (Some x) = [x]"
  by (simp_all add: opt_list_def)

lemma kids_push_last [build_intros]:
  "is_opt v r L \<Longrightarrow> kids (pushIfNotEmpty [r]) L (opt_list v)"
  using kids_push_opt [of v r L "[]" "[]" "[]", OF _ kids_push_Nil] by simp

lemma builds_attempt: "builds m K Q \<Longrightarrow> builds (attempt m) K Q"
  unfolding attempt_def by (rule builds_tryCatch)

lemmas build_rules = kids_push_last builds_create_none builds_create builds_create_list builds_bind_list
  build_intros builds_tryCatch builds_ret

lemma builds_function:
  assumes "AstTreeView k = Some (visitorCallAfter (\<lambda>args.
      handlerFunction_view args it (arg args 2) (arg args 4) (arg args 6)))"
    and "builds idm [] (is_opt idt)" and "\<And>s. s \<in> set body \<Longrightarrow> builds (visit_stmt AstTreeView s) [] (is_tree (view_stmt s))"
    and "fld v ''params'' = JArr (map enc_ident ps)" and "js_truthy v"
  shows "builds (visit_function AstTreeView k v idm ps (map enc_stmt body) (map (visit_stmt AstTreeView) body)) []
     (is_tree (view_function v it (opt_list idt) ps (view_block (map enc_stmt body) (map view_stmt body))))"
proof -
  note block = builds_block [where f = "visit_stmt AstTreeView" and g = view_stmt, OF assms(3)]
  note params = builds_visits [where f = "visit_pattern AstTreeView" and g = view_ident, OF builds_leaf_pattern]
  have run: "builds (handlerFunction_view [RNode v, RUndef, i, RUndef, p, RUndef, b] it i p b) (J @ K @ L)
      (is_tree (view_function v it (opt_list idt) ps (view_block (map enc_stmt body) (map view_stmt body))))"
    if "is_opt idt i J" "is_list (map view_ident ps) p K"
      "is_tree (view_block (map enc_stmt body) (map view_stmt body)) b L" for i p b J K L
    using that assms(4,5)
    by (auto simp: handler_run view_function_def
        intro!: builds_bind_list [where K = "J @ L"] builds_create build_intros)
  show ?thesis
    unfolding visit_function_def using assms(1)
    by (simp add: trvsCallVisitor_def visitor_simps arg_def)
       (rule builds_seq [OF assms(2)], rule builds_seq [OF params], rule builds_seq [OF builds_attempt [OF block]],
        assumption, simp add: run)
qed

lemma js_truthy_JStr: "js_truthy (JStr s) \<longleftrightarrow> s \<noteq> []"
  by (simp add: js_truthy_def)

lemma is_list_Nil [simp]: "is_list [] r L \<longleftrightarrow> r = RList [] \<and> L = []"
  by (auto simp: is_list_def)

lemma rv_isEmpty_list: "is_list ts r L \<Longrightarrow> rv_isEmpty r \<longleftrightarrow> ts = []"
  by (auto simp: is_list_def rv_isEmpty_def)

lemma rv_truthy_list: "is_list ts r L \<Longrightarrow> rv_truthy r"
  by (auto simp: is_list_def rv_truthy_def)

lemma rv_isEmpty_Nil: "rv_isEmpty (RList [])"
  by (simp add: rv_isEmpty_def)

lemma is_opt_None [simp]: "is_opt None r L \<longleftrightarrow> r = RNull \<and> L = []"
  by (auto simp: is_opt_def)

lemma is_opt_Some [simp]: "is_opt (Some t) = is_tree t"
  by (auto simp: is_opt_def fun_eq_iff)

lemma rv_truthy_simps: "is_tree t r L \<Longrightarrow> rv_truthy r" "\<not> rv_truthy RNull"
  by (auto simp: is_tree_def rv_truthy_def)

lemma builds_affix:
  assumes "AstTreeView k = Some (handlerGenExprUnaryExpr_view name)" and "builds m [] (is_tree t)"
    and "v = node ty [(''operator'', JStr opr), (''argument'', x), (''prefix'', JBool pre)]" and "js_truthy x"
  shows "builds (visit_unary AstTreeView k v opr m) [] (is_tree (view_affix v name x opr pre t))"
proof (rule builds_unary [OF assms(1) [unfolded handlerGenExprUnaryExpr_view_def] assms(2)], goal_cases)
  case (1 r L)
  have "fld v ''argument'' = x" "us_has v ''prefix''" "fld v ''prefix'' = JBool pre" "js_truthy v"
    by (simp_all add: assms(3) enc_simps build_intros)
  with 1 assms(4) show ?case
    by (auto simp: handler_run view_affix_def opText_def js_truthy_JStr js_truthy_def [of "JBool _"]
        intro!: builds_seq [OF builds_create_none] builds_create build_intros)
qed

lemma builds_for:
  assumes "builds mi [] (is_opt ti)" and "builds mt [] (is_opt tt)" and "builds mu [] (is_opt tu)"
    and "builds mb [] (is_tree t)" and "js_truthy n"
  shows "builds (visit_for AstTreeView n mi mt mu mb) []
    (is_tree (branch n (genStmt ''For'') (opt_list ti @ opt_list tt @ opt_list tu @ [t])))"
proof -
  have run: "builds (CreateTreeNode (RNode n) (genStmt ''For'') (Some (pushIfNotEmpty [i, x, u, b])))
      (I @ X @ U @ B) (is_tree (branch n (genStmt ''For'') (opt_list ti @ opt_list tt @ opt_list tu @ [t])))"
    if "is_opt ti i I" "is_opt tt x X" "is_opt tu u U" "is_tree t b B" for i x u b I X U B
    using that assms(5) by (auto intro!: builds_create build_intros)
  show ?thesis
    unfolding visit_for_def
    by (simp add: trvsCallVisitor_def visitor_simps view_kinds arg_def)
       (rule builds_seq [OF assms(1)], rule builds_seq [OF assms(2)], rule builds_seq [OF assms(3)],
        rule builds_seq [OF assms(4)], simp add: run)
qed

lemma builds_forin:
  assumes "builds ml [] (is_tree tleft)" and "builds mr [] (is_tree tright)" and "builds mb [] (is_tree t)"
    and "js_truthy n"
  shows "builds (visit_forin AstTreeView n ml mr mb) []
    (is_tree (branch n (genStmt ''For In'') [tleft, tright, t]))"
proof -
  have run: "builds (CreateTreeNode (RNode n) (genStmt ''For In'') (Some (pushIfNotEmpty [l, r, b])))
      (L @ R @ B) (is_tree (branch n (genStmt ''For In'') [tleft, tright, t]))"
    if "is_tree tleft l L" "is_tree tright r R" "is_tree t b B" for l r b L R B
    using that assms(4) by (auto intro!: builds_create build_intros)
  show ?thesis
    unfolding visit_forin_def
    by (simp add: trvsCallVisitor_def visitor_simps view_kinds arg_def)
       (rule builds_seq [OF assms(1)], rule builds_seq [OF assms(2)], rule builds_seq [OF assms(3)],
        simp add: run)
qed

lemma builds_null: "builds (ret RNull) [] (is_opt None)"
  by (simp add: builds_ret)

lemma builds_visit:
  "builds (visit_expr AstTreeView e) [] (is_tree (view_expr e))"
  "builds (visit_property AstTreeView p) [] (is_tree (view_property p))"
  "builds (visit_declarator AstTreeView v) [] (is_tree (view_declarator v))"
  "builds (visit_case AstTreeView c) [] (is_tree (view_case c))"
  "builds (visit_catch AstTreeView h) [] (is_tree (view_catch h))"
  "builds (visit_init AstTreeView i) [] (is_tree (view_init i))"
  "builds (visit_stmt AstTreeView s) [] (is_tree (view_stmt s))"
proof (induction e and p and v and c and h and i and s)
  case (BinaryExpression opr l r)
  show ?case unfolding visit_expr.simps view_expr.simps
    by (rule builds_two [OF _ _ BinaryExpression], rule view_kinds)
       (auto simp: handler_run operatorItem_def js_truthy_JStr intro!: build_rules)
next
  case (AssignmentExpression opr l r)
  show ?case unfolding visit_expr.simps view_expr.simps
    by (rule builds_two [OF _ _ AssignmentExpression], rule view_kinds)
       (auto simp: handler_run operatorItem_def js_truthy_JStr intro!: build_rules)
next
  case (LogicalExpression opr l r)
  show ?case unfolding visit_expr.simps view_expr.simps
    by (rule builds_two [OF _ _ LogicalExpression], rule view_kinds)
       (auto simp: handler_run operatorItem_def js_truthy_JStr intro!: build_rules)
next
  case (NewExpression f es)
  show ?case unfolding visit_expr.simps view_expr.simps
    by (rule builds_two [OF _ _ NewExpression(1) builds_visits [OF NewExpression(2)]], rule view_kinds)
       (auto simp: handler_run  intro!: build_rules)
next
  case (CallExpression f es)
  show ?case unfolding visit_expr.simps view_expr.simps
    by (rule builds_two [OF _ _ CallExpression(1) builds_visits [OF CallExpression(2)]], rule view_kinds)
       (auto simp: handler_run  intro!: build_rules)
next
  case (ThisExpression)
  show ?case unfolding visit_expr.simps view_expr.simps
    by (rule builds_single, rule view_kinds)
       (auto simp: handler_run  intro!: build_rules)
next
  case (SequenceExpression es)
  show ?case unfolding visit_expr.simps view_expr.simps
    by (rule builds_one [OF _ builds_visits [OF SequenceExpression]], rule view_kinds)
       (auto simp: handler_run  intro!: build_rules)
next
  case (MetaQuaziStatement ss)
  show ?case unfolding visit_expr.simps view_expr.simps
    by (rule builds_one [OF _ builds_visits [OF MetaQuaziStatement]], rule view_kinds)
       (auto simp: handler_run  intro!: build_rules)
next
  case (MetaExecStatement s)
  show ?case unfolding visit_expr.simps view_expr.simps
    by (rule builds_one [OF _ MetaExecStatement], rule view_kinds)
       (auto simp: handler_run  intro!: build_rules)
next
  case (ConditionalExpression t c a)
  show ?case unfolding visit_expr.simps view_expr.simps
    by (rule builds_three [OF _ _ _ ConditionalExpression(1,3,2)], rule view_kinds)
       (auto simp: handler_run  intro!: build_rules)
next
  case (ObjectExpression ps)
  show ?case unfolding visit_expr.simps view_expr.simps
    by (rule builds_one [OF _ builds_visits [OF ObjectExpression]], rule view_kinds)
       (auto simp: handler_run rv_isEmpty_Nil rv_isEmpty_list intro!: build_rules)
next
  case (UnaryExpression opr pre e)
  show ?case unfolding visit_expr.simps view_expr.simps
    by (rule builds_affix [OF _ UnaryExpression]) (auto simp: AstTreeView_kinds handlerExprUnary_view_def
        handlerExprUpdate_view_def build_intros)
next
  case (UpdateExpression opr pre e)
  show ?case unfolding visit_expr.simps view_expr.simps
    by (rule builds_affix [OF _ UpdateExpression]) (auto simp: AstTreeView_kinds handlerExprUnary_view_def
        handlerExprUpdate_view_def build_intros)
next
  case (FunctionExpression n ps body)
  show ?case unfolding visit_expr.simps view_expr.simps
    by (rule builds_function, rule view_kinds, rule builds_opt)
       (auto simp: builds_leaf_ident FunctionExpression enc_simps enc_function_def build_intros)
next
  case (FunctionDeclaration n ps body)
  have ident: "builds (visit_ident AstTreeView n) [] (is_opt (Some (view_ident n)))"
    by (simp add: builds_leaf_ident)
  have "builds (visit_stmt AstTreeView (FunctionDeclaration n ps body)) []
    (is_tree (view_function (enc_stmt (FunctionDeclaration n ps body)) (genStmt ''Function'')
       (opt_list (Some (view_ident n))) ps (view_block (map enc_stmt body) (map view_stmt body))))"
    unfolding visit_stmt.simps
    by (rule builds_function [OF _ ident], rule view_kinds)
       (auto simp: FunctionDeclaration enc_simps enc_function_def build_intros)
  then show ?case by simp
next
  case (MemberExpression e p c)
  have mem: "builds (if is_Identifier p then tryCatch (visit_expr AstTreeView p) (\<lambda>_. visit_expr AstTreeView p)
     else visit_expr AstTreeView p) [] (is_tree (view_expr p))"
    using MemberExpression(2) by (simp add: builds_tryCatch)
  show ?case unfolding visit_expr.simps view_expr.simps
    by (rule builds_two [OF _ _ MemberExpression(1) mem], rule view_kinds)
       (auto simp: handler_run intro!: build_rules)
next
  case (Property k e)
  show ?case unfolding visit_property.simps view_property.simps
    by (rule builds_two [OF _ _ builds_key Property], rule view_kinds)
       (auto simp: handler_run  intro!: build_rules)
next
  case (VariableDeclarator n e)
  show ?case unfolding visit_declarator.simps view_declarator.simps
    by (rule builds_two [OF _ _ builds_leaf_pattern builds_opt [OF VariableDeclarator]], rule view_kinds)
       (auto simp: handler_run  intro!: build_rules)
next
  case (SwitchCase t ss)
  show ?case unfolding visit_case.simps view_case.simps
    by (rule builds_two [OF _ _ builds_opt [OF SwitchCase(1)] builds_visits [OF SwitchCase(2)]], rule view_kinds)
       (auto simp: handler_run  intro!: build_rules)
next
  case (EmptyStatement)
  show ?case unfolding visit_stmt.simps view_stmt.simps
    by (rule builds_single, rule view_kinds)
       (auto simp: handler_run  intro!: build_rules)
next
  case (DebuggerStatement)
  show ?case unfolding visit_stmt.simps view_stmt.simps
    by (rule builds_single, rule view_kinds)
       (auto simp: handler_run  intro!: build_rules)
next
  case (ExpressionStatement e)
  show ?case unfolding visit_stmt.simps view_stmt.simps
    by (rule builds_one [OF _ ExpressionStatement], rule view_kinds)
       (auto simp: handler_run  intro!: build_rules)
next
  case (ThrowStatement e)
  show ?case unfolding visit_stmt.simps view_stmt.simps
    by (rule builds_one [OF _ ThrowStatement], rule view_kinds)
       (auto simp: handler_run  intro!: build_rules)
next
  case (LabeledStatement l s)
  show ?case unfolding visit_stmt.simps view_stmt.simps
    by (rule builds_two [OF _ _ builds_leaf_ident LabeledStatement], rule view_kinds)
       (auto simp: handler_run  intro!: build_rules)
next
  case (IfStatement t c a)
  show ?case unfolding visit_stmt.simps view_stmt.simps
    by (rule builds_three [OF _ _ _ IfStatement(1,2) builds_opt [OF IfStatement(3)]], rule view_kinds)
       (auto simp: handler_run  intro!: build_rules)
next
  case (SwitchStatement e cs)
  show ?case unfolding visit_stmt.simps view_stmt.simps
    by (rule builds_two [OF _ _ SwitchStatement(1) builds_visits [OF SwitchStatement(2)]], rule view_kinds)
       (auto simp: handler_run  intro!: build_rules)
next
  case (WhileStatement e s)
  show ?case unfolding visit_stmt.simps view_stmt.simps
    by (rule builds_two [OF _ _ WhileStatement], rule view_kinds)
       (auto simp: handler_run  intro!: build_rules)
next
  case (DoWhileStatement e s)
  show ?case unfolding visit_stmt.simps view_stmt.simps
    by (rule builds_two [OF _ _ DoWhileStatement], rule view_kinds)
       (auto simp: handler_run  intro!: build_rules)
next
  case (ArrayExpression es)
  note elems = builds_visits [where f = "visit_expr AstTreeView" and g = view_expr, OF ArrayExpression]
  let ?v = "enc_expr (ArrayExpression es)"
  have "builds (visit_one AstTreeView ''exprArray'' ?v (ret RNull)) [] (is_tree (leaf ?v (genExpr ''Array'')))"
    by (rule builds_one [OF _ builds_null], rule view_kinds)
       (auto simp: handler_run rv_truthy_simps intro!: build_rules)
  moreover have "builds (visit_one AstTreeView ''exprArray'' ?v (visits (map (visit_expr AstTreeView) es))) []
    (is_tree (branch ?v (genExpr ''Array'') (map view_expr es)))"
    by (rule builds_one [OF _ elems], rule view_kinds)
       (auto simp: handler_run rv_truthy_list intro!: build_rules)
  ultimately show ?case unfolding visit_expr.simps view_expr.simps by (auto split: if_splits)
next
  case (CatchClause p g ss)
  show ?case unfolding visit_catch.simps view_catch.simps
    by (rule builds_three [OF _ _ _ builds_leaf_pattern builds_null builds_block [OF CatchClause(2)]], rule view_kinds)
       (auto simp: handler_run view_ident_def [symmetric] intro!: build_rules)
next
  case (BreakStatement l)
  show ?case unfolding visit_stmt.simps view_stmt.simps
    by (rule builds_one [OF _ builds_opt [OF builds_leaf_ident]], rule view_kinds)
       (cases l; auto simp: handler_run rv_truthy_simps intro!: build_rules)
next
  case (ContinueStatement l)
  show ?case unfolding visit_stmt.simps view_stmt.simps
    by (rule builds_one [OF _ builds_opt [OF builds_leaf_ident]], rule view_kinds)
       (cases l; auto simp: handler_run rv_truthy_simps intro!: build_rules)
next
  case (ReturnStatement e)
  show ?case unfolding visit_stmt.simps view_stmt.simps
    by (rule builds_one [OF _ builds_opt [OF ReturnStatement]], rule view_kinds)
       (cases e; auto simp: handler_run rv_truthy_simps intro!: build_rules)+
next
  case (TryStatement b h f)
  have fin: "builds (visit_opt (map_option
       (\<lambda>ms. visit_block AstTreeView (case f of None \<Rightarrow> [] | Some ss \<Rightarrow> map enc_stmt ss) ms)
       (map_option (map (visit_stmt AstTreeView)) f))) []
     (is_opt (map_option (\<lambda>ts. view_block (case f of None \<Rightarrow> [] | Some ss \<Rightarrow> map enc_stmt ss) ts)
       (map_option (map view_stmt) f)))"
    using TryStatement(3)
    by (cases f) (auto simp: visit_opt_def intro!: builds_ret builds_block)
  show ?case unfolding visit_stmt.simps view_stmt.simps
    by (rule builds_three [OF _ _ _ builds_block [OF TryStatement(1)] builds_opt [OF TryStatement(2)] fin],
        rule view_kinds)
       (auto simp: handler_run intro!: build_rules)
next
  case (ForStatement i t u s)
  show ?case unfolding visit_stmt.simps view_stmt.simps
    by (rule builds_for [OF builds_opt [OF ForStatement(1)] builds_opt [OF ForStatement(2)]
          builds_opt [OF ForStatement(3)] ForStatement(4)]) (auto intro: build_intros)
next
  case (ForInStatement i e s)
  show ?case unfolding visit_stmt.simps view_stmt.simps
    by (rule builds_forin [OF ForInStatement]) (rule build_intros)
qed (auto simp: builds_leaf_lit builds_leaf_ident builds_block builds_decls builds_attempt)


section \<open>The whole program\<close>

lemma program_builds:
  obtains a s' where "trvsProgram AstTreeView (enc_program ss) s = (Inr (RVal (Tree a)), s')"
    and "tree_at (store s') {currId s<..currId s'} a (view_program ss)"
    and "\<forall>x\<le>currId s. store s' x = store s x"
    and "\<exists>nd. store s' a = Some nd \<and> parent nd = None"
proof -
  note stmts = builds_visits [where f = "visit_stmt AstTreeView" and g = view_stmt, OF builds_visit(7)]
  have root: "builds (bindM (CreateTreeNode (RNode (enc_program ss)) (genStmt ''program'') (childrenOf r))
       (\<lambda>root. ret (case root of RVal (TreeNode a) \<Rightarrow> RVal (Tree a) | r \<Rightarrow> r))) L
      (\<lambda>r L. \<exists>a. r = RVal (Tree a) \<and> L = [(a, view_program ss)])"
    if "is_list (map view_stmt ss) r L" for r L
    by (rule builds_bind [OF builds_create_list [OF that], where R = "[]"])
       (auto simp: is_tree_def view_program_def intro!: builds_ret build_intros)
  have "builds (visit_program AstTreeView ss) []
      (\<lambda>r L. \<exists>a. r = RVal (Tree a) \<and> L = [(a, view_program ss)])"
    unfolding visit_program_def
    by (simp add: trvsCallVisitor_def visitor_simps view_kinds arg_def)
       (rule builds_seq [OF stmts], simp, rule root [unfolded append_Nil])
  moreover have "holds s ([] @ []) s" by (simp add: holds_start)
  ultimately obtain a s' where "visit_program AstTreeView ss s = (Inr (RVal (Tree a)), s')"
    "holds s ([(a, view_program ss)] @ []) s'"
    by (elim buildsD) auto
  then show ?thesis
    using that by (auto simp: holds_def roots_at_def program_is_visit elim!: forest_consE)
qed

section \<open>The walks\<close>

primrec vnodes :: "vtree \<Rightarrow> (jsval \<times> item) list" where
  "vnodes (VTree v i ts) = (v, i) # (case map_option (map vnodes) ts of None \<Rightarrow> [] | Some xss \<Rightarrow> concat xss)"

definition nodes_at :: "(nat \<rightharpoonup> tree_node) \<Rightarrow> nat list \<Rightarrow> (jsval \<times> item) list" where
  "nodes_at st xs = map (\<lambda>x. (astNode (the (st x)), item (the (st x)))) xs"

lemma childAddresses_refs: "childAddresses (map ref cs) = Some cs"
  by (induction cs) auto

lemma topDown_tree:
  "tree_at st A a t \<Longrightarrow> (\<And>f. f > a \<Longrightarrow> \<exists>xs. topDownVisitor f st a = Some xs \<and> set xs = A \<and>
      distinct xs \<and> nodes_at st xs = vnodes t)"
  "forest_at st A p cs ts \<Longrightarrow> (\<And>f. \<forall>x\<in>A. f > x \<Longrightarrow>
      \<exists>xss. those (map (topDownVisitor f st) cs) = Some xss \<and> set (concat xss) = A \<and>
        distinct (concat xss) \<and> nodes_at st (concat xss) = concat (map vnodes ts))"
proof (induction rule: tree_at_forest_at.inducts)
  case (tree a nd v i ts cs A)
  obtain g where f: "f = Suc g" and "a \<le> g" using tree.prems by (cases f) auto
  have "\<forall>x\<in>A. g > x" using tree.hyps tree.IH(1,2) \<open>a \<le> g\<close> by auto
  from tree.IH(3) [OF this] obtain xss where "those (map (topDownVisitor g st) cs) = Some xss"
    "set (concat xss) = A" "distinct (concat xss)"
    "nodes_at st (concat xss) = concat (map vnodes (case ts of None \<Rightarrow> [] | Some us \<Rightarrow> us))"
    by blast
  moreover have "childAddresses (case children nd of None \<Rightarrow> [] | Some rs \<Rightarrow> rs) = Some cs"
    using tree.hyps tree.IH(1,2) by (cases ts) (auto simp: childAddresses_refs)
  ultimately have "topDownVisitor f st a = Some (a # concat xss)"
    using tree.hyps tree.IH(1,2) f by simp
  moreover have "nodes_at st (a # concat xss) = vnodes (VTree v i ts)"
    using tree.hyps tree.IH(1,2) \<open>nodes_at st (concat xss) = _\<close> by (cases ts) (simp_all add: nodes_at_def)
  ultimately show ?case
    using tree.hyps tree.IH(1,2) \<open>set (concat xss) = A\<close> \<open>distinct (concat xss)\<close> by (intro exI [of _ "a # concat xss"]) simp
next
  case (forest_cons A c t nd p B cs ts)
  from forest_cons obtain xs xss where "topDownVisitor f st c = Some xs" "set xs = A" "distinct xs"
    "nodes_at st xs = vnodes t" "those (map (topDownVisitor f st) cs) = Some xss" "set (concat xss) = B"
    "distinct (concat xss)" "nodes_at st (concat xss) = concat (map vnodes ts)"
    using tree_at_root [OF forest_cons(1)] by (metis UnCI)
  then show ?case using forest_cons.hyps by (auto simp: nodes_at_def)
qed (auto simp: nodes_at_def)

lemma tree_parent:
  "tree_at st A a t \<Longrightarrow> (\<And>x. x \<in> A \<Longrightarrow> x \<noteq> a \<Longrightarrow>
     \<exists>nd p. st x = Some nd \<and> parent nd = Some p \<and> p \<in> A \<and> x < p)"
  "forest_at st A p cs ts \<Longrightarrow> (\<And>x. x \<in> A \<Longrightarrow>
     \<exists>nd. st x = Some nd \<and> (parent nd = p \<or> (\<exists>q\<in>A. parent nd = Some q \<and> x < q)))"
proof (induction rule: tree_at_forest_at.inducts)
  case (tree a nd v i ts cs A)
  then have "x \<in> A" by simp
  from tree.IH(3) [OF this] this tree.hyps tree.IH(1,2) show ?case by auto
next
  case (forest_cons A c t nd p B cs ts)
  then show ?case by (cases "x = c") (auto, blast+)
qed auto

lemma ancestors_tree:
  assumes "tree_at st A a t" and "x \<in> A" and "x \<noteq> a" and "f \<ge> a - x"
  shows "\<exists>ps. ancestors f st a x = Some (Inr ps) \<and> ps \<noteq> [] \<and> last ps = a \<and>
    sorted_wrt (<) (x # ps) \<and> set ps \<subseteq> A"
  using assms(2-)
proof (induction "a - x" arbitrary: x f rule: less_induct)
  case less
  from tree_parent(1) [OF assms(1) less.prems(1,2)] obtain nd p where
    p: "st x = Some nd" "parent nd = Some p" "p \<in> A" "x < p" by auto
  have "p \<le> a" using tree_at_root [OF assms(1)] p by auto
  then obtain g where f: "f = Suc g" "a - p \<le> g" using less.prems p by (cases f) auto
  show ?case
  proof (cases "p = a")
    case False
    have "\<exists>ps. ancestors g st a p = Some (Inr ps) \<and> ps \<noteq> [] \<and> last ps = a \<and>
        sorted_wrt (<) (p # ps) \<and> set ps \<subseteq> A"
      using p f False \<open>p \<le> a\<close> by (intro less.hyps) auto
    then obtain ps where ps: "ancestors g st a p = Some (Inr ps)" "ps \<noteq> []" "last ps = a"
      "sorted_wrt (<) (p # ps)" "set ps \<subseteq> A"
      by blast
    with p f False have "ancestors f st a x = Some (Inr (p # ps))" by simp
    with ps p show ?thesis by (intro exI [of _ "p # ps"]) auto
  qed (use p f assms(1) in \<open>auto dest: tree_at_root\<close>)
qed


lemma parentToRoot_tree:
  assumes "tree_at st A a t" and "x \<in> A"
  shows "\<exists>ps. parentToRootVisitor a st a x = Some (Inr ps) \<and> last (x # ps) = a \<and>
    sorted_wrt (<) (x # ps) \<and> set ps \<subseteq> A"
proof (cases "x = a")
  case False
  then obtain ps where "ancestors a st a x = Some (Inr ps)" "ps \<noteq> []" "last ps = a"
    "sorted_wrt (<) (x # ps)" "set ps \<subseteq> A"
    using ancestors_tree [OF assms, of a] by auto
  with False show ?thesis by (intro exI [of _ ps]) (simp add: parentToRootVisitor_def)
qed (simp add: parentToRootVisitor_def)

section \<open>Properties\<close>

text \<open>
  C3: Visiting a program with the tree-view visitor returns, without an exception, a tree whose
  root is a new node. The nodes the run allocates are exactly the nodes of the tree that the
  structural description \<open>view_program\<close> gives for that program, each child linked to its parent
  and no node shared; every node that existed before keeps its contents.
\<close>

theorem treeview_of_program:
  "\<exists>a s'. trvsProgram AstTreeView (enc_program ss) s = (Inr (RVal (Tree a)), s') \<and>
     tree_at (store s') {currId s<..currId s'} a (view_program ss) \<and>
     store s' |` {..currId s} = store s |` {..currId s}"
proof -
  obtain a s' where run: "trvsProgram AstTreeView (enc_program ss) s = (Inr (RVal (Tree a)), s')"
    "tree_at (store s') {currId s<..currId s'} a (view_program ss)"
    and old: "\<forall>x\<le>currId s. store s' x = store s x"
    by (rule program_builds)
  from old have "store s' |` {..currId s} = store s |` {..currId s}"
    by (auto simp: restrict_map_def)
  with run show ?thesis by blast
qed

text \<open>
  C10: The top-down walk of the tree built for a program returns and calls its applier once on
  every node the run allocated, in the preorder of the program's view.
\<close>

theorem treeview_topDown:
  "\<exists>a s' xs. trvsProgram AstTreeView (enc_program ss) s = (Inr (RVal (Tree a)), s') \<and>
     topDownVisitor (Suc a) (store s') a = Some xs \<and> distinct xs \<and>
     set xs = {currId s<..currId s'} \<and> nodes_at (store s') xs = vnodes (view_program ss)"
proof -
  obtain a s' where run: "trvsProgram AstTreeView (enc_program ss) s = (Inr (RVal (Tree a)), s')"
    "tree_at (store s') {currId s<..currId s'} a (view_program ss)"
    by (rule program_builds)
  from topDown_tree(1) [OF run(2) lessI] run(1) show ?thesis by blast
qed

text \<open>
  From every node of the tree built for a program, the walk to the root returns: it passes
  through strictly newer nodes of the same tree and ends at the root.
\<close>

theorem treeview_parentToRoot:
  "\<exists>a s'. trvsProgram AstTreeView (enc_program ss) s = (Inr (RVal (Tree a)), s') \<and>
     list_all (\<lambda>x. case parentToRootVisitor a (store s') a x of
          Some (Inr ps) \<Rightarrow> last (x # ps) = a \<and> sorted_wrt (<) (x # ps) \<and>
            set ps \<subseteq> {currId s<..currId s'}
        | _ \<Rightarrow> False) [Suc (currId s)..<Suc (currId s')]"
proof -
  obtain a s' where run: "trvsProgram AstTreeView (enc_program ss) s = (Inr (RVal (Tree a)), s')"
    "tree_at (store s') {currId s<..currId s'} a (view_program ss)"
    by (rule program_builds)
  have "case parentToRootVisitor a (store s') a x of
          Some (Inr ps) \<Rightarrow> last (x # ps) = a \<and> sorted_wrt (<) (x # ps) \<and>
            set ps \<subseteq> {currId s<..currId s'}
        | _ \<Rightarrow> False" if "x \<in> set [Suc (currId s)..<Suc (currId s')]" for x
    using parentToRoot_tree [OF run(2), of x] that by auto
  with run(1) show ?thesis unfolding list_all_iff by blast
qed

text \<open>
  C11: Whatever value is visited as a node, well-formed or not, and also when the visit throws,
  the visitor leaves one node per id it handed out: ids stay pairwise distinct and a node is
  marked a leaf exactly when it has no children.
\<close>

theorem treeview_ids:
  assumes "view_inv s"
  shows "view_inv (snd (trvsUnknown AstTreeView v s))"
  using tree_view.unknown_keeps assms by (simp add: keeps_def)

lemma treeview_ids_witness:
  "view_inv (snd (trvsUnknown AstTreeView
     (node ''UnaryExpression'' [(''operator'', JStr ''!''), (''prefix'', JBool True),
        (''argument'', node ''Literal'' [])]) \<lparr>currId = 0, store = Map.empty\<rparr>))"
  by (rule treeview_ids) (simp add: view_inv_def)

end
