(* ===== verification/Ast_Draw.thy ===== *)
theory Ast_Draw
  imports Ast_Print
begin

text \<open>
  Drawing a tree view, \<open>Ast/asttreeviewdraw.js\<close>: the slot counts of \<open>calcChildDepth\<close>, hiding and
  showing of subtrees, the option table with \<open>changeOption\<close>, and the recursive layout of
  \<open>drawNode\<close>, as the list of placed nodes and lines instead of the jQuery calls that place them.

  The shape of a tree does not change while it is drawn: it is a value here, whose nodes carry
  their address and the two attributes the drawing code adds to them. \<open>None\<close> is undefined (and,
  in arithmetic, the NaN it leads to).
\<close>

section \<open>Trees with drawing attributes\<close>

datatype dnode = DNode (addr: nat) (maxChildren: "int option") (realMaxChildren: "int option option")
  (kids: "dnode list")

definition isLeaf_d :: "dnode \<Rightarrow> bool" where
  "isLeaf_d n \<longleftrightarrow> kids n = []"

definition hasHidenChildren :: "dnode \<Rightarrow> bool" where
  "hasHidenChildren n \<longleftrightarrow> realMaxChildren n \<noteq> None"

primrec showRealChildren :: "dnode \<Rightarrow> dnode" where
  "showRealChildren (DNode a m r cs) = DNode a (case r of None \<Rightarrow> None | Some v \<Rightarrow> v) None cs"

primrec hideRealChildren :: "dnode \<Rightarrow> dnode" where
  "hideRealChildren (DNode a m r cs) = DNode a m (Some m) cs"

text \<open>The count it returns, and the tree with the counts it stored.\<close>

fun calcChildDepth :: "dnode \<Rightarrow> int \<times> dnode" and calcChildDepths :: "dnode list \<Rightarrow> int \<times> dnode list" where
  "calcChildDepth (DNode a m r cs) =
     (if cs = [] \<or> r \<noteq> None then (1, DNode a (Some 0) r cs)
      else let (k, ds) = calcChildDepths cs in (k, DNode a (Some k) r ds))"
| "calcChildDepths [] = (0, [])"
| "calcChildDepths (c # cs) =
     (let (k, d) = calcChildDepth c; (ks, ds) = calcChildDepths cs in (k + ks, d # ds))"

section \<open>Options\<close>

record tvd_opts =
  NodeWidth :: "int option"
  NodeHeight :: "int option"
  NodeGapWidth :: "int option"
  NodeGapHeight :: "int option"
  LineWeight :: "int option"
  CollapseTextLength :: "int option"
  AstViewPadding :: "int option"
  ViewHeight :: "int option"
  CollapseBtnHeightOffset :: "int option"
  PreventCollapsion :: bool

text \<open>What \<open>changeOption\<close> derives: slot sizes and button positions. Half the node width, the x offset
  of line ends, is left out.\<close>

record tvd = tvd_opts +
  SlotW :: "int option"
  SlotH :: "int option"
  MenuLeftPosition :: "int option"
  CollapseBtnWidthOffset :: "int option"

definition defaultOptions :: tvd_opts where
  "defaultOptions = \<lparr>NodeWidth = Some 100, NodeHeight = Some 30, NodeGapWidth = Some 30,
     NodeGapHeight = Some 30, LineWeight = Some 1, CollapseTextLength = Some 10,
     AstViewPadding = Some 30, ViewHeight = Some 400, CollapseBtnHeightOffset = Some 2,
     PreventCollapsion = False\<rparr>"

definition noOptions :: tvd_opts where
  "noOptions = \<lparr>NodeWidth = None, NodeHeight = None, NodeGapWidth = None, NodeGapHeight = None,
     LineWeight = None, CollapseTextLength = None, AstViewPadding = None, ViewHeight = None,
     CollapseBtnHeightOffset = None, PreventCollapsion = False\<rparr>"

definition emptyTVD :: tvd where
  "emptyTVD = tvd_opts.extend noOptions
     \<lparr>SlotW = None, SlotH = None, MenuLeftPosition = None, CollapseBtnWidthOffset = None\<rparr>"

text \<open>A number option that is given and not zero replaces the old one.\<close>

definition isSet :: "int option \<Rightarrow> bool" where
  "isSet v \<longleftrightarrow> v \<noteq> None \<and> v \<noteq> Some 0"

definition upd :: "int option \<Rightarrow> int option \<Rightarrow> int option" where
  "upd new old = (if isSet new then new else old)"

definition plus_opt :: "int option \<Rightarrow> int option \<Rightarrow> int option" where
  "plus_opt a b = (case (a, b) of (Some x, Some y) \<Rightarrow> Some (x + y) | _ \<Rightarrow> None)"

definition setOptions :: "tvd_opts \<Rightarrow> tvd \<Rightarrow> tvd" where
  "setOptions opts T =
     (let nw = upd (NodeWidth opts) (NodeWidth T); nh = upd (NodeHeight opts) (NodeHeight T);
          gw = upd (NodeGapWidth opts) (NodeGapWidth T); gh = upd (NodeGapHeight opts) (NodeGapHeight T)
      in T\<lparr>NodeWidth := nw, NodeHeight := nh, NodeGapWidth := gw, NodeGapHeight := gh,
           LineWeight := upd (LineWeight opts) (LineWeight T),
           CollapseTextLength := upd (CollapseTextLength opts) (CollapseTextLength T),
           AstViewPadding := upd (AstViewPadding opts) (AstViewPadding T),
           ViewHeight := ViewHeight opts,
           CollapseBtnHeightOffset := CollapseBtnHeightOffset opts,
           PreventCollapsion := PreventCollapsion opts,
           SlotW := (if isSet (NodeGapWidth opts) \<or> isSet (NodeWidth opts) then plus_opt nw gw else SlotW T),
           SlotH := (if isSet (NodeGapHeight opts) \<or> isSet (NodeHeight opts) then plus_opt nh gh else SlotH T),
           MenuLeftPosition := (if isSet (NodeWidth opts) then plus_opt (NodeWidth opts) (Some (- 2))
                                else MenuLeftPosition T),
           CollapseBtnWidthOffset := (if isSet (NodeWidth opts) then plus_opt nw (Some 2)
                                      else CollapseBtnWidthOffset T)\<rparr>)"

text \<open>Whether one of the keys present in \<open>opts\<close> asks for a new drawing.\<close>

definition mustRedraw :: "tvd_opts \<Rightarrow> bool" where
  "mustRedraw opts \<longleftrightarrow> NodeWidth opts \<noteq> None \<or> NodeHeight opts \<noteq> None \<or> NodeGapWidth opts \<noteq> None \<or>
     NodeGapHeight opts \<noteq> None \<or> LineWeight opts \<noteq> None \<or> AstViewPadding opts \<noteq> None \<or>
     CollapseTextLength opts \<noteq> None"

section \<open>Layout\<close>

record layout =
  slotW :: int
  slotH :: int

definition calcChildrenSlotsStartingPosition :: "layout \<Rightarrow> int \<Rightarrow> int \<Rightarrow> int \<Rightarrow> int \<times> int" where
  "calcChildrenSlotsStartingPosition L x y slots =
     (if slots = 1 then x
      else if slots mod 2 = 0 then x - slotW L * (slots div 2)
      else x - slotW L * ((slots - 1) div 2),
      y + slotH L)"

definition calcChildMiddleWidth :: "layout \<Rightarrow> int \<Rightarrow> int" where
  "calcChildMiddleWidth L m =
     (if m = 0 \<or> m = 1 then 0
      else if m mod 2 = 0 then slotW L * (m div 2)
      else slotW L * ((m - 1) div 2))"

definition calcChildMiddleWidthRemaining :: "layout \<Rightarrow> int \<Rightarrow> int" where
  "calcChildMiddleWidthRemaining L m =
     (if m = 0 \<or> m = 1 then slotW L
      else if m mod 2 = 0 then slotW L * (m div 2)
      else slotW L * ((m - 1) div 2) + slotW L)"

text \<open>An undefined count: none of the comparisons holds and the arithmetic gives NaN.\<close>

datatype drawn = Box nat int int | Line nat nat | NaNBox

fun drawNode :: "layout \<Rightarrow> dnode \<Rightarrow> int \<Rightarrow> int \<Rightarrow> drawn list"
  and drawKids :: "layout \<Rightarrow> nat \<Rightarrow> dnode list \<Rightarrow> int \<Rightarrow> int \<Rightarrow> drawn list" where
  "drawNode L (DNode a m r cs) x y =
     Box a x y #
     (case m of None \<Rightarrow> []
      | Some k \<Rightarrow> if k > 0
          then let (x0, y0) = calcChildrenSlotsStartingPosition L x y k in drawKids L a cs x0 y0
          else [])"
| "drawKids L p [] x y = []"
| "drawKids L p (c # cs) x y =
     (case maxChildren c of None \<Rightarrow> [NaNBox]
      | Some k \<Rightarrow>
          let x1 = x + calcChildMiddleWidth L k
          in drawNode L c x1 y @ [Line p (addr c)] @
             drawKids L p cs (x1 + calcChildMiddleWidthRemaining L k) y)"

section \<open>Drawing a tree\<close>

text \<open>Counting, and collapsing every node unless that is prevented.\<close>

fun collapseAll :: "dnode \<Rightarrow> dnode" where
  "collapseAll (DNode a m r cs) = DNode a (Some 0) (Some m) (map collapseAll cs)"

definition postProcessNodes :: "bool \<Rightarrow> dnode \<Rightarrow> dnode" where
  "postProcessNodes prevent t =
     (let d = snd (calcChildDepth t) in if prevent then d else collapseAll d)"

definition startingX :: "layout \<Rightarrow> int \<Rightarrow> dnode \<Rightarrow> int" where
  "startingX L padding t =
     calcChildMiddleWidth L (case maxChildren t of None \<Rightarrow> 0 | Some k \<Rightarrow> k) + padding"

text \<open>
  \<open>drawTree\<close>: the new options, the tree as its nodes are left, and what is drawn. Sizes are
  numbers here: the defaults give one for every option.
\<close>

definition drawTree :: "dnode \<Rightarrow> tvd_opts \<Rightarrow> tvd \<times> dnode \<times> drawn list" where
  "drawTree t opts =
     (let T = setOptions opts emptyTVD;
          d = postProcessNodes (PreventCollapsion T) t
      in case (SlotW T, SlotH T, AstViewPadding T) of
           (Some w, Some h, Some p) \<Rightarrow>
             let L = \<lparr>slotW = w, slotH = h\<rparr> in (T, d, drawNode L d (startingX L p d) (p + 60))
         | _ \<Rightarrow> (T, d, [NaNBox]))"

text \<open>\<open>changeOption( opts, redraw )\<close>: a redraw starts from the options collected so far.\<close>

definition changeOption ::
    "tvd_opts \<Rightarrow> bool \<Rightarrow> tvd \<Rightarrow> dnode \<Rightarrow> tvd \<times> dnode \<times> drawn list option" where
  "changeOption opts redraw T t =
     (let T' = setOptions opts T
      in if mustRedraw opts \<and> redraw
         then let T'' = T'\<lparr>PreventCollapsion := True\<rparr>;
                  (_, d, out) = drawTree t (tvd_opts.truncate T'')
              in (T'', d, Some out)
         else (T', t, None))"

text \<open>The collapse button: toggle the node at an address, then draw again without collapsing.\<close>

primrec mapNode :: "nat \<Rightarrow> (dnode \<Rightarrow> dnode) \<Rightarrow> dnode \<Rightarrow> dnode" where
  "mapNode a f (DNode b m r cs) =
     (if a = b then f (DNode b m r cs) else DNode b m r (map (mapNode a f) cs))"

definition toggleNode :: "dnode \<Rightarrow> dnode" where
  "toggleNode n = (if hasHidenChildren n then showRealChildren n else hideRealChildren n)"

definition toggleCollapseNode :: "nat \<Rightarrow> tvd \<Rightarrow> dnode \<Rightarrow> tvd \<times> dnode \<times> drawn list" where
  "toggleCollapseNode a T t =
     (let T' = T\<lparr>PreventCollapsion := True\<rparr>; (_, d, out) = drawTree (mapNode a toggleNode t) (tvd_opts.truncate T')
      in (T', d, out))"

section \<open>Node names and the source popover\<close>

text \<open>\<open>substr\<close> of a negative length is empty.\<close>

definition collapsedName :: "int \<Rightarrow> string \<Rightarrow> string" where
  "collapsedName len name =
     (if int (length name) > len then take (nat len) name @ ''..'' else name)"

text \<open>
  The callback of \<open>replace\<close> gets the match, one argument per group of the pattern (five), the
  offset and the text; \<open>arguments[3]\<close> is the third group, which takes no part in the match of a
  line break. \<open>None\<close> is undefined or NaN.
\<close>

datatype cbarg = CbMatch string | CbGroup "string option" | CbOffset nat

definition replaceArgs :: "nat \<Rightarrow> char \<Rightarrow> cbarg list" where
  "replaceArgs pos c = CbMatch [c] #
     map (\<lambda>g. CbGroup (if g = c then Some [c] else None)) [NL, TAB, CHR ''&'', CHR ''<'', CHR ''>''] @
     [CbOffset pos]"

definition cbNumber :: "cbarg \<Rightarrow> int option" where
  "cbNumber a = (case a of CbOffset n \<Rightarrow> Some (int n) | _ \<Rightarrow> None)"

record popover_state =
  startPos :: "int option"
  charsWidth :: int

definition symbolsMap :: "char \<Rightarrow> string" where
  "symbolsMap c = (if c = TAB then ''&nbsp;&nbsp;'' else if c = CHR ''&'' then ''&amp;''
     else if c = CHR ''<'' then ''&lt;'' else if c = CHR ''>'' then ''&gt;'' else ''&nbsp;&nbsp;'')"

definition replaceMatch :: "nat \<Rightarrow> char \<Rightarrow> popover_state \<Rightarrow> string \<times> popover_state" where
  "replaceMatch pos c s =
     (if c = NL
      then let currPos = cbNumber (replaceArgs pos c ! 3);
               currCharsWidth = plus_opt currPos (map_option uminus (startPos s))
           in (''<br>'', s\<lparr>startPos := currPos,
                charsWidth := (case currCharsWidth of None \<Rightarrow> charsWidth s
                               | Some w \<Rightarrow> if w > charsWidth s then w else charsWidth s)\<rparr>)
      else (symbolsMap c, s))"

fun replaceSymbols :: "nat \<Rightarrow> string \<Rightarrow> popover_state \<Rightarrow> string \<times> popover_state" where
  "replaceSymbols pos [] s = ([], s)"
| "replaceSymbols pos (c # cs) s =
     (if c \<in> {NL, TAB, CHR ''&'', CHR ''<'', CHR ''>''}
      then let (r, s1) = replaceMatch pos c s; (rs, s2) = replaceSymbols (Suc pos) cs s1 in (r @ rs, s2)
      else let (rs, s2) = replaceSymbols (Suc pos) cs s in (c # rs, s2))"

text \<open>The html and the width of the popover; \<open>replace\<close> of a result that is no string throws.\<close>

definition showSrcCode :: "jsval \<Rightarrow> jserr + (string \<times> int)" where
  "showSrcCode n =
     (case (if us_isEmpty n then Inr (RVal ''<Empty>'') else stringifyNode n) of
        Inl e \<Rightarrow> Inl e
      | Inr (RVal str) \<Rightarrow>
          (let (html, s) = replaceSymbols 0 str \<lparr>startPos = Some 0, charsWidth = 0\<rparr>
           in Inr (html, if charsWidth s = 0 then 300 else charsWidth s * 9))
      | Inr _ \<Rightarrow> Inl TypeError)"

section \<open>Counting\<close>

text \<open>
  The slots a counted node takes, the nodes that are visible, and counted trees: every visible
  inner node stores the sum of the slots of its children.
\<close>

definition width :: "dnode \<Rightarrow> int" where
  "width n = (case maxChildren n of None \<Rightarrow> 0 | Some k \<Rightarrow> max 1 k)"

fun visible :: "dnode \<Rightarrow> nat list" where
  "visible (DNode a m r cs) = a # (if r \<noteq> None then [] else concat (map visible cs))"

fun counted :: "dnode \<Rightarrow> bool" where
  "counted (DNode a m r cs) \<longleftrightarrow> (if cs = [] \<or> r \<noteq> None then m = Some 0
     else m = Some (sum_list (map width cs)) \<and> list_all counted cs)"

lemma counted_width: "counted n \<Longrightarrow> 1 \<le> width n"
  by (cases n) (auto simp: width_def split: if_splits)

lemma sum_width: "list_all counted cs \<Longrightarrow> int (length cs) \<le> sum_list (map width cs)"
  by (induction cs) (auto dest: counted_width)

lemma calcChildDepth_counted:
  "calcChildDepth t = (k, d) \<Longrightarrow> counted d \<and> k = width d \<and> visible d = visible t"
  "calcChildDepths ts = (j, ds) \<Longrightarrow> list_all counted ds \<and> j = sum_list (map width ds) \<and>
     map visible ds = map visible ts \<and> length ds = length ts"
proof (induction t and ts arbitrary: k d and j ds rule: calcChildDepth_calcChildDepths.induct)
  case (1 a m r cs)
  show ?case
  proof (cases "cs = [] \<or> r \<noteq> None")
    case True
    with 1(2) show ?thesis by (auto simp: width_def)
  next
    case False
    obtain j ds where ds: "calcChildDepths cs = (j, ds)" by fastforce
    with 1(1) False have IH: "list_all counted ds" "j = sum_list (map width ds)"
      "map visible ds = map visible cs" "length ds = length cs" by auto
    have "1 \<le> j" using sum_width [OF IH(1)] False IH(2,4) by (cases cs) auto
    with 1(2) False ds IH show ?thesis by (auto simp: width_def)
  qed
next
  case (3 c cs)
  then show ?case by (auto split: prod.splits)
qed simp

section \<open>The layout\<close>

fun boxes :: "drawn list \<Rightarrow> (nat \<times> int \<times> int) list" where
  "boxes [] = []"
| "boxes (Box a x y # ds) = (a, x, y) # boxes ds"
| "boxes (_ # ds) = boxes ds"

lemma boxes_append [simp]: "boxes (xs @ ys) = boxes xs @ boxes ys"
  by (induction xs rule: boxes.induct) auto

lemma middle_remaining:
  "0 \<le> m \<Longrightarrow> calcChildMiddleWidth L m + calcChildMiddleWidthRemaining L m = slotW L * max 1 m"
  by (auto simp: calcChildMiddleWidth_def calcChildMiddleWidthRemaining_def max_def
      algebra_simps elim!: evenE oddE simp flip: even_iff_mod_2_eq_zero)

lemma start_is_middle:
  "0 < m \<Longrightarrow> calcChildrenSlotsStartingPosition L x y m = (x - calcChildMiddleWidth L m, y + slotH L)"
  by (simp add: calcChildrenSlotsStartingPosition_def calcChildMiddleWidth_def)

lemma middle_bounds:
  assumes "0 \<le> m" and "0 < slotW L"
  shows "0 \<le> calcChildMiddleWidth L m" and "slotW L \<le> calcChildMiddleWidthRemaining L m"
proof -
  show "0 \<le> calcChildMiddleWidth L m"
    using assms by (auto simp: calcChildMiddleWidth_def intro!: mult_nonneg_nonneg)
  have "slotW L \<le> slotW L * (m div 2)" if "2 \<le> m"
    using assms that by simp
  moreover have "2 \<le> m" if "m \<noteq> 0" "m \<noteq> 1" using assms(1) that by simp
  ultimately show "slotW L \<le> calcChildMiddleWidthRemaining L m"
    using assms by (auto simp: calcChildMiddleWidthRemaining_def intro!: mult_nonneg_nonneg)
qed

text \<open>In drawing order, a later box is to the right of an earlier one or below it.\<close>

definition apart :: "layout \<Rightarrow> nat \<times> int \<times> int \<Rightarrow> nat \<times> int \<times> int \<Rightarrow> bool" where
  "apart L b c = (case (b, c) of ((_, x, y), (_, x', y')) \<Rightarrow>
     y + slotH L \<le> y' \<or> x + slotW L \<le> x')"

definition within :: "layout \<Rightarrow> int \<Rightarrow> int \<Rightarrow> int \<Rightarrow> (nat \<times> int \<times> int) list \<Rightarrow> bool" where
  "within L lo n y bs \<longleftrightarrow>
     list_all (\<lambda>(_, x', y'). lo \<le> x' \<and> x' + slotW L \<le> lo + slotW L * n \<and> y \<le> y') bs"

lemma within_append [simp]: "within L lo n y (as @ bs) \<longleftrightarrow> within L lo n y as \<and> within L lo n y bs"
  by (simp add: within_def)

lemma within_mono:
  "within L lo n y bs \<Longrightarrow> lo' \<le> lo \<Longrightarrow> lo + slotW L * n \<le> lo' + slotW L * n' \<Longrightarrow> y' \<le> y \<Longrightarrow>
   within L lo' n' y' bs"
  by (fastforce simp: within_def list_all_iff)

lemma apart_right:
  "within L lo n y as \<Longrightarrow> within L (lo + slotW L * n) n' y' bs \<Longrightarrow> b \<in> set as \<Longrightarrow> c \<in> set bs \<Longrightarrow> apart L b c"
  by (fastforce simp: within_def list_all_iff apart_def)

lemma draw_layout:
  "counted t \<Longrightarrow> 0 < slotW L \<Longrightarrow> 0 < slotH L \<Longrightarrow> maxChildren t = Some k \<Longrightarrow>
     within L (x - calcChildMiddleWidth L k) (width t) y (boxes (drawNode L t x y)) \<and>
     map fst (boxes (drawNode L t x y)) = visible t \<and>
     sorted_wrt (apart L) (boxes (drawNode L t x y))"
  "list_all counted ts \<Longrightarrow> 0 < slotW L \<Longrightarrow> 0 < slotH L \<Longrightarrow>
     within L u (sum_list (map width ts)) v (boxes (drawKids L p ts u v)) \<and>
     map fst (boxes (drawKids L p ts u v)) = concat (map visible ts) \<and>
     sorted_wrt (apart L) (boxes (drawKids L p ts u v))"
proof (induction L t x y and L p ts u v arbitrary: k and rule: drawNode_drawKids.induct)
  case (1 L a m r cs x y)
  have k: "m = Some k" "0 \<le> k" using 1(2,5) sum_width [of cs] by (auto split: if_splits)
  have self: "within L (x - calcChildMiddleWidth L k) (width (DNode a m r cs)) y [(a, x, y)]"
    using middle_bounds [of k L] middle_remaining [of k L] 1(3) k by (simp add: within_def width_def)
  show ?case
  proof (cases "cs = [] \<or> r \<noteq> None")
    case True
    with 1 self k show ?thesis by auto
  next
    case False
    with 1(2) k have c: "list_all counted cs" "k = sum_list (map width cs)" by auto
    moreover from this False have "0 < k" using sum_width [of cs] by (cases cs) auto
    ultimately have kids: "within L (x - calcChildMiddleWidth L k) k (y + slotH L) (boxes (drawKids L a cs (x - calcChildMiddleWidth L k) (y + slotH L)))"
      "map fst (boxes (drawKids L a cs (x - calcChildMiddleWidth L k) (y + slotH L))) = concat (map visible cs)"
      "sorted_wrt (apart L) (boxes (drawKids L a cs (x - calcChildMiddleWidth L k) (y + slotH L)))"
      using 1(1) [of k "(x - calcChildMiddleWidth L k, y + slotH L)"] 1(3,4) k
      by (simp_all add: start_is_middle)
    have "apart L (a, x, y) b" if "b \<in> set (boxes (drawKids L a cs (x - calcChildMiddleWidth L k) (y + slotH L)))" for b
      using kids(1) that by (auto simp: within_def list_all_iff apart_def)
    moreover have "within L (x - calcChildMiddleWidth L k) (width (DNode a m r cs)) y
        (boxes (drawKids L a cs (x - calcChildMiddleWidth L k) (y + slotH L)))"
      using \<open>0 < k\<close> 1(4) k by (intro within_mono [OF kids(1)]) (auto simp: width_def)
    ultimately show ?thesis
      using self kids False \<open>0 < k\<close> k by (auto simp: start_is_middle within_def)
  qed
next
  case (3 L p c cs x y)
  from 3(3) obtain k where k: "maxChildren c = Some k" "0 \<le> k" "width c = max 1 k"
    using sum_width [of "kids c"] by (cases c) (auto simp: width_def split: if_splits)
  let ?x1 = "x + calcChildMiddleWidth L k"
  let ?x2 = "?x1 + calcChildMiddleWidthRemaining L k"
  have x2: "?x2 = x + slotW L * width c" using middle_remaining [OF k(2), of L] k by simp
  have w: "0 \<le> sum_list (map width cs)" "1 \<le> width c" using 3(3) sum_width [of cs] counted_width by auto
  have one: "within L x (width c) y (boxes (drawNode L c ?x1 y))"
    "map fst (boxes (drawNode L c ?x1 y)) = visible c" "sorted_wrt (apart L) (boxes (drawNode L c ?x1 y))"
    using 3(1) [OF k(1) refl] 3(3,4,5) k by auto
  have rest: "within L ?x2 (sum_list (map width cs)) y (boxes (drawKids L p cs ?x2 y))"
    "map fst (boxes (drawKids L p cs ?x2 y)) = concat (map visible cs)"
    "sorted_wrt (apart L) (boxes (drawKids L p cs ?x2 y))"
    using 3(2) [OF k(1) refl] 3(3,4,5) by auto
  have "within L x (width c + sum_list (map width cs)) y (boxes (drawNode L c ?x1 y))"
    using one(1) w 3(4) by (elim within_mono) (auto simp: algebra_simps)
  moreover have "within L x (width c + sum_list (map width cs)) y (boxes (drawKids L p cs ?x2 y))"
    using w 3(4) unfolding x2
    by (intro within_mono [OF rest(1) [unfolded x2]]) (auto simp: algebra_simps)
  ultimately show ?case
    using one rest k apart_right [OF one(1) rest(1) [unfolded x2]]
    by (auto simp: sorted_wrt_append x2)
qed (simp add: within_def)


section \<open>The whole drawing\<close>

text \<open>Sizes that \<open>changeOption\<close> accepts: given and positive.\<close>

definition good_sizes :: "tvd_opts \<Rightarrow> bool" where
  "good_sizes opts \<longleftrightarrow> list_all (\<lambda>v. case v of None \<Rightarrow> False | Some n \<Rightarrow> 0 < n)
     [NodeWidth opts, NodeHeight opts, NodeGapWidth opts, NodeGapHeight opts, AstViewPadding opts]"

lemma setOptions_good:
  assumes "good_sizes opts"
  obtains w h gw gh p where "NodeWidth opts = Some w" "NodeHeight opts = Some h"
    "NodeGapWidth opts = Some gw" "NodeGapHeight opts = Some gh" "AstViewPadding opts = Some p"
    "0 < w" "0 < h" "0 < gw" "0 < gh" "0 < p"
    "SlotW (setOptions opts T) = Some (w + gw)" "SlotH (setOptions opts T) = Some (h + gh)"
    "AstViewPadding (setOptions opts T) = Some p"
    "PreventCollapsion (setOptions opts T) = PreventCollapsion opts"
  using assms that
  by (auto simp: good_sizes_def setOptions_def Let_def upd_def isSet_def plus_opt_def split: option.splits)

definition disjoint_boxes :: "int \<Rightarrow> int \<Rightarrow> nat \<times> int \<times> int \<Rightarrow> nat \<times> int \<times> int \<Rightarrow> bool" where
  "disjoint_boxes w h b c = (case (b, c) of ((_, x, y), (_, x', y')) \<Rightarrow>
     {x..<x + w} \<times> {y..<y + h} \<inter> {x'..<x' + w} \<times> {y'..<y' + h} = {})"

lemma collapseAll_counted: "counted (collapseAll t)"
  by (cases t) auto

lemma postProcess_counted: "counted (postProcessNodes prevent t)"
  using calcChildDepth_counted(1) [of t "fst (calcChildDepth t)" "snd (calcChildDepth t)"]
  by (simp add: postProcessNodes_def Let_def collapseAll_counted)

lemma drawTree_boxes:
  assumes "good_sizes opts" and "drawTree t opts = (T, d, out)"
  shows "map fst (boxes out) = visible d"
    and "sorted_wrt (disjoint_boxes (the (NodeWidth opts)) (the (NodeHeight opts))) (boxes out)"
    and "list_all (\<lambda>(_, x, y). the (AstViewPadding opts) \<le> x \<and> the (AstViewPadding opts) + 60 \<le> y) (boxes out)"
proof -
  from assms(1) obtain w h gw gh p where s: "NodeWidth opts = Some w" "NodeHeight opts = Some h"
    "AstViewPadding opts = Some p" "0 < w" "0 < h" "0 < gw" "0 < gh" "0 < p"
    "SlotW (setOptions opts emptyTVD) = Some (w + gw)" "SlotH (setOptions opts emptyTVD) = Some (h + gh)"
    "AstViewPadding (setOptions opts emptyTVD) = Some p"
    by (rule setOptions_good [where T = emptyTVD])
  let ?L = "\<lparr>slotW = w + gw, slotH = h + gh\<rparr>"
  have d: "d = postProcessNodes (PreventCollapsion (setOptions opts emptyTVD)) t"
    and out: "out = drawNode ?L d (startingX ?L p d) (p + 60)"
    using assms(2) s by (auto simp: drawTree_def Let_def)
  have c: "counted d" by (simp add: d postProcess_counted)
  then obtain k where k: "maxChildren d = Some k" by (cases d) (auto split: if_splits)
  note lay = draw_layout(1) [OF c _ _ k, of ?L "startingX ?L p d" "p + 60", folded out]
  show "map fst (boxes out) = visible d" using lay s by simp
  have "within ?L p (width d) (p + 60) (boxes out)"
    using lay s k by (simp add: startingX_def)
  then show "list_all (\<lambda>(_, x, y). the (AstViewPadding opts) \<le> x \<and> the (AstViewPadding opts) + 60 \<le> y) (boxes out)"
    using s by (auto simp: within_def list_all_iff)
  have "sorted_wrt (apart ?L) (boxes out)" using lay s by simp
  then show "sorted_wrt (disjoint_boxes (the (NodeWidth opts)) (the (NodeHeight opts))) (boxes out)"
    by (rule sorted_wrt_mono_rel [rotated]) (use s in \<open>auto simp: apart_def disjoint_boxes_def\<close>)
qed

section \<open>Hiding and showing\<close>

text \<open>What a drawing depends on: addresses, shape, and which nodes are hidden.\<close>

fun skeleton :: "dnode \<Rightarrow> dnode" where
  "skeleton (DNode a m r cs) = DNode a None (map_option (\<lambda>_. None) r) (map skeleton cs)"

lemma skeleton_calc:
  "skeleton (snd (calcChildDepth t)) = skeleton t"
  "map skeleton (snd (calcChildDepths ts)) = map skeleton ts"
  by (induction t and ts rule: calcChildDepth_calcChildDepths.induct)
     (auto simp: Let_def split: prod.splits)

lemma map_eq_transfer:
  assumes "map f xs = map f ys" and "\<And>x y. x \<in> set xs \<Longrightarrow> f x = f y \<Longrightarrow> g x = g y"
  shows "map g xs = map g ys"
  using assms
proof (induction xs arbitrary: ys)
  case (Cons x xs)
  from Cons.prems(1) obtain y ys' where ys: "ys = y # ys'" "f x = f y" "map f xs = map f ys'"
    by (cases ys) simp_all
  have "map g xs = map g ys'" using ys(3) Cons.prems(2) by (intro Cons.IH) auto
  moreover have "g x = g y" using ys(2) Cons.prems(2) by simp
  ultimately show ?case by (simp add: ys(1))
qed simp

lemma draw_skeleton:
  "calcChildDepth t = (k, d) \<Longrightarrow> calcChildDepth t' = (k', d') \<Longrightarrow> skeleton t = skeleton t' \<Longrightarrow>
     k = k' \<and> maxChildren d = maxChildren d' \<and> addr d = addr d' \<and> drawNode L d x y = drawNode L d' x y"
  "calcChildDepths ts = (j, ds) \<Longrightarrow> calcChildDepths ts' = (j', ds') \<Longrightarrow> map skeleton ts = map skeleton ts' \<Longrightarrow>
     j = j' \<and> drawKids L p ds x y = drawKids L p ds' x y"
proof (induction t and ts arbitrary: k d t' k' d' x y and p j ds ts' j' ds' x y rule: calcChildDepth_calcChildDepths.induct)
  case (1 a m r cs)
  obtain m' r' cs' where t': "t' = DNode a m' r' cs'" "map skeleton cs = map skeleton cs'" "r = None \<longleftrightarrow> r' = None"
    using 1(4) by (cases t'; cases r; cases "realMaxChildren t'") auto
  have nil: "cs = [] \<longleftrightarrow> cs' = []" using t'(2) by (metis map_is_Nil_conv)
  show ?case
  proof (cases "cs = [] \<or> r \<noteq> None")
    case True
    with 1 t' nil show ?thesis by auto
  next
    case False
    obtain j ds j' ds' where c: "calcChildDepths cs = (j, ds)" "calcChildDepths cs' = (j', ds')" by fastforce
    with False 1(1) t' have "j = j' \<and> drawKids L a ds x y = drawKids L a ds' x y" for x y by blast
    with False 1(2,3) t' c nil show ?thesis by (auto split: prod.split)
  qed
next
  case (3 c cs)
  from 3(5) obtain c' cs' where ts': "ts' = c' # cs'" "skeleton c = skeleton c'" "map skeleton cs = map skeleton cs'"
    by (auto simp: Cons_eq_map_conv)
  obtain k1 d1 k1' d1' where c1: "calcChildDepth c = (k1, d1)" "calcChildDepth c' = (k1', d1')" by fastforce
  obtain j1 ds1 j1' ds1' where c2: "calcChildDepths cs = (j1, ds1)" "calcChildDepths cs' = (j1', ds1')" by fastforce
  have one: "k1 = k1' \<and> maxChildren d1 = maxChildren d1' \<and> addr d1 = addr d1' \<and> drawNode L d1 x y = drawNode L d1' x y" for x y
    by (rule 3(1) [OF c1 ts'(2)])
  have two: "j1 = j1' \<and> drawKids L p ds1 x y = drawKids L p ds1' x y" for x y
    by (rule 3(2) [OF refl c1(1) [symmetric] c2 ts'(3)])
  have eq: "j = k1 + j1" "ds = d1 # ds1" "j' = k1' + j1'" "ds' = d1' # ds1'"
    using 3(3,4) ts'(1) c1 c2 by auto
  have "maxChildren d1 = maxChildren d1'" "addr d1 = addr d1'" "k1 = k1'" "j1 = j1'" using one two by auto
  moreover have "drawNode L d1 u y = drawNode L d1' u y" "drawKids L p ds1 u y = drawKids L p ds1' u y" for u
    using one two by auto
  ultimately show ?case unfolding eq drawKids.simps Let_def by (simp split: option.split)
qed simp

lemma toggle_node: "toggleNode (DNode b m r cs) =
    (case r of None \<Rightarrow> DNode b m (Some m) cs | Some v \<Rightarrow> DNode b v None cs)"
  by (simp add: toggleNode_def hasHidenChildren_def split: option.split)

lemma toggle_twice: "skeleton (mapNode a toggleNode (mapNode a toggleNode t)) = skeleton t"
  by (induction t) (auto simp: toggle_node split: option.split)

lemma toggle_skeleton:
  "skeleton t = skeleton u \<Longrightarrow> skeleton (mapNode a toggleNode t) = skeleton (mapNode a toggleNode u)"
proof (induction t arbitrary: u rule: skeleton.induct)
  case (1 b m r cs)
  then obtain n q ds where u: "u = DNode b n q ds" "map_option (\<lambda>_. None) r = (map_option (\<lambda>_. None) q :: int option option)"
    "map skeleton cs = map skeleton ds" by (cases u) auto
  then have "map (\<lambda>c. skeleton (mapNode a toggleNode c)) cs = map (\<lambda>c. skeleton (mapNode a toggleNode c)) ds"
    using 1(1) by (intro map_eq_transfer [OF u(3)])
  with u show ?case
    by (cases r; cases q) (simp_all add: toggle_node o_def)
qed

definition same_drawing :: "tvd \<times> dnode \<times> drawn list \<Rightarrow> tvd \<times> dnode \<times> drawn list \<Rightarrow> bool" where
  "same_drawing r s \<longleftrightarrow> fst r = fst s \<and> skeleton (fst (snd r)) = skeleton (fst (snd s)) \<and> snd (snd r) = snd (snd s)"

lemma setOptions_prevent: "PreventCollapsion (setOptions opts T) = PreventCollapsion opts"
  by (simp add: setOptions_def Let_def)

lemma drawTree_prevent:
  assumes "PreventCollapsion opts"
  shows "drawTree t opts = (let T = setOptions opts emptyTVD; d = snd (calcChildDepth t) in
    case (SlotW T, SlotH T, AstViewPadding T) of
           (Some w, Some h, Some p) \<Rightarrow>
             let L = \<lparr>slotW = w, slotH = h\<rparr> in (T, d, drawNode L d (startingX L p d) (p + 60))
         | _ \<Rightarrow> (T, d, [NaNBox]))"
  using assms by (simp add: drawTree_def postProcessNodes_def setOptions_prevent Let_def)

lemma drawTree_skeleton:
  assumes "skeleton t = skeleton u" and "PreventCollapsion opts"
  shows "same_drawing (drawTree t opts) (drawTree u opts)"
proof -
  obtain k d k' d' where c: "calcChildDepth t = (k, d)" "calcChildDepth u = (k', d')" by fastforce
  have d: "maxChildren d = maxChildren d'" "drawNode L d x y = drawNode L d' x y" "skeleton d = skeleton d'" for L x y
    using draw_skeleton(1) [OF c assms(1)] skeleton_calc(1) [of t] skeleton_calc(1) [of u] c assms(1) by auto
  then have "startingX L p d = startingX L p d'" for L p by (simp add: startingX_def)
  with d c show ?thesis
    unfolding drawTree_prevent [OF assms(2)] by (simp add: same_drawing_def Let_def split: option.split)
qed

lemma drawTree_tree:
  "PreventCollapsion opts \<Longrightarrow> fst (snd (drawTree t opts)) = snd (calcChildDepth t)"
  by (simp add: drawTree_prevent Let_def split: option.split)

section \<open>The popover\<close>

definition htmlChar :: "char \<Rightarrow> string" where
  "htmlChar c = (if c = NL then ''<br>'' else if c = TAB then ''&nbsp;&nbsp;''
     else if c = CHR ''&'' then ''&amp;'' else if c = CHR ''<'' then ''&lt;''
     else if c = CHR ''>'' then ''&gt;'' else [c])"

lemma replaceArgs_third: "cbNumber (replaceArgs pos c ! 3) = None"
  by (simp add: replaceArgs_def cbNumber_def)

lemma replaceMatch_text:
  "charsWidth s = 0 \<Longrightarrow> c \<in> {NL, TAB, CHR ''&'', CHR ''<'', CHR ''>''} \<Longrightarrow>
   \<exists>s'. replaceMatch pos c s = (htmlChar c, s') \<and> charsWidth s' = 0"
  by (auto simp: replaceMatch_def replaceArgs_third plus_opt_def Let_def htmlChar_def symbolsMap_def)

lemma replaceSymbols_text:
  "charsWidth s = 0 \<Longrightarrow> \<exists>s'. replaceSymbols pos str s = (concat (map htmlChar str), s') \<and> charsWidth s' = 0"
proof (induction str arbitrary: pos s)
  case (Cons c cs)
  show ?case
  proof (cases "c \<in> {NL, TAB, CHR ''&'', CHR ''<'', CHR ''>''}")
    case True
    with Cons.prems obtain s1 where s1: "replaceMatch pos c s = (htmlChar c, s1)" "charsWidth s1 = 0"
      using replaceMatch_text by blast
    with Cons.IH [of s1 "Suc pos"] True show ?thesis by auto
  next
    case False
    with Cons.IH [OF Cons.prems, of "Suc pos"] show ?thesis by (auto simp: htmlChar_def [of c])
  qed
qed simp

lemma popover_width:
  "(let (html, s) = replaceSymbols 0 str \<lparr>startPos = Some 0, charsWidth = 0\<rparr>
    in Inr (html, if charsWidth s = 0 then 300 else charsWidth s * 9)) =
   Inr (concat (map htmlChar str), 300)"
  using replaceSymbols_text [of "\<lparr>startPos = Some 0, charsWidth = 0\<rparr>" 0 str] by auto

section \<open>Properties\<close>

text \<open>
  C4: With positive sizes a drawing places every visible node exactly once, no two of the boxes
  overlap, and none of them is closer to the left or the top edge than the padding.
\<close>

theorem drawTree_layout:
  assumes "good_sizes opts"
  shows "case drawTree t opts of (T, d, out) \<Rightarrow>
     map fst (boxes out) = visible d \<and>
     sorted_wrt (disjoint_boxes (the (NodeWidth opts)) (the (NodeHeight opts))) (boxes out) \<and>
     list_all (\<lambda>(_, x, y). the (AstViewPadding opts) \<le> x \<and> the (AstViewPadding opts) + 60 \<le> y) (boxes out)"
  using drawTree_boxes [OF assms] by (cases "drawTree t opts") auto

lemma drawTree_layout_witness:
  "case drawTree (DNode 3 None None [DNode 1 None None [], DNode 2 None None []])
       (defaultOptions\<lparr>PreventCollapsion := True\<rparr>) of (T, d, out) \<Rightarrow>
     map fst (boxes out) = visible d \<and>
     sorted_wrt (disjoint_boxes 100 30) (boxes out) \<and>
     list_all (\<lambda>(_, x, y). (30::int) \<le> x \<and> (30::int) + 60 \<le> y) (boxes out)"
  using drawTree_layout [of "defaultOptions\<lparr>PreventCollapsion := True\<rparr>"
      "DNode 3 None None [DNode 1 None None [], DNode 2 None None []]"]
  by (simp add: good_sizes_def defaultOptions_def)

text \<open>
  Clicking the collapse button of any node twice gives the drawing of the tree as it was:
  the same boxes and lines as redrawing it without a click.
\<close>

theorem toggle_twice_redraws:
  "case toggleCollapseNode a T t of (T1, t1, _) \<Rightarrow>
     same_drawing (toggleCollapseNode a T1 t1)
       (T\<lparr>PreventCollapsion := True\<rparr>, snd (drawTree t (tvd_opts.truncate (T\<lparr>PreventCollapsion := True\<rparr>))))"
proof -
  let ?T = "T\<lparr>PreventCollapsion := True\<rparr>" and ?o = "tvd_opts.truncate (T\<lparr>PreventCollapsion := True\<rparr>)"
  have o: "PreventCollapsion ?o" by (simp add: tvd_opts.defs)
  obtain t1 where t1: "fst (snd (drawTree (mapNode a toggleNode t) ?o)) = t1" "skeleton t1 = skeleton (mapNode a toggleNode t)"
    using skeleton_calc(1) by (simp add: drawTree_tree [OF o])
  have "skeleton (mapNode a toggleNode t1) = skeleton t"
    using toggle_skeleton [OF t1(2), of a] by (simp add: toggle_twice)
  then have "same_drawing (drawTree (mapNode a toggleNode t1) ?o) (drawTree t ?o)"
    by (rule drawTree_skeleton [OF _ o])
  with t1(1) show ?thesis
    by (auto simp: toggleCollapseNode_def same_drawing_def Let_def split: prod.splits)
qed

text \<open>
  The first drawing of a tree, which collapses every node, shows the root only, at the
  padding.
\<close>

lemma first_drawing_is_root:
  assumes "good_sizes opts" and "\<not> PreventCollapsion opts"
  shows "snd (snd (drawTree t opts)) = [Box (addr t) (the (AstViewPadding opts)) (the (AstViewPadding opts) + 60)]"
  using assms(1)
proof (rule setOptions_good [where T = emptyTVD])
  fix w h gw gh p
  assume "AstViewPadding opts = Some p" "SlotW (setOptions opts emptyTVD) = Some (w + gw)"
    "SlotH (setOptions opts emptyTVD) = Some (h + gh)"
    "AstViewPadding (setOptions opts emptyTVD) = Some p"
  moreover obtain b k r ds where "snd (calcChildDepth t) = DNode b k r ds" by (cases "snd (calcChildDepth t)")
  moreover from this have "b = addr t" by (cases t) (auto simp: Let_def split: if_splits prod.splits)
  ultimately show ?thesis
    using assms(2)
    by (simp add: drawTree_def postProcessNodes_def Let_def setOptions_prevent startingX_def calcChildMiddleWidth_def)
qed

lemma first_drawing_is_root_witness:
  "snd (snd (drawTree (DNode 3 None None [DNode 1 None None [], DNode 2 None None []]) defaultOptions)) =
     [Box 3 30 90]"
  using first_drawing_is_root [of defaultOptions "DNode 3 None None [DNode 1 None None [], DNode 2 None None []]"]
  by (simp add: good_sizes_def defaultOptions_def)

text \<open>
  An option set to 0 is ignored, although the padding slider offers 0; and setting any one
  option forgets the view height and the button offset that were chosen before.
\<close>

theorem changeOption_forgets:
  "AstViewPadding (fst (changeOption (noOptions\<lparr>AstViewPadding := Some 0\<rparr>) redraw T t)) = AstViewPadding T \<and>
   ViewHeight (fst (changeOption (noOptions\<lparr>AstViewPadding := Some n\<rparr>) redraw T t)) = None \<and>
   CollapseBtnHeightOffset (fst (changeOption (noOptions\<lparr>AstViewPadding := Some n\<rparr>) redraw T t)) = None"
  by (simp add: changeOption_def setOptions_def noOptions_def upd_def isSet_def Let_def split: prod.split)

text \<open>
  The source popover shows the printed text with its line breaks, tabs and html characters
  escaped one by one, and always with the default width of 300 pixels: the width computed from
  the line lengths is never used. A node that prints as null makes the click throw.
\<close>

theorem popover_text:
  "showSrcCode n =
     (case (if us_isEmpty n then Inr (RVal ''<Empty>'') else stringifyNode n) of
        Inl e \<Rightarrow> Inl e
      | Inr (RVal str) \<Rightarrow> Inr (concat (map htmlChar str), 300)
      | Inr _ \<Rightarrow> Inl TypeError) \<and>
   showSrcCode (enc_literal LNull) = Inl TypeError"
proof
  show general: "showSrcCode n =
     (case (if us_isEmpty n then Inr (RVal ''<Empty>'') else stringifyNode n) of
        Inl e \<Rightarrow> Inl e
      | Inr (RVal str) \<Rightarrow> Inr (concat (map htmlChar str), 300)
      | Inr _ \<Rightarrow> Inl TypeError)" for n
    unfolding showSrcCode_def popover_width by (rule refl)
  show "showSrcCode (enc_literal LNull) = Inl TypeError"
    using stringifyNode_syntax(1) [of "Literal LNull"]
    by (simp add: general enc_literal_def us_isEmpty_node)
qed

end
