(* ===== verification/Ast_Options.thy ===== *)
theory Ast_Options
  imports Ast_Draw Ast_TreeView_Spec
begin

text \<open>
  The options form of the tree view: \<open>Helpers/OptionsGen.js\<close>, which builds a form of buttons, inputs,
  sliders and field sets from a description, and \<open>Ast/asttreeviewwithoptions.js\<close>, which builds the
  form of the drawing options, draws the tree of a program with them, and prints the program.

  The form is what its fields show: the state of a field is its value and whether it is hidden. The
  jQuery objects and the html around the fields are left out.
\<close>

section \<open>Fields\<close>

datatype opt = Opt (o_type: string) (o_label: string) (o_name: string) (o_val: jsval)
  (o_choices: "(string \<times> string) list") (o_range: "int \<times> int \<times> int") (o_children: "opt list")

record form_field =
  fl_type :: string
  fl_label :: string
  fl_shown :: jsval
  fl_choices :: "string list"
  fl_hidden :: bool

type_synonym form = "string \<rightharpoonup> form_field"

text \<open>
  \<open>setVal\<close> of every field type: the label of a button, a text or number input, a check box, a select,
  which only takes a value it offers, and a slider with its current value beside it.
\<close>

definition setButton :: "jsval \<Rightarrow> form_field \<Rightarrow> form_field" where
  "setButton v f = f\<lparr>fl_shown := JStr (to_str v)\<rparr>"

definition setInput :: "jsval \<Rightarrow> form_field \<Rightarrow> form_field" where
  "setInput v f = f\<lparr>fl_shown := JStr (to_str v)\<rparr>"

definition setCheck :: "jsval \<Rightarrow> form_field \<Rightarrow> form_field" where
  "setCheck v f = f\<lparr>fl_shown := JBool (js_truthy v)\<rparr>"

definition setSelect :: "jsval \<Rightarrow> form_field \<Rightarrow> form_field" where
  "setSelect v f = (if \<exists>k\<in>set (fl_choices f). v = JStr k then f\<lparr>fl_shown := v\<rparr> else f)"

definition setSlider :: "jsval \<Rightarrow> form_field \<Rightarrow> form_field" where
  "setSlider v f = f\<lparr>fl_shown := v\<rparr>"

text \<open>A field enters the form under its name, and is given its value when the value is truthy.\<close>

definition genOpt :: "opt \<Rightarrow> (form, unit) jsm" where
  "genOpt x fm = (Inr (), fm(o_name x \<mapsto>
     \<lparr>fl_type = o_type x, fl_label = o_label x, fl_shown = JStr [], fl_choices = map fst (o_choices x), fl_hidden = False\<rparr>))"

text \<open>A field set is made with no \<open>setVal\<close>, and calling it throws.\<close>

definition initOpt :: "opt \<Rightarrow> (jsval \<Rightarrow> form_field \<Rightarrow> form_field) option \<Rightarrow> (form, unit) jsm" where
  "initOpt x setVal fm =
     (if \<not> js_truthy (o_val x) then (Inr (), fm)
      else case setVal of
             None \<Rightarrow> (Inl TypeError, fm)
           | Some f \<Rightarrow> (Inr (), fm(o_name x := map_option (f (o_val x)) (fm (o_name x)))))"

definition drawOptButton :: "opt \<Rightarrow> (form, unit) jsm" where
  "drawOptButton x = bindM (genOpt x) (\<lambda>_. initOpt x (Some setButton))"

definition genDrawOptText :: "string \<Rightarrow> opt \<Rightarrow> (form, unit) jsm" where
  "genDrawOptText type x = bindM (genOpt x) (\<lambda>_. initOpt x (Some setInput))"

definition drawOptCheck :: "opt \<Rightarrow> (form, unit) jsm" where
  "drawOptCheck x = bindM (genOpt x) (\<lambda>_. initOpt x (Some setCheck))"

definition drawOptSelect :: "opt \<Rightarrow> (form, unit) jsm" where
  "drawOptSelect x = bindM (genOpt x) (\<lambda>_. initOpt x (Some setSelect))"

definition drawOptSlider :: "opt \<Rightarrow> (form, unit) jsm" where
  "drawOptSlider x = bindM (genOpt x) (\<lambda>_. initOpt x (Some setSlider))"

fun drawTreeOption :: "opt \<Rightarrow> (form, unit) jsm" and drawOptFieldset :: "opt \<Rightarrow> (form, unit) jsm"
  and drawMenuOptions :: "opt list \<Rightarrow> (form, unit) jsm" where
  "drawTreeOption x =
     (if o_type x = ''button'' then drawOptButton x
      else if o_type x = ''checkbox'' then drawOptCheck x
      else if o_type x = ''select'' then drawOptSelect x
      else if o_type x = ''text'' then genDrawOptText ''text'' x
      else if o_type x = ''number'' then genDrawOptText ''number'' x
      else if o_type x = ''slider'' then drawOptSlider x
      else if o_type x = ''fieldset'' then drawOptFieldset x
      else throw TypeError)"
| "drawOptFieldset (Opt type label name val choices rng kids0) =
     bindM (drawMenuOptions kids0) (\<lambda>_.
     (let x = Opt type label name val choices rng kids0 in
      bindM (genOpt x) (\<lambda>_. initOpt x None)))"
| "drawMenuOptions [] = ret ()"
| "drawMenuOptions (x # xs) = bindM (drawTreeOption x) (\<lambda>_. drawMenuOptions xs)"

text \<open>The value a handle is given later goes to the \<open>setVal\<close> of its field type.\<close>

definition setVal :: "jsval \<Rightarrow> form_field \<Rightarrow> jserr + form_field" where
  "setVal v f =
     (if fl_type f = ''button'' then Inr (setButton v f)
      else if fl_type f \<in> {''text'', ''number''} then Inr (setInput v f)
      else if fl_type f = ''checkbox'' then Inr (setCheck v f)
      else if fl_type f = ''select'' then Inr (setSelect v f)
      else if fl_type f = ''slider'' then Inr (setSlider v f)
      else Inl TypeError)"

definition setField :: "string \<Rightarrow> jsval \<Rightarrow> (form, unit) jsm" where
  "setField name v fm = (case fm name of
       None \<Rightarrow> (Inl TypeError, fm)
     | Some f \<Rightarrow> (case setVal v f of Inl e \<Rightarrow> (Inl e, fm) | Inr f' \<Rightarrow> (Inr (), fm(name \<mapsto> f'))))"

definition hideField :: "bool \<Rightarrow> string \<Rightarrow> (form, unit) jsm" where
  "hideField b name fm = (case fm name of
       None \<Rightarrow> (Inl TypeError, fm)
     | Some f \<Rightarrow> (Inr (), fm(name \<mapsto> f\<lparr>fl_hidden := b\<rparr>)))"

definition drawOptions :: "opt list \<Rightarrow> jserr + form" where
  "drawOptions opts = (case drawMenuOptions opts Map.empty of (Inl e, _) \<Rightarrow> Inl e | (Inr _, fm) \<Rightarrow> Inr fm)"

section \<open>The options of a view\<close>

definition genOptNum :: "string \<Rightarrow> string \<Rightarrow> int \<Rightarrow> opt" where
  "genOptNum label name val = Opt ''number'' label name (JNum val) [] (0, 0, 0) []"

definition genOptRange :: "string \<Rightarrow> string \<Rightarrow> int \<Rightarrow> int \<Rightarrow> int \<Rightarrow> int \<Rightarrow> opt" where
  "genOptRange label name val lo hi stp = Opt ''slider'' label name (JNum val) [] (lo, hi, stp) []"

definition collapseOptionsBtn :: opt where
  "collapseOptionsBtn = Opt ''button'' ''Options'' ''stgoptions'' (JStr ''hide'') [] (0, 0, 0) []"

definition viewOptions :: "opt list" where
  "viewOptions =
     [collapseOptionsBtn,
      Opt ''fieldset'' ''Canvas'' ''optCanvas'' JUndef [] (0, 0, 0)
        [genOptNum ''View height'' ''ViewHeight'' 400],
      Opt ''fieldset'' ''Tree'' ''optTree'' JUndef [] (0, 0, 0)
        [genOptRange ''Width'' ''NodeWidth'' 80 30 150 1,
         genOptRange ''Height'' ''NodeHeight'' 20 5 150 1,
         genOptRange ''Width gap'' ''NodeGapWidth'' 28 5 150 1,
         genOptRange ''Height gap'' ''NodeGapHeight'' 25 5 150 1,
         genOptRange ''Line weight'' ''LineWeight'' 1 1 20 1,
         genOptRange ''Ast view padding'' ''AstViewPadding'' 30 0 150 1,
         genOptRange ''Node name max length'' ''CollapseTextLength'' 9 1 100 1]]"

text \<open>The options the generators collect, and the default ones for those they do not.\<close>

definition optsValues :: tvd_opts where
  "optsValues = defaultOptions\<lparr>ViewHeight := Some 400, NodeWidth := Some 80, NodeHeight := Some 20, NodeGapWidth := Some 28,
     NodeGapHeight := Some 25, LineWeight := Some 1, AstViewPadding := Some 30, CollapseTextLength := Some 9\<rparr>"

definition collapseOptions :: "jsval \<Rightarrow> (form, unit) jsm" where
  "collapseOptions val =
     (let hide = (val = JStr ''hide'') in
      bindM (hideField hide ''optCanvas'') (\<lambda>_.
      bindM (hideField hide ''optTree'') (\<lambda>_.
      setField ''stgoptions'' (JStr (if hide then ''show'' else ''hide'')))))"

text \<open>A click on the button passes the text it shows.\<close>

definition clickOptions :: "(form, unit) jsm" where
  "clickOptions fm = (case fm ''stgoptions'' of
       None \<Rightarrow> (Inl TypeError, fm)
     | Some f \<Rightarrow> collapseOptions (fl_shown f) fm)"

text \<open>What a change of one input passes to \<open>changeOption\<close>.\<close>

definition changeEvent :: "string \<Rightarrow> int \<Rightarrow> tvd_opts" where
  "changeEvent name v =
     (if name = ''ViewHeight'' then noOptions\<lparr>ViewHeight := Some v\<rparr>
      else if name = ''NodeWidth'' then noOptions\<lparr>NodeWidth := Some v\<rparr>
      else if name = ''NodeHeight'' then noOptions\<lparr>NodeHeight := Some v\<rparr>
      else if name = ''NodeGapWidth'' then noOptions\<lparr>NodeGapWidth := Some v\<rparr>
      else if name = ''NodeGapHeight'' then noOptions\<lparr>NodeGapHeight := Some v\<rparr>
      else if name = ''LineWeight'' then noOptions\<lparr>LineWeight := Some v\<rparr>
      else if name = ''AstViewPadding'' then noOptions\<lparr>AstViewPadding := Some v\<rparr>
      else if name = ''CollapseTextLength'' then noOptions\<lparr>CollapseTextLength := Some v\<rparr>
      else noOptions)"

section \<open>The view of a program\<close>

text \<open>
  The tree of nodes below an address, as the drawing code walks it; the fuel bounds its depth, and
  the addresses of a tree built by the visitor decrease, so one more than the root's is enough.
\<close>

primrec dnodeOf :: "nat \<Rightarrow> (nat \<rightharpoonup> tree_node) \<Rightarrow> nat \<Rightarrow> dnode option" where
  "dnodeOf 0 st a = None"
| "dnodeOf (Suc f) st a =
     Option.bind (st a) (\<lambda>nd.
     Option.bind (childAddresses (case children nd of None \<Rightarrow> [] | Some cs \<Rightarrow> cs)) (\<lambda>cs.
     map_option (DNode a None None) (those (map (dnodeOf f st) cs))))"

text \<open>
  What the target shows: the form of the options and the drawing of the tree, with the state that their handlers
  keep. The text of the program is not shown: it is part of the object that is returned.
\<close>

record view_page =
  pg_root :: nat
  pg_form :: form
  pg_options :: tvd
  pg_tree :: dnode
  pg_drawn :: "drawn list"

record opt_view =
  ov_domtree :: nat
  ov_page :: view_page
  ov_src :: str_rv

text \<open>
  The state is the node store and what the target shows; the target keeps the form and the drawing when the
  printing, which comes last, throws.
\<close>

definition drawTreeWithOpt :: "jsval \<Rightarrow> (view_state \<times> view_page option, opt_view) jsm" where
  "drawTreeWithOpt ast = (\<lambda>(nodes, target).
     case trvsProgram AstTreeView ast nodes of
       (Inl e, nodes) \<Rightarrow> (Inl e, nodes, target)
     | (Inr domtree, nodes) \<Rightarrow>
     (case drawOptions viewOptions of Inl e \<Rightarrow> (Inl e, nodes, target) | Inr form0 \<Rightarrow>
     (case collapseOptions (JStr ''hide'') form0 of (Inl e, _) \<Rightarrow> (Inl e, nodes, target) | (Inr _, form1) \<Rightarrow>
     (case domtree of
        RVal (Tree a) \<Rightarrow> (case dnodeOf (Suc a) (store nodes) a of
            None \<Rightarrow> (Inl RecursionGuard, nodes, target)
          | Some t \<Rightarrow>
              let (T, d, out) = drawTree t optsValues;
                  page = \<lparr>pg_root = a, pg_form = form1, pg_options = T, pg_tree = d, pg_drawn = out\<rparr> in
              (case stringifyProgram ast of
                 Inl e \<Rightarrow> (Inl e, nodes, Some page)
               | Inr src \<Rightarrow> (Inr \<lparr>ov_domtree = a, ov_page = page, ov_src = src\<rparr>, nodes, Some page)))
      | _ \<Rightarrow> (Inl TypeError, nodes, target)))))"

text \<open>Moving a slider or typing a number redraws the page's tree.\<close>

definition changePage :: "string \<Rightarrow> int \<Rightarrow> view_page \<Rightarrow> view_page" where
  "changePage name v p = (case changeOption (changeEvent name v) True (pg_options p) (pg_tree p) of
       (T, d, out) \<Rightarrow> p\<lparr>pg_options := T, pg_tree := d, pg_drawn := (case out of None \<Rightarrow> pg_drawn p | Some ds \<Rightarrow> ds)\<rparr>)"

section \<open>Facts\<close>

lemma those_Some: "those xs = Some ys \<longleftrightarrow> xs = map Some ys"
  by (induction xs arbitrary: ys) (auto split: option.splits)

lemma dnodeOf_tree:
  "topDownVisitor f st a = Some xs \<Longrightarrow> \<exists>d. dnodeOf f st a = Some d \<and> addr d = a"
proof (induction f arbitrary: a xs)
  case (Suc f)
  then obtain nd cs tss where h: "st a = Some nd"
    "childAddresses (case children nd of None \<Rightarrow> [] | Some cs \<Rightarrow> cs) = Some cs"
    "those (map (topDownVisitor f st) cs) = Some tss"
    by (auto simp: bind_eq_Some_conv)
  have "\<exists>ds. those (map (dnodeOf f st) cs) = Some ds"
  proof -
    have "\<exists>d. dnodeOf f st c = Some d" if "c \<in> set cs" for c
    proof -
      have "topDownVisitor f st c \<in> set (map Some tss)" using h(3) that by (metis image_eqI list.set_map those_Some)
      then show ?thesis using Suc.IH by auto
    qed
    then have "map (dnodeOf f st) cs = map Some (map (\<lambda>c. the (dnodeOf f st c)) cs)" by fastforce
    then show ?thesis using those_Some by blast
  qed
  then show ?case using h(1,2) by auto
qed simp

lemma drawOptions_viewOptions:
  "\<exists>fm b c t. drawOptions viewOptions = Inr fm \<and> fm ''stgoptions'' = Some b \<and> fm ''optCanvas'' = Some c \<and> fm ''optTree'' = Some t \<and>
     fl_type b = ''button'' \<and> fl_type c = ''fieldset'' \<and> fl_type t = ''fieldset''"
  by (simp add: drawOptions_def viewOptions_def collapseOptionsBtn_def genOptNum_def genOptRange_def drawOptButton_def
      genDrawOptText_def drawOptSlider_def Let_def bindM_def ret_def genOpt_def initOpt_def setButton_def setInput_def setSlider_def
      js_truthy_def)

definition fieldShows :: "form \<Rightarrow> string \<Rightarrow> jsval \<Rightarrow> bool" where
  "fieldShows fm name v \<longleftrightarrow> (\<exists>f. fm name = Some f \<and> fl_shown f = v)"

definition fieldHidden :: "form \<Rightarrow> string \<Rightarrow> bool \<Rightarrow> bool" where
  "fieldHidden fm name b \<longleftrightarrow> (\<exists>f. fm name = Some f \<and> fl_hidden f = b)"

text \<open>The form is well-formed: the button and the two field sets are there.\<close>

definition viewFormOk :: "form \<Rightarrow> bool" where
  "viewFormOk fm \<longleftrightarrow> (\<exists>b c t. fm ''stgoptions'' = Some b \<and> fl_type b = ''button'' \<and> fm ''optCanvas'' = Some c \<and> fm ''optTree'' = Some t)"

lemma collapseOptions_ok:
  assumes "viewFormOk fm"
  obtains fm' where "collapseOptions v fm = (Inr (), fm')" "viewFormOk fm'"
    "fieldShows fm' ''stgoptions'' (JStr (if v = JStr ''hide'' then ''show'' else ''hide''))"
    "fieldHidden fm' ''optCanvas'' (v = JStr ''hide'')" "fieldHidden fm' ''optTree'' (v = JStr ''hide'')"
    "\<And>name. name \<notin> {''stgoptions'', ''optCanvas'', ''optTree''} \<Longrightarrow> fm' name = fm name"
proof -
  obtain b c t where f: "fm ''stgoptions'' = Some b" "fl_type b = ''button''" "fm ''optCanvas'' = Some c" "fm ''optTree'' = Some t"
    using assms by (auto simp: viewFormOk_def)
  let ?h = "v = JStr ''hide''"
  let ?fm = "fm(''optCanvas'' \<mapsto> c\<lparr>fl_hidden := ?h\<rparr>, ''optTree'' \<mapsto> t\<lparr>fl_hidden := ?h\<rparr>,
      ''stgoptions'' \<mapsto> b\<lparr>fl_shown := JStr (if ?h then ''show'' else ''hide'')\<rparr>)"
  have "collapseOptions v fm = (Inr (), ?fm)"
    using f by (simp add: collapseOptions_def hideField_def setField_def setVal_def setButton_def bindM_def Let_def)
  then show ?thesis
    by (rule that) (use f in \<open>auto simp: viewFormOk_def fieldShows_def fieldHidden_def\<close>)
qed

lemma drawOptions_ok: "\<exists>fm. drawOptions viewOptions = Inr fm \<and> viewFormOk fm"
  using drawOptions_viewOptions by (auto simp: viewFormOk_def)

text \<open>
  The view of every program opens: nothing throws, only the root is drawn, the options are hidden
  behind the button, and the object that is returned has the printed text of the program.
\<close>

lemma view_opens:
  "\<exists>r p s'. drawTreeWithOpt (enc_program ss) (s, target) = (Inr r, s', Some p) \<and> pg_drawn p = [Box (pg_root p) 30 90] \<and>
     fieldShows (pg_form p) ''stgoptions'' (JStr ''show'') \<and>
     fieldHidden (pg_form p) ''optCanvas'' True \<and> fieldHidden (pg_form p) ''optTree'' True \<and>
     ov_page r = p \<and> stringifyProgram (enc_program ss) = Inr (ov_src r)"
proof -
  obtain a s' where run: "trvsProgram AstTreeView (enc_program ss) s = (Inr (RVal (Tree a)), s')"
    "tree_at (store s') {currId s<..currId s'} a (view_program ss)"
    by (rule program_builds)
  obtain xs where "topDownVisitor (Suc a) (store s') a = Some xs" using topDown_tree(1) [OF run(2) lessI] by blast
  then obtain t where t: "dnodeOf (Suc a) (store s') a = Some t" "addr t = a" using dnodeOf_tree by blast
  obtain fm where fm: "drawOptions viewOptions = Inr fm" "viewFormOk fm" using drawOptions_ok by blast
  obtain fm' where fm': "collapseOptions (JStr ''hide'') fm = (Inr (), fm')"
    "fieldShows fm' ''stgoptions'' (JStr ''show'')" "fieldHidden fm' ''optCanvas'' True" "fieldHidden fm' ''optTree'' True"
    by (rule collapseOptions_ok [OF fm(2), of "JStr ''hide''"]) auto
  obtain T d out where draw: "drawTree t optsValues = (T, d, out)" by (cases "drawTree t optsValues") auto
  have "good_sizes optsValues" "\<not> PreventCollapsion optsValues" "AstViewPadding optsValues = Some 30"
    by (simp_all add: good_sizes_def optsValues_def defaultOptions_def)
  from first_drawing_is_root [OF this(1,2), of t] this(3) have out: "out = [Box a 30 90]" using draw t(2) by simp
  obtain src where src: "stringifyProgram (enc_program ss) = Inr src"
    by (simp add: stringifyProgram_def ops_0 stringify_run)
  let ?p = "\<lparr>pg_root = a, pg_form = fm', pg_options = T, pg_tree = d, pg_drawn = out\<rparr>"
  have "drawTreeWithOpt (enc_program ss) (s, target) = (Inr \<lparr>ov_domtree = a, ov_page = ?p, ov_src = src\<rparr>, s', Some ?p)"
    using run(1) t(1) fm(1) fm'(1) draw src by (simp add: drawTreeWithOpt_def Let_def)
  then show ?thesis using out src fm'(2-4) by (intro exI [of _ "\<lparr>ov_domtree = a, ov_page = ?p, ov_src = src\<rparr>"] exI [of _ ?p] exI [of _ s']) simp
qed

end
