(* ===== verification/Stage_Sync.thy ===== *)
theory Stage_Sync
  imports Ast_Options
begin

text \<open>
  The stage debugger's page: \<open>app.js\<close>, which asks the server every four seconds what is new,
  \<open>Helpers/Connector.js\<close>, which sends the requests, the models and the collection of
  \<open>Models/\<close> and \<open>Collections/\<close>, and the views of \<open>Views/\<close>, which show the stage and one tab for
  every AST the server inspects.

  The state of the page is the mutex of the polling process, the attributes of the stage model, the
  text of the table's cells, the collection of ASTs, the tabs and what each of them shows, the node
  store of the tree view, and the requests sent and not answered. Backbone is modelled by what the
  code uses of it: \<open>set\<close> fires a change of the attributes that differ, \<open>add\<close> appends the model before
  it fires, and both run their listeners before they return, so that an exception of a listener is
  theirs.
\<close>

section \<open>The page\<close>

record sync_request =
  y_type :: string
  y_url :: string
  y_cache :: bool
  y_data :: jsval
  y_dataType :: string
  y_contentType :: string

record tab =
  b_id :: string
  b_name :: string
  b_content :: "view_page option"

record dbg =
  d_syncing :: bool
  d_attrs :: "string \<Rightarrow> jsval"
  d_cells :: "string \<Rightarrow> string"
  d_srcBox :: bool
  d_srcToggle :: string
  d_srcButton :: string
  d_srcShown :: bool
  d_asts :: "jsval list"
  d_tabs :: "tab list"
  d_nodes :: view_state
  d_sent :: "sync_request list"
  d_pending :: nat

section \<open>Views\<close>

text \<open>\<open>text(val)\<close> of jQuery: undefined leaves the text, null empties it.\<close>

definition setText :: "string \<Rightarrow> jsval \<Rightarrow> (string \<Rightarrow> string) \<Rightarrow> string \<Rightarrow> string" where
  "setText key v cells =
     (if v = JUndef then cells else cells(key := (if v = JNull then [] else to_str v)))"

definition changeValue :: "(string \<times> jsval) list \<Rightarrow> (dbg, unit) jsm" where
  "changeValue changed s =
     (Inr (), fold (\<lambda>(key, v) s.
        if key = ''srcCode''
        then s\<lparr>d_srcBox := True, d_cells := setText key (JStr (js_unescape (to_str v))) (d_cells s)\<rparr>
        else s\<lparr>d_cells := setText key v (d_cells s)\<rparr>) changed s)"

text \<open>The cells are those of the template; no cell has another key.\<close>

definition modelSet :: "string \<Rightarrow> jsval \<Rightarrow> (dbg, unit) jsm" where
  "modelSet key v s =
     (if d_attrs s key = v then (Inr (), s)
      else changeValue [(key, v)] (s\<lparr>d_attrs := (d_attrs s)(key := v)\<rparr>))"

definition createNavTabHtml :: "string \<Rightarrow> string \<Rightarrow> tab" where
  "createNavTabHtml tid name = \<lparr>b_id = tid, b_name = name, b_content = None\<rparr>"

definition tabId :: "nat \<Rightarrow> string" where
  "tabId len = ''ast_view_tab_'' @ show_nat len"

text \<open>
  The tab is there before the tree is drawn in it, and stays when drawing throws; it shows what was drawn by then. The
  object that the drawing returns, with the text of the program, is dropped.
\<close>

definition addAstView :: "jsval \<Rightarrow> (dbg, unit) jsm" where
  "addAstView root s =
     (let len = length (d_asts s);
          tab = createNavTabHtml (tabId len) (''ast '' @ show_nat len)
      in case drawTreeWithOpt root (d_nodes s, b_content tab) of
           (r, nodes, shown) \<Rightarrow> (map_sum id (\<lambda>_. ()) r,
              s\<lparr>d_nodes := nodes, d_tabs := d_tabs s @ [tab\<lparr>b_content := shown\<rparr>]\<rparr>))"

definition collectionAdd :: "jsval \<Rightarrow> (dbg, unit) jsm" where
  "collectionAdd ast s = addAstView ast (s\<lparr>d_asts := d_asts s @ [ast]\<rparr>)"

definition closeTab :: "nat \<Rightarrow> dbg \<Rightarrow> dbg" where
  "closeTab i s = s\<lparr>d_tabs := take i (d_tabs s) @ drop (Suc i) (d_tabs s)\<rparr>"

definition showStageSrc :: "dbg \<Rightarrow> dbg" where
  "showStageSrc s =
     (let toggle = d_srcToggle s;
          s = (if toggle = ''open''
               then s\<lparr>d_srcToggle := ''close'', d_srcButton := ''Show staged source code''\<rparr>
               else s\<lparr>d_srcToggle := ''open'', d_srcButton := ''Hide staged source code''\<rparr>)
      in s\<lparr>d_srcShown := (toggle = ''close'')\<rparr>)"

text \<open>What a tab's form does to its page: an option changes, or the options button is clicked.\<close>

definition changeTab :: "nat \<Rightarrow> view_page \<Rightarrow> dbg \<Rightarrow> dbg" where
  "changeTab i p s = s\<lparr>d_tabs := (d_tabs s)[i := (d_tabs s ! i)\<lparr>b_content := Some p\<rparr>]\<rparr>"

section \<open>The connector\<close>

definition SYNC_SERVER_IP :: string where "SYNC_SERVER_IP = ''http://localhost:8085''"

definition syncRoute :: "string \<times> string" where "syncRoute = (''POST'', ''syncdbg'')"

definition syncOpts :: sync_request where
  "syncOpts = (case syncRoute of (type, url) \<Rightarrow>
     \<lparr>y_type = type, y_url = SYNC_SERVER_IP @ ''/'' @ url, y_cache = False, y_data = JUndef,
      y_dataType = ''json'', y_contentType = ''application/json''\<rparr>)"

definition connectorSend :: "(dbg, unit) jsm" where
  "connectorSend s = (Inr (), s\<lparr>d_sent := d_sent s @ [syncOpts], d_pending := d_pending s + 1\<rparr>)"

section \<open>The polling process\<close>

definition mutexStart :: "(dbg, unit) jsm" where
  "mutexStart s = (Inr (), s\<lparr>d_syncing := True\<rparr>)"

definition mutexStop :: "(dbg, unit) jsm" where
  "mutexStop s = (Inr (), s\<lparr>d_syncing := False\<rparr>)"

definition onServerSyncSuccess :: "jsval \<Rightarrow> (dbg, unit) jsm" where
  "onServerSyncSuccess msg =
     bindM (modelSet ''status'' (JStr ''synced'')) (\<lambda>_.
     bindM (if us_has msg ''inlines'' then modelSet ''inlines'' (fld msg ''inlines'') else ret ()) (\<lambda>_.
     bindM (if us_has msg ''stage''
            then bindM (getp (fld msg ''stage'') ''depth'') (\<lambda>depth.
                 bindM (modelSet ''depth'' depth) (\<lambda>_.
                 bindM (getp (fld msg ''stage'') ''srcCode'') (\<lambda>srcCode. modelSet ''srcCode'' srcCode)))
            else ret ()) (\<lambda>_.
     bindM (if us_has msg ''inspectAst'' then collectionAdd (fld msg ''inspectAst'') else ret ()) (\<lambda>_.
     mutexStop))))"

definition onServerSyncFail :: "(dbg, unit) jsm" where
  "onServerSyncFail = mutexStop"

text \<open>The connector's handler of an answer, which reads \<open>msg\<close> of it.\<close>

definition connectorSuccess :: "jsval \<Rightarrow> (dbg, unit) jsm" where
  "connectorSuccess resp = bindM (getp resp ''msg'') onServerSyncSuccess"

definition serverSync :: "(dbg, unit) jsm" where
  "serverSync s =
     (if d_syncing s then (Inr (), s)
      else bindM mutexStart (\<lambda>_. bindM (modelSet ''status'' (JStr ''syncing'')) (\<lambda>_. connectorSend)) s)"

text \<open>The page as \<open>initialize\<close> and \<open>startSyncPollingProcess\<close> leave it: the template shows the model between two spaces.\<close>

definition stageDefaults :: "string \<Rightarrow> jsval" where
  "stageDefaults = (\<lambda>_. JUndef)(''status'' := JStr [], ''depth'' := JNum (- 1), ''inlines'' := JNum (- 1), ''srcCode'' := JStr [])"

definition stageTemplate :: "(string \<Rightarrow> jsval) \<Rightarrow> string \<Rightarrow> string" where
  "stageTemplate attrs key =
     (if key \<in> {''status'', ''depth'', ''inlines''} then '' '' @ to_str (attrs key) @ '' '' else [])"

definition initialPage :: dbg where
  "initialPage =
     (let attrs = stageDefaults(''status'' := JStr ''Not connected yet'') in
      \<lparr>d_syncing = False, d_attrs = attrs, d_cells = stageTemplate attrs, d_srcBox = False, d_srcToggle = ''close'',
       d_srcButton = ''Show staged source code'', d_srcShown = False, d_asts = [], d_tabs = [],
       d_nodes = \<lparr>currId = 0, store = Map.empty\<rparr>, d_sent = [], d_pending = 0\<rparr>)"

definition answered :: "dbg \<Rightarrow> dbg" where
  "answered s = s\<lparr>d_pending := d_pending s - 1\<rparr>"

text \<open>The events of the page.\<close>

inductive page_step :: "dbg \<Rightarrow> dbg \<Rightarrow> bool" where
  poll: "page_step s (snd (serverSync s))"
| answer: "0 < d_pending s \<Longrightarrow> page_step s (snd (connectorSuccess resp (answered s)))"
| fail: "0 < d_pending s \<Longrightarrow> page_step s (snd (onServerSyncFail (answered s)))"
| close: "i < length (d_tabs s) \<Longrightarrow> page_step s (closeTab i s)"
| source: "d_srcBox s \<Longrightarrow> page_step s (showStageSrc s)"
| change: "i < length (d_tabs s) \<Longrightarrow> b_content (d_tabs s ! i) = Some p \<Longrightarrow> pg_form p name = Some f \<Longrightarrow>
    fl_type f \<in> {''number'', ''slider''} \<Longrightarrow> page_step s (changeTab i (changePage name v p) s)"
| options: "i < length (d_tabs s) \<Longrightarrow> b_content (d_tabs s ! i) = Some p \<Longrightarrow> clickOptions (pg_form p) = (Inr (), fm) \<Longrightarrow>
    page_step s (changeTab i (p\<lparr>pg_form := fm\<rparr>) s)"

section \<open>What the handlers keep\<close>

text \<open>The text a cell shows for a value of the model.\<close>

definition cellText :: "jsval \<Rightarrow> string" where
  "cellText v = (if v = JNull then [] else to_str v)"

definition tableKeys :: "string set" where
  "tableKeys = {''status'', ''depth'', ''inlines''}"

text \<open>
  What is displayed is right: the cells of the table show the model, but for the spaces of the
  template; the tabs have different ids, none of them greater than the number of ASTs.
\<close>

definition display_ok :: "dbg \<Rightarrow> bool" where
  "display_ok s \<longleftrightarrow>
     (\<forall>k\<in>tableKeys. d_attrs s k \<noteq> JUndef \<longrightarrow>
        d_cells s k = cellText (d_attrs s k) \<or> d_cells s k = '' '' @ cellText (d_attrs s k) @ '' '') \<and>
     distinct (map b_id (d_tabs s)) \<and> b_id ` set (d_tabs s) \<subseteq> tabId ` {1..length (d_asts s)}"

text \<open>A handler of an answer sends nothing and keeps what is displayed right.\<close>

definition handles :: "dbg \<Rightarrow> dbg \<Rightarrow> bool" where
  "handles s t \<longleftrightarrow> d_pending t = d_pending s \<and> d_sent t = d_sent s \<and> (display_ok s \<longrightarrow> display_ok t)"

definition answerHandler :: "(dbg, 'a) jsm \<Rightarrow> bool" where
  "answerHandler m \<longleftrightarrow> (\<forall>s. handles s (snd (m s)))"

named_theorems handler_intros \<open>handlers of an answer\<close>

lemma handles_refl: "handles s s"
  by (simp add: handles_def)

lemma handles_trans: "handles s t \<Longrightarrow> handles t u \<Longrightarrow> handles s u"
  by (simp add: handles_def)

lemma handler_bindM [handler_intros]: "answerHandler m \<Longrightarrow> (\<And>x. answerHandler (f x)) \<Longrightarrow> answerHandler (bindM m f)"
  unfolding answerHandler_def bindM_def
  by (auto split: prod.splits sum.splits) (metis handles_trans snd_conv)+

lemma handler_ret [handler_intros]: "answerHandler (ret x)"
  by (simp add: answerHandler_def ret_def handles_refl)

lemma handler_getp [handler_intros]: "answerHandler (getp v k)"
  by (simp add: answerHandler_def getp_def ret_def throw_def handles_refl)

lemma handler_if [handler_intros]: "answerHandler m \<Longrightarrow> answerHandler n \<Longrightarrow> answerHandler (if b then m else n)"
  by simp

lemma handler_mutexStop [handler_intros]: "answerHandler mutexStop"
  by (simp add: answerHandler_def mutexStop_def handles_def display_ok_def)

lemma display_ok_set:
  assumes "display_ok s" "k \<in> tableKeys \<Longrightarrow> w = v"
  shows "display_ok (s\<lparr>d_attrs := (d_attrs s)(k := v), d_cells := setText k w (d_cells s), d_srcBox := b\<rparr>)"
proof -
  have "d_cells s k' = cellText (d_attrs s k') \<or> d_cells s k' = '' '' @ cellText (d_attrs s k') @ '' ''"
    if "k' \<in> tableKeys" "d_attrs s k' \<noteq> JUndef" for k'
    using assms(1) that by (simp add: display_ok_def)
  moreover have "setText k w (d_cells s) k = cellText v" if "k \<in> tableKeys" "v \<noteq> JUndef"
    using assms(2) that by (simp add: setText_def cellText_def)
  moreover have "setText k w (d_cells s) k' = d_cells s k'" if "k' \<noteq> k" for k'
    using that by (simp add: setText_def)
  ultimately show ?thesis using assms(1) by (simp add: display_ok_def)
qed

lemma srcCode_not_key: "''srcCode'' \<notin> tableKeys"
  by (simp add: tableKeys_def)

text \<open>What setting an attribute to a new value does.\<close>

lemma modelSet_run:
  "\<exists>w b. modelSet k v s = (Inr (), if d_attrs s k = v then s
      else s\<lparr>d_attrs := (d_attrs s)(k := v), d_cells := setText k w (d_cells s), d_srcBox := b\<rparr>) \<and>
    (k \<noteq> ''srcCode'' \<longrightarrow> w = v)"
proof (cases "k = ''srcCode''")
  case True
  then show ?thesis by (intro exI [of _ "JStr (js_unescape (to_str v))"] exI [of _ True]) (simp add: modelSet_def changeValue_def)
next
  case False
  then show ?thesis by (intro exI [of _ v] exI [of _ "d_srcBox s"]) (simp add: modelSet_def changeValue_def)
qed

lemma handler_modelSet [handler_intros]: "answerHandler (modelSet k v)"
  unfolding answerHandler_def
proof
  fix s
  obtain w b where m: "modelSet k v s = (Inr (), if d_attrs s k = v then s
      else s\<lparr>d_attrs := (d_attrs s)(k := v), d_cells := setText k w (d_cells s), d_srcBox := b\<rparr>)"
    "k \<noteq> ''srcCode'' \<longrightarrow> w = v" using modelSet_run [of k v s] by blast
  then show "handles s (snd (modelSet k v s))"
    using display_ok_set [of s k w v b] srcCode_not_key by (auto simp: handles_def)
qed

lemma display_ok_newTab:
  assumes "display_ok s" "b_id b = tabId (Suc (length (d_asts s)))"
  shows "display_ok (s\<lparr>d_asts := d_asts s @ [ast], d_nodes := nodes, d_tabs := d_tabs s @ [b]\<rparr>)"
proof -
  have ids: "b_id ` set (d_tabs s) \<subseteq> tabId ` {1..length (d_asts s)}" using assms(1) by (simp add: display_ok_def)
  have inj: "tabId m = tabId n \<longleftrightarrow> m = n" for m n by (simp add: tabId_def)
  have "b_id b \<notin> b_id ` set (d_tabs s)"
  proof
    assume "b_id b \<in> b_id ` set (d_tabs s)"
    then have "b_id b \<in> tabId ` {1..length (d_asts s)}" using ids by blast
    then show False using assms(2) by (auto simp: inj)
  qed
  moreover have "b_id b \<in> tabId ` {1..Suc (length (d_asts s))}" using assms(2) by simp
  moreover have "b_id ` set (d_tabs s) \<subseteq> tabId ` {1..Suc (length (d_asts s))}"
    using ids by (rule subset_trans) (rule image_mono, simp)
  ultimately show ?thesis using assms(1) by (simp add: display_ok_def)
qed

lemma handler_collectionAdd [handler_intros]: "answerHandler (collectionAdd ast)"
  using display_ok_newTab
  by (simp add: answerHandler_def handles_def collectionAdd_def addAstView_def Let_def createNavTabHtml_def split: prod.split sum.split)

lemma handler_connectorSuccess: "answerHandler (connectorSuccess resp)"
  unfolding connectorSuccess_def onServerSyncSuccess_def by (intro handler_intros allI impI)

section \<open>Reachable pages\<close>

text \<open>At most one request is unanswered, and then the mutex is set.\<close>

definition page_ok :: "dbg \<Rightarrow> bool" where
  "page_ok s \<longleftrightarrow> display_ok s \<and>
     (d_pending s = 0 \<or> d_pending s = 1 \<and> d_syncing s \<and> d_attrs s ''status'' = JStr ''syncing'')"

lemma distinct_without: "distinct (map f xs) \<Longrightarrow> distinct (map f (take i xs @ drop (Suc i) xs))"
  using set_take_disj_set_drop_if_distinct [of "map f xs" i "Suc i"] by (simp flip: take_map drop_map)

lemma display_ok_tabs:
  assumes "display_ok s" "map b_id bs = map b_id (d_tabs s) \<or> (\<exists>i. bs = take i (d_tabs s) @ drop (Suc i) (d_tabs s))"
  shows "display_ok (s\<lparr>d_tabs := bs\<rparr>)"
proof -
  have "distinct (map b_id bs) \<and> b_id ` set bs \<subseteq> b_id ` set (d_tabs s)"
    using assms(2)
  proof
    assume "map b_id bs = map b_id (d_tabs s)"
    then show ?thesis using assms(1) by (metis display_ok_def list.set_map subset_refl)
  next
    assume "\<exists>i. bs = take i (d_tabs s) @ drop (Suc i) (d_tabs s)"
    then obtain i where i: "bs = take i (d_tabs s) @ drop (Suc i) (d_tabs s)" by blast
    have "set bs \<subseteq> set (d_tabs s)" by (auto simp: i dest: in_set_takeD in_set_dropD)
    moreover have "distinct (map b_id bs)" unfolding i by (rule distinct_without) (use assms(1) in \<open>simp add: display_ok_def\<close>)
    ultimately show ?thesis by blast
  qed
  moreover from this assms(1) have "b_id ` set bs \<subseteq> tabId ` {1..length (d_asts s)}"
    unfolding display_ok_def by (meson subset_trans)
  ultimately show ?thesis using assms(1) by (simp add: display_ok_def)
qed

lemma display_ok_changeTab: "display_ok s \<Longrightarrow> display_ok (changeTab i p s)"
proof -
  assume "display_ok s"
  moreover have "map b_id ((d_tabs s)[i := (d_tabs s ! i)\<lparr>b_content := Some p\<rparr>]) = map b_id (d_tabs s)"
    by (rule nth_equalityI, simp, cases "i < length (d_tabs s)") (auto simp: nth_list_update)
  ultimately show ?thesis unfolding changeTab_def by (intro display_ok_tabs) simp_all
qed

lemma display_ok_answered: "display_ok (answered s) = display_ok s"
  by (simp add: answered_def display_ok_def)

lemma serverSync_run:
  assumes "\<not> d_syncing s"
  shows "\<exists>t. serverSync s = (Inr (), t) \<and> d_sent t = d_sent s @ [syncOpts] \<and> d_pending t = d_pending s + 1 \<and> d_syncing t \<and>
    d_attrs t ''status'' = JStr ''syncing'' \<and> (display_ok s \<longrightarrow> display_ok t)"
proof -
  let ?s = "s\<lparr>d_syncing := True\<rparr>"
  obtain w b where m: "modelSet ''status'' (JStr ''syncing'') ?s = (Inr (), if d_attrs ?s ''status'' = JStr ''syncing'' then ?s
      else ?s\<lparr>d_attrs := (d_attrs ?s)(''status'' := JStr ''syncing''), d_cells := setText ''status'' w (d_cells ?s), d_srcBox := b\<rparr>)"
    using modelSet_run [of "''status''" "JStr ''syncing''" ?s] by blast
  have "display_ok s \<longrightarrow> display_ok (snd (modelSet ''status'' (JStr ''syncing'') ?s))"
    using handler_modelSet [of "''status''" "JStr ''syncing''"] by (auto simp: answerHandler_def handles_def display_ok_def)
  then show ?thesis
    using assms m by (simp add: serverSync_def mutexStart_def connectorSend_def bindM_def display_ok_def)
qed

lemma connectorSuccess_handles: "handles (answered s) (snd (connectorSuccess resp (answered s)))"
  using handler_connectorSuccess by (simp add: answerHandler_def)

lemma page_ok_step:
  assumes "page_ok s" "page_step s t"
  shows "page_ok t"
  using assms(2)
proof (cases rule: page_step.cases)
  case poll
  then show ?thesis
    using assms(1) serverSync_run [of s] by (cases "d_syncing s") (auto simp: serverSync_def page_ok_def)
next
  case (answer resp)
  then show ?thesis
    using connectorSuccess_handles [of s resp] assms(1) by (auto simp: page_ok_def handles_def display_ok_answered) (auto simp: answered_def)
next
  case fail
  then show ?thesis
    using assms(1) by (auto simp: page_ok_def onServerSyncFail_def mutexStop_def answered_def display_ok_def)
next
  case (close i)
  then show ?thesis
    using assms(1) display_ok_tabs [of s "take i (d_tabs s) @ drop (Suc i) (d_tabs s)"] by (auto simp: page_ok_def closeTab_def)
next
  case source
  then show ?thesis using assms(1) by (auto simp: page_ok_def showStageSrc_def display_ok_def Let_def)
next
  case (change i p name f v)
  then show ?thesis
    using assms(1) display_ok_changeTab by (simp add: page_ok_def) (simp add: changeTab_def)
next
  case (options i p fm)
  then show ?thesis
    using assms(1) display_ok_changeTab by (simp add: page_ok_def) (simp add: changeTab_def)
qed

lemma page_ok_initial: "page_ok initialPage"
  by (simp add: page_ok_def display_ok_def initialPage_def stageDefaults_def stageTemplate_def tableKeys_def cellText_def Let_def)

lemma page_ok_reachable: "page_step\<^sup>*\<^sup>* initialPage s \<Longrightarrow> page_ok s"
  by (induction rule: rtranclp_induct) (use page_ok_initial page_ok_step in blast)+

section \<open>Exceptions and the mutex\<close>

text \<open>The handler of an answer releases the mutex at its end only, so an exception leaves it set.\<close>

definition noRelease :: "(dbg, 'a) jsm \<Rightarrow> bool" where
  "noRelease m \<longleftrightarrow> (\<forall>s. d_syncing (snd (m s)) = d_syncing s)"

definition staysLocked :: "(dbg, 'a) jsm \<Rightarrow> bool" where
  "staysLocked m \<longleftrightarrow> (\<forall>s e. fst (m s) = Inl e \<longrightarrow> d_syncing (snd (m s)) = d_syncing s)"

named_theorems lock_intros \<open>what a throwing handler keeps\<close>

lemma noRelease_parts [lock_intros]:
  "noRelease (ret x)" "noRelease (getp v k)" "noRelease (modelSet key v)" "noRelease (collectionAdd ast)"
  by (auto simp: noRelease_def ret_def throw_def getp_def collectionAdd_def addAstView_def modelSet_def changeValue_def Let_def
      split: prod.split sum.split)

lemma noRelease_bindM [lock_intros]: "noRelease m \<Longrightarrow> (\<And>x. noRelease (f x)) \<Longrightarrow> noRelease (bindM m f)"
  unfolding noRelease_def bindM_def by (auto split: prod.splits sum.splits) (metis snd_conv)+

lemma noRelease_if [lock_intros]: "noRelease m \<Longrightarrow> noRelease n \<Longrightarrow> noRelease (if b then m else n)"
  by simp

lemma staysLocked_bindM [lock_intros]: "noRelease m \<Longrightarrow> (\<And>x. staysLocked (f x)) \<Longrightarrow> staysLocked (bindM m f)"
  unfolding noRelease_def staysLocked_def bindM_def by (auto split: prod.splits sum.splits) (metis fst_conv snd_conv)+

lemma staysLocked_mutexStop [lock_intros]: "staysLocked mutexStop"
  by (simp add: staysLocked_def mutexStop_def)

lemma connectorSuccess_throws:
  "fst (connectorSuccess resp s) = Inl e \<Longrightarrow> d_syncing (snd (connectorSuccess resp s)) = d_syncing s"
proof -
  have "staysLocked (connectorSuccess resp)"
    unfolding connectorSuccess_def onServerSyncSuccess_def by (intro lock_intros)
  then show "fst (connectorSuccess resp s) = Inl e \<Longrightarrow> ?thesis" by (auto simp: staysLocked_def)
qed

text \<open>A page whose mutex is set and that waits for no answer: it never asks again.\<close>

definition stuck :: "dbg \<Rightarrow> bool" where
  "stuck s \<longleftrightarrow> d_syncing s \<and> d_pending s = 0"

lemma stuck_step: "page_step s t \<Longrightarrow> stuck s \<Longrightarrow> stuck t \<and> d_sent t = d_sent s"
  by (induction rule: page_step.induct)
    (auto simp: stuck_def serverSync_def closeTab_def showStageSrc_def changeTab_def Let_def)

lemma stuck_forever: "page_step\<^sup>*\<^sup>* s t \<Longrightarrow> stuck s \<Longrightarrow> stuck t \<and> d_sent t = d_sent s"
  by (induction rule: rtranclp_induct) (use stuck_step in auto)

definition throws :: "('s, 'a) jsm \<Rightarrow> bool" where
  "throws m \<longleftrightarrow> (\<forall>s. \<exists>e. fst (m s) = Inl e)"

lemma throws_bindM_left: "throws m \<Longrightarrow> throws (bindM m f)"
  unfolding throws_def by (metis bindM_Inl fst_conv surj_pair)

lemma throws_bindM:
  assumes "\<And>x. throws (f x)"
  shows "throws (bindM m f)"
  unfolding throws_def
proof
  fix s
  obtain r t where m: "m s = (r, t)" by (cases "m s")
  show "\<exists>e. fst (bindM m f s) = Inl e"
    using assms by (cases r) (auto simp: m bindM_def throws_def)
qed

lemma throws_throw: "throws (throw e)"
  by (simp add: throws_def throw_def)

lemma throws_mapM: "x \<in> set xs \<Longrightarrow> throws (f x) \<Longrightarrow> throws (mapM f xs)"
  by (induction xs) (auto intro: throws_bindM_left throws_bindM)

text \<open>
  An array literal with a hole, for which the parser gives null among the elements, and a program that has one as an
  expression statement, whatever else it has.
\<close>

definition holedArray :: "jsval \<Rightarrow> bool" where
  "holedArray v \<longleftrightarrow> fld v ''type'' = JStr ''ArrayExpression'' \<and> (case fld v ''elements'' of JArr xs \<Rightarrow> JNull \<in> set xs | _ \<Rightarrow> False)"

definition holedProgram :: "jsval \<Rightarrow> bool" where
  "holedProgram ast \<longleftrightarrow> (case fld ast ''body'' of
       JArr body \<Rightarrow> (\<exists>st\<in>set body. fld st ''type'' = JStr ''ExpressionStatement'' \<and> holedArray (fld st ''expression''))
     | _ \<Rightarrow> False)"

lemma fld_known: "fld v k = JStr x \<Longrightarrow> v \<noteq> JUndef \<and> v \<noteq> JNull"
  by (auto simp: fld_def)

lemma holedArray_throws:
  assumes "holedArray v"
  shows "throws (trvsCallExpr V v)"
proof -
  obtain xs where xs: "fld v ''elements'' = JArr xs" "JNull \<in> set xs" and ty: "fld v ''type'' = JStr ''ArrayExpression''"
    using assms by (auto simp: holedArray_def split: jsval.splits)
  have "throws (trvsCallExpr V JNull)"
    by (simp add: trvsCallExpr_eq [of _ JNull] trvsDispatch_def getp_def throws_bindM_left throws_throw)
  then have "throws (trvsExprs (trvsCallExpr V) (JArr xs))"
    by (simp add: trvsExprs_def us_map_def us_elems_def throws_bindM_left throws_mapM [OF xs(2)])
  then have "throws (emptyOr (JArr xs) (trvsExprs (trvsCallExpr V)) (JArr xs))"
    using xs(2) by (auto simp: emptyOr_def us_isEmpty_def)
  then have "throws (trvsExprArray V (trvsCallExpr V) v)"
    unfolding trvsExprArray_def xs(1) by (simp only: throws_bindM throws_bindM_left)
  then show ?thesis
    by (subst trvsCallExpr_eq) (simp add: trvsDispatch_def getp_def ty fld_known [OF ty] TRVS_Get_def exprsMap_def run_simps)
qed

lemma holedProgram_throws:
  assumes "holedProgram ast"
  shows "throws (trvsProgram V ast)"
proof -
  obtain body st where body: "fld ast ''body'' = JArr body" "st \<in> set body" "fld st ''type'' = JStr ''ExpressionStatement''"
    "holedArray (fld st ''expression'')"
    using assms by (auto simp: holedProgram_def split: jsval.splits)
  have "throws (trvsStmtExpr V (trvsCallExpr V) st)"
    unfolding trvsStmtExpr_def by (rule throws_bindM, rule throws_bindM, rule throws_bindM_left [OF holedArray_throws [OF body(4)]])
  then have "throws (trvsCallStmt V st)"
    by (subst trvsCallStmt_eq) (simp add: trvsDispatch_def getp_def body(3) fld_known [OF body(3)] TRVS_Get_def stmtsMap_def run_simps)
  then have "throws (trvsStmts (trvsCallStmt V) (JArr body))"
    by (simp add: trvsStmts_def us_map_def us_elems_def throws_bindM_left throws_bindM throws_mapM [OF body(2)])
  then show ?thesis
    unfolding trvsProgram_def body(1) by (simp only: throws_bindM throws_bindM_left)
qed

lemma hole_throws: "holedProgram ast \<Longrightarrow> throws (drawTreeWithOpt ast)"
  using holedProgram_throws [of ast AstTreeView]
  by (auto simp: throws_def drawTreeWithOpt_def split: prod.splits sum.splits) (metis Inl_Inr_False fst_conv)+

lemma holedAnswer_throws:
  assumes "us_has msg ''inspectAst''" "holedProgram (fld msg ''inspectAst'')"
  shows "throws (connectorSuccess (JObj [(''msg'', msg)]))"
proof -
  have "throws (collectionAdd (fld msg ''inspectAst''))"
    unfolding throws_def
  proof
    fix s :: dbg
    obtain e where "fst (drawTreeWithOpt (fld msg ''inspectAst'') (d_nodes s, None)) = Inl e"
      using hole_throws [OF assms(2)] unfolding throws_def by blast
    then show "\<exists>e. fst (collectionAdd (fld msg ''inspectAst'') s) = Inl e"
      by (cases "drawTreeWithOpt (fld msg ''inspectAst'') (d_nodes s, None)")
        (simp add: collectionAdd_def addAstView_def createNavTabHtml_def Let_def)
  qed
  then have "throws (onServerSyncSuccess msg)"
    unfolding onServerSyncSuccess_def using assms(1) by (simp add: throws_bindM throws_bindM_left)
  moreover have "fld (JObj [(''msg'', msg)]) ''msg'' = msg" by (simp add: fld_def)
  ultimately show ?thesis by (simp add: connectorSuccess_def getp_def)
qed

text \<open>A program with a statement, and an array literal whose middle element is a hole.\<close>

definition holeAst :: jsval where
  "holeAst = node ''Program'' [(''body'', JArr [enc_stmt EmptyStatement, node ''ExpressionStatement''
     [(''expression'', node ''ArrayExpression'' [(''elements'', JArr [enc_expr ThisExpression, JNull])])]])]"

section \<open>An answer that throws nowhere\<close>

definition sameTabs :: "dbg \<Rightarrow> dbg \<Rightarrow> bool" where
  "sameTabs s t \<longleftrightarrow> d_asts t = d_asts s \<and> d_tabs t = d_tabs s \<and> d_sent t = d_sent s \<and> d_pending t = d_pending s \<and>
     d_cells t ''status'' = d_cells s ''status''"

definition quietly :: "(dbg, 'a) jsm \<Rightarrow> bool" where
  "quietly m \<longleftrightarrow> (\<forall>s. \<exists>x t. m s = (Inr x, t) \<and> sameTabs s t)"

named_theorems quiet_intros \<open>steps that change no tab and no status\<close>

lemma quietly_ret [quiet_intros]: "quietly (ret x)"
  by (simp add: quietly_def sameTabs_def ret_def)

lemma sameTabs_trans: "sameTabs s t \<Longrightarrow> sameTabs t u \<Longrightarrow> sameTabs s u"
  by (simp add: sameTabs_def)

lemma quietly_bindM [quiet_intros]: "quietly m \<Longrightarrow> (\<And>x. quietly (f x)) \<Longrightarrow> quietly (bindM m f)"
  unfolding quietly_def by (metis bindM_Inr sameTabs_trans)

lemma quietly_if [quiet_intros]: "(b \<Longrightarrow> quietly m) \<Longrightarrow> (\<not> b \<Longrightarrow> quietly n) \<Longrightarrow> quietly (if b then m else n)"
  by simp

lemma quietly_getp [quiet_intros]: "v \<notin> {JUndef, JNull} \<Longrightarrow> quietly (getp v k)"
  by (simp add: quietly_def getp_def ret_def sameTabs_def)

lemma quietly_modelSet [quiet_intros]: "k \<noteq> ''status'' \<Longrightarrow> quietly (modelSet k v)"
  by (auto simp: quietly_def modelSet_def changeValue_def setText_def sameTabs_def)

lemma quietly_run: "quietly m \<Longrightarrow> \<exists>t. m s = (Inr (), t) \<and> sameTabs s t"
  by (simp add: quietly_def)

lemma status_set:
  assumes "d_attrs s ''status'' \<noteq> JStr x"
  shows "\<exists>t. modelSet ''status'' (JStr x) s = (Inr (), t) \<and> d_cells t ''status'' = x \<and> d_asts t = d_asts s \<and> d_tabs t = d_tabs s \<and>
    d_sent t = d_sent s \<and> d_pending t = d_pending s"
  using assms by (simp add: modelSet_def changeValue_def setText_def)

text \<open>The page on which the answer that opens a view has been handled, up to the AST.\<close>

lemma answer_before_ast:
  assumes "us_has msg ''stage'' \<Longrightarrow> fld msg ''stage'' \<notin> {JUndef, JNull}" "d_attrs s ''status'' = JStr ''syncing''"
    "us_has msg ''inspectAst''"
  shows "\<exists>t. onServerSyncSuccess msg s = bindM (collectionAdd (fld msg ''inspectAst'')) (\<lambda>_. mutexStop) t \<and>
    d_cells t ''status'' = ''synced'' \<and> d_asts t = d_asts s \<and> d_tabs t = d_tabs s \<and> d_sent t = d_sent s \<and> d_pending t = d_pending s"
proof -
  let ?i = "if us_has msg ''inlines'' then modelSet ''inlines'' (fld msg ''inlines'') else ret ()"
  let ?g = "if us_has msg ''stage''
            then bindM (getp (fld msg ''stage'') ''depth'') (\<lambda>depth.
                 bindM (modelSet ''depth'' depth) (\<lambda>_.
                 bindM (getp (fld msg ''stage'') ''srcCode'') (\<lambda>srcCode. modelSet ''srcCode'' srcCode)))
            else ret ()"
  obtain t where t: "modelSet ''status'' (JStr ''synced'') s = (Inr (), t)" "d_cells t ''status'' = ''synced''" "d_asts t = d_asts s"
    "d_tabs t = d_tabs s" "d_sent t = d_sent s" "d_pending t = d_pending s"
    using status_set [of s "''synced''"] assms(2) by auto
  have "quietly ?i" "quietly ?g" using assms(1) by (intro quiet_intros; simp)+
  then obtain u v where u: "?i t = (Inr (), u)" "?g u = (Inr (), v)" "sameTabs t u" "sameTabs u v"
    using quietly_run [of ?i t] quietly_run [of ?g] by blast
  have "onServerSyncSuccess msg s = bindM (collectionAdd (fld msg ''inspectAst'')) (\<lambda>_. mutexStop) v"
    unfolding onServerSyncSuccess_def
    by (subst bindM_Inr, rule t(1), subst bindM_Inr, rule u(1), subst bindM_Inr, rule u(2)) (simp add: assms(3))
  then show ?thesis using t(2-) u(3,4) by (auto simp: sameTabs_def)
qed

text \<open>The page after the first poll.\<close>

lemma first_poll:
  "page_step\<^sup>*\<^sup>* initialPage (snd (serverSync initialPage))"
  "d_pending (snd (serverSync initialPage)) = 1" "d_sent (snd (serverSync initialPage)) = [syncOpts]"
proof -
  have "\<not> d_syncing initialPage" "d_pending initialPage = 0" "d_sent initialPage = []"
    by (simp_all add: initialPage_def Let_def)
  then show "d_pending (snd (serverSync initialPage)) = 1" "d_sent (snd (serverSync initialPage)) = [syncOpts]"
    using serverSync_run [of initialPage] by auto
  show "page_step\<^sup>*\<^sup>* initialPage (snd (serverSync initialPage))" using page_step.poll by blast
qed

section \<open>Properties\<close>

text \<open>
  C7: In every reachable state of the page at most one request is unanswered, and then the mutex of the
  polling process is set; no two tabs have the same id, also after tabs were closed; and every cell of
  the table whose attribute is not undefined shows the value the model has, alone or between the template's spaces.
  Nothing is claimed of a cell whose attribute an answer has set to undefined (a stage without a depth does): it
  keeps its old text.
\<close>

theorem sync_invariant:
  assumes "page_step\<^sup>*\<^sup>* initialPage s"
  shows "d_pending s \<le> 1 \<and> (0 < d_pending s \<longrightarrow> d_syncing s) \<and> distinct (map b_id (d_tabs s)) \<and>
    (\<forall>k\<in>{''status'', ''depth'', ''inlines''}. d_attrs s k \<noteq> JUndef \<longrightarrow>
       d_cells s k = cellText (d_attrs s k) \<or> d_cells s k = '' '' @ cellText (d_attrs s k) @ '' '')"
  using page_ok_reachable [OF assms] by (auto simp: page_ok_def display_ok_def tableKeys_def)

lemma sync_invariant_witness:
  "d_pending (snd (serverSync initialPage)) = 1 \<and> d_syncing (snd (serverSync initialPage))"
  using sync_invariant [OF first_poll(1)] first_poll(2) by simp

text \<open>
  C6: An answer that inspects a program of the supported syntax, and whose stage, when it has one, is neither null nor undefined, opens a new
  tab with the program's view: the handler returns, the drawing shows the root only, both field sets of the options
  are hidden, and the id of the tab is not one of an open tab; the mutex is released, the page shows ''synced'', and
  the next poll sends a request.
\<close>

theorem sync_opens_view:
  assumes "page_step\<^sup>*\<^sup>* initialPage s" "0 < d_pending s"
    and "us_has msg ''inspectAst''" "fld msg ''inspectAst'' = enc_program ss"
    and "us_has msg ''stage'' \<Longrightarrow> fld msg ''stage'' \<notin> {JUndef, JNull}"
  shows "\<exists>t p. connectorSuccess (JObj [(''msg'', msg)]) (answered s) = (Inr (), t) \<and>
    (\<exists>b. d_tabs t = d_tabs s @ [b] \<and> b_content b = Some p \<and> b_id b \<notin> b_id ` set (d_tabs s)) \<and>
    pg_drawn p = [Box (pg_root p) 30 90] \<and>
    fieldHidden (pg_form p) ''optCanvas'' True \<and> fieldHidden (pg_form p) ''optTree'' True \<and>
    \<not> d_syncing t \<and> d_cells t ''status'' = ''synced'' \<and> d_sent (snd (serverSync t)) = d_sent s @ [syncOpts]"
proof -
  have ok: "display_ok s" "d_attrs (answered s) ''status'' = JStr ''syncing''"
    using page_ok_reachable [OF assms(1)] assms(2) by (auto simp: page_ok_def answered_def)
  obtain v where v: "onServerSyncSuccess msg (answered s) = bindM (collectionAdd (enc_program ss)) (\<lambda>_. mutexStop) v"
    "d_cells v ''status'' = ''synced''" "d_asts v = d_asts s" "d_tabs v = d_tabs s" "d_sent v = d_sent s"
    using answer_before_ast [OF assms(5) ok(2) assms(3)] assms(4) by (auto simp: answered_def)
  obtain r p nodes where p: "drawTreeWithOpt (enc_program ss) (d_nodes v, None) = (Inr r, nodes, Some p)"
    "pg_drawn p = [Box (pg_root p) 30 90]" "fieldHidden (pg_form p) ''optCanvas'' True" "fieldHidden (pg_form p) ''optTree'' True"
    using view_opens by blast
  let ?n = "Suc (length (d_asts s))"
  let ?b = "(createNavTabHtml (tabId ?n) (''ast '' @ show_nat ?n))\<lparr>b_content := Some p\<rparr>"
  let ?t = "v\<lparr>d_asts := d_asts v @ [enc_program ss], d_nodes := nodes, d_tabs := d_tabs v @ [?b], d_syncing := False\<rparr>"
  have "connectorSuccess (JObj [(''msg'', msg)]) (answered s) = onServerSyncSuccess msg (answered s)"
    by (simp add: connectorSuccess_def getp_def fld_def)
  also have "\<dots> = (Inr (), ?t)"
    unfolding v(1) using p(1) v(3) by (simp add: collectionAdd_def addAstView_def createNavTabHtml_def mutexStop_def bindM_def Let_def)
  finally have "connectorSuccess (JObj [(''msg'', msg)]) (answered s) = (Inr (), ?t)" .
  moreover have "b_id ?b \<notin> b_id ` set (d_tabs s)"
    using ok(1) by (auto simp: display_ok_def createNavTabHtml_def tabId_def)
  moreover obtain u where "serverSync ?t = (Inr (), u)" "d_sent u = d_sent s @ [syncOpts]"
    using serverSync_run [of ?t] v(5) by auto
  ultimately show ?thesis using p(2-4) v(2,4) by (intro exI [of _ ?t] exI [of _ p]) auto
qed

lemma sync_opens_view_witness:
  "\<exists>t. connectorSuccess (JObj [(''msg'', JObj [(''inspectAst'', enc_program [])])]) (answered (snd (serverSync initialPage))) = (Inr (), t) \<and>
    \<not> d_syncing t \<and> d_sent (snd (serverSync t)) = [syncOpts, syncOpts]"
proof -
  let ?m = "JObj [(''inspectAst'', enc_program [])]"
  have "us_has ?m ''inspectAst''" "fld ?m ''inspectAst'' = enc_program []" "\<not> us_has ?m ''stage''"
    by (simp_all add: js_simps fld_def)
  from sync_opens_view [OF first_poll(1) _ this(1,2)] this(3) first_poll(2,3) show ?thesis by auto
qed

text \<open>
  C5: An answer that inspects a program that has, among its statements, an expression statement whose expression is an
  array literal with a hole stops the polling for good, whatever the other statements and elements are: the view throws
  inside the handler, before the mutex is released, so whatever happens on the page afterwards no request is sent again.
\<close>

theorem hole_stops_polling:
  assumes "page_step\<^sup>*\<^sup>* initialPage s" "0 < d_pending s"
    and "us_has msg ''inspectAst''" "holedProgram (fld msg ''inspectAst'')"
    and "page_step\<^sup>*\<^sup>* (snd (connectorSuccess (JObj [(''msg'', msg)]) (answered s))) t"
  shows "d_syncing t \<and> d_pending t = 0 \<and> d_sent t = d_sent s"
proof -
  let ?r = "JObj [(''msg'', msg)]"
  obtain e where e: "fst (connectorSuccess ?r (answered s)) = Inl e"
    using holedAnswer_throws [OF assms(3,4)] by (auto simp: throws_def)
  have s: "d_syncing (answered s)" "d_pending (answered s) = 0"
    using page_ok_reachable [OF assms(1)] assms(2) by (auto simp: page_ok_def answered_def)
  have h: "handles (answered s) (snd (connectorSuccess ?r (answered s)))" by (rule connectorSuccess_handles)
  then have "stuck (snd (connectorSuccess ?r (answered s)))"
    using s connectorSuccess_throws [OF e] by (simp add: stuck_def handles_def)
  from stuck_forever [OF assms(5) this] show ?thesis using h by (auto simp: stuck_def handles_def answered_def)
qed

lemma hole_stops_polling_witness:
  "d_sent (snd (serverSync (snd (connectorSuccess (JObj [(''msg'', JObj [(''inspectAst'', holeAst)])])
     (answered (snd (serverSync initialPage))))))) = [syncOpts]"
proof -
  let ?m = "JObj [(''inspectAst'', holeAst)]"
  have "us_has ?m ''inspectAst''" "holedProgram (fld ?m ''inspectAst'')"
    by (simp_all add: js_simps fld_def holedProgram_def holedArray_def holeAst_def node_def)
  from hole_stops_polling [OF first_poll(1) _ this r_into_rtranclp [of page_step, OF page_step.poll]] first_poll(2,3)
  show ?thesis by simp
qed

end
