(* ===== verification/Parallel_Slices.thy ===== *)
theory Parallel_Slices
  imports JS_Prelude "HOL-Library.Word"
begin

text \<open>
  The index arithmetic of the self-hosted \<open>ParallelArray\<close>, \<open>builtin/ParallelArray.js\<close>: chunks and
  slices, products of a shape, the N-dimensional index of a flat one, and its successor.

  Lengths, indices and dimensions are natural numbers. The operators that work on 32-bit
  integers (\<open>>>>\<close>, \<open><<\<close>, \<open>| 0\<close>) go through the word type; a negative result of the signed ones,
  which needs an operand of at least \<open>2 ^ 31\<close>, is 0 here. Dense arrays are shorter than
  \<open>2 ^ 28\<close> elements, and the lemmas below show that no operator wraps for such lengths.
\<close>

section \<open>32-bit operators\<close>

definition toInt32 :: "nat \<Rightarrow> nat" where
  "toInt32 n = nat (sint (word_of_nat n :: 32 word))"

definition shl5 :: "nat \<Rightarrow> nat" where
  "shl5 n = nat (sint (push_bit 5 (word_of_nat n :: 32 word)))"

lemma sint_word32: "n < 2 ^ 31 \<Longrightarrow> sint (word_of_nat n :: 32 word) = int n"
  by (simp add: sint_uint unsigned_of_nat take_bit_nat_eq_self signed_take_bit_int_eq_self)

lemma push_bit_word32: "push_bit 5 (word_of_nat n :: 32 word) = word_of_nat (32 * n)"
  by (simp add: push_bit_eq_mult mult.commute)

lemma toInt32_id: "n < 2 ^ 31 \<Longrightarrow> toInt32 n = n"
  by (simp only: toInt32_def sint_word32 nat_int)

lemma shl5_eq: "n < 2 ^ 26 \<Longrightarrow> shl5 n = 32 * n"
  unfolding shl5_def push_bit_word32 by (subst sint_word32) simp_all

section \<open>Chunks and slices\<close>

definition CHUNK_SIZE :: nat where
  "CHUNK_SIZE = 32"

text \<open>The comparison is of a signed number with the length.\<close>

definition ComputeNumChunks :: "nat \<Rightarrow> nat" where
  "ComputeNumChunks len =
     (let chunks = unat (drop_bit 5 (word_of_nat len :: 32 word))
      in if sint (push_bit 5 (word_of_nat chunks :: 32 word)) = int len then chunks else chunks + 1)"

definition ComputeSliceBounds :: "nat \<Rightarrow> nat \<Rightarrow> nat \<Rightarrow> nat \<times> nat" where
  "ComputeSliceBounds numItems sliceIndex numSlices =
     (let sliceWidth = toInt32 (numItems div numSlices)
      in (sliceWidth * sliceIndex,
          if sliceIndex = numSlices - 1 then numItems else sliceWidth * (sliceIndex + 1)))"

text \<open>The flat array of four entries per slice, and the positions in it.\<close>

definition SLICE_INFO :: "nat \<Rightarrow> nat \<Rightarrow> nat list" where
  "SLICE_INFO start end = [start, end, start, 0]"

definition SLICE_START :: "nat \<Rightarrow> nat" where "SLICE_START i = 4 * i + 0"
definition SLICE_END :: "nat \<Rightarrow> nat" where "SLICE_END i = 4 * i + 1"
definition SLICE_POS :: "nat \<Rightarrow> nat" where "SLICE_POS i = 4 * i + 2"

definition ComputeAllSliceBounds :: "nat \<Rightarrow> nat \<Rightarrow> nat list" where
  "ComputeAllSliceBounds numItems numSlices =
     concat (map (\<lambda>i. case ComputeSliceBounds numItems i numSlices of (start, end) \<Rightarrow> SLICE_INFO start end)
       [0..<numSlices])"

section \<open>Shapes and indices\<close>

definition ComputeProducts :: "nat list \<Rightarrow> nat list" where
  "ComputeProducts shape =
     snd (fold (\<lambda>i (product, products). (product * shape ! i, products @ [product * shape ! i]))
       (rev [1..<length shape]) (1, [1]))"

definition ComputeIndices :: "nat list \<Rightarrow> nat \<Rightarrow> nat list" where
  "ComputeIndices shape index1d =
     (let products = ComputeProducts shape; l = length shape
      in snd (fold (\<lambda>i (index1d, result).
           let stride = products ! (l - i - 1); index = toInt32 (index1d div stride)
           in (index1d - index * stride, result @ [index])) [0..<l] (index1d, [])))"

text \<open>\<open>StepIndices\<close> counts up the given suffix of the indices; its loop runs from the last one.\<close>

fun stepLoop :: "nat \<Rightarrow> nat list \<Rightarrow> nat list \<Rightarrow> nat list" where
  "stepLoop 0 shape indices = indices"
| "stepLoop (Suc i) shape indices =
     (if indices ! i + 1 < shape ! i then indices[i := indices ! i + 1]
      else stepLoop i shape (indices[i := 0]))"

definition StepIndices :: "nat list \<Rightarrow> nat list \<Rightarrow> nat list" where
  "StepIndices shape indices = stepLoop (length shape) shape indices"

section \<open>Facts: chunks\<close>

lemma unat_shr5: "len < 2 ^ 32 \<Longrightarrow> unat (drop_bit 5 (word_of_nat len :: 32 word)) = len div 32"
  unfolding unsigned_drop_bit_eq unsigned_of_nat
  by (simp add: take_bit_nat_eq_self drop_bit_eq_div)

lemma ceil32: "(if 32 * (n div 32) = n then n div 32 else n div 32 + 1) = (n + 31) div (32 :: nat)"
proof -
  obtain q r where n: "n = 32 * q + r" "r < 32"
    by (metis mod_less_divisor mult_div_mod_eq zero_less_numeral)
  then have "n div 32 = q" by simp
  moreover have "(n + 31) div 32 = (if r = 0 then q else q + 1)"
    using n by (intro div_nat_eqI) (auto split: if_splits)
  ultimately show ?thesis using n by simp
qed

lemma ComputeNumChunks_eq:
  assumes "len < 2 ^ 31"
  shows "ComputeNumChunks len = (len + 31) div 32"
proof -
  have "32 * (len div 32) < 2 ^ 31" using assms by simp
  then have "sint (word_of_nat (32 * (len div 32)) :: 32 word) = int (32 * (len div 32))"
    by (rule sint_word32)
  then have "ComputeNumChunks len = (if 32 * (len div 32) = len then len div 32 else len div 32 + 1)"
    using assms
    by (simp only: ComputeNumChunks_def unat_shr5 Let_def push_bit_word32 of_nat_eq_iff)
       (simp add: unat_shr5)
  then show ?thesis by (simp only: ceil32)
qed

section \<open>Facts: slices\<close>

definition slice_lo :: "nat \<Rightarrow> nat \<Rightarrow> nat \<Rightarrow> nat" where
  "slice_lo n s i = n div s * i"

definition slice_hi :: "nat \<Rightarrow> nat \<Rightarrow> nat \<Rightarrow> nat" where
  "slice_hi n s i = (if i = s - 1 then n else n div s * (i + 1))"

lemma ComputeSliceBounds_eq:
  "n < 2 ^ 31 \<Longrightarrow> ComputeSliceBounds n i s = (slice_lo n s i, slice_hi n s i)"
proof -
  assume "n < 2 ^ 31"
  then have "n div s < 2 ^ 31" by (metis div_le_dividend le_less_trans)
  then show ?thesis by (simp add: ComputeSliceBounds_def slice_lo_def slice_hi_def toInt32_id Let_def)
qed

lemma slice_step: "i < s \<Longrightarrow> n div s * (i + 1) \<le> (n :: nat)"
proof -
  assume "i < s"
  then have "n div s * (i + 1) \<le> n div s * s" by (intro mult_le_mono2) simp
  also have "\<dots> \<le> n" by (simp add: div_times_less_eq_dividend)
  finally show ?thesis .
qed

lemma slice_lo_hi: "i < s \<Longrightarrow> slice_lo n s i \<le> slice_hi n s i"
  using slice_step [of i s n] by (auto simp: slice_lo_def slice_hi_def)

lemma slice_hi_le: "i < s \<Longrightarrow> slice_hi n s i \<le> n"
  using slice_step [of i s n] by (auto simp: slice_hi_def)

lemma slice_hi_Suc: "Suc i < s \<Longrightarrow> slice_hi n s i = slice_lo n s (Suc i)"
  by (auto simp: slice_lo_def slice_hi_def)

lemma slice_lo_0: "slice_lo n s 0 = 0"
  by (simp add: slice_lo_def)

lemma slice_hi_last: "0 < s \<Longrightarrow> slice_hi n s (s - 1) = n"
  by (simp add: slice_hi_def)

lemma slices_ordered:
  assumes "i < j" "j < s"
  shows "slice_hi n s i \<le> slice_lo n s j"
proof -
  have "n div s * (i + 1) \<le> n div s * j" using assms by (intro mult_le_mono2) simp
  then show ?thesis using assms by (auto simp: slice_hi_def slice_lo_def)
qed

lemma slices_cover:
  assumes "k < n" "0 < s"
  shows "\<exists>i < s. slice_lo n s i \<le> k \<and> k < slice_hi n s i"
proof (cases "\<exists>i < s. k < slice_hi n s i")
  case True
  define i where "i = (LEAST i. k < slice_hi n s i)"
  have i: "k < slice_hi n s i" "i < s"
    using True by (auto simp: i_def intro: LeastI Least_le [THEN le_less_trans])
  have "slice_lo n s i \<le> k"
  proof (cases i)
    case 0
    then show ?thesis by (simp add: slice_lo_0)
  next
    case (Suc j)
    then have "\<not> k < slice_hi n s j"
      using not_less_Least [of j "\<lambda>i. k < slice_hi n s i"] by (simp add: i_def)
    with i Suc show ?thesis by (simp add: slice_hi_Suc)
  qed
  with i show ?thesis by blast
next
  case False
  then show ?thesis using assms slice_hi_last [of s n] by (metis diff_less less_one)
qed

text \<open>The slices in order are the whole range.\<close>

lemma slices_prefix:
  "j < s \<Longrightarrow> concat (map (\<lambda>i. [slice_lo n s i..<slice_hi n s i]) [0..<j]) = [0..<slice_lo n s j]"
proof (induction j)
  case 0
  then show ?case by (simp add: slice_lo_0)
next
  case (Suc j)
  then show ?case
    using slice_hi_Suc [of j s n] slice_lo_hi [of j s n] upt_add_eq_append [of 0 "slice_lo n s j"]
    by (simp add: le_iff_add) (metis add.commute le_add_diff_inverse upt_add_eq_append zero_le)
qed

text \<open>The entries of the flat array of bounds.\<close>

lemma concat_blocks_nth:
  assumes "\<And>i. length (f i) = k" "i < n" "j < k"
  shows "concat (map f [0..<n]) ! (k * i + j) = f i ! j"
  using assms(2)
proof (induction n)
  case 0
  then show ?case by simp
next
  case (Suc n)
  have len: "length (concat (map f [0..<m])) = k * m" for m
    using assms(1) by (induction m) auto
  show ?case
  proof (cases "i = n")
    case True
    then show ?thesis using assms by (simp add: nth_append len)
  next
    case False
    with Suc.prems have "i + 1 \<le> n" by simp
    then have "k * (i + 1) \<le> k * n" by (rule mult_le_mono2)
    then have "k * i + j < k * n" using assms(3) by simp
    with False Suc show ?thesis by (simp add: nth_append len)
  qed
qed

lemma slice_info:
  assumes "n < 2 ^ 31"
  shows "length (ComputeAllSliceBounds n s) = 4 * s"
    and "i < s \<Longrightarrow> ComputeAllSliceBounds n s ! SLICE_START i = slice_lo n s i"
    and "i < s \<Longrightarrow> ComputeAllSliceBounds n s ! SLICE_END i = slice_hi n s i"
    and "i < s \<Longrightarrow> ComputeAllSliceBounds n s ! SLICE_POS i = slice_lo n s i"
proof -
  let ?f = "\<lambda>i. SLICE_INFO (slice_lo n s i) (slice_hi n s i)"
  have eq: "ComputeAllSliceBounds n s = concat (map ?f [0..<s])"
    using assms by (simp add: ComputeAllSliceBounds_def ComputeSliceBounds_eq)
  have len: "length (?f i) = 4" for i by (simp add: SLICE_INFO_def)
  have "length (concat (map ?f [0..<m])) = 4 * m" for m by (induction m) (auto simp: SLICE_INFO_def)
  then show "length (ComputeAllSliceBounds n s) = 4 * s" by (simp only: eq)
  have at: "j < 4 \<Longrightarrow> ComputeAllSliceBounds n s ! (4 * i + j) = ?f i ! j" if "i < s" for j
    unfolding eq by (rule concat_blocks_nth [where f = ?f, OF len that])
  show "i < s \<Longrightarrow> ComputeAllSliceBounds n s ! SLICE_START i = slice_lo n s i"
    using at [of 0] by (simp add: SLICE_START_def SLICE_INFO_def)
  show "i < s \<Longrightarrow> ComputeAllSliceBounds n s ! SLICE_END i = slice_hi n s i"
    using at [of 1] by (simp add: SLICE_END_def SLICE_INFO_def)
  show "i < s \<Longrightarrow> ComputeAllSliceBounds n s ! SLICE_POS i = slice_lo n s i"
    using at [of 2] by (simp add: SLICE_POS_def SLICE_INFO_def)
qed

section \<open>Facts: indices\<close>

text \<open>
  The row-major reading of a flat index: each digit is the quotient by the size of the later
  dimensions.
\<close>

fun digits :: "nat list \<Rightarrow> nat \<Rightarrow> nat list" where
  "digits [] n = []"
| "digits (d # ds) n = n div prod_list ds # digits ds (n - n div prod_list ds * prod_list ds)"

fun flat :: "nat list \<Rightarrow> nat list \<Rightarrow> nat" where
  "flat (d # ds) (x # xs) = x * prod_list ds + flat ds xs"
| "flat ds xs = 0"

fun inShape :: "nat list \<Rightarrow> nat list \<Rightarrow> bool" where
  "inShape [] [] \<longleftrightarrow> True"
| "inShape (d # ds) (x # xs) \<longleftrightarrow> x < d \<and> inShape ds xs"
| "inShape ds xs \<longleftrightarrow> False"

lemma products_suffix:
  fixes shape :: "nat list"
  assumes "m \<le> length shape" "0 < m"
  shows "fold (\<lambda>i (product, products). (product * shape ! i, products @ [product * shape ! i]))
           (rev [m..<length shape]) (1, [1]) =
         (prod_list (drop m shape),
          map (\<lambda>k. prod_list (drop (length shape - k) shape)) [0..<length shape - m + 1])"
  using assms
proof (induction m rule: inc_induct)
  case base
  then show ?case by simp
next
  case (step m)
  have "drop m shape = shape ! m # drop (Suc m) shape" using step by (simp add: Cons_nth_drop_Suc)
  moreover have "[m..<length shape] = m # [Suc m..<length shape]" using step by (simp add: upt_conv_Cons)
  moreover have "length shape - m = Suc (length shape - Suc m)" using step by simp
  ultimately show ?case using step by (simp add: ac_simps)
qed

lemma ComputeProducts_eq:
  assumes "shape \<noteq> []"
  shows "ComputeProducts shape =
         map (\<lambda>k. prod_list (drop (length shape - k) shape)) [0..<length shape]"
proof -
  have "1 \<le> length shape" using assms by (cases shape) auto
  moreover from this have "length shape - 1 + 1 = length shape" by simp
  ultimately show ?thesis
    using products_suffix [of 1 shape] by (simp only: ComputeProducts_def snd_conv zero_less_one)
qed

lemma ComputeProducts_nth:
  "i < length shape \<Longrightarrow> ComputeProducts shape ! (length shape - i - 1) = prod_list (drop (Suc i) shape)"
  by (subst ComputeProducts_eq) (auto simp: Suc_diff_Suc)

lemma indices_suffix:
  assumes "shape = pre @ suf" "n < 2 ^ 31"
  shows "snd (fold (\<lambda>i (index1d, result).
           let stride = ComputeProducts shape ! (length shape - i - 1); index = toInt32 (index1d div stride)
           in (index1d - index * stride, result @ [index])) [length pre..<length shape] (n, res))
         = res @ digits suf n"
  using assms
proof (induction suf arbitrary: pre n res)
  case Nil
  then show ?case by simp
next
  case (Cons d suf)
  have stride: "ComputeProducts shape ! (length shape - length pre - 1) = prod_list suf"
    using Cons.prems by (subst ComputeProducts_nth) auto
  have "n div prod_list suf < 2 ^ 31" using Cons.prems(2) by (metis div_le_dividend le_less_trans)
  then have "toInt32 (n div prod_list suf) = n div prod_list suf" by (rule toInt32_id)
  moreover have "[length pre..<length shape] = length pre # [length (pre @ [d])..<length shape]"
    using Cons.prems upt_conv_Cons [of "length pre" "length shape"] by simp
  moreover have "shape = (pre @ [d]) @ suf" using Cons.prems by simp
  moreover have "n - n div prod_list suf * prod_list suf < 2 ^ 31" using Cons.prems(2) by simp
  ultimately show ?case
    using Cons.IH [of "pre @ [d]" "n - n div prod_list suf * prod_list suf"] stride
    by (simp add: Let_def)
qed

lemma ComputeIndices_eq: "n < 2 ^ 31 \<Longrightarrow> ComputeIndices shape n = digits shape n"
  using indices_suffix [of shape "[]" shape n "[]"] by (simp add: ComputeIndices_def Let_def)

lemma digits_length [simp]: "length (digits ds n) = length ds"
  by (induction ds arbitrary: n) auto

lemma flat_bound: "inShape ds xs \<Longrightarrow> flat ds xs < prod_list ds"
proof (induction ds xs rule: inShape.induct)
  case (2 d ds x xs)
  then have "flat (d # ds) (x # xs) < x * prod_list ds + prod_list ds" by simp
  also have "\<dots> = (x + 1) * prod_list ds" by simp
  also have "\<dots> \<le> d * prod_list ds" using 2 by (intro mult_le_mono1) simp
  finally show ?case by simp
qed auto

lemma digits_inShape: "n < prod_list ds \<Longrightarrow> inShape ds (digits ds n) \<and> flat ds (digits ds n) = n"
proof (induction ds arbitrary: n)
  case (Cons d ds)
  have pos: "0 < prod_list ds" using Cons.prems by (cases "prod_list ds = 0") auto
  then have "n - n div prod_list ds * prod_list ds < prod_list ds"
    by (metis minus_div_mult_eq_mod mod_less_divisor)
  moreover have "n div prod_list ds < d"
    using Cons.prems pos by (simp add: less_mult_imp_div_less)
  ultimately show ?case using Cons.IH by auto
qed simp

lemma digits_flat: "inShape ds xs \<Longrightarrow> digits ds (flat ds xs) = xs"
proof (induction ds xs rule: inShape.induct)
  case (2 d ds x xs)
  then show ?case using flat_bound [of ds xs] by simp
qed auto

text \<open>The step is the successor on row-major readings, with a carry out of a full suffix.\<close>

lemma stepLoop_digits:
  assumes "shape = pre @ suf" "length ix = length pre" "n < prod_list suf"
  shows "stepLoop (length shape) shape (ix @ digits suf n) =
         (if n + 1 < prod_list suf then ix @ digits suf (n + 1)
          else stepLoop (length pre) shape (ix @ map (\<lambda>_. 0) suf))"
  using assms
proof (induction suf arbitrary: pre ix n)
  case Nil
  then show ?case by simp
next
  case (Cons d suf)
  let ?p = "prod_list suf"
  define q r where "q = n div ?p" and "r = n mod ?p"
  have p: "0 < ?p" using Cons.prems by (cases "?p = 0") auto
  have n: "n = q * ?p + r" "r < ?p" using p by (auto simp: q_def r_def)
  have q: "q < d" using Cons.prems p by (simp add: q_def less_mult_imp_div_less)
  have dig: "digits (d # suf) (a * ?p + b) = a # digits suf b" if "b < ?p" for a b
    using that by simp
  have IH: "stepLoop (length shape) shape ((ix @ [q]) @ digits suf r) =
         (if r + 1 < ?p then (ix @ [q]) @ digits suf (r + 1)
          else stepLoop (length (pre @ [d])) shape ((ix @ [q]) @ map (\<lambda>_. 0) suf))"
    using Cons.prems n(2) by (intro Cons.IH) auto
  have start: "ix @ digits (d # suf) n = (ix @ [q]) @ digits suf r"
    using dig [OF n(2), of q] n(1) by (simp del: digits.simps)
  show ?case
  proof (cases "r + 1 < ?p")
    case True
    have "q * ?p + (r + 1) < (q + 1) * ?p" using True by simp
    also have "\<dots> \<le> d * ?p" using q by (intro mult_le_mono1) simp
    finally have "n + 1 < prod_list (d # suf)" using n by simp
    moreover have "digits (d # suf) (n + 1) = q # digits suf (r + 1)"
      using dig [OF True, of q] n(1) by (simp del: digits.simps)
    ultimately show ?thesis using IH start True by (simp del: digits.simps)
  next
    case False
    then have suc: "n + 1 = (q + 1) * ?p + 0" using n by simp
    then have fits: "n + 1 < prod_list (d # suf) \<longleftrightarrow> q + 1 < d"
      using p by (simp only: add_0_right mult_less_cancel2 prod_list.Cons simp_thms)
    have zeros: "digits suf 0 = map (\<lambda>_. 0) suf" by (induction suf) auto
    have at: "shape ! length pre = d" "(ix @ q # map (\<lambda>_. 0) suf) ! length pre = q"
      using Cons.prems by (auto simp: nth_append)
    have upd: "(ix @ q # map (\<lambda>_. 0) suf)[length pre := z] = ix @ z # map (\<lambda>_. 0) suf" for z
      using Cons.prems by (simp add: list_update_append)
    have "digits (d # suf) (n + 1) = (q + 1) # map (\<lambda>_. 0) suf"
      unfolding suc by (subst dig [OF p]) (simp add: zeros)
    then show ?thesis using IH start False fits at upd by (simp del: digits.simps)
  qed
qed

lemma StepIndices_digits:
  "n + 1 < prod_list shape \<Longrightarrow> StepIndices shape (digits shape n) = digits shape (n + 1)"
  using stepLoop_digits [of shape "[]" shape "[]" n] by (simp add: StepIndices_def)

section \<open>Properties\<close>

text \<open>
  C32: The slices of the chunks of an array, in the order of their ids, are exactly the chunks
  \<open>0, \<dots>, ceil (length / 32) - 1\<close>: every chunk belongs to one slice, none to two, whatever the number
  of slices, and no shift or truncation wraps.
\<close>

theorem slices_partition:
  assumes "len < 2 ^ 31" "0 < s"
  shows "concat (map (\<lambda>i. case ComputeSliceBounds (ComputeNumChunks len) i s of (start, end) \<Rightarrow> [start..<end]) [0..<s])
         = [0..<(len + 31) div 32]"
proof -
  let ?n = "(len + 31) div 32"
  have "?n < 2 ^ 31" using assms(1) by simp
  then have eq: "(\<lambda>i. case ComputeSliceBounds (ComputeNumChunks len) i s of (start, end) \<Rightarrow> [start..<end])
      = (\<lambda>i. [slice_lo ?n s i..<slice_hi ?n s i])"
    using assms(1) by (simp add: ComputeNumChunks_eq ComputeSliceBounds_eq fun_eq_iff)
  obtain j where s: "s = Suc j" using assms(2) by (cases s) auto
  have "slice_lo ?n s j \<le> ?n" using slice_lo_hi [of j s ?n] slice_hi_le [of j s ?n] s by simp
  then have "[0..<slice_lo ?n s j] @ [slice_lo ?n s j..<?n] = [0..<?n]"
    by (metis le_add_diff_inverse upt_add_eq_append zero_le)
  then show ?thesis
    unfolding eq using slices_prefix [of j s ?n] slice_hi_last [of s ?n] s by simp
qed

lemma slices_partition_witness:
  "concat (map (\<lambda>i. case ComputeSliceBounds (ComputeNumChunks 100) i 3 of (start, end) \<Rightarrow> [start..<end]) [0..<3])
   = [0, 1, 2, 3]"
  using slices_partition [of 100 3] by (simp add: upt_conv_Cons)

text \<open>
  C33: \<open>ComputeIndices\<close> decodes a flat index into an index inside the shape whose row-major offset it
  is, and \<open>StepIndices\<close> turns the index of a position into that of the next one.
\<close>

theorem indices_decode:
  assumes "n < prod_list shape" "n < 2 ^ 31"
  shows "inShape shape (ComputeIndices shape n) \<and> flat shape (ComputeIndices shape n) = n \<and>
    (n + 1 < prod_list shape \<longrightarrow> n + 1 < 2 ^ 31 \<longrightarrow>
       StepIndices shape (ComputeIndices shape n) = ComputeIndices shape (n + 1))"
  using assms digits_inShape by (simp add: ComputeIndices_eq StepIndices_digits [simplified])

lemma indices_decode_witness:
  "flat [2, 3, 4] (ComputeIndices [2, 3, 4] 17) = 17 \<and>
   StepIndices [2, 3, 4] (ComputeIndices [2, 3, 4] 17) = ComputeIndices [2, 3, 4] 18"
  using indices_decode [of 17 "[2, 3, 4]"] by simp

end
