(* ===== verification/Parallel_Fork.thy ===== *)
theory Parallel_Fork
  imports Parallel_Slices
begin

text \<open>
  \<open>ForkJoin(func, mode)\<close> as \<open>builtin/ParallelArray.js\<close> relies on it (contract: \<open>vm/ForkJoin.h\<close>).

  A kernel \<open>func(sliceId, numSlices, warmup)\<close> works on memory shared by the slices and says
  whether its slice is finished. The slices run in parallel: their operations on the shared memory are
  interleaved in any order. ForkJoin may call the kernel any number of times for every slice, with or
  without \<open>warmup\<close>, and may abandon a call at any operation (a bailout): then the
  stores made so far stay, and they are only those of \<open>UnsafeSetElement\<close>, each call of which is
  atomic: no bailout separates its stores. Each call is also one operation for the other slices, which its
  stores do not reach: the views below show that they see none of them. ForkJoin returns when every slice has
  reported that it is finished.

  A run of a kernel is therefore not a function of the memory it starts from, but a program of single
  operations on whatever the memory is when its turn comes: \<open>Ret\<close>, \<open>Throw\<close>, a \<open>Load\<close>, which looks at the memory
  and goes on, and a \<open>Store\<close>, which changes it. A schedule is a list of events: a slice starts a call, abandoning
  its current one; a slice executes one operation of its current call; or a slice is called sequentially and
  runs to its end.

  \<open>safe\<close> is the triple for a run: from memory in \<open>P\<close> it returns with memory in \<open>Q\<close> and is in \<open>B\<close> wherever it may be
  abandoned. Nothing else can go wrong in a safe run: no store out of bounds, no read of a hole, no exception. The
  triple is about the run on its own; that the other slices do not disturb it is its view, two relations on
  memory: every operation gives the same result, and the same next memory, on memories that the first
  relation identifies, and every store keeps the second, which says that the other slices see no change.
\<close>

datatype ('z, 'a) pjs =
    Ret 'a
  | Throw jserr
  | Load "'z \<Rightarrow> ('z, 'a) pjs"
  | Store "'z \<Rightarrow> ('z, 'a) pjs" "'z \<Rightarrow> 'z"

primrec bindP :: "('z, 'a) pjs \<Rightarrow> ('a \<Rightarrow> ('z, 'b) pjs) \<Rightarrow> ('z, 'b) pjs" where
  "bindP (Ret x) f = f x"
| "bindP (Throw e) f = Throw e"
| "bindP (Load k) f = Load (\<lambda>z. bindP (k z) f)"
| "bindP (Store k u) f = Store (\<lambda>z. bindP (k z) f) u"

primrec loopP :: "nat list \<Rightarrow> 'x \<Rightarrow> (nat \<Rightarrow> 'x \<Rightarrow> ('z, 'x) pjs) \<Rightarrow> ('z, 'x) pjs" where
  "loopP [] x body = Ret x"
| "loopP (i # js) x body = bindP (body i x) (\<lambda>y. loopP js y body)"

text \<open>The run on its own.\<close>

primrec exec :: "('z, 'a) pjs \<Rightarrow> 'z \<Rightarrow> (jserr + 'a) \<times> 'z" where
  "exec (Ret x) z = (Inr x, z)"
| "exec (Throw e) z = (Inl e, z)"
| "exec (Load k) z = exec (k z) z"
| "exec (Store k u) z = exec (k z) (u z)"

lemma exec_bindP: "exec (bindP m f) z = (case exec m z of (Inl e, z') \<Rightarrow> (Inl e, z') | (Inr x, z') \<Rightarrow> exec (f x) z')"
  by (induction m arbitrary: z) auto

section \<open>Operations of a kernel\<close>

definition load :: "('z \<Rightarrow> 'a) \<Rightarrow> ('z, 'a) pjs" where
  "load f = Load (\<lambda>z. Ret (f z))"

text \<open>Reading an element of a dense array that has not been stored yet.\<close>

definition loadElem :: "('z \<Rightarrow> 'v option list) \<Rightarrow> nat \<Rightarrow> ('z, 'v) pjs" where
  "loadElem f i = Load (\<lambda>z. case f z ! i of
       Some v \<Rightarrow> if i < length (f z) then Ret v else Throw (AssertionFailed ''load'')
     | None \<Rightarrow> Throw (AssertionFailed ''load''))"

text \<open>A call of the user's function, a function of its arguments that returns; other slices may run meanwhile.\<close>

definition callFunc :: "'a \<Rightarrow> ('z, 'a) pjs" where
  "callFunc v = Load (\<lambda>_. Ret v)"

text \<open>One atomic \<open>UnsafeSetElement\<close>: the indices it needs to be in bounds, and its stores.\<close>

definition UnsafeSetElement :: "('z \<Rightarrow> bool) \<Rightarrow> ('z \<Rightarrow> 'z) \<Rightarrow> ('z, unit) pjs" where
  "UnsafeSetElement ok upd = Store
     (\<lambda>z. if ok z then Ret () else Throw (AssertionFailed ''UnsafeSetElement''))
     (\<lambda>z. if ok z then upd z else z)"

section \<open>Schedules\<close>

datatype fork_event = Start nat bool | Run nat | Call nat bool

type_synonym 'z kernel = "nat \<Rightarrow> bool \<Rightarrow> ('z, bool) pjs"

text \<open>The calls that the slices are in, and the slices that have reported that they are finished.\<close>

type_synonym 'z pool = "nat \<Rightarrow> ('z, bool) pjs option"

fun events :: "'z kernel \<Rightarrow> nat \<Rightarrow> fork_event list \<Rightarrow> 'z pool \<Rightarrow> nat list \<Rightarrow> 'z \<Rightarrow> (jserr + unit) \<times> 'z" where
  "events run n [] pool finished z =
     (if list_all (\<lambda>i. i \<in> set finished) [0..<n] then (Inr (), z) else (Inl Bailout, z))"
| "events run n (Start i warmup # sched) pool finished z =
     events run n sched (if i < n then pool(i := Some (run i warmup)) else pool) finished z"
| "events run n (Run i # sched) pool finished z =
     (case (if i < n then pool i else None) of
        None \<Rightarrow> events run n sched pool finished z
      | Some (Ret done) \<Rightarrow> events run n sched (pool(i := None)) (if done then i # finished else finished) z
      | Some (Throw e) \<Rightarrow> (Inl e, z)
      | Some (Load k) \<Rightarrow> events run n sched (pool(i := Some (k z))) finished z
      | Some (Store k u) \<Rightarrow> events run n sched (pool(i := Some (k z))) finished (u z))"
| "events run n (Call i warmup # sched) pool finished z =
     (if i < n then
        (case exec (run i warmup) z of
           (Inl e, z') \<Rightarrow> (Inl e, z')
         | (Inr done, z') \<Rightarrow> events run n sched (pool(i := None)) (if done then i # finished else finished) z')
      else events run n sched pool finished z)"

text \<open>
  A schedule that stops before every slice is finished ends in \<open>Bailout\<close>: ForkJoin goes on.
  Its last resort is to call every slice in turn, not as a warm-up and without interruption. The
  operation that joins the slices does nothing else until they are finished.
\<close>

definition ForkJoin :: "'z kernel \<Rightarrow> nat \<Rightarrow> fork_event list \<Rightarrow> ('z, unit) pjs" where
  "ForkJoin run n sched =
     Store (\<lambda>z. case fst (events run n sched (\<lambda>_. None) [] z) of Inl e \<Rightarrow> Throw e | Inr _ \<Rightarrow> Ret ())
       (\<lambda>z. snd (events run n sched (\<lambda>_. None) [] z))"

definition sequentially :: "nat \<Rightarrow> fork_event list" where
  "sequentially n = map (\<lambda>i. Call i False) [0..<n]"

section \<open>Safe runs\<close>

type_synonym 'z view = "('z \<Rightarrow> 'z \<Rightarrow> bool) \<times> ('z \<Rightarrow> 'z \<Rightarrow> bool)"

text \<open>The view of a run that nothing else interrupts, and that of one of \<open>n\<close> slices.\<close>

definition alone :: "'z view" where
  "alone = ((=), \<lambda>_ _. True)"

definition viewOf :: "(nat \<Rightarrow> 'z \<Rightarrow> 'z \<Rightarrow> bool) \<Rightarrow> nat \<Rightarrow> nat \<Rightarrow> 'z view" where
  "viewOf same n i = (same i, \<lambda>z w. \<forall>j<n. j \<noteq> i \<longrightarrow> same j z w)"

primrec okRun :: "'z view \<Rightarrow> ('a \<Rightarrow> 'z \<Rightarrow> bool) \<Rightarrow> ('z \<Rightarrow> bool) \<Rightarrow> ('z, 'a) pjs \<Rightarrow> 'z \<Rightarrow> bool" where
  "okRun V Q B (Ret x) z \<longleftrightarrow> Q x z"
| "okRun V Q B (Throw e) z \<longleftrightarrow> False"
| "okRun V Q B (Load k) z \<longleftrightarrow> (\<forall>z'. fst V z z' \<longrightarrow> k z' = k z) \<and> okRun V Q B (k z) z"
| "okRun V Q B (Store k u) z \<longleftrightarrow> B z \<and> (\<forall>z'. fst V z z' \<longrightarrow> k z' = k z \<and> fst V (u z) (u z') \<and> snd V z' (u z')) \<and>
     okRun V Q B (k z) (u z)"

definition safe :: "'z view \<Rightarrow> ('z \<Rightarrow> bool) \<Rightarrow> ('z, 'a) pjs \<Rightarrow> ('a \<Rightarrow> 'z \<Rightarrow> bool) \<Rightarrow> ('z \<Rightarrow> bool) \<Rightarrow> bool" where
  "safe V P m Q B \<longleftrightarrow> (\<forall>z. P z \<longrightarrow> okRun V Q B m z)"

lemma fst_alone [simp]: "fst alone z z' \<longleftrightarrow> z = z'"
  by (simp add: alone_def)

lemma okRun_exec:
  assumes "okRun V Q B m z" "\<And>z. fst V z z" "\<And>z. snd V z z" "\<And>x y z. snd V x y \<Longrightarrow> snd V y z \<Longrightarrow> snd V x z"
  shows "\<exists>x z'. exec m z = (Inr x, z') \<and> Q x z' \<and> snd V z z'"
  using assms(1)
proof (induction m arbitrary: z)
  case (Ret x)
  then show ?case using assms(3) by simp
next
  case (Load k)
  from Load.prems have "okRun V Q B (k z) z" unfolding okRun.simps by blast
  from Load.IH [OF rangeI this] show ?case by simp
next
  case (Store k u)
  from Store.prems have s: "snd V z (u z)" "okRun V Q B (k z) (u z)" using assms(2) unfolding okRun.simps by blast+
  from Store.IH [OF rangeI s(2)] obtain x z' where "exec (k z) (u z) = (Inr x, z')" "Q x z'" "snd V (u z) z'" by blast
  then show ?case using assms(4) [OF s(1)] by simp
qed simp

lemma safe_outcome:
  assumes "safe alone P m Q B" "P z"
  obtains x z' where "exec m z = (Inr x, z')" "Q x z'"
  using okRun_exec [of alone Q B m z] assms by (auto simp: safe_def alone_def)

lemma okRun_B:
  assumes "okRun V Q B m z" "\<And>x z. Q x z \<Longrightarrow> B z"
  shows "B z"
  using assms(1)
proof (induction m arbitrary: z)
  case (Ret x)
  from Ret.prems have "Q x z" by simp
  then show ?case by (rule assms(2))
next
  case (Load k)
  from Load.prems have "okRun V Q B (k z) z" unfolding okRun.simps by blast
  from Load.IH [OF rangeI this] show ?case .
qed simp_all

lemma okRun_weaken:
  assumes "okRun V Q' B' m z" "\<And>x z. Q' x z \<Longrightarrow> Q x z" "\<And>z. B' z \<Longrightarrow> B z"
  shows "okRun V Q B m z"
  using assms(1)
proof (induction m arbitrary: z)
  case (Ret x)
  from Ret.prems have "Q' x z" by simp
  then show ?case using assms(2) by simp
next
  case (Load k)
  from Load.prems have l: "\<forall>z'. fst V z z' \<longrightarrow> k z' = k z" "okRun V Q' B' (k z) z" unfolding okRun.simps by blast+
  from l(1) Load.IH [OF rangeI l(2)] show ?case unfolding okRun.simps by blast
next
  case (Store k u)
  from Store.prems have l: "B' z" "\<forall>z'. fst V z z' \<longrightarrow> k z' = k z \<and> fst V (u z) (u z') \<and> snd V z' (u z')" "okRun V Q' B' (k z) (u z)"
    unfolding okRun.simps by blast+
  from assms(3) [OF l(1)] l(2) Store.IH [OF rangeI l(3)] show ?case unfolding okRun.simps by blast
qed simp

lemma okRun_bindP:
  assumes "okRun V R B m z" "\<And>x z. R x z \<Longrightarrow> okRun V Q B (f x) z"
  shows "okRun V Q B (bindP m f) z"
  using assms(1)
proof (induction m arbitrary: z)
  case (Ret x)
  from Ret.prems have "R x z" by simp
  then show ?case using assms(2) by simp
next
  case (Load k)
  from Load.prems have l: "\<forall>z'. fst V z z' \<longrightarrow> k z' = k z" "okRun V R B (k z) z" unfolding okRun.simps by blast+
  from l(1) Load.IH [OF rangeI l(2)] show ?case unfolding bindP.simps okRun.simps by simp
next
  case (Store k u)
  from Store.prems have l: "B z" "\<forall>z'. fst V z z' \<longrightarrow> k z' = k z \<and> fst V (u z) (u z') \<and> snd V z' (u z')" "okRun V R B (k z) (u z)"
    unfolding okRun.simps by blast+
  from l(1,2) Store.IH [OF rangeI l(3)] show ?case unfolding bindP.simps okRun.simps by simp
qed simp

lemma safe_ret: "(\<And>z. P z \<Longrightarrow> Q x z) \<Longrightarrow> safe V P (Ret x) Q B"
  by (auto simp: safe_def)

lemma safe_weaken:
  assumes "safe V P' m Q' B'" "\<And>z. P z \<Longrightarrow> P' z" "\<And>x z. Q' x z \<Longrightarrow> Q x z" "\<And>z. B' z \<Longrightarrow> B z"
  shows "safe V P m Q B"
  using okRun_weaken [of V Q' B' m _ Q B] assms unfolding safe_def by blast

lemma safe_bind:
  assumes "safe V P m R B" "\<And>x. safe V (R x) (f x) Q B"
  shows "safe V P (bindP m f) Q B"
  using okRun_bindP [of V R B m _ Q f] assms unfolding safe_def by blast

lemma safe_load:
  assumes "\<And>z z'. P z \<Longrightarrow> fst V z z' \<Longrightarrow> f z' = f z"
  shows "safe V P (load f) (\<lambda>x z. P z \<and> x = f z) B"
  using assms by (simp add: safe_def load_def)

lemma safe_loadElem:
  assumes "\<And>z. P z \<Longrightarrow> i < length (f z) \<and> f z ! i = Some (g z)"
    and "\<And>z z'. P z \<Longrightarrow> fst V z z' \<Longrightarrow> length (f z') = length (f z) \<and> f z' ! i = f z ! i"
  shows "safe V P (loadElem f i) (\<lambda>x z. P z \<and> x = g z) B"
  using assms by (simp add: safe_def loadElem_def)

lemma safe_callFunc: "safe V P (callFunc v) (\<lambda>x z. P z \<and> x = v) B"
  by (simp add: safe_def callFunc_def)

lemma safe_set:
  assumes "\<And>z. P z \<Longrightarrow> ok z \<and> Q () (upd z) \<and> B z"
    and "\<And>z z'. P z \<Longrightarrow> fst V z z' \<Longrightarrow> ok z' \<and> fst V (upd z) (upd z') \<and> snd V z' (upd z')"
  shows "safe V P (UnsafeSetElement ok upd) Q B"
  using assms by (simp add: safe_def UnsafeSetElement_def)

lemma safe_pre: "(\<And>z. P z \<Longrightarrow> c) \<Longrightarrow> (c \<Longrightarrow> safe V P m Q B) \<Longrightarrow> safe V P m Q B"
  by (auto simp: safe_def)

text \<open>A loop keeps an invariant that depends on the index reached.\<close>

lemma safe_loop:
  assumes "\<And>k x. a \<le> k \<Longrightarrow> k < b \<Longrightarrow> safe V (I k x) (body k x) (I (k + 1)) B" "a \<le> b"
  shows "safe V (I a x) (loopP [a..<b] x body) (I b) B"
  using assms
proof (induction "b - a" arbitrary: a x)
  case 0
  then show ?case by (auto intro: safe_ret)
next
  case (Suc d)
  then have "[a..<b] = a # [a + 1..<b]" by (simp add: upt_conv_Cons)
  moreover have "safe V (I a x) (body a x) (I (a + 1)) B" using Suc by auto
  moreover have "safe V (I (a + 1) y) (loopP [a + 1..<b] y body) (I b) B" for y
    using Suc by (intro Suc.hyps) auto
  ultimately show ?case by (auto intro: safe_bind)
qed

section \<open>The contract between ForkJoin and a kernel\<close>

text \<open>
  \<open>same i\<close> identifies memories that slice \<open>i\<close> cannot tell apart: they agree on the part that is its own and on what no
  slice changes. \<open>inv\<close> is what every store of a run on its own keeps, so what the memory satisfies when the run is
  abandoned; \<open>complete i\<close> says that slice \<open>i\<close> is done, which its own part shows, and no run undoes it. A run
  says true only when its slice is done, and does say so unless it is a warm-up. The invariant is made of
  one for each part: it holds of a memory that looks to one slice as one with the invariant does and to the
  others as another with the invariant does.
\<close>

locale slice_kernel =
  fixes run :: "'z kernel" and n :: nat and inv :: "'z \<Rightarrow> bool" and complete :: "nat \<Rightarrow> 'z \<Rightarrow> bool"
    and same :: "nat \<Rightarrow> 'z \<Rightarrow> 'z \<Rightarrow> bool"
  assumes same_equiv: "i < n \<Longrightarrow> equivp (same i)"
    and same_complete: "i < n \<Longrightarrow> same i z w \<Longrightarrow> complete i z \<Longrightarrow> complete i w"
    and same_inv: "i < n \<Longrightarrow> inv z \<Longrightarrow> inv g \<Longrightarrow> same i g w \<Longrightarrow> (\<And>j. j < n \<Longrightarrow> j \<noteq> i \<Longrightarrow> same j z w) \<Longrightarrow> inv w"
    and run_safe: "i < n \<Longrightarrow>
      safe (viewOf same n i) (\<lambda>z. inv z \<and> (\<forall>j\<in>D. complete j z)) (run i warmup)
        (\<lambda>done z. (inv z \<and> (\<forall>j\<in>D. complete j z)) \<and> (done \<longrightarrow> complete i z) \<and> (\<not> warmup \<longrightarrow> done))
        (\<lambda>z. inv z \<and> (\<forall>j\<in>D. complete j z))"
begin

lemma same_refl: "i < n \<Longrightarrow> same i z z"
  using same_equiv equivp_reflp by metis

lemma same_sym: "i < n \<Longrightarrow> same i z w \<Longrightarrow> same i w z"
  using same_equiv equivp_symp by metis

lemma same_trans: "i < n \<Longrightarrow> same i x y \<Longrightarrow> same i y z \<Longrightarrow> same i x z"
  using same_equiv equivp_transp by metis

text \<open>What a call of slice \<open>i\<close> promises, when the slice has reported before or not.\<close>

definition keepsDone :: "nat set \<Rightarrow> nat \<Rightarrow> 'z \<Rightarrow> bool" where
  "keepsDone F i z \<longleftrightarrow> inv z \<and> (\<forall>j\<in>F \<inter> {i}. complete j z)"

definition post :: "nat set \<Rightarrow> nat \<Rightarrow> bool \<Rightarrow> bool \<Rightarrow> 'z \<Rightarrow> bool" where
  "post F i warmup done z \<longleftrightarrow> keepsDone F i z \<and> (done \<longrightarrow> complete i z) \<and> (\<not> warmup \<longrightarrow> done)"

definition okCall :: "nat set \<Rightarrow> nat \<Rightarrow> bool \<Rightarrow> ('z, bool) pjs \<Rightarrow> 'z \<Rightarrow> bool" where
  "okCall F i warmup = okRun (viewOf same n i) (post F i warmup) (keepsDone F i)"

lemma okCall_start: "i < n \<Longrightarrow> keepsDone F i z \<Longrightarrow> okCall F i warmup (run i warmup) z"
  using run_safe [of i "F \<inter> {i}" warmup] unfolding safe_def okCall_def post_def keepsDone_def by blast

lemma okCall_keeps: "okCall F i warmup m z \<Longrightarrow> keepsDone F i z"
  unfolding okCall_def by (erule okRun_B) (simp add: post_def)

text \<open>
  The state of a join: every slice that has reported is done, and every call that is under way is one that runs
  well on its own, on a memory that the slice cannot tell from the shared one.
\<close>

definition joining :: "'z pool \<Rightarrow> nat set \<Rightarrow> 'z \<Rightarrow> bool" where
  "joining pool F z \<longleftrightarrow> inv z \<and> (\<forall>i\<in>F. i < n \<longrightarrow> complete i z) \<and>
     (\<forall>i<n. \<forall>m. pool i = Some m \<longrightarrow> (\<exists>g warmup. same i g z \<and> okCall F i warmup m g))"

lemma joining_call_of:
  assumes "joining pool F z" "i < n" "pool i = Some m"
  obtains g warmup where "same i g z" "okCall F i warmup m g"
  using assms unfolding joining_def by metis

lemma joining_keeps: "joining pool F z \<Longrightarrow> i < n \<Longrightarrow> keepsDone F i z"
  by (auto simp: joining_def keepsDone_def)

text \<open>Slice \<open>i\<close> changes the memory the way its call does on its own, and the call is then another.\<close>

lemma joining_move:
  assumes "joining pool F z" "i < n" "same i g w" "keepsDone F i g" "\<And>j. j < n \<Longrightarrow> j \<noteq> i \<Longrightarrow> same j z w"
    and "\<And>m. c = Some m \<Longrightarrow> \<exists>warmup. okCall F' i warmup m g" "F' = F \<or> F' = insert i F \<and> complete i g \<and> c = None"
  shows "joining (pool(i := c)) F' w"
proof -
  have inv: "inv w" using same_inv [OF assms(2) _ _ assms(3,5)] assms(1,4) by (auto simp: joining_def keepsDone_def)
  have others: "\<exists>g warmup. same j g w \<and> okCall F' j warmup m g" if j: "j < n" "j \<noteq> i" "pool j = Some m" for j m
  proof -
    obtain g' warmup where "same j g' z" "okCall F j warmup m g'" by (rule joining_call_of [OF assms(1) j(1,3)])
    moreover have "F' \<inter> {j} = F \<inter> {j}" using assms(7) j(2) by auto
    then have "okCall F' j warmup m g' = okCall F j warmup m g'"
      unfolding okCall_def post_def keepsDone_def by simp
    ultimately show ?thesis using same_trans [OF j(1)] assms(5) [OF j(1,2)] by blast
  qed
  have finished: "complete j w" if "j \<in> F'" "j < n" for j
  proof (cases "j = i")
    case True
    then have "complete i g" using assms(4,7) that(1) by (auto simp: keepsDone_def)
    then show ?thesis using same_complete assms(2,3) True by blast
  next
    case False
    then have "complete j z" using assms(1,7) that by (auto simp: joining_def)
    then show ?thesis using same_complete assms(5) that(2) False by blast
  qed
  show ?thesis
    unfolding joining_def
  proof (intro conjI ballI impI allI inv finished)
    fix j m assume j: "j < n" "(pool(i := c)) j = Some m"
    show "\<exists>g warmup. same j g w \<and> okCall F' j warmup m g"
    proof (cases "j = i")
      case True
      then show ?thesis using assms(3,6) j by auto
    next
      case False
      then show ?thesis using others j by simp
    qed
  qed
qed

lemma joining_skip: "joining pool F z \<Longrightarrow> i < n \<Longrightarrow> joining (pool(i := None)) F z"
  by (rule joining_move [where g = z]) (auto simp: joining_keeps same_refl)

lemma joining_start: "joining pool F z \<Longrightarrow> i < n \<Longrightarrow> joining (pool(i := Some (run i warmup))) F z"
  by (rule joining_move [where g = z]) (blast intro: okCall_start joining_keeps same_refl)+

text \<open>A sequential call runs to its end.\<close>

lemma joining_call:
  assumes "joining pool F z" "i < n"
  obtains d z' where "exec (run i warmup) z = (Inr d, z')" "joining (pool(i := None)) (if d then insert i F else F) z'"
    "\<not> warmup \<longrightarrow> d"
proof -
  let ?V = "viewOf same n i"
  have ok: "okRun ?V (post F i warmup) (keepsDone F i) (run i warmup) z"
    using okCall_start [OF assms(2) joining_keeps [OF assms]] by (simp add: okCall_def)
  have "\<exists>x z'. exec (run i warmup) z = (Inr x, z') \<and> post F i warmup x z' \<and> snd ?V z z'"
  proof (rule okRun_exec [OF ok])
    show "fst ?V z z" "snd ?V z z" for z using assms(2) by (simp_all add: viewOf_def same_refl)
    show "snd ?V x y \<Longrightarrow> snd ?V y z \<Longrightarrow> snd ?V x z" for x y z unfolding viewOf_def by (auto intro: same_trans)
  qed
  then obtain d z' where d: "exec (run i warmup) z = (Inr d, z')" "post F i warmup d z'" "snd ?V z z'" by blast
  have "joining (pool(i := None)) (if d then insert i F else F) z'"
    by (rule joining_move [OF assms, where g = z']) (use d assms(2) same_refl in \<open>auto simp: post_def viewOf_def\<close>)
  then show ?thesis using that d by (simp add: post_def)
qed

text \<open>One operation of a call that is under way.\<close>

lemma joining_run:
  assumes "joining pool F z" "i < n" "pool i = Some m"
  shows "case m of Ret d \<Rightarrow> joining (pool(i := None)) (if d then insert i F else F) z
    | Throw e \<Rightarrow> False
    | Load k \<Rightarrow> joining (pool(i := Some (k z))) F z
    | Store k u \<Rightarrow> joining (pool(i := Some (k z))) F (u z)"
proof -
  obtain g warmup where g: "same i g z" "okCall F i warmup m g" by (rule joining_call_of [OF assms])
  show ?thesis
  proof (cases m)
    case (Ret d)
    then have "post F i warmup d g" using g(2) by (simp add: okCall_def)
    then have "joining (pool(i := None)) (if d then insert i F else F) z"
      by (intro joining_move [OF assms(1,2) g(1)]) (auto simp: post_def same_refl)
    then show ?thesis using Ret by simp
  next
    case (Throw e)
    then show ?thesis using g(2) by (simp add: okCall_def)
  next
    case (Load k)
    then have k: "k z = k g" "okCall F i warmup (k g) g" using g by (auto simp: okCall_def viewOf_def)
    have "joining (pool(i := Some (k z))) F z"
      by (rule joining_move [OF assms(1,2) g(1)]) (use k okCall_keeps same_refl in auto)
    then show ?thesis using Load by simp
  next
    case (Store k u)
    then have k: "k z = k g" "same i (u g) (u z)" "\<forall>j<n. j \<noteq> i \<longrightarrow> same j z (u z)" "okCall F i warmup (k g) (u g)"
      using g by (auto simp: okCall_def viewOf_def)
    have "joining (pool(i := Some (k z))) F (u z)"
      by (rule joining_move [OF assms(1,2) k(2)]) (use k okCall_keeps in auto)
    then show ?thesis using Store by simp
  qed
qed

text \<open>One event of the schedule.\<close>

lemma joining_event:
  assumes "joining pool (set fin) z"
  shows "\<exists>pool' fin' z'. joining pool' (set fin') z' \<and>
    (\<forall>rest. events run n (e # rest) pool fin z = events run n rest pool' fin' z')"
proof (cases e)
  case (Start i warmup)
  show ?thesis
  proof (cases "i < n")
    case True
    from joining_start [OF assms this] show ?thesis using Start True by (intro exI conjI) auto
  next
    case False
    then show ?thesis using Start assms by (intro exI conjI) auto
  qed
next
  case (Run i)
  show ?thesis
  proof (cases "if i < n then pool i else None")
    case None
    then show ?thesis using Run assms by (intro exI conjI) auto
  next
    case (Some m)
    then have i: "i < n" "pool i = Some m" by (auto split: if_splits)
    note run = joining_run [OF assms i]
    show ?thesis
    proof (cases m)
      case (Ret d)
      then have "joining (pool(i := None)) (set (if d then i # fin else fin)) z" using run by (cases d) simp_all
      then show ?thesis using Run i Ret by (intro exI conjI) auto
    next
      case (Throw e)
      then show ?thesis using run by simp
    next
      case (Load k)
      then have "joining (pool(i := Some (k z))) (set fin) z" using run by simp
      then show ?thesis using Run i Load by (intro exI conjI) auto
    next
      case (Store k u)
      then have "joining (pool(i := Some (k z))) (set fin) (u z)" using run by simp
      then show ?thesis using Run i Store by (intro exI conjI) auto
    qed
  qed
next
  case (Call i warmup)
  show ?thesis
  proof (cases "i < n")
    case True
    obtain d z' where d: "exec (run i warmup) z = (Inr d, z')" "joining (pool(i := None)) (if d then insert i (set fin) else set fin) z'"
      by (rule joining_call [OF assms True])
    then have "joining (pool(i := None)) (set (if d then i # fin else fin)) z'" by (cases d) simp_all
    then show ?thesis using Call True d(1) by (intro exI conjI) auto
  next
    case False
    then show ?thesis using Call assms by (intro exI conjI) auto
  qed
qed

lemma events_sound:
  assumes "joining pool (set fin) z"
  shows "\<exists>z'. inv z' \<and> (events run n sched pool fin z = (Inl Bailout, z') \<or>
           events run n sched pool fin z = (Inr (), z') \<and> (\<forall>i\<in>{..<n}. complete i z'))"
  using assms
proof (induction sched arbitrary: pool fin z)
  case Nil
  then show ?case by (auto simp: list_all_iff joining_def)
next
  case (Cons e sched)
  obtain pool' fin' z' where "joining pool' (set fin') z'" "events run n (e # sched) pool fin z = events run n sched pool' fin' z'"
    using joining_event [OF Cons.prems] by metis
  then show ?case using Cons.IH by simp
qed

lemma joining_initial: "inv z \<Longrightarrow> joining (\<lambda>_. None) {} z"
  by (simp add: joining_def)

text \<open>The last resort finishes whatever happened before.\<close>

lemma fallback_finishes:
  assumes "joining pool (set fin) z" "\<forall>i<n. i \<in> set fin \<or> i \<in> set is"
  shows "\<exists>z'. events run n (map (\<lambda>i. Call i False) is) pool fin z = (Inr (), z')"
  using assms
proof (induction "is" arbitrary: pool fin z)
  case Nil
  then show ?case by (auto simp: list_all_iff)
next
  case (Cons i "is")
  show ?case
  proof (cases "i < n")
    case True
    obtain d z' where d: "exec (run i False) z = (Inr d, z')" "joining (pool(i := None)) (if d then insert i (set fin) else set fin) z'"
      "\<not> False \<longrightarrow> d"
      by (rule joining_call [OF Cons.prems(1) True])
    then have d: "exec (run i False) z = (Inr True, z')" "joining (pool(i := None)) (set (i # fin)) z'" by simp_all
    have "\<forall>j<n. j \<in> set (i # fin) \<or> j \<in> set is" using Cons.prems(2) by auto
    from Cons.IH [OF d(2) this] show ?thesis using d(1) True by (simp add: fun_upd_def)
  next
    case False
    then show ?thesis using Cons by auto
  qed
qed

lemma events_append:
  assumes "joining pool (set fin) z"
  shows "\<exists>pool' fin' z'. joining pool' (set fin') z' \<and> events run n (sched @ rest) pool fin z = events run n rest pool' fin' z'"
  using assms
proof (induction sched arbitrary: pool fin z)
  case Nil
  then show ?case by auto
next
  case (Cons e sched)
  obtain pool' fin' z' where "joining pool' (set fin') z'"
    "events run n (e # (sched @ rest)) pool fin z = events run n (sched @ rest) pool' fin' z'"
    using joining_event [OF Cons.prems] by metis
  then show ?case using Cons.IH by simp
qed

text \<open>So a join is either still unfinished, or returns with every slice complete.\<close>

lemma join_cases:
  assumes "inv z"
  obtains z' where "exec (ForkJoin run n sched) z = (Inl Bailout, z')" "\<not> (\<exists>before. sched = before @ sequentially n)"
  | z' where "exec (ForkJoin run n sched) z = (Inr (), z')" "inv z'" "\<forall>i\<in>{..<n}. complete i z'"
proof -
  have start: "joining (\<lambda>_. None) (set []) z" using joining_initial [OF assms] by simp
  obtain z' where z': "inv z'" "events run n sched (\<lambda>_. None) [] z = (Inl Bailout, z') \<or>
      events run n sched (\<lambda>_. None) [] z = (Inr (), z') \<and> (\<forall>i\<in>{..<n}. complete i z')"
    using events_sound [OF start] by blast
  from z'(2) show ?thesis
  proof
    assume bail: "events run n sched (\<lambda>_. None) [] z = (Inl Bailout, z')"
    have "\<not> (\<exists>before. sched = before @ sequentially n)"
    proof
      assume "\<exists>before. sched = before @ sequentially n"
      then obtain before where s: "sched = before @ sequentially n" ..
      obtain pool' fin' w where w: "joining pool' (set fin') w"
        "events run n sched (\<lambda>_. None) [] z = events run n (sequentially n) pool' fin' w"
        using events_append [OF start, of before "sequentially n"] unfolding s by blast
      then show False using fallback_finishes [OF w(1), of "[0..<n]"] bail by (auto simp: sequentially_def)
    qed
    then show ?thesis using that(1) bail by (simp add: ForkJoin_def)
  next
    assume "events run n sched (\<lambda>_. None) [] z = (Inr (), z') \<and> (\<forall>i\<in>{..<n}. complete i z')"
    then show ?thesis using that(2) z'(1) by (simp add: ForkJoin_def)
  qed
qed

end

section \<open>Kernels that proceed by positions\<close>

record slices =
  info :: "nat list"

definition posOk :: "nat \<Rightarrow> 'b slices_scheme \<Rightarrow> bool" where
  "posOk i z \<longleftrightarrow> SLICE_POS i < length (info z)"

definition setPos :: "nat \<Rightarrow> nat \<Rightarrow> 'b slices_scheme \<Rightarrow> 'b slices_scheme" where
  "setPos i p z = z\<lparr>info := (info z)[SLICE_POS i := p]\<rparr>"

text \<open>
  Every slice \<open>i\<close> is at a position between \<open>lo i\<close> and \<open>hi i\<close>, and \<open>P i p\<close> holds of the memory
  when it is at \<open>p\<close>.
\<close>

definition progress ::
  "nat \<Rightarrow> (nat \<Rightarrow> nat) \<Rightarrow> (nat \<Rightarrow> nat) \<Rightarrow> (nat \<Rightarrow> nat \<Rightarrow> 'b slices_scheme \<Rightarrow> bool) \<Rightarrow> 'b slices_scheme \<Rightarrow> bool"
where
  "progress n lo hi P z \<longleftrightarrow> length (info z) = 4 * n \<and>
     (\<forall>i<n. info z ! SLICE_END i = hi i \<and> lo i \<le> info z ! SLICE_POS i \<and> info z ! SLICE_POS i \<le> hi i \<and>
            P i (info z ! SLICE_POS i) z)"

definition finishedAt :: "(nat \<Rightarrow> nat) \<Rightarrow> nat \<Rightarrow> 'b slices_scheme \<Rightarrow> bool" where
  "finishedAt hi i z \<longleftrightarrow> info z ! SLICE_POS i = hi i"

lemma slice_positions [simp]:
  "SLICE_POS i = SLICE_POS j \<longleftrightarrow> i = j" "SLICE_END i \<noteq> SLICE_POS j" "SLICE_POS j \<noteq> SLICE_END i"
  "SLICE_START i \<noteq> SLICE_POS j" "SLICE_POS j \<noteq> SLICE_START i" "SLICE_START i \<noteq> SLICE_END j"
  "SLICE_END j \<noteq> SLICE_START i" "SLICE_END i = SLICE_END j \<longleftrightarrow> i = j"
  unfolding SLICE_POS_def SLICE_END_def SLICE_START_def by (auto; presburger)+

lemma slice_in_bounds [simp]:
  "SLICE_POS i < 4 * n \<longleftrightarrow> i < n" "SLICE_END i < 4 * n \<longleftrightarrow> i < n" "SLICE_START i < 4 * n \<longleftrightarrow> i < n"
  unfolding SLICE_POS_def SLICE_END_def SLICE_START_def by auto

lemma info_setPos [simp]: "info (setPos i p z) = (info z)[SLICE_POS i := p]"
  by (simp add: setPos_def)

lemma progress_pos:
  assumes "progress n lo hi P z" "i < n"
  shows "info z ! SLICE_END i = hi i" "lo i \<le> info z ! SLICE_POS i" "info z ! SLICE_POS i \<le> hi i"
    "P i (info z ! SLICE_POS i) z" "posOk i z" "length (info z) = 4 * n"
  using assms by (auto simp: progress_def posOk_def)

lemma progress_setPos:
  assumes "progress n lo hi P z" "i < n" "lo i \<le> p" "p \<le> hi i" "P i p z"
    and "\<And>j q. P j q (setPos i p z) = P j q z"
  shows "progress n lo hi P (setPos i p z)"
  using assms unfolding progress_def by (auto simp: nth_list_update)

text \<open>
  What a slice can see: its entries of the table of positions, and what \<open>own\<close> relates.
\<close>

definition sameSlice :: "(nat \<Rightarrow> 'b slices_scheme \<Rightarrow> 'b slices_scheme \<Rightarrow> bool) \<Rightarrow> nat \<Rightarrow> 'b slices_scheme \<Rightarrow> 'b slices_scheme \<Rightarrow> bool" where
  "sameSlice own i z w \<longleftrightarrow> length (info z) = length (info w) \<and> info z ! SLICE_START i = info w ! SLICE_START i \<and>
     info z ! SLICE_END i = info w ! SLICE_END i \<and> info z ! SLICE_POS i = info w ! SLICE_POS i \<and> own i z w"

lemma sameSlice_equiv: "equivp (own i) \<Longrightarrow> equivp (sameSlice own i)"
  unfolding equivp_reflp_symp_transp
  by (auto simp: sameSlice_def intro!: reflpI sympI transpI dest: reflpD sympD transpD)

lemma sameSlice_facts:
  assumes "sameSlice own i z w"
  shows "info w ! SLICE_START i = info z ! SLICE_START i" "info w ! SLICE_END i = info z ! SLICE_END i"
    "info w ! SLICE_POS i = info z ! SLICE_POS i" "length (info w) = length (info z)" "own i z w"
  using assms by (simp_all add: sameSlice_def)

lemma progress_same:
  assumes "i < n" "progress n lo hi P z" "progress n lo hi P g" "sameSlice own i g w"
    and "\<And>j. j < n \<Longrightarrow> j \<noteq> i \<Longrightarrow> sameSlice own j z w"
    and "\<And>j p z w. j < n \<Longrightarrow> lo j \<le> p \<Longrightarrow> p \<le> hi j \<Longrightarrow> own j z w \<Longrightarrow> P j p z \<Longrightarrow> P j p w"
  shows "progress n lo hi P w"
  unfolding progress_def
proof (intro conjI allI impI)
  have "length (info g) = 4 * n" using assms(3) by (simp add: progress_def)
  then show "length (info w) = 4 * n" using sameSlice_facts(4) [OF assms(4)] by simp
  fix j assume j: "j < n"
  have "\<exists>x. sameSlice own j x w \<and> progress n lo hi P x" using assms(2-5) j by metis
  then obtain x where x: "sameSlice own j x w" "progress n lo hi P x" by blast
  note f = sameSlice_facts [OF x(1)] and p = progress_pos [OF x(2) j]
  show "info w ! SLICE_END j = hi j" "lo j \<le> info w ! SLICE_POS j" "info w ! SLICE_POS j \<le> hi j"
    using f(2,3) p(1-3) by simp_all
  show "P j (info w ! SLICE_POS j) w" using assms(6) [OF j p(2,3) f(5) p(4)] f(3) by simp
qed

text \<open>A store that moves slice \<open>i\<close>, or leaves it where it is, acts locally when what it does besides is local.\<close>

lemma sameSlice_other:
  assumes "i \<noteq> j" "info w = (info z)[SLICE_POS i := p]" "own j z w"
  shows "sameSlice own j z w"
  using assms by (auto simp: sameSlice_def nth_list_update)

lemma finishedAt_same: "sameSlice own i z w \<Longrightarrow> finishedAt hi i z \<Longrightarrow> finishedAt hi i w"
  by (simp add: finishedAt_def sameSlice_def)

lemma viewOf_slice:
  assumes "fst (viewOf (sameSlice own) n i) z w"
  shows "own i z w" "posOk i w \<longleftrightarrow> posOk i z" "info w ! SLICE_POS i = info z ! SLICE_POS i"
    "info w ! SLICE_START i = info z ! SLICE_START i" "info w ! SLICE_END i = info z ! SLICE_END i"
  using assms by (simp_all add: viewOf_def sameSlice_def posOk_def)

lemma viewOf_move:
  assumes "fst (viewOf (sameSlice own) n i) z w" "\<And>x. info (upd x) = (info x)[SLICE_POS i := p]"
    and "own i z w \<Longrightarrow> own i (upd z) (upd w)" "\<And>j. j < n \<Longrightarrow> j \<noteq> i \<Longrightarrow> own j w (upd w)"
  shows "fst (viewOf (sameSlice own) n i) (upd z) (upd w) \<and> snd (viewOf (sameSlice own) n i) w (upd w)"
proof -
  have a: "sameSlice own i z w" using assms(1) by (simp add: viewOf_def)
  have "sameSlice own i (upd z) (upd w)"
    using a assms(2,3)
    by (cases "SLICE_POS i < length (info z)") (auto simp: sameSlice_def nth_list_update list_update_beyond not_less)
  moreover have "sameSlice own j w (upd w)" if "j < n" "j \<noteq> i" for j
    using sameSlice_other [of i j "upd w" w p own] that assms(2,4) by auto
  ultimately show ?thesis by (simp add: viewOf_def)
qed

lemma viewOf_stay:
  assumes "fst (viewOf (sameSlice own) n i) z w" "\<And>x. info (upd x) = info x"
    and "own i z w \<Longrightarrow> own i (upd z) (upd w)" "\<And>j. j < n \<Longrightarrow> j \<noteq> i \<Longrightarrow> own j w (upd w)"
  shows "fst (viewOf (sameSlice own) n i) (upd z) (upd w) \<and> snd (viewOf (sameSlice own) n i) w (upd w)"
  using assms by (simp add: viewOf_def sameSlice_def)

text \<open>A slice's range of an array, the others being outside of it.\<close>

definition sameRange :: "nat \<Rightarrow> nat \<Rightarrow> 'v list \<Rightarrow> 'v list \<Rightarrow> bool" where
  "sameRange a b xs ys \<longleftrightarrow> length xs = length ys \<and> (\<forall>k. a \<le> k \<and> k < b \<longrightarrow> xs ! k = ys ! k)"

lemma sameRange_equivp: "equivp (\<lambda>z w. sameRange a b (f z) (f w))"
  unfolding equivp_reflp_symp_transp
  by (auto simp: sameRange_def intro!: reflpI sympI transpI)

lemma sameRange_refl [simp]: "sameRange a b xs xs"
  by (simp add: sameRange_def)

lemma sameRange_length: "sameRange a b xs ys \<Longrightarrow> length ys = length xs"
  by (simp add: sameRange_def)

lemma sameRange_nth: "sameRange a b xs ys \<Longrightarrow> a \<le> k \<Longrightarrow> k < b \<Longrightarrow> ys ! k = xs ! k"
  by (simp add: sameRange_def)

lemma sameRange_update: "sameRange a b xs ys \<Longrightarrow> sameRange a b (xs[k := v]) (ys[k := v])"
  by (cases "k < length xs") (auto simp: sameRange_def nth_list_update list_update_beyond not_less)

lemma sameRange_outside: "k < a \<or> b \<le> k \<Longrightarrow> sameRange a b xs (xs[k := v])"
  by (auto simp: sameRange_def nth_list_update)

lemma equivp_eq: "equivp (\<lambda>z w. f z = f w)"
  unfolding equivp_reflp_symp_transp by (auto intro!: reflpI sympI transpI)

lemma equivp_conj: "equivp R \<Longrightarrow> equivp S \<Longrightarrow> equivp (\<lambda>z w. R z w \<and> S z w)"
  unfolding equivp_def by metis

text \<open>
  One step of a slice at position \<open>c\<close>: it moves to \<open>c + 1\<close>, or is abandoned before that store.
\<close>

locale stepwise =
  fixes n :: nat and lo hi :: "nat \<Rightarrow> nat" and P :: "nat \<Rightarrow> nat \<Rightarrow> 'b slices_scheme \<Rightarrow> bool"
    and step :: "nat \<Rightarrow> nat \<Rightarrow> ('b slices_scheme, unit) pjs" and own :: "nat \<Rightarrow> 'b slices_scheme \<Rightarrow> 'b slices_scheme \<Rightarrow> bool"
  assumes own_equiv: "i < n \<Longrightarrow> equivp (own i)"
    and own_P: "i < n \<Longrightarrow> lo i \<le> p \<Longrightarrow> p \<le> hi i \<Longrightarrow> own i z z' \<Longrightarrow> P i p z \<Longrightarrow> P i p z'"
    and step_safe: "i < n \<Longrightarrow> lo i \<le> c \<Longrightarrow> c < hi i \<Longrightarrow> w ! SLICE_POS i = c \<Longrightarrow>
      safe (viewOf (sameSlice own) n i) (\<lambda>z. progress n lo hi P z \<and> info z = w) (step i c)
        (\<lambda>_ z. progress n lo hi P z \<and> info z = w[SLICE_POS i := c + 1])
        (\<lambda>z. progress n lo hi P z \<and> info z = w)"
begin

definition kept :: "nat set \<Rightarrow> 'b slices_scheme \<Rightarrow> bool" where
  "kept D z \<longleftrightarrow> progress n lo hi P z \<and> (\<forall>j\<in>D. finishedAt hi j z)"

lemma kept_step:
  assumes "i < n" "lo i \<le> c" "c < hi i"
  shows "safe (viewOf (sameSlice own) n i) (\<lambda>z. kept D z \<and> info z ! SLICE_POS i = c) (step i c)
           (\<lambda>_ z. kept D z \<and> info z ! SLICE_POS i = c + 1) (kept D)"
  unfolding safe_def
proof (intro allI impI)
  fix z :: "'b slices_scheme"
  assume z: "kept D z \<and> info z ! SLICE_POS i = c"
  let ?w = "info z"
  have pre: "progress n lo hi P z \<and> info z = ?w" "?w ! SLICE_POS i = c"
    and D: "\<forall>j\<in>D. finishedAt hi j z"
    using z by (auto simp: kept_def)
  have "i \<notin> D" using D pre(2) assms(3) by (auto simp: finishedAt_def)
  then have D': "\<forall>j\<in>D. finishedAt hi j z'" if "info z' = ?w \<or> info z' = ?w[SLICE_POS i := c + 1]" for z'
    using that D by (metis finishedAt_def nth_list_update_neq slice_positions(1))
  have len: "SLICE_POS i < length ?w" using pre assms(1) by (simp add: progress_pos)
  have "okRun (viewOf (sameSlice own) n i) (\<lambda>_ z. progress n lo hi P z \<and> info z = ?w[SLICE_POS i := c + 1])
      (\<lambda>z. progress n lo hi P z \<and> info z = ?w) (step i c) z"
    using step_safe [OF assms pre(2)] pre(1) unfolding safe_def by blast
  then show "okRun (viewOf (sameSlice own) n i) (\<lambda>_ z. kept D z \<and> info z ! SLICE_POS i = c + 1) (kept D) (step i c) z"
    by (rule okRun_weaken) (use D' len in \<open>auto simp: kept_def\<close>)
qed

lemma steps_safe:
  assumes "i < n" "lo i \<le> a" "a \<le> b" "b \<le> hi i"
  shows "safe (viewOf (sameSlice own) n i) (\<lambda>z. kept D z \<and> info z ! SLICE_POS i = a)
           (loopP [a..<b] () (\<lambda>c _. step i c))
           (\<lambda>_ z. kept D z \<and> info z ! SLICE_POS i = b) (kept D)"
  using assms by (intro safe_loop [where I = "\<lambda>p _ z. kept D z \<and> info z ! SLICE_POS i = p"] kept_step) auto

text \<open>The common shape of a kernel: from its position to the end, or a little further in a warm-up.\<close>

lemma steps_kernel:
  assumes "i < n"
    and stop: "\<And>p e. p \<le> e \<Longrightarrow> p \<le> stop p e \<and> stop p e \<le> e" "\<And>p e. \<not> warmup \<Longrightarrow> stop p e = e"
  shows "safe (viewOf (sameSlice own) n i) (\<lambda>z. progress n lo hi P z \<and> (\<forall>j\<in>D. finishedAt hi j z))
     (bindP (load (\<lambda>z. info z ! SLICE_POS i)) (\<lambda>pos.
      bindP (load (\<lambda>z. info z ! SLICE_END i)) (\<lambda>end.
      bindP (loopP [pos..<stop pos end] () (\<lambda>c _. step i c)) (\<lambda>_.
      bindP (load (\<lambda>z. info z ! SLICE_END i)) (\<lambda>end'. Ret (stop pos end = end'))))))
     (\<lambda>done z. (progress n lo hi P z \<and> (\<forall>j\<in>D. finishedAt hi j z)) \<and> (done \<longrightarrow> finishedAt hi i z) \<and>
        (\<not> warmup \<longrightarrow> done))
     (\<lambda>z. progress n lo hi P z \<and> (\<forall>j\<in>D. finishedAt hi j z))"
proof -
  have read: "info z' ! SLICE_POS i = info z ! SLICE_POS i" "info z' ! SLICE_END i = info z ! SLICE_END i"
    if "fst (viewOf (sameSlice own) n i) z z'" for z z'
    using that by (simp_all add: viewOf_def sameSlice_def)
  have "safe (viewOf (sameSlice own) n i) (kept D)
     (bindP (load (\<lambda>z. info z ! SLICE_POS i)) (\<lambda>pos.
      bindP (load (\<lambda>z. info z ! SLICE_END i)) (\<lambda>end.
      bindP (loopP [pos..<stop pos end] () (\<lambda>c _. step i c)) (\<lambda>_.
      bindP (load (\<lambda>z. info z ! SLICE_END i)) (\<lambda>end'. Ret (stop pos end = end'))))))
     (\<lambda>done z. kept D z \<and> (done \<longrightarrow> finishedAt hi i z) \<and> (\<not> warmup \<longrightarrow> done)) (kept D)"
    (is "safe _ _ _ ?Q _")
  proof (rule safe_bind [OF safe_load [OF read(1)]], assumption, rule safe_bind [OF safe_load [OF read(2)]], assumption)
    fix pos "end"
    show "safe (viewOf (sameSlice own) n i) (\<lambda>z. (kept D z \<and> pos = info z ! SLICE_POS i) \<and> end = info z ! SLICE_END i)
        (bindP (loopP [pos..<stop pos end] () (\<lambda>c _. step i c)) (\<lambda>_.
          bindP (load (\<lambda>z. info z ! SLICE_END i)) (\<lambda>end'. Ret (stop pos end = end')))) ?Q (kept D)"
    proof (rule safe_pre [where c = "lo i \<le> pos \<and> pos \<le> end \<and> end = hi i"])
      assume b: "lo i \<le> pos \<and> pos \<le> end \<and> end = hi i"
      with stop(1) [of pos "end"] have c: "pos \<le> stop pos end" "stop pos end \<le> hi i" by auto
      show "safe (viewOf (sameSlice own) n i) (\<lambda>z. (kept D z \<and> pos = info z ! SLICE_POS i) \<and> end = info z ! SLICE_END i)
        (bindP (loopP [pos..<stop pos end] () (\<lambda>c _. step i c)) (\<lambda>_.
          bindP (load (\<lambda>z. info z ! SLICE_END i)) (\<lambda>end'. Ret (stop pos end = end')))) ?Q (kept D)"
        using b c stop(2) assms(1)
        by (intro safe_bind [OF safe_weaken [OF steps_safe [of i pos "stop pos end" D]]]
              safe_bind [OF safe_load [OF read(2)]] safe_ret)
          (auto simp: kept_def progress_pos finishedAt_def)
    qed (use assms(1) in \<open>auto simp: kept_def progress_pos\<close>)
  qed
  then show ?thesis by (rule safe_weaken) (auto simp: kept_def)
qed

lemma own_facts:
  "i < n \<Longrightarrow> equivp (sameSlice own i)"
  "i < n \<Longrightarrow> sameSlice own i z w \<Longrightarrow> finishedAt hi i z \<Longrightarrow> finishedAt hi i w"
  "i < n \<Longrightarrow> progress n lo hi P z \<Longrightarrow> progress n lo hi P g \<Longrightarrow> sameSlice own i g w \<Longrightarrow>
    (\<And>j. j < n \<Longrightarrow> j \<noteq> i \<Longrightarrow> sameSlice own j z w) \<Longrightarrow> progress n lo hi P w"
proof -
  show "i < n \<Longrightarrow> equivp (sameSlice own i)" using own_equiv by (rule sameSlice_equiv)
  show "i < n \<Longrightarrow> sameSlice own i z w \<Longrightarrow> finishedAt hi i z \<Longrightarrow> finishedAt hi i w" by (rule finishedAt_same)
  show "i < n \<Longrightarrow> progress n lo hi P z \<Longrightarrow> progress n lo hi P g \<Longrightarrow> sameSlice own i g w \<Longrightarrow>
    (\<And>j. j < n \<Longrightarrow> j \<noteq> i \<Longrightarrow> sameSlice own j z w) \<Longrightarrow> progress n lo hi P w"
    by (rule progress_same [where own = own]) (assumption+, rule own_P)
qed

end

end
