(* ===== verification/Parallel_Array.thy ===== *)
theory Parallel_Array
  imports Parallel_Fork
begin

text \<open>
  The \<open>ParallelArray\<close> object of \<open>builtin/ParallelArray.js\<close>: a buffer, an offset into it and a
  shape; the accessors, the views they build, partition and flatten, printing, the modes of
  execution and the constructor from an array.

  Coordinates are integers, and a missing trailing coordinate is an undefined argument (an
  explicit \<open>undefined\<close> before another coordinate is not modelled). Elements are of any type.
\<close>

section \<open>The object\<close>

datatype getter = Get1 | Get2 | Get3 | GetN

record 'v parray =
  pa_shape :: "nat list"
  pa_buffer :: "'v option list"
  pa_offset :: int
  pa_get :: getter

text \<open>What an accessor returns: undefined, an element, or a view of the remaining dimensions.\<close>

datatype 'v pval = PUndefined | PElem 'v | PView "'v parray"

definition bufferAt :: "'v option list \<Rightarrow> int \<Rightarrow> 'v pval" where
  "bufferAt b k = (if 0 \<le> k \<and> k < int (length b)
                   then (case b ! nat k of Some v \<Rightarrow> PElem v | None \<Rightarrow> PUndefined) else PUndefined)"

definition ParallelArrayConstructEmpty :: "'v parray" where
  "ParallelArrayConstructEmpty = \<lparr>pa_shape = [0], pa_buffer = [], pa_offset = 0, pa_get = Get1\<rparr>"

definition ParallelArrayView :: "nat list \<Rightarrow> 'v option list \<Rightarrow> int \<Rightarrow> 'v parray" where
  "ParallelArrayView shape buffer offset =
     \<lparr>pa_shape = shape, pa_buffer = buffer, pa_offset = offset,
      pa_get = (case length shape of Suc 0 \<Rightarrow> Get1 | Suc (Suc 0) \<Rightarrow> Get2 | Suc (Suc (Suc 0)) \<Rightarrow> Get3
                | _ \<Rightarrow> GetN)\<rparr>"

section \<open>Accessors\<close>

definition ParallelArrayGet1 :: "'v parray \<Rightarrow> int option \<Rightarrow> 'v pval" where
  "ParallelArrayGet1 this i = (case i of
       None \<Rightarrow> PUndefined
     | Some i \<Rightarrow> bufferAt (pa_buffer this) (pa_offset this + i))"

definition ParallelArrayGet2 :: "'v parray \<Rightarrow> int option \<Rightarrow> int option \<Rightarrow> 'v pval" where
  "ParallelArrayGet2 this x y =
     (let xDimension = int (pa_shape this ! 0); yDimension = int (pa_shape this ! 1) in
      case x of None \<Rightarrow> PUndefined | Some x \<Rightarrow>
      if x \<ge> xDimension then PUndefined
      else case y of
        None \<Rightarrow> PView (ParallelArrayView [nat yDimension] (pa_buffer this) (pa_offset this + x * yDimension))
      | Some y \<Rightarrow>
        if y \<ge> yDimension then PUndefined
        else (let offset = y + x * yDimension in bufferAt (pa_buffer this) (pa_offset this + offset)))"

definition ParallelArrayGet3 :: "'v parray \<Rightarrow> int option \<Rightarrow> int option \<Rightarrow> int option \<Rightarrow> 'v pval" where
  "ParallelArrayGet3 this x y z =
     (let xDimension = int (pa_shape this ! 0); yDimension = int (pa_shape this ! 1);
          zDimension = int (pa_shape this ! 2) in
      case x of None \<Rightarrow> PUndefined | Some x \<Rightarrow>
      if x \<ge> xDimension then PUndefined
      else case y of
        None \<Rightarrow> PView (ParallelArrayView [nat yDimension, nat zDimension] (pa_buffer this)
                  (pa_offset this + x * yDimension * zDimension))
      | Some y \<Rightarrow>
        if y \<ge> yDimension then PUndefined
        else case z of
          None \<Rightarrow> PView (ParallelArrayView [nat zDimension] (pa_buffer this)
                    (pa_offset this + y * zDimension + x * yDimension * zDimension))
        | Some z \<Rightarrow>
          if z \<ge> zDimension then PUndefined
          else (let offset = z + y * zDimension + x * yDimension * zDimension
                in bufferAt (pa_buffer this) (pa_offset this + offset)))"

text \<open>
  The loop of the general accessor: the offset, or none when a coordinate is out of its
  dimension. A coordinate beyond the shape makes the offset not a number, which reads undefined.
\<close>

fun getOffset :: "nat list \<Rightarrow> nat list \<Rightarrow> nat \<Rightarrow> int list \<Rightarrow> int \<Rightarrow> int option" where
  "getOffset shape products i [] offset = Some offset"
| "getOffset shape products i (c # cs) offset =
     (if \<not> i < length shape \<or> c \<ge> int (shape ! i) then None
      else getOffset shape products (i + 1) cs (offset + c * int (products ! (length shape - i - 1))))"

definition ParallelArrayGetN :: "'v parray \<Rightarrow> int list \<Rightarrow> 'v pval" where
  "ParallelArrayGetN this coords =
     (if coords = [] then PUndefined
      else (case getOffset (pa_shape this) (ComputeProducts (pa_shape this)) 0 coords (pa_offset this) of
              None \<Rightarrow> PUndefined
            | Some offset \<Rightarrow>
                if length coords < length (pa_shape this)
                then PView (ParallelArrayView (drop (length coords) (pa_shape this)) (pa_buffer this) offset)
                else bufferAt (pa_buffer this) offset))"

text \<open>The method call \<open>pa.get(...)\<close>.\<close>

definition argAt :: "int list \<Rightarrow> nat \<Rightarrow> int option" where
  "argAt xs i = (if i < length xs then Some (xs ! i) else None)"

definition callGet :: "'v parray \<Rightarrow> int list \<Rightarrow> 'v pval" where
  "callGet pa cs = (case pa_get pa of
       Get1 \<Rightarrow> ParallelArrayGet1 pa (argAt cs 0)
     | Get2 \<Rightarrow> ParallelArrayGet2 pa (argAt cs 0) (argAt cs 1)
     | Get3 \<Rightarrow> ParallelArrayGet3 pa (argAt cs 0) (argAt cs 1) (argAt cs 2)
     | GetN \<Rightarrow> ParallelArrayGetN pa cs)"

section \<open>Reshaping and printing\<close>

text \<open>\<open>length\<close> is undefined for the empty shape.\<close>

definition ParallelArrayLength :: "'v parray \<Rightarrow> nat option" where
  "ParallelArrayLength this = (case pa_shape this of [] \<Rightarrow> None | d # _ \<Rightarrow> Some d)"

definition ParallelArrayPartition :: "'v parray \<Rightarrow> int \<Rightarrow> jserr + 'v parray" where
  "ParallelArrayPartition this amount =
     (if amount < 0 \<or> 2 ^ 32 \<le> amount then Inl (JSMSG ''JSMSG_PAR_ARRAY_BAD_ARG'')
      else let length = pa_shape this ! 0; partitions = toInt32 (length div nat amount)
           in if partitions * nat amount \<noteq> length then Inl (JSMSG ''JSMSG_PAR_ARRAY_BAD_PARTITION'')
              else Inr (ParallelArrayView ([partitions, nat amount] @ drop 1 (pa_shape this))
                          (pa_buffer this) (pa_offset this)))"

definition ParallelArrayFlatten :: "'v parray \<Rightarrow> jserr + 'v parray" where
  "ParallelArrayFlatten this =
     (if length (pa_shape this) < 2 then Inl (JSMSG ''JSMSG_PAR_ARRAY_ALREADY_FLAT'')
      else Inr (ParallelArrayView ([pa_shape this ! 0 * pa_shape this ! 1] @ drop 2 (pa_shape this))
                  (pa_buffer this) (pa_offset this)))"

text \<open>
  \<open>String(v)\<close> of an element is an argument; that of a view is the printing of the view, whose
  shape is shorter.
\<close>

function ParallelArrayToString :: "('v \<Rightarrow> string) \<Rightarrow> 'v parray \<Rightarrow> string" where
  "ParallelArrayToString show this =
     (case ParallelArrayLength this of None \<Rightarrow> ''undefined''
      | Some l \<Rightarrow>
        if l = 0 then ''''
        else let open = (if length (pa_shape this) > 1 then ''<'' else '''');
                 close = (if length (pa_shape this) > 1 then ''>'' else '''');
                 str = (\<lambda>v. case v of PUndefined \<Rightarrow> ''undefined'' | PElem e \<Rightarrow> show e
                          | PView pa \<Rightarrow> if length (pa_shape pa) < length (pa_shape this)
                                       then ParallelArrayToString show pa else '''')
             in concat (map (\<lambda>i. open @ str (callGet this [int i]) @ close @ '','') [0..<l - 1]) @
                open @ str (callGet this [int (l - 1)]) @ close)"
  by pat_completeness auto
termination
  by (relation "measure (\<lambda>(show, this). length (pa_shape this))") auto

declare ParallelArrayToString.simps [simp del]

section \<open>Modes\<close>

record exec_mode =
  m_mode :: "string option"
  m_strategy :: "string option"

text \<open>An absent mode is undefined; an empty mode string is falsy.\<close>

definition TRY_PARALLEL :: "exec_mode option \<Rightarrow> bool" where
  "TRY_PARALLEL mode = (case mode of None \<Rightarrow> True | Some m \<Rightarrow> m_mode m \<noteq> Some ''seq'')"

definition AssertSequentialIsOK :: "bool \<Rightarrow> exec_mode option \<Rightarrow> ('z, unit) pjs" where
  "AssertSequentialIsOK parallelTestsShouldPass mode = (case mode of
       None \<Rightarrow> Ret ()
     | Some m \<Rightarrow> (case m_mode m of
         None \<Rightarrow> Ret ()
       | Some t \<Rightarrow> if t \<noteq> '''' \<and> t \<noteq> ''seq'' \<and> parallelTestsShouldPass
                  then Throw (JSMSG ''JSMSG_WRONG_VALUE'') else Ret ()))"

definition ASSERT_SEQUENTIAL_IS_OK :: "bool \<Rightarrow> exec_mode option \<Rightarrow> ('z, unit) pjs" where
  "ASSERT_SEQUENTIAL_IS_OK parallelTestsShouldPass mode =
     (if mode \<noteq> None then AssertSequentialIsOK parallelTestsShouldPass mode else Ret ())"

definition ForkJoinMode :: "exec_mode option \<Rightarrow> ('z, nat) pjs" where
  "ForkJoinMode mode = (case mode of
       None \<Rightarrow> Ret 0
     | Some m \<Rightarrow> (case m_mode m of
         None \<Rightarrow> Ret 0
       | Some t \<Rightarrow> if t = '''' then Ret 0
                  else if t = ''compile'' then Ret 1
                  else if t = ''par'' then Ret 2
                  else if t = ''recover'' then Ret 3
                  else if t = ''bailout'' then Ret 4
                  else Throw (JSMSG ''JSMSG_PAR_ARRAY_BAD_ARG'')))"

text \<open>
  The engine around an operation: \<open>ShouldForceSequential()\<close>, \<open>ForkJoinSlices()\<close>,
  \<open>ParallelTestsShouldPass()\<close>, and the schedules of the ForkJoin calls the operation makes.
\<close>

record engine =
  forceSequential :: bool
  numSlices :: nat
  testsShouldPass :: bool
  schedules :: "fork_event list list"

section \<open>Construction from an array\<close>

text \<open>An array-like argument: its \<open>length\<close>, and the elements at the indices below it.\<close>

definition elementAt :: "jsval \<Rightarrow> nat \<Rightarrow> jsval" where
  "elementAt v i = (case v of
       JArr xs \<Rightarrow> if i < length xs then xs ! i else JUndef
     | JStr s \<Rightarrow> if i < length s then JStr [s ! i] else JUndef
     | _ \<Rightarrow> fld v (show_nat i))"

definition ParallelArrayConstructFromArray :: "jsval \<Rightarrow> ('s, jsval parray) jsm" where
  "ParallelArrayConstructFromArray buffer =
     bindM (getp buffer ''length'') (\<lambda>len. case len of
         JNum n \<Rightarrow> if 0 \<le> n \<and> n < 2 ^ 32
                  then ret \<lparr>pa_shape = [nat n], pa_buffer = map (\<lambda>i. Some (elementAt buffer i)) [0..<nat n],
                            pa_offset = 0, pa_get = Get1\<rparr>
                  else throw (JSMSG ''JSMSG_PAR_ARRAY_BAD_ARG'')
       | _ \<Rightarrow> throw (JSMSG ''JSMSG_PAR_ARRAY_BAD_ARG''))"

section \<open>Facts: accessors\<close>

fun inPrefix :: "nat list \<Rightarrow> nat list \<Rightarrow> bool" where
  "inPrefix ds [] \<longleftrightarrow> True"
| "inPrefix (d # ds) (x # xs) \<longleftrightarrow> x < d \<and> inPrefix ds xs"
| "inPrefix [] (x # xs) \<longleftrightarrow> False"

lemma inPrefix_length: "inPrefix ds xs \<Longrightarrow> length xs \<le> length ds"
  by (induction ds xs rule: inPrefix.induct) auto

lemma flat_append:
  "inPrefix ds (xs @ ys) \<Longrightarrow> flat ds (xs @ ys) = flat ds xs + flat (drop (length xs) ds) ys"
  by (induction ds xs rule: inPrefix.induct) auto

lemma inPrefix_append:
  "inPrefix ds (xs @ ys) \<longleftrightarrow> inPrefix ds xs \<and> inPrefix (drop (length xs) ds) ys"
  by (induction ds xs rule: inPrefix.induct) auto

lemma getOffset_flat:
  assumes "shape = pre @ suf" "inPrefix suf cs"
  shows "getOffset shape (ComputeProducts shape) (length pre) (map int cs) offset = Some (offset + int (flat suf cs))"
  using assms
proof (induction suf cs arbitrary: pre offset rule: inPrefix.induct)
  case (2 d ds x xs)
  have at: "shape ! length pre = d" "length pre < length shape" "drop (Suc (length pre)) shape = ds"
    using 2(2) by auto
  have "ComputeProducts shape ! (length shape - length pre - 1) = prod_list ds"
    using ComputeProducts_nth [OF at(2)] at(3) by simp
  then show ?case
    using 2(1) [of "pre @ [d]" "offset + int x * int (prod_list ds)"] 2(2,3) at by simp
qed auto

lemma argAt_simps [simp]:
  "argAt (x # xs) 0 = Some x" "argAt (x # xs) (Suc i) = argAt xs i" "argAt [] i = None"
  by (auto simp: argAt_def)

lemma shape_cases:
  obtains "shape = []" | a where "shape = [a]" | a b where "shape = [a, b]"
    | a b c where "shape = [a, b, c]" | a b c d ds where "shape = a # b # c # d # ds"
  by (cases shape rule: list.exhaust; metis list.exhaust)

text \<open>All four accessors read at the same offset.\<close>

lemma callGet_view:
  assumes "cs \<noteq> []" "inPrefix shape cs"
  shows "callGet (ParallelArrayView shape buffer offset) (map int cs) =
    (if length cs < length shape
     then PView (ParallelArrayView (drop (length cs) shape) buffer (offset + int (flat shape cs)))
     else bufferAt buffer (offset + int (flat shape cs)))"
proof -
  obtain x xs where cs: "cs = x # xs" using assms(1) by (cases cs) auto
  show ?thesis
  proof (cases shape rule: shape_cases)
    case 1
    then show ?thesis using assms cs by simp
  next
    case (2 a)
    then have "xs = []" using assms(2) cs by (cases xs) auto
    then show ?thesis
      using 2 cs assms(2) by (simp add: callGet_def ParallelArrayView_def ParallelArrayGet1_def)
  next
    case (3 a b)
    then have "xs = [] \<or> (\<exists>y. xs = [y])" using inPrefix_length [OF assms(2)] cs by (cases xs) auto
    then show ?thesis
      using 3 cs assms(2)
      by (auto simp: callGet_def ParallelArrayView_def ParallelArrayGet2_def Let_def algebra_simps)
  next
    case (4 a b c)
    then have "xs = [] \<or> (\<exists>y. xs = [y]) \<or> (\<exists>y z. xs = [y, z])"
      using inPrefix_length [OF assms(2)] cs by (cases xs rule: shape_cases) auto
    then show ?thesis
      using 4 cs assms(2)
      by (auto simp: callGet_def ParallelArrayView_def ParallelArrayGet3_def Let_def numeral_2_eq_2
            algebra_simps)
  next
    case (5 a b c d ds)
    have "getOffset shape (ComputeProducts shape) 0 (map int cs) offset = Some (offset + int (flat shape cs))"
      using getOffset_flat [of shape "[]" shape cs offset] assms(2) by simp
    then show ?thesis
      using 5 cs by (simp add: callGet_def ParallelArrayView_def ParallelArrayGetN_def)
  qed
qed

lemma inShape_inPrefix: "inShape ds xs \<longleftrightarrow> inPrefix ds xs \<and> length xs = length ds"
  by (induction ds xs rule: inShape.induct) auto

lemma pa_fields_view [simp]:
  "pa_shape (ParallelArrayView shape buffer offset) = shape"
  "pa_buffer (ParallelArrayView shape buffer offset) = buffer"
  "pa_offset (ParallelArrayView shape buffer offset) = offset"
  by (simp_all add: ParallelArrayView_def)

text \<open>Partition, with the divisor spelled out.\<close>

lemma partition_Inr:
  assumes "ParallelArrayPartition pa amount = Inr q" "pa_shape pa = n # ds" "n < 2 ^ 31"
  obtains k where "amount = int k" "n = n div k * k"
    "q = ParallelArrayView (n div k # k # ds) (pa_buffer pa) (pa_offset pa)"
proof -
  have k: "amount = int (nat amount)"
    using assms(1) by (simp add: ParallelArrayPartition_def split: if_splits)
  have "n div nat amount < 2 ^ 31" using assms(3) by (metis div_le_dividend le_less_trans)
  then have "toInt32 (n div nat amount) = n div nat amount" by (rule toInt32_id)
  then show ?thesis
    using assms that [OF k] by (simp add: ParallelArrayPartition_def Let_def split: if_splits)
qed

section \<open>Properties\<close>

text \<open>
  C34: Reading in two steps is reading in one: when the leading coordinates of an element select a
  view, the view read at the remaining coordinates gives what the array gives at all of them,
  for every number of dimensions, so whichever of the four accessors the array and its view use.
\<close>

theorem get_of_view:
  assumes "inPrefix shape (cs @ ds)" "cs \<noteq> []" "ds \<noteq> []"
    and "callGet (ParallelArrayView shape buffer offset) (map int cs) = PView row"
  shows "callGet row (map int ds) = callGet (ParallelArrayView shape buffer offset) (map int (cs @ ds))"
proof -
  let ?shape = "drop (length cs) shape" and ?offset = "offset + int (flat shape cs)"
  have pre: "inPrefix shape cs" "inPrefix ?shape ds" using assms(1) by (auto simp: inPrefix_append)
  have "row = ParallelArrayView ?shape buffer ?offset"
    using assms(4) callGet_view [OF assms(2) pre(1), of buffer offset]
    by (simp add: bufferAt_def split: if_splits option.splits)
  moreover have "length cs + length ds \<le> length shape" using inPrefix_length [OF assms(1)] by simp
  ultimately show ?thesis
    using callGet_view [OF assms(3) pre(2), of buffer ?offset] assms(2)
      callGet_view [of "cs @ ds" shape buffer offset] flat_append [OF assms(1)] assms(1)
    by (simp add: add.assoc add.commute [of "length ds"] less_diff_conv)
qed

lemma get_of_view_witness:
  "callGet (ParallelArrayView [3] (map Some [10, 11, 12, 20, 21, 22 :: nat]) 3) (map int [2]) =
   callGet (ParallelArrayView [2, 3] (map Some [10, 11, 12, 20, 21, 22]) 0) (map int ([1] @ [2]))"
  by (rule get_of_view) (simp_all add: callGet_def ParallelArrayView_def ParallelArrayGet2_def Let_def)

text \<open>
  C35: Flattening a partition gives the array back, and the partition's element \<open>(i, j)\<close> is the
  array's element \<open>i * amount + j\<close>, whatever the remaining coordinates.
\<close>

theorem partition_roundtrip:
  assumes "n < 2 ^ 31"
    and "ParallelArrayPartition (ParallelArrayView (n # ds) buffer offset) amount = Inr q"
  shows "ParallelArrayFlatten q = Inr (ParallelArrayView (n # ds) buffer offset) \<and>
    (\<forall>i j cs. i < n div nat amount \<longrightarrow> j < nat amount \<longrightarrow> inPrefix ds cs \<longrightarrow>
      callGet q (map int (i # j # cs)) =
      callGet (ParallelArrayView (n # ds) buffer offset) (map int ((i * nat amount + j) # cs)))"
proof -
  obtain k where k: "amount = int k" "n = n div k * k"
    "q = ParallelArrayView (n div k # k # ds) buffer offset"
    using partition_Inr [OF assms(2) _ assms(1), of ds] by auto
  have "callGet q (map int (i # j # cs)) =
      callGet (ParallelArrayView (n # ds) buffer offset) (map int ((i * k + j) # cs))"
    if "i < n div k" "j < k" "inPrefix ds cs" for i j cs
  proof -
    have "i * k + j < (i + 1) * k" using that by simp
    also have "\<dots> \<le> n div k * k" using that by (intro mult_le_mono1) simp
    finally have "i * k + j < n" using k(2) by simp
    then show ?thesis
      using that callGet_view [of "i # j # cs" "n div k # k # ds" buffer offset]
        callGet_view [of "(i * k + j) # cs" "n # ds" buffer offset] k(3)
      by (simp add: algebra_simps)
  qed
  moreover have "ParallelArrayFlatten q = Inr (ParallelArrayView (n # ds) buffer offset)"
    using k(2,3) by (simp add: ParallelArrayFlatten_def)
  ultimately show ?thesis using k(1) by simp
qed

lemma partition_roundtrip_witness:
  "ParallelArrayFlatten (ParallelArrayView [3, 2] (map Some [1 :: nat, 2, 3, 4, 5, 6]) 0) =
   Inr (ParallelArrayView [6] (map Some [1, 2, 3, 4, 5, 6]) 0)"
  using partition_roundtrip [of 6 "[]" "map Some [1 :: nat, 2, 3, 4, 5, 6]" 0 2]
  by (simp add: ParallelArrayPartition_def Let_def toInt32_id)

text \<open>
  A one-dimensional view does not check its bound: the row of a matrix read past its last
  element gives the elements of the next row.
\<close>

theorem row_reads_next_row:
  assumes "i + 1 < a" "j < b"
  shows "callGet (ParallelArrayView [a, b] buffer offset) [int i] =
           PView (ParallelArrayView [b] buffer (offset + int (i * b))) \<and>
         callGet (ParallelArrayView [b] buffer (offset + int (i * b))) [int (b + j)] =
           callGet (ParallelArrayView [a, b] buffer offset) [int (i + 1), int j]"
  using callGet_view [of "[i]" "[a, b]" buffer offset] callGet_view [of "[i + 1, j]" "[a, b]" buffer offset]
    assms
  by (simp add: callGet_def ParallelArrayView_def ParallelArrayGet1_def algebra_simps)

lemma row_reads_next_row_witness:
  "callGet (ParallelArrayView [3] (map Some [10, 11, 12, 20, 21, 22 :: nat]) 0) [3] = PElem 20"
  using row_reads_next_row [of 0 2 0 3 "map Some [10, 11, 12, 20, 21, 22 :: nat]" 0]
  by (simp add: callGet_def ParallelArrayView_def ParallelArrayGet2_def bufferAt_def Let_def)

end
