(* ===== verification/Parallel_Map.thy ===== *)
theory Parallel_Map
  imports Parallel_Array
begin

text \<open>
  \<open>ParallelArrayBuild\<close> and \<open>ParallelArrayMap\<close> of \<open>builtin/ParallelArray.js\<close>: kernels that fill a
  buffer chunk by chunk. The user function is an argument, and so is the engine around the
  operation with the schedules of its ForkJoin calls. Both results are the same for every
  interleaving of the slices' operations, and the same as those of the sequential fallback: a slice stores only
  in its own range of the buffer and in its own entry of the table of positions.
\<close>

section \<open>Memory with a buffer\<close>

record 'w buf_mem = slices +
  buffer :: "'w option list"

definition NewDenseArray :: "nat \<Rightarrow> 'w option list" where
  "NewDenseArray n = replicate n None"

definition storeAt :: "nat \<Rightarrow> 'w \<Rightarrow> 'w buf_mem \<Rightarrow> 'w buf_mem" where
  "storeAt i v z = z\<lparr>buffer := (buffer z)[i := Some v]\<rparr>"

definition storeBuffer :: "nat \<Rightarrow> 'w \<Rightarrow> ('w buf_mem, unit) pjs" where
  "storeBuffer i v = UnsafeSetElement (\<lambda>z. i < length (buffer z)) (storeAt i v)"

text \<open>An operation from fresh memory: its value, or the exception it ends in.\<close>

definition runOp :: "('z, 'a) pjs \<Rightarrow> 'z \<Rightarrow> jserr + 'a" where
  "runOp m z = fst (exec m z)"

definition scheduleAt :: "engine \<Rightarrow> nat \<Rightarrow> fork_event list" where
  "scheduleAt e k = (if k < length (schedules e) then schedules e ! k else [])"

section \<open>Map\<close>

definition mapRange :: "(nat \<Rightarrow> 'w) \<Rightarrow> nat \<Rightarrow> nat \<Rightarrow> ('w buf_mem, unit) pjs" where
  "mapRange func indexStart indexEnd =
     loopP [indexStart..<indexEnd] () (\<lambda>i _. bindP (callFunc (func i)) (\<lambda>v. storeBuffer i v))"

definition fillChunk ::
  "nat \<Rightarrow> (nat \<Rightarrow> nat \<Rightarrow> ('w buf_mem, unit) pjs) \<Rightarrow> nat \<Rightarrow> nat \<Rightarrow> ('w buf_mem, unit) pjs" where
  "fillChunk len compute sliceId chunkPos =
     (let indexStart = shl5 chunkPos; indexEnd = min (indexStart + CHUNK_SIZE) len
      in bindP (compute indexStart indexEnd)
           (\<lambda>_. UnsafeSetElement (posOk sliceId) (setPos sliceId (chunkPos + 1))))"

definition mapSlice :: "nat \<Rightarrow> (nat \<Rightarrow> 'w) \<Rightarrow> 'w buf_mem kernel" where
  "mapSlice len func sliceId warmup =
     bindP (load (\<lambda>z. info z ! SLICE_POS sliceId)) (\<lambda>chunkPos.
     bindP (load (\<lambda>z. info z ! SLICE_END sliceId)) (\<lambda>chunkEnd.
     let chunkEnd = (if warmup \<and> chunkEnd > chunkPos + 1 then chunkPos + 1 else chunkEnd) in
     bindP (loopP [chunkPos..<chunkEnd] () (\<lambda>chunk _. fillChunk len (mapRange func) sliceId chunk)) (\<lambda>_.
     bindP (load (\<lambda>z. info z ! SLICE_END sliceId)) (\<lambda>sliceEnd. Ret (chunkEnd = sliceEnd)))))"

definition ParallelArrayMap ::
  "engine \<Rightarrow> ('v pval \<Rightarrow> nat \<Rightarrow> 'w) \<Rightarrow> exec_mode option \<Rightarrow> 'v parray \<Rightarrow> jserr + 'w parray" where
  "ParallelArrayMap e func mode self =
     (let length = pa_shape self ! 0;
          call = (\<lambda>i. func (callGet self [int i]) i);
          result = (\<lambda>_. bindP (load buffer) (\<lambda>b. Ret (ParallelArrayView [length] b 0)))
      in if \<not> forceSequential e \<and> TRY_PARALLEL mode
         then let chunks = ComputeNumChunks length; numSlices = numSlices e;
                  info = ComputeAllSliceBounds chunks numSlices
              in runOp (bindP (ForkJoinMode mode) (\<lambda>_.
                        bindP (ForkJoin (mapSlice length call) numSlices (scheduleAt e 0)) result))
                   \<lparr>info = info, buffer = NewDenseArray length\<rparr>
         else runOp (bindP (ASSERT_SEQUENTIAL_IS_OK (testsShouldPass e) mode) (\<lambda>_.
                     bindP (mapRange call 0 length) result))
                \<lparr>info = [], buffer = NewDenseArray length\<rparr>)"

section \<open>Build\<close>

definition fill1 :: "(nat list \<Rightarrow> 'w) \<Rightarrow> nat \<Rightarrow> nat \<Rightarrow> ('w buf_mem, unit) pjs" where
  "fill1 func indexStart indexEnd =
     loopP [indexStart..<indexEnd] () (\<lambda>i _. bindP (callFunc (func [i])) (\<lambda>v. storeBuffer i v))"

definition fill2 :: "nat \<Rightarrow> (nat list \<Rightarrow> 'w) \<Rightarrow> nat \<Rightarrow> nat \<Rightarrow> ('w buf_mem, unit) pjs" where
  "fill2 yDimension func indexStart indexEnd =
     (let x = toInt32 (indexStart div yDimension); y = indexStart - x * yDimension
      in bindP (loopP [indexStart..<indexEnd] (x, y) (\<lambda>i (x, y).
           bindP (callFunc (func [x, y])) (\<lambda>v.
           bindP (storeBuffer i v) (\<lambda>_.
           Ret (if y + 1 = yDimension then (x + 1, 0) else (x, y + 1)))))) (\<lambda>_. Ret ()))"

definition fill3 :: "nat \<Rightarrow> nat \<Rightarrow> (nat list \<Rightarrow> 'w) \<Rightarrow> nat \<Rightarrow> nat \<Rightarrow> ('w buf_mem, unit) pjs" where
  "fill3 yDimension zDimension func indexStart indexEnd =
     (let x = toInt32 (indexStart div (yDimension * zDimension));
          r = indexStart - x * yDimension * zDimension;
          y = toInt32 (r div zDimension);
          z = r - y * zDimension
      in bindP (loopP [indexStart..<indexEnd] (x, y, z) (\<lambda>i (x, y, z).
           bindP (callFunc (func [x, y, z])) (\<lambda>v.
           bindP (storeBuffer i v) (\<lambda>_.
           Ret (if z + 1 = zDimension
                then if y + 1 = yDimension then (x + 1, 0, 0) else (x, y + 1, 0)
                else (x, y, z + 1)))))) (\<lambda>_. Ret ()))"

definition fillN :: "nat list \<Rightarrow> (nat list \<Rightarrow> 'w) \<Rightarrow> nat \<Rightarrow> nat \<Rightarrow> ('w buf_mem, unit) pjs" where
  "fillN shape func indexStart indexEnd =
     bindP (loopP [indexStart..<indexEnd] (ComputeIndices shape indexStart) (\<lambda>i indices.
       bindP (callFunc (func indices)) (\<lambda>v.
       bindP (storeBuffer i v) (\<lambda>_. Ret (StepIndices shape indices))))) (\<lambda>_. Ret ())"

definition constructSlice ::
  "nat \<Rightarrow> (nat \<Rightarrow> nat \<Rightarrow> ('w buf_mem, unit) pjs) \<Rightarrow> 'w buf_mem kernel" where
  "constructSlice len computefunc sliceId warmup =
     bindP (load (\<lambda>z. info z ! SLICE_POS sliceId)) (\<lambda>chunkPos.
     bindP (load (\<lambda>z. info z ! SLICE_END sliceId)) (\<lambda>chunkEnd.
     let chunkEnd = (if warmup \<and> chunkEnd > chunkPos then chunkPos + 1 else chunkEnd) in
     bindP (loopP [chunkPos..<chunkEnd] () (\<lambda>chunk _. fillChunk len computefunc sliceId chunk)) (\<lambda>_.
     bindP (load (\<lambda>z. info z ! SLICE_END sliceId)) (\<lambda>sliceEnd. Ret (chunkEnd = sliceEnd)))))"

definition computefuncOf :: "nat list \<Rightarrow> (nat list \<Rightarrow> 'w) \<Rightarrow> nat \<Rightarrow> nat \<Rightarrow> ('w buf_mem, unit) pjs" where
  "computefuncOf shape func = (case shape of
       [_] \<Rightarrow> fill1 func
     | [_, yDimension] \<Rightarrow> fill2 yDimension func
     | [_, yDimension, zDimension] \<Rightarrow> fill3 yDimension zDimension func
     | _ \<Rightarrow> fillN shape func)"

text \<open>The length is the product of the shape, and arrays of other dimensions are not parallel.\<close>

definition ParallelArrayBuild ::
  "engine \<Rightarrow> nat list \<Rightarrow> (nat list \<Rightarrow> 'w) \<Rightarrow> exec_mode option \<Rightarrow> jserr + 'w parray" where
  "ParallelArrayBuild e shape func mode =
     (let length = fold (\<lambda>d len. len * d) shape 1;
          computefunc = computefuncOf shape func;
          result = (\<lambda>_. bindP (load buffer) (\<lambda>b. Ret (ParallelArrayView shape b 0)))
      in if \<not> forceSequential e \<and> TRY_PARALLEL mode \<and> size shape \<in> {1, 2, 3}
         then let chunks = ComputeNumChunks length; numSlices = numSlices e;
                  info = ComputeAllSliceBounds chunks numSlices
              in runOp (bindP (ForkJoinMode mode) (\<lambda>_.
                        bindP (ForkJoin (constructSlice length computefunc) numSlices (scheduleAt e 0)) result))
                   \<lparr>info = info, buffer = NewDenseArray length\<rparr>
         else runOp (bindP (ASSERT_SEQUENTIAL_IS_OK (testsShouldPass e) mode) (\<lambda>_.
                     bindP (computefunc 0 length) result))
                \<lparr>info = [], buffer = NewDenseArray length\<rparr>)"

text \<open>The constructor's argument is a length or a vector of dimensions.\<close>

definition toUint32 :: "jsval \<Rightarrow> nat option" where
  "toUint32 v = (case v of JNum n \<Rightarrow> if 0 \<le> n \<and> n < 2 ^ 32 then Some (nat n) else None | _ \<Rightarrow> None)"

definition ParallelArrayConstructFromComprehension ::
  "engine \<Rightarrow> jsval \<Rightarrow> (nat list \<Rightarrow> 'w) \<Rightarrow> exec_mode option \<Rightarrow> jserr + 'w parray" where
  "ParallelArrayConstructFromComprehension e shape func mode = (case shape of
       JNum _ \<Rightarrow> (case toUint32 shape of
           None \<Rightarrow> Inl (JSMSG ''JSMSG_PAR_ARRAY_BAD_ARG'')
         | Some len \<Rightarrow> ParallelArrayBuild e [len] func mode)
     | _ \<Rightarrow>
       if \<not> js_truthy shape then Inl (JSMSG ''JSMSG_PAR_ARRAY_BAD_ARG'')
       else (case fld shape ''length'' of
           JNum l \<Rightarrow> (let shape1 = map (\<lambda>i. toUint32 (elementAt shape i)) [0..<nat l]
                     in if None \<in> set shape1 then Inl (JSMSG ''JSMSG_PAR_ARRAY_BAD_ARG'')
                        else ParallelArrayBuild e (map the shape1) func mode)
         | _ \<Rightarrow> Inl (JSMSG ''JSMSG_PAR_ARRAY_BAD_ARG'')))"

definition ParallelArrayConstructFromFunction :: "engine \<Rightarrow> jsval \<Rightarrow> (nat list \<Rightarrow> 'w) \<Rightarrow> jserr + 'w parray" where
  "ParallelArrayConstructFromFunction e shape func =
     ParallelArrayConstructFromComprehension e shape func None"

definition ParallelArrayConstructFromFunctionMode ::
  "engine \<Rightarrow> jsval \<Rightarrow> (nat list \<Rightarrow> 'w) \<Rightarrow> exec_mode option \<Rightarrow> jserr + 'w parray" where
  "ParallelArrayConstructFromFunctionMode e shape func mode =
     ParallelArrayConstructFromComprehension e shape func mode"

section \<open>Functions that fill a range\<close>

text \<open>
  The contract of a compute function: on a range within the buffer it stores the value \<open>f k\<close> at
  every index \<open>k\<close>. Whatever is kept by storing such values is kept at every point where it may be
  abandoned. A store in the range must be one that the slice's view allows.
\<close>

definition storable :: "'w buf_mem view \<Rightarrow> nat \<Rightarrow> nat \<Rightarrow> bool" where
  "storable V a b \<longleftrightarrow> (\<forall>z z' k v. a \<le> k \<longrightarrow> k < b \<longrightarrow> fst V z z' \<longrightarrow> length (buffer z') = length (buffer z) \<and>
     fst V (storeAt k v z) (storeAt k v z') \<and> snd V z' (storeAt k v z'))"

lemma storable_alone [simp]: "storable alone a b"
  by (simp add: storable_def alone_def)

lemma storableD:
  assumes "storable V a b" "a \<le> k" "k < b" "fst V z z'"
  shows "length (buffer z') = length (buffer z)" "fst V (storeAt k v z) (storeAt k v z')" "snd V z' (storeAt k v z')"
  using assms unfolding storable_def by blast+

locale filling =
  fixes len :: nat and f :: "nat \<Rightarrow> 'w" and compute :: "nat \<Rightarrow> nat \<Rightarrow> ('w buf_mem, unit) pjs"
  assumes fills: "a \<le> b \<Longrightarrow> b \<le> len \<Longrightarrow> len < 2 ^ 28 \<Longrightarrow> storable V a b \<Longrightarrow>
      (\<And>z. J z \<Longrightarrow> length (buffer z) = len) \<Longrightarrow> (\<And>z k. J z \<Longrightarrow> k < len \<Longrightarrow> J (storeAt k (f k) z)) \<Longrightarrow>
      safe V J (compute a b) (\<lambda>_ z. J z \<and> (\<forall>k. a \<le> k \<and> k < b \<longrightarrow> buffer z ! k = Some (f k))) J"

definition chunkLo :: "nat \<Rightarrow> nat \<Rightarrow> nat \<Rightarrow> nat" where
  "chunkLo len s i = slice_lo (ComputeNumChunks len) s i"

definition chunkHi :: "nat \<Rightarrow> nat \<Rightarrow> nat \<Rightarrow> nat" where
  "chunkHi len s i = slice_hi (ComputeNumChunks len) s i"

text \<open>The part of the memory that belongs to a slice: its bounds and its range of the buffer.\<close>

definition ownChunks :: "nat \<Rightarrow> nat \<Rightarrow> nat \<Rightarrow> 'w buf_mem \<Rightarrow> 'w buf_mem \<Rightarrow> bool" where
  "ownChunks len s i z w \<longleftrightarrow> info z ! SLICE_START i = info w ! SLICE_START i \<and>
     sameRange (32 * chunkLo len s i) (32 * chunkHi len s i) (buffer z) (buffer w)"

abbreviation chunkView :: "nat \<Rightarrow> nat \<Rightarrow> nat \<Rightarrow> 'w buf_mem view" where
  "chunkView len s \<equiv> viewOf (sameSlice (ownChunks len s)) s"

text \<open>A slice at chunk \<open>p\<close> has filled its chunks below \<open>p\<close>.\<close>

definition filled :: "nat \<Rightarrow> nat \<Rightarrow> (nat \<Rightarrow> 'w) \<Rightarrow> nat \<Rightarrow> nat \<Rightarrow> 'w buf_mem \<Rightarrow> bool" where
  "filled len s f i p z \<longleftrightarrow> len < 2 ^ 28 \<and> length (buffer z) = len \<and>
     (\<forall>k. 32 * chunkLo len s i \<le> k \<longrightarrow> k < 32 * p \<longrightarrow> k < len \<longrightarrow> buffer z ! k = Some (f k))"

abbreviation fillInv :: "nat \<Rightarrow> nat \<Rightarrow> (nat \<Rightarrow> 'w) \<Rightarrow> 'w buf_mem \<Rightarrow> bool" where
  "fillInv len s f \<equiv> progress s (chunkLo len s) (chunkHi len s) (filled len s f)"

lemma info_storeAt [simp]: "info (storeAt k v z) = info z"
  by (simp add: storeAt_def)

lemma buffer_storeAt [simp]: "buffer (storeAt k v z) = (buffer z)[k := Some v]"
  by (simp add: storeAt_def)

lemma buffer_setPos [simp]: "buffer (setPos i p z) = buffer z"
  by (simp add: setPos_def)

lemma filled_setPos [simp]: "filled len s f i p (setPos j q z) = filled len s f i p z"
  by (simp add: filled_def)

lemma fillInv_storeAt: "fillInv len s f z \<Longrightarrow> k < len \<Longrightarrow> fillInv len s f (storeAt k (f k) z)"
  by (auto simp: progress_def filled_def nth_list_update)

lemma fillInv_length: "fillInv len s f z \<Longrightarrow> i < s \<Longrightarrow> length (buffer z) = len \<and> len < 2 ^ 28"
  by (auto dest!: progress_pos(4) simp: filled_def)

lemma chunks_28: "len < 2 ^ 28 \<Longrightarrow> ComputeNumChunks len \<le> 2 ^ 23"
  by (simp add: ComputeNumChunks_eq)

lemma chunk_start:
  assumes "len < 2 ^ 28" "i < s" "c < chunkHi len s i"
  shows "shl5 c = 32 * c" "32 * c < len"
proof -
  have "c < ComputeNumChunks len"
    using assms slice_hi_le [of i s "ComputeNumChunks len"] by (simp add: chunkHi_def)
  then show "shl5 c = 32 * c" using chunks_28 [OF assms(1)] by (intro shl5_eq) simp
  show "32 * c < len" using \<open>c < ComputeNumChunks len\<close> assms(1) by (simp add: ComputeNumChunks_eq)
qed

lemma storeAt_own: "ownChunks len s i z w \<Longrightarrow> ownChunks len s i (storeAt k v z) (storeAt k v w)"
  by (simp add: ownChunks_def sameRange_update)

lemma setPos_own [simp]: "ownChunks len s i (setPos j p z) w = ownChunks len s i z w"
  "ownChunks len s i z (setPos j p w) = ownChunks len s i z w"
  by (simp_all add: ownChunks_def)

lemma ownChunks_refl [simp]: "ownChunks len s i z z"
  by (simp add: ownChunks_def)

lemma chunks_disjoint:
  assumes "i < s" "j < s" "i \<noteq> j"
  shows "chunkHi len s i \<le> chunkLo len s j \<or> chunkHi len s j \<le> chunkLo len s i"
  using slices_ordered assms unfolding chunkLo_def chunkHi_def by (cases "i < j") auto

lemma storeAt_other:
  assumes "i < s" "j < s" "j \<noteq> i" "32 * chunkLo len s i \<le> k" "k < 32 * chunkHi len s i"
  shows "ownChunks len s j z (storeAt k v z)"
  using chunks_disjoint [OF assms(1,2), of len] assms(3-5)
  by (auto simp: ownChunks_def intro!: sameRange_outside)

lemma chunkView_setPos:
  assumes "fst (chunkView len s i) z w" "posOk i z"
  shows "posOk i w \<and> fst (chunkView len s i) (setPos i p z) (setPos i p w) \<and> snd (chunkView len s i) w (setPos i p w)"
  using viewOf_slice(2) [OF assms(1)] viewOf_move [OF assms(1), of "setPos i p" p] assms(2) by simp

lemma chunk_storable:
  assumes "i < s" "32 * chunkLo len s i \<le> a" "b \<le> 32 * chunkHi len s i"
  shows "storable (chunkView len s i) a b"
  unfolding storable_def
proof (intro allI impI conjI)
  fix z z' :: "'w buf_mem" and k v
  assume k: "a \<le> k" "k < b" and z: "fst (chunkView len s i) z z'"
  show "length (buffer z') = length (buffer z)"
    using viewOf_slice(1) [OF z] by (auto simp: ownChunks_def dest: sameRange_length)
  have "fst (chunkView len s i) (storeAt k v z) (storeAt k v z') \<and> snd (chunkView len s i) z' (storeAt k v z')"
    using assms k by (intro viewOf_stay [OF z] storeAt_own storeAt_other [of i]) auto
  then show "fst (chunkView len s i) (storeAt k v z) (storeAt k v z')" "snd (chunkView len s i) z' (storeAt k v z')" by auto
qed

context filling
begin

lemma chunk_step:
  assumes i: "i < s" "chunkLo len s i \<le> c" "c < chunkHi len s i" "w ! SLICE_POS i = c"
  shows "safe (chunkView len s i) (\<lambda>z. fillInv len s f z \<and> info z = w) (fillChunk len compute i c)
      (\<lambda>_ z. fillInv len s f z \<and> info z = w[SLICE_POS i := c + 1])
      (\<lambda>z. fillInv len s f z \<and> info z = w)"
proof (rule safe_pre [where c = "len < 2 ^ 28"])
  assume small: "len < 2 ^ 28"
  let ?I = "\<lambda>z. fillInv len s f z \<and> info z = w" and ?V = "chunkView len s i"
  let ?a = "32 * c" and ?b = "min (32 * c + 32) len"
  note start = chunk_start [OF small i(1,3)]
  have "storable ?V ?a ?b" using i by (intro chunk_storable) auto
  then have "safe ?V ?I (compute ?a ?b) (\<lambda>_ z. ?I z \<and> (\<forall>k. ?a \<le> k \<and> k < ?b \<longrightarrow> buffer z ! k = Some (f k))) ?I"
    using start small i(1) by (intro fills) (auto simp: fillInv_storeAt dest: fillInv_length)
  note body = this
  have "safe ?V ?I (bindP (compute ?a ?b)
       (\<lambda>_. UnsafeSetElement (posOk i) (setPos i (c + 1))))
      (\<lambda>_ z. fillInv len s f z \<and> info z = w[SLICE_POS i := c + 1]) ?I"
  proof (rule safe_bind [OF body safe_set])
    fix z assume z: "?I z \<and> (\<forall>k. ?a \<le> k \<and> k < ?b \<longrightarrow> buffer z ! k = Some (f k))"
    then have "filled len s f i c z" using progress_pos(4) [of s _ _ _ z i] i by auto
    moreover have "buffer z ! k = Some (f k)" if "?a \<le> k" "k < 32 * (c + 1)" "k < len" for k
      using z that by auto
    ultimately have "filled len s f i (c + 1) z" by (auto simp: filled_def not_less)
    then have "fillInv len s f (setPos i (c + 1) z)"
      using z i by (intro progress_setPos) auto
    then show "posOk i z \<and> (fillInv len s f (setPos i (c + 1) z) \<and> info (setPos i (c + 1) z) = w[SLICE_POS i := c + 1]) \<and> ?I z"
      using z i progress_pos(5) by auto
  next
    fix z z' assume z: "?I z \<and> (\<forall>k. ?a \<le> k \<and> k < ?b \<longrightarrow> buffer z ! k = Some (f k))" "fst ?V z z'"
    then show "posOk i z' \<and> fst ?V (setPos i (c + 1) z) (setPos i (c + 1) z') \<and> snd ?V z' (setPos i (c + 1) z')"
      using i(1) progress_pos(5) by (intro chunkView_setPos) blast+
  qed
  then show "safe ?V ?I (fillChunk len compute i c)
      (\<lambda>_ z. fillInv len s f z \<and> info z = w[SLICE_POS i := c + 1]) ?I"
    using start by (simp add: fillChunk_def CHUNK_SIZE_def Let_def)
qed (use i(1) in \<open>auto dest: fillInv_length\<close>)

end

lemma ownChunks_equivp: "equivp (ownChunks len s i)"
  unfolding ownChunks_def [abs_def] by (intro equivp_conj equivp_eq sameRange_equivp [where f = buffer])

lemma ownChunks_filled:
  assumes "ownChunks len s i z w" "p \<le> chunkHi len s i" "filled len s f i p z"
  shows "filled len s f i p w"
  using assms by (auto simp: ownChunks_def filled_def dest: sameRange_length sameRange_nth)

sublocale filling \<subseteq> chunks: stepwise s "chunkLo len s" "chunkHi len s" "filled len s f" "fillChunk len compute" "ownChunks len s"
  for s
  by unfold_locales (rule ownChunks_equivp, erule (1) ownChunks_filled [rotated 1], assumption, rule chunk_step)

text \<open>When every slice is at its end the buffer is full.\<close>

lemma filled_complete:
  assumes "fillInv len s f z" "\<forall>i < s. finishedAt (chunkHi len s) i z" "0 < s"
  shows "buffer z = map (Some \<circ> f) [0..<len]"
proof (rule nth_equalityI)
  have len: "len < 2 ^ 28" "length (buffer z) = len"
    using progress_pos(4) [OF assms(1,3)] by (auto simp: filled_def)
  then show "length (buffer z) = length (map (Some \<circ> f) [0..<len])" by simp
  fix k assume "k < length (buffer z)"
  then have k: "k < len" using len by simp
  then have "k div 32 < ComputeNumChunks len" using len by (simp add: ComputeNumChunks_eq)
  then obtain i where i: "i < s" "chunkLo len s i \<le> k div 32" "k div 32 < chunkHi len s i"
    using slices_cover [of "k div 32" "ComputeNumChunks len" s] assms(3)
    by (auto simp: chunkLo_def chunkHi_def)
  then have "filled len s f i (chunkHi len s i) z"
    using progress_pos(4) [OF assms(1) i(1)] assms(2) by (auto simp: finishedAt_def)
  moreover have "32 * chunkLo len s i \<le> k" "k < 32 * chunkHi len s i" 
    using i(2,3) by (simp_all add: less_eq_div_iff_mult_less_eq div_less_iff_less_mult mult.commute)
  ultimately show "buffer z ! k = map (Some \<circ> f) [0..<len] ! k" using k by (simp add: filled_def)
qed

lemma fillInv_init:
  assumes "len < 2 ^ 28"
  shows "fillInv len s f \<lparr>info = ComputeAllSliceBounds (ComputeNumChunks len) s, buffer = NewDenseArray len\<rparr>"
proof -
  have "ComputeNumChunks len < 2 ^ 31" using chunks_28 [OF assms] by simp
  note slice_info [OF this]
  then show ?thesis
    using assms by (auto simp: progress_def filled_def chunkLo_def chunkHi_def NewDenseArray_def slice_lo_hi)
qed

section \<open>The code's compute functions fill\<close>

text \<open>A loop that stores the value of its variables at every index, given what they are at it.\<close>

lemma storing_loop:
  assumes "a \<le> b" "b \<le> len" "storable V a b"
    and J: "\<And>z. J z \<Longrightarrow> length (buffer z) = len" "\<And>z k. J z \<Longrightarrow> k < len \<Longrightarrow> J (storeAt k (f k) z)"
    and val: "\<And>k. a \<le> k \<Longrightarrow> k < b \<Longrightarrow> val k (at k) = f k"
    and nxt: "\<And>k. a \<le> k \<Longrightarrow> k + 1 < b \<Longrightarrow> nxt (at k) = at (k + 1)"
    and start: "a < b \<Longrightarrow> x = at a"
  shows "safe V J (bindP (loopP [a..<b] x (\<lambda>i x. bindP (callFunc (val i x)) (\<lambda>v.
                   bindP (storeBuffer i v) (\<lambda>_. Ret (nxt x))))) (\<lambda>_. Ret ()))
           (\<lambda>_ z. J z \<and> (\<forall>k. a \<le> k \<and> k < b \<longrightarrow> buffer z ! k = Some (f k))) J"
proof -
  let ?done = "\<lambda>i z. J z \<and> (\<forall>k. a \<le> k \<and> k < i \<longrightarrow> buffer z ! k = Some (f k))"
  have body: "safe V (\<lambda>z. ?done k z \<and> (k < b \<longrightarrow> x = at k))
      (bindP (callFunc (val k x)) (\<lambda>v. bindP (storeBuffer k v) (\<lambda>_. Ret (nxt x))))
      (\<lambda>y z. ?done (k + 1) z \<and> (k + 1 < b \<longrightarrow> y = at (k + 1))) J" if "a \<le> k" "k < b" for k x
  proof (rule safe_bind [OF safe_callFunc])
    fix v
    have "safe V (\<lambda>z. (?done k z \<and> (k < b \<longrightarrow> x = at k)) \<and> v = val k x) (storeBuffer k v)
        (\<lambda>_ z. ?done (k + 1) z \<and> x = at k) J"
      unfolding storeBuffer_def
    proof (rule safe_set)
      fix z z' assume z: "(?done k z \<and> (k < b \<longrightarrow> x = at k)) \<and> v = val k x" "fst V z z'"
      show "k < length (buffer z') \<and> fst V (storeAt k v z) (storeAt k v z') \<and> snd V z' (storeAt k v z')"
        using storableD [OF assms(3) that z(2)] z(1) J(1) that assms(2) by auto
    qed (use that assms(2) J val in \<open>auto simp: nth_list_update less_Suc_eq\<close>)
    then show "safe V (\<lambda>z. (?done k z \<and> (k < b \<longrightarrow> x = at k)) \<and> v = val k x)
        (bindP (storeBuffer k v) (\<lambda>_. Ret (nxt x)))
        (\<lambda>y z. ?done (k + 1) z \<and> (k + 1 < b \<longrightarrow> y = at (k + 1))) J"
      by (rule safe_bind [OF _ safe_ret]) (use nxt that in auto)
  qed
  have "safe V (\<lambda>z. ?done a z \<and> (a < b \<longrightarrow> x = at a))
     (loopP [a..<b] x (\<lambda>i x. bindP (callFunc (val i x)) (\<lambda>v. bindP (storeBuffer i v) (\<lambda>_. Ret (nxt x)))))
     (\<lambda>y z. ?done b z \<and> (b < b \<longrightarrow> y = at b)) J"
    using body assms(1) by (rule safe_loop [where I = "\<lambda>k x z. ?done k z \<and> (k < b \<longrightarrow> x = at k)"])
  then show ?thesis
    by (rule safe_bind [OF safe_weaken safe_ret]) (use start in auto)
qed

lemma unit_bind: "bindP m (\<lambda>_. Ret ()) = (m :: ('z, unit) pjs)"
  by (induction m) (auto simp: fun_eq_iff)

interpretation map_range: filling len func "mapRange func" for len func
  unfolding mapRange_def
  by unfold_locales
    (rule storing_loop [where at = "\<lambda>_. ()" and nxt = "\<lambda>_. ()" and val = "\<lambda>i _. func i" and x = "()",
       unfolded unit_bind], auto)

interpretation fill_1: filling len "\<lambda>k. func [k]" "fill1 func" for len func
  unfolding fill1_def
  by unfold_locales
    (rule storing_loop [where at = "\<lambda>_. ()" and nxt = "\<lambda>_. ()" and val = "\<lambda>i _. func [i]" and x = "()",
       unfolded unit_bind], auto)

text \<open>The two- and three-dimensional loops carry the quotients and remainders of the index.\<close>

lemma index_28: "a < b \<Longrightarrow> b \<le> len \<Longrightarrow> len < 2 ^ 28 \<Longrightarrow> toInt32 (a div d) = a div d"
  using le_less_trans [OF div_le_dividend [of a d], of "2 ^ 31"] by (simp add: toInt32_id)

lemma divmod_next:
  fixes k d :: nat
  shows "(if k mod d + 1 = d then (k div d + 1, 0) else (k div d, k mod d + 1)) = ((k + 1) div d, (k + 1) mod d)"
  unfolding Suc_eq_plus1 [symmetric] by (auto simp: div_Suc mod_Suc)

interpretation fill_2: filling len "\<lambda>k. func [k div yDim, k mod yDim]" "fill2 yDim func" for len yDim func
proof
  fix a b :: nat and V :: "'a buf_mem view" and J :: "'a buf_mem \<Rightarrow> bool"
  assume ab: "a \<le> b" "b \<le> len" "len < 2 ^ 28" "storable V a b" and J: "\<And>z. J z \<Longrightarrow> length (buffer z) = len"
    "\<And>z k. J z \<Longrightarrow> k < len \<Longrightarrow> J (storeAt k (func [k div yDim, k mod yDim]) z)"
  show "safe V J (fill2 yDim func a b)
     (\<lambda>_ z. J z \<and> (\<forall>k. a \<le> k \<and> k < b \<longrightarrow> buffer z ! k = Some (func [k div yDim, k mod yDim]))) J"
    unfolding fill2_def Let_def case_prod_beta
    by (rule storing_loop [OF ab(1,2,4), where J = J and f = "\<lambda>k. func [k div yDim, k mod yDim]" and at = "\<lambda>k. (k div yDim, k mod yDim)"
            and nxt = "\<lambda>p. if snd p + 1 = yDim then (fst p + 1, 0) else (fst p, snd p + 1)"
            and val = "\<lambda>i p. func [fst p, snd p]"])
      (use ab J in \<open>auto simp: index_28 minus_div_mult_eq_mod div_Suc mod_Suc\<close>)
qed

definition at3 :: "nat \<Rightarrow> nat \<Rightarrow> nat \<Rightarrow> nat \<times> nat \<times> nat" where
  "at3 yDim zDim k =
     (let r = k mod (yDim * zDim) in (k div (yDim * zDim), r div zDim, r mod zDim))"

lemma at3_next:
  "(case at3 yDim zDim k of (x, y, z) \<Rightarrow>
     if z + 1 = zDim then if y + 1 = yDim then (x + 1, 0, 0) else (x, y + 1, 0) else (x, y, z + 1))
   = at3 yDim zDim (k + 1)"
proof -
  define r where "r = k mod (yDim * zDim)"
  have q: "r div zDim + 1 = yDim \<and> r mod zDim + 1 = zDim \<longleftrightarrow> r + 1 = yDim * zDim"
  proof
    assume "r div zDim + 1 = yDim \<and> r mod zDim + 1 = zDim"
    then have "yDim * zDim = r div zDim * zDim + (r mod zDim + 1)" by (metis add_mult_distrib mult_1)
    then show "r + 1 = yDim * zDim" by simp
  next
    assume r: "r + 1 = yDim * zDim"
    then obtain y' z' where s: "yDim = Suc y'" "zDim = Suc z'" by (cases yDim; cases zDim) auto
    with r have "r = y' * Suc z' + z'" by simp
    moreover have "(y' * Suc z' + z') div Suc z' = y'" "(y' * Suc z' + z') mod Suc z' = z'"
      by (simp_all del: mult_Suc_right)
    ultimately show "r div zDim + 1 = yDim \<and> r mod zDim + 1 = zDim" using s by simp
  qed
  show ?thesis
  proof (cases "r + 1 = yDim * zDim")
    case True
    then show ?thesis using q by (simp add: at3_def r_def Let_def div_Suc mod_Suc)
  next
    case False
    then have "(k + 1) mod (yDim * zDim) = r + 1" "(k + 1) div (yDim * zDim) = k div (yDim * zDim)"
      by (auto simp: r_def mod_Suc div_Suc)
    then show ?thesis using q False divmod_next [of r zDim]
      by (auto simp: at3_def Let_def simp flip: r_def split: if_splits)
  qed
qed

interpretation fill_3: filling len "\<lambda>k. func (case at3 yDim zDim k of (x, y, z) \<Rightarrow> [x, y, z])" "fill3 yDim zDim func"
  for len yDim zDim func
proof
  fix a b :: nat and V :: "'a buf_mem view" and J :: "'a buf_mem \<Rightarrow> bool"
  let ?f = "\<lambda>k. func (case at3 yDim zDim k of (x, y, z) \<Rightarrow> [x, y, z])"
  assume ab: "a \<le> b" "b \<le> len" "len < 2 ^ 28" "storable V a b" and J: "\<And>z. J z \<Longrightarrow> length (buffer z) = len"
    "\<And>z k. J z \<Longrightarrow> k < len \<Longrightarrow> J (storeAt k (?f k) z)"
  have start: "(toInt32 (a div (yDim * zDim)),
      toInt32 ((a - toInt32 (a div (yDim * zDim)) * yDim * zDim) div zDim),
      (a - toInt32 (a div (yDim * zDim)) * yDim * zDim) -
        toInt32 ((a - toInt32 (a div (yDim * zDim)) * yDim * zDim) div zDim) * zDim) = at3 yDim zDim a"
    if "a < b"
  proof -
    have "a - a div (yDim * zDim) * yDim * zDim = a mod (yDim * zDim)"
      by (metis minus_div_mult_eq_mod mult.assoc)
    moreover have "toInt32 (a mod (yDim * zDim) div zDim) = a mod (yDim * zDim) div zDim"
      using le_less_trans [OF le_trans [OF div_le_dividend mod_less_eq_dividend], of a "2 ^ 31"] that ab
      by (simp add: toInt32_id)
    ultimately show ?thesis
      using that ab by (simp add: at3_def Let_def index_28 minus_div_mult_eq_mod)
  qed
  show "safe V J (fill3 yDim zDim func a b) (\<lambda>_ z. J z \<and> (\<forall>k. a \<le> k \<and> k < b \<longrightarrow> buffer z ! k = Some (?f k))) J"
    unfolding fill3_def Let_def case_prod_beta
    by (rule storing_loop [OF ab(1,2,4), where J = J and at = "at3 yDim zDim"
            and nxt = "\<lambda>p. if snd (snd p) + 1 = zDim
                            then if fst (snd p) + 1 = yDim then (fst p + 1, 0, 0) else (fst p, fst (snd p) + 1, 0)
                            else (fst p, fst (snd p), snd (snd p) + 1)"
            and val = "\<lambda>i p. func [fst p, fst (snd p), snd (snd p)]"
            and f = "\<lambda>k. func [fst (at3 yDim zDim k), fst (snd (at3 yDim zDim k)), snd (snd (at3 yDim zDim k))]"])
      (use J in \<open>simp add: case_prod_beta\<close>, use J in \<open>simp add: case_prod_beta\<close>, simp,
       rule at3_next [unfolded case_prod_beta], rule start)
qed

interpretation fill_N: filling "prod_list shape" "\<lambda>k. func (digits shape k)" "fillN shape func" for shape func
proof
  fix a b :: nat and V :: "'a buf_mem view" and J :: "'a buf_mem \<Rightarrow> bool"
  assume ab: "a \<le> b" "b \<le> prod_list shape" "prod_list shape < 2 ^ 28" "storable V a b"
    and J: "\<And>z. J z \<Longrightarrow> length (buffer z) = prod_list shape"
      "\<And>z k. J z \<Longrightarrow> k < prod_list shape \<Longrightarrow> J (storeAt k (func (digits shape k)) z)"
  show "safe V J (fillN shape func a b)
     (\<lambda>_ z. J z \<and> (\<forall>k. a \<le> k \<and> k < b \<longrightarrow> buffer z ! k = Some (func (digits shape k)))) J"
    unfolding fillN_def
    by (rule storing_loop [OF ab(1,2,4), where J = J and f = "\<lambda>k. func (digits shape k)" and at = "digits shape" and nxt = "StepIndices shape"
            and val = "\<lambda>i ix. func ix"])
      (use ab J StepIndices_digits [of _ shape] in \<open>auto simp: ComputeIndices_eq\<close>)
qed

lemma digits_2: "digits [a, b] k = [k div b, k mod b]"
  by (simp add: minus_div_mult_eq_mod)

lemma digits_3: "digits [a, b, c] k = (case at3 b c k of (x, y, z) \<Rightarrow> [x, y, z])"
  by (simp add: at3_def Let_def minus_div_mult_eq_mod)

lemma build_filling: "filling (prod_list shape) (\<lambda>k. func (digits shape k)) (computefuncOf shape func)"
proof (cases shape rule: shape_cases)
  case (2 a)
  then show ?thesis using fill_1.filling_axioms [of a func] by (simp add: computefuncOf_def)
next
  case (3 a b)
  then show ?thesis
    using fill_2.filling_axioms [of "a * b" func b]
    by (simp add: computefuncOf_def digits_2 del: digits.simps)
next
  case (4 a b c)
  then show ?thesis
    using fill_3.filling_axioms [of "prod_list shape" func b c]
    by (simp add: computefuncOf_def digits_3 del: digits.simps)
qed (use fill_N.filling_axioms [of shape func] in \<open>auto simp: computefuncOf_def simp del: digits.simps\<close>)

section \<open>The kernels\<close>

interpretation map_slice: slice_kernel "mapSlice len func" s "fillInv len s func" "finishedAt (chunkHi len s)"
    "sameSlice (ownChunks len s)" for len func s
  unfolding mapSlice_def Let_def
  by unfold_locales
    (rule map_range.chunks.own_facts(1), assumption, rule map_range.chunks.own_facts(2), assumption+,
     blast intro: map_range.chunks.own_facts(3),
     rule map_range.chunks.steps_kernel
        [where stop = "\<lambda>p e. if _ \<and> e > p + 1 then p + 1 else e"], auto)

sublocale filling \<subseteq> construct: slice_kernel "constructSlice len compute" s "fillInv len s f" "finishedAt (chunkHi len s)"
    "sameSlice (ownChunks len s)" for s
  unfolding constructSlice_def Let_def
  by unfold_locales
    (rule chunks.own_facts(1), assumption, rule chunks.own_facts(2), assumption+,
     blast intro: chunks.own_facts(3),
     rule chunks.steps_kernel [where stop = "\<lambda>p e. if _ \<and> e > p then p + 1 else e"], auto)

text \<open>What follows a join on a full buffer.\<close>

lemma runOp_bindP: "runOp (bindP m k) z = (case exec m z of (Inl e, z') \<Rightarrow> Inl e | (Inr x, z') \<Rightarrow> runOp (k x) z')"
  by (auto simp: runOp_def exec_bindP split: prod.splits sum.splits)

lemma runOp_ret [simp]: "runOp (Ret x) z = Inr x"
  by (simp add: runOp_def)

lemma runOp_throw [simp]: "runOp (Throw e) z = Inl e"
  by (simp add: runOp_def)

lemma runOp_load [simp]: "runOp (bindP (load f) k) z = runOp (k (f z)) z"
  by (simp add: runOp_def load_def)

lemma runOp_safe_bind:
  assumes "safe alone P m Q B" "P z" "\<And>x z'. Q x z' \<Longrightarrow> R (runOp (k x) z')"
  shows "R (runOp (bindP m k) z)"
  by (rule safe_outcome [OF assms(1,2)]) (use assms(3) in \<open>auto simp: runOp_bindP\<close>)

lemma runOp_bailout: "exec m z = (Inl e, s') \<Longrightarrow> runOp (bindP m k) z = Inl e"
  by (simp add: runOp_bindP)

text \<open>
  What an operation may end in: a result, or a bailout when ForkJoin has not gone to its last resort
  in one of the first \<open>k\<close> joins, or the refusal of an internal testing mode.
\<close>

definition lastResort :: "engine \<Rightarrow> nat \<Rightarrow> bool" where
  "lastResort e k \<longleftrightarrow> (\<exists>before. scheduleAt e k = before @ sequentially (numSlices e))"

definition endsIn :: "engine \<Rightarrow> nat \<Rightarrow> exec_mode option \<Rightarrow> ('r \<Rightarrow> bool) \<Rightarrow> jserr + 'r \<Rightarrow> bool" where
  "endsIn e k mode P r \<longleftrightarrow> (case r of
       Inr q \<Rightarrow> P q
     | Inl err \<Rightarrow> (err = Bailout \<and> \<not> forceSequential e \<and> (\<exists>j<k. \<not> lastResort e j)) \<or>
                  (mode \<noteq> None \<and> (err = JSMSG ''JSMSG_PAR_ARRAY_BAD_ARG'' \<or> err = JSMSG ''JSMSG_WRONG_VALUE'')))"

lemma endsIn_result: "endsIn e k None P r \<Longrightarrow> forceSequential e \<or> (\<forall>j<k. lastResort e j) \<Longrightarrow> \<exists>q. r = Inr q \<and> P q"
  by (auto simp: endsIn_def split: sum.splits)

text \<open>Both branches of an operation, after the checks of the mode.\<close>

lemma endsIn_parallel:
  assumes "endsIn e k mode P (runOp m z)"
  shows "endsIn e k mode P (runOp (bindP (ForkJoinMode mode) (\<lambda>_. m)) z)"
  using assms by (auto simp: ForkJoinMode_def endsIn_def split: option.splits)

lemma endsIn_sequential:
  assumes "endsIn e k mode P (runOp m z)"
  shows "endsIn e k mode P (runOp (bindP (ASSERT_SEQUENTIAL_IS_OK t mode) (\<lambda>_. m)) z)"
  using assms
  by (auto simp: ASSERT_SEQUENTIAL_IS_OK_def AssertSequentialIsOK_def endsIn_def split: option.splits)

context slice_kernel
begin

text \<open>A join inside an operation, followed by \<open>k\<close>.\<close>

lemma endsIn_join:
  assumes "inv z" "\<not> forceSequential e" "numSlices e = n" "j < joins"
    and "\<And>z'. inv z' \<Longrightarrow> \<forall>i\<in>{..<n}. complete i z' \<Longrightarrow> endsIn e joins mode P (runOp k z')"
  shows "endsIn e joins mode P (runOp (bindP (ForkJoin run n (scheduleAt e j)) (\<lambda>_. k)) z)"
proof (rule join_cases [OF assms(1), of "scheduleAt e j"])
  fix z'
  assume "exec (ForkJoin run n (scheduleAt e j)) z = (Inl Bailout, z')"
    "\<not> (\<exists>before. scheduleAt e j = before @ sequentially n)"
  then show ?thesis using assms(2,3,4) by (auto simp: endsIn_def runOp_bailout lastResort_def)
next
  fix z'
  assume "exec (ForkJoin run n (scheduleAt e j)) z = (Inr (), z')" "inv z'"
    "\<forall>i\<in>{..<n}. complete i z'"
  then show ?thesis using assms(5) by (simp add: runOp_bindP)
qed

end

lemma full_buffer:
  assumes "length (buffer z) = len" "\<forall>k. 0 \<le> k \<and> k < len \<longrightarrow> buffer z ! k = Some (f k)"
  shows "buffer z = map (Some \<circ> f) [0..<len]"
  using assms by (intro nth_equalityI) auto

context filling
begin

lemma sequential_result:
  assumes "len < 2 ^ 28" "P (g (map (Some \<circ> f) [0..<len]))"
  shows "endsIn e j mode P (runOp (bindP (compute 0 len) (\<lambda>_. bindP (load buffer) (\<lambda>b. Ret (g b))))
           \<lparr>info = [], buffer = NewDenseArray len\<rparr>)"
proof -
  have "safe alone (\<lambda>z. length (buffer z) = len) (compute 0 len)
      (\<lambda>_ z. length (buffer z) = len \<and> (\<forall>k. 0 \<le> k \<and> k < len \<longrightarrow> buffer z ! k = Some (f k)))
      (\<lambda>z. length (buffer z) = len)"
    using assms(1) by (intro fills) auto
  then show ?thesis
  proof (rule runOp_safe_bind)
    fix z' :: "'w buf_mem"
    assume z': "length (buffer z') = len \<and> (\<forall>k. 0 \<le> k \<and> k < len \<longrightarrow> buffer z' ! k = Some (f k))"
    have "buffer z' = map (Some \<circ> f) [0..<len]" using z' by (intro full_buffer) auto
    then show "endsIn e j mode P (runOp (bindP (load buffer) (\<lambda>b. Ret (g b))) z')"
      using assms(2) by (simp add: endsIn_def)
  qed (simp add: NewDenseArray_def)
qed

lemma construct_kernel:
  "slice_kernel (constructSlice len compute) s (fillInv len s f) (finishedAt (chunkHi len s)) (sameSlice (ownChunks len s))"
  by (rule construct.slice_kernel_axioms)

lemma parallel_result:
  assumes "len < 2 ^ 28" "0 < numSlices e" "\<not> forceSequential e" "P (g (map (Some \<circ> f) [0..<len]))"
    and "slice_kernel run (numSlices e) (fillInv len (numSlices e) f) (finishedAt (chunkHi len (numSlices e)))
           (sameSlice (ownChunks len (numSlices e)))"
  shows "endsIn e 1 mode P (runOp (bindP (ForkJoin run (numSlices e) (scheduleAt e 0))
             (\<lambda>_. bindP (load buffer) (\<lambda>b. Ret (g b))))
           \<lparr>info = ComputeAllSliceBounds (ComputeNumChunks len) (numSlices e), buffer = NewDenseArray len\<rparr>)"
  by (rule slice_kernel.endsIn_join [OF assms(5) fillInv_init [OF assms(1)] assms(3)])
    (use assms in \<open>auto simp: endsIn_def filled_complete\<close>)

end

lemma fold_product: "fold (\<lambda>d len. len * d) shape 1 = prod_list (shape :: nat list)"
proof -
  have "fold (\<lambda>d len. len * d) shape n = n * prod_list shape" for n
    by (induction shape arbitrary: n) auto
  then show ?thesis by simp
qed

section \<open>Properties\<close>

text \<open>
  C26: For a callback that is a function of its arguments, without effects, and that always returns, and fewer
  than \<open>2 ^ 28\<close> elements, \<open>map\<close> gives the array of the callback's values, in order, however ForkJoin interleaves the
  operations of the slices, with warm-ups, bailouts at any operation, retries and any number of slices. With such a callback it
  fails only if ForkJoin never goes to its last resort, or a testing mode is refused; the sequential fallback
  gives the same array.
\<close>

theorem map_parallel:
  assumes "pa_shape self ! 0 < 2 ^ 28" "0 < numSlices e"
  shows "endsIn e 1 mode
    (\<lambda>q. q = ParallelArrayView [pa_shape self ! 0]
           (map (\<lambda>i. Some (func (callGet self [int i]) i)) [0..<pa_shape self ! 0]) 0)
    (ParallelArrayMap e func mode self)"
proof -
  let ?call = "\<lambda>i. func (callGet self [int i]) i" and ?len = "pa_shape self ! 0"
  let ?g = "\<lambda>b. ParallelArrayView [?len] b 0"
  let ?P = "\<lambda>q. q = ?g (map (\<lambda>i. Some (?call i)) [0..<?len])"
  have result: "?P (?g (map (Some \<circ> ?call) [0..<?len]))" by (simp add: comp_def)
  note seq = map_range.sequential_result [of ?len ?P ?g, OF assms(1) result]
  note par = map_range.parallel_result [of ?len e ?P ?g, OF assms _ result map_slice.slice_kernel_axioms]
  show ?thesis
    unfolding ParallelArrayMap_def Let_def
    by (cases "\<not> forceSequential e \<and> TRY_PARALLEL mode")
      (simp_all only: if_True if_False simp_thms seq par endsIn_parallel endsIn_sequential)
qed

lemma map_parallel_witness:
  "ParallelArrayMap \<lparr>forceSequential = False, numSlices = 2, testsShouldPass = True,
       schedules = [[Start 0 True, Run 0, Start 1 False, Run 1, Run 0] @ sequentially 2]\<rparr>
     (\<lambda>v i. i * i) None (ParallelArrayView [3] (map Some [5, 6, 7 :: nat]) 0)
   = Inr (ParallelArrayView [3] (map Some [0, 1, 4]) 0)"
  (is "ParallelArrayMap ?e ?f None ?pa = _")
proof -
  have "endsIn ?e 1 None (\<lambda>q. q = ParallelArrayView [3] (map (\<lambda>i. Some (i * i)) [0..<3]) 0)
          (ParallelArrayMap ?e ?f None ?pa)"
    using map_parallel [of ?pa ?e None ?f] by simp
  moreover have "lastResort ?e 0" unfolding lastResort_def scheduleAt_def by auto
  ultimately show ?thesis by (auto dest!: endsIn_result simp: upt_conv_Cons eval_nat_numeral)
qed

text \<open>
  C27: For a callback that is a function of its arguments, without effects, and that always returns, and fewer
  than \<open>2 ^ 28\<close> elements, the comprehension form gives the array of its shape whose element at every index of the
  shape is the callback's value there, for one, two, three (parallel) and more (sequential) dimensions and however
  ForkJoin interleaves the operations of the slices. With such a callback it fails only if ForkJoin
  never goes to its last resort, or a testing mode is refused.
\<close>

theorem build_parallel:
  assumes "prod_list shape < 2 ^ 28" "0 < numSlices e" "shape \<noteq> []"
  shows "endsIn e 1 mode
    (\<lambda>q. pa_shape q = shape \<and> (\<forall>ix. inShape shape ix \<longrightarrow> callGet q (map int ix) = PElem (func ix)))
    (ParallelArrayBuild e shape func mode)"
proof -
  let ?f = "\<lambda>k. func (digits shape k)"
  note fills = build_filling [of shape func]
  have at: "pa_shape q = shape \<and> (\<forall>ix. inShape shape ix \<longrightarrow> callGet q (map int ix) = PElem (func ix))"
    if "q = ParallelArrayView shape (map (Some \<circ> ?f) [0..<prod_list shape]) 0" for q :: "'a parray"
  proof (intro conjI allI impI)
    fix ix assume ix: "inShape shape ix"
    then have "callGet q (map int ix) = bufferAt (map (Some \<circ> ?f) [0..<prod_list shape]) (int (flat shape ix))"
      using that callGet_view [of ix shape "map (Some \<circ> ?f) [0..<prod_list shape]" 0] assms(3)
      by (cases ix) (auto simp: inShape_inPrefix)
    then show "callGet q (map int ix) = PElem (func ix)"
      using flat_bound [OF ix] digits_flat [OF ix] by (simp add: bufferAt_def)
  qed (use that in simp)
  let ?P = "\<lambda>q. pa_shape q = shape \<and> (\<forall>ix. inShape shape ix \<longrightarrow> callGet q (map int ix) = PElem (func ix))"
  let ?g = "\<lambda>b. ParallelArrayView shape b 0"
  have result: "?P (?g (map (Some \<circ> ?f) [0..<prod_list shape]))" by (rule at) simp
  note seq = filling.sequential_result [OF fills assms(1), of ?P ?g, OF result]
  note par = filling.parallel_result [OF fills assms(1,2), of ?P ?g, OF _ result filling.construct_kernel [OF fills]]
  show ?thesis
    unfolding ParallelArrayBuild_def Let_def fold_product
    by (cases "\<not> forceSequential e \<and> TRY_PARALLEL mode \<and> size shape \<in> {1, 2, 3}")
      (simp_all only: if_True if_False simp_thms seq par endsIn_parallel endsIn_sequential)
qed

lemma build_parallel_witness:
  "\<exists>q. ParallelArrayBuild \<lparr>forceSequential = False, numSlices = 2, testsShouldPass = True,
         schedules = [[Start 1 False, Run 1, Start 0 False, Run 0, Run 1] @ sequentially 2]\<rparr> [2, 3] sum_list None = Inr q \<and>
       callGet q [1, 2] = PElem (3 :: nat)"
  (is "\<exists>q. ParallelArrayBuild ?e _ _ _ = _ \<and> _")
proof -
  have "lastResort ?e 0" unfolding lastResort_def scheduleAt_def by auto
  then obtain q where "ParallelArrayBuild ?e [2, 3] sum_list None = Inr q"
    "\<forall>ix. inShape [2, 3] ix \<longrightarrow> callGet q (map int ix) = PElem (sum_list ix)"
    using endsIn_result [OF build_parallel [of "[2, 3]" ?e None sum_list]] by auto
  moreover from this(2) [rule_format, of "[1, 2]"] have "callGet q [1, 2] = PElem 3"
    by (simp add: numeral_3_eq_3)
  ultimately show ?thesis by auto
qed

end
