(* ===== verification/Parallel_Reduce.thy ===== *)
theory Parallel_Reduce
  imports Parallel_Map
begin

text \<open>
  \<open>ParallelArrayReduce\<close> of \<open>builtin/ParallelArray.js\<close>: every slice folds its chunks into one partial
  result, which it checkpoints after every chunk, and the partial results are folded in order. For an
  associative function this is the fold of the whole array.
\<close>

section \<open>Folds over ranges\<close>

text \<open>The fold of the elements from \<open>a\<close> to before \<open>b\<close>, for a range that is not empty.\<close>

definition seg :: "('a \<Rightarrow> 'a \<Rightarrow> 'a) \<Rightarrow> (nat \<Rightarrow> 'a) \<Rightarrow> nat \<Rightarrow> nat \<Rightarrow> 'a" where
  "seg func elem a b = foldl (\<lambda>acc i. func acc (elem i)) (elem a) [a + 1..<b]"

lemma seg_single: "seg func elem a (a + 1) = elem a"
  by (simp add: seg_def)

lemma seg_step: "a < b \<Longrightarrow> seg func elem a (b + 1) = func (seg func elem a b) (elem b)"
  by (simp add: seg_def)

lemma seg_extend:
  assumes "a < b" "b \<le> c"
  shows "foldl (\<lambda>acc i. func acc (elem i)) (seg func elem a b) [b..<c] = seg func elem a c"
  using assms(2,1) by (induction c rule: dec_induct) (simp_all add: seg_step [simplified])

definition assoc_fun :: "('a \<Rightarrow> 'a \<Rightarrow> 'a) \<Rightarrow> bool" where
  "assoc_fun func \<longleftrightarrow> (\<forall>x y z. func (func x y) z = func x (func y z))"

lemma seg_append:
  assumes "assoc_fun func" "a < b" "b < c"
  shows "func (seg func elem a b) (seg func elem b c) = seg func elem a c"
proof -
  have "Suc b \<le> c" using assms(3) by simp
  then show ?thesis using assms(1,2)
  proof (induction c rule: dec_induct)
    case base
    then show ?case using seg_single [of func elem b] seg_step [of a b func elem] by simp
  next
    case (step c)
    then show ?case
      using seg_step [of b c func elem] seg_step [of a c func elem] by (simp add: assoc_fun_def) metis
  qed
qed

section \<open>The kernel\<close>

record 'v red_mem = slices +
  subreductions :: "'v option list"

definition reduceChunk :: "nat \<Rightarrow> (nat \<Rightarrow> 'v) \<Rightarrow> ('v \<Rightarrow> 'v \<Rightarrow> 'v) \<Rightarrow> 'v \<Rightarrow> nat \<Rightarrow> nat \<Rightarrow> ('v red_mem, 'v) pjs"
where
  "reduceChunk len elem func accumulator from to' =
     (let to' = min to' len
      in loopP [from..<to'] accumulator (\<lambda>i accumulator. callFunc (func accumulator (elem i))))"

text \<open>One atomic store of the accumulator and the position.\<close>

definition storeReduction :: "nat \<Rightarrow> 'v \<Rightarrow> nat \<Rightarrow> 'v red_mem \<Rightarrow> 'v red_mem" where
  "storeReduction i acc p z = setPos i p (z\<lparr>subreductions := (subreductions z)[i := Some acc]\<rparr>)"

definition checkpoint :: "nat \<Rightarrow> 'v \<Rightarrow> nat \<Rightarrow> ('v red_mem, unit) pjs" where
  "checkpoint i acc p =
     UnsafeSetElement (\<lambda>z. i < length (subreductions z) \<and> posOk i z) (storeReduction i acc p)"

text \<open>The kernel's first chunk, when it is at its start, and its loop over the others.\<close>

definition reduceFirst ::
  "nat \<Rightarrow> (nat \<Rightarrow> 'v) \<Rightarrow> ('v \<Rightarrow> 'v \<Rightarrow> 'v) \<Rightarrow> nat \<Rightarrow> nat \<Rightarrow> nat \<Rightarrow> ('v red_mem, nat) pjs" where
  "reduceFirst len elem func sliceId chunkStart chunkPos =
     (if chunkStart = chunkPos
      then let indexPos = shl5 chunkStart
           in bindP (reduceChunk len elem func (elem indexPos) (indexPos + 1) (indexPos + CHUNK_SIZE))
                (\<lambda>accumulator. bindP (checkpoint sliceId accumulator (chunkPos + 1))
                (\<lambda>_. Ret (chunkPos + 1)))
      else Ret chunkPos)"

definition reduceRest ::
  "nat \<Rightarrow> (nat \<Rightarrow> 'v) \<Rightarrow> ('v \<Rightarrow> 'v \<Rightarrow> 'v) \<Rightarrow> nat \<Rightarrow> nat \<Rightarrow> nat \<Rightarrow> ('v red_mem, 'v) pjs" where
  "reduceRest len elem func sliceId chunkPos chunkEnd =
     bindP (loadElem subreductions sliceId) (\<lambda>accumulator.
     loopP [chunkPos..<chunkEnd] accumulator (\<lambda>chunk accumulator.
       let indexPos = shl5 chunk
       in bindP (reduceChunk len elem func accumulator indexPos (indexPos + CHUNK_SIZE))
            (\<lambda>accumulator. bindP (checkpoint sliceId accumulator (chunk + 1))
            (\<lambda>_. Ret accumulator))))"

definition reduceSlice :: "nat \<Rightarrow> (nat \<Rightarrow> 'v) \<Rightarrow> ('v \<Rightarrow> 'v \<Rightarrow> 'v) \<Rightarrow> 'v red_mem kernel" where
  "reduceSlice len elem func sliceId warmup =
     bindP (load (\<lambda>z. info z ! SLICE_START sliceId)) (\<lambda>chunkStart.
     bindP (load (\<lambda>z. info z ! SLICE_POS sliceId)) (\<lambda>chunkPos.
     bindP (load (\<lambda>z. info z ! SLICE_END sliceId)) (\<lambda>chunkEnd.
     let chunkEnd = (if warmup \<and> chunkEnd > chunkPos + 2 then chunkPos + 2 else chunkEnd) in
     bindP (reduceFirst len elem func sliceId chunkStart chunkPos) (\<lambda>chunkPos.
     bindP (reduceRest len elem func sliceId chunkPos chunkEnd) (\<lambda>_.
     bindP (load (\<lambda>z. info z ! SLICE_END sliceId)) (\<lambda>sliceEnd. Ret (chunkEnd = sliceEnd)))))))"

definition ParallelArrayReduce ::
  "engine \<Rightarrow> ('v pval \<Rightarrow> 'v pval \<Rightarrow> 'v pval) \<Rightarrow> exec_mode option \<Rightarrow> 'v parray \<Rightarrow> jserr + 'v pval" where
  "ParallelArrayReduce e func mode self =
     (let length = pa_shape self ! 0; elem = (\<lambda>i. callGet self [int i]);
          chunks = ComputeNumChunks length; numSlices = numSlices e in
      if length = 0 then Inl (JSMSG ''JSMSG_PAR_ARRAY_REDUCE_EMPTY'')
      else if \<not> forceSequential e \<and> TRY_PARALLEL mode \<and> \<not> chunks < numSlices
      then let info = ComputeAllSliceBounds chunks numSlices
           in runOp (bindP (ForkJoinMode mode) (\<lambda>_.
                     bindP (ForkJoin (reduceSlice length elem func) numSlices (scheduleAt e 0)) (\<lambda>_.
                     bindP (loadElem subreductions 0) (\<lambda>accumulator.
                     loopP [1..<numSlices] accumulator (\<lambda>i accumulator.
                       bindP (loadElem subreductions i) (\<lambda>x. Ret (func accumulator x)))))))
                \<lparr>info = info, subreductions = NewDenseArray numSlices\<rparr>
      else runOp (bindP (ASSERT_SEQUENTIAL_IS_OK (testsShouldPass e) mode) (\<lambda>_.
                  loopP [1..<length] (elem 0) (\<lambda>i accumulator. Ret (func accumulator (elem i)))))
             \<lparr>info = [], subreductions = [] :: 'v pval option list\<rparr>)"

section \<open>Its invariant\<close>

text \<open>
  A slice past its first chunk has the fold of its finished chunks. There are at least as many chunks
  as slices, so no slice is empty.
\<close>

definition reduced :: "nat \<Rightarrow> nat \<Rightarrow> (nat \<Rightarrow> 'v) \<Rightarrow> ('v \<Rightarrow> 'v \<Rightarrow> 'v) \<Rightarrow> nat \<Rightarrow> nat \<Rightarrow> 'v red_mem \<Rightarrow> bool" where
  "reduced len s elem func i p z \<longleftrightarrow> len < 2 ^ 28 \<and> s \<le> ComputeNumChunks len \<and>
     length (subreductions z) = s \<and> info z ! SLICE_START i = chunkLo len s i \<and>
     (chunkLo len s i < p \<longrightarrow>
        subreductions z ! i = Some (seg func elem (32 * chunkLo len s i) (min (32 * p) len)))"

abbreviation redInv :: "nat \<Rightarrow> nat \<Rightarrow> (nat \<Rightarrow> 'v) \<Rightarrow> ('v \<Rightarrow> 'v \<Rightarrow> 'v) \<Rightarrow> 'v red_mem \<Rightarrow> bool" where
  "redInv len s elem func \<equiv> progress s (chunkLo len s) (chunkHi len s) (reduced len s elem func)"

text \<open>What belongs to a slice: its bounds, its position and its partial result.\<close>

definition ownRed :: "nat \<Rightarrow> 'v red_mem \<Rightarrow> 'v red_mem \<Rightarrow> bool" where
  "ownRed i z w \<longleftrightarrow> info z ! SLICE_START i = info w ! SLICE_START i \<and>
     sameRange i (i + 1) (subreductions z) (subreductions w)"

abbreviation redView :: "nat \<Rightarrow> nat \<Rightarrow> 'v red_mem view" where
  "redView s i \<equiv> viewOf (sameSlice ownRed) s i"

lemma ownRed_equivp: "equivp (ownRed i)"
  unfolding ownRed_def [abs_def]
  by (intro equivp_conj equivp_eq sameRange_equivp [where f = subreductions])

lemma slice_nonempty:
  assumes "s \<le> ComputeNumChunks len" "i < s"
  shows "chunkLo len s i < chunkHi len s i"
proof -
  have "1 \<le> ComputeNumChunks len div s" using assms by (metis Suc_leI div_greater_zero_iff gr_implies_not0 neq0_conv One_nat_def)
  then have "chunkLo len s i < ComputeNumChunks len div s * (i + 1)"
    by (simp add: chunkLo_def slice_lo_def)
  moreover have "ComputeNumChunks len div s * (i + 1) \<le> chunkHi len s i"
    using slice_step [OF assms(2), of "ComputeNumChunks len"] by (auto simp: chunkHi_def slice_hi_def)
  ultimately show ?thesis by simp
qed

lemma storeReduction_simps [simp]:
  "info (storeReduction i acc p z) = (info z)[SLICE_POS i := p]"
  "subreductions (storeReduction i acc p z) = (subreductions z)[i := Some acc]"
  by (simp_all add: storeReduction_def setPos_def)

text \<open>Chunk \<open>c\<close> of slice \<open>i\<close> starts at index \<open>32 * c\<close>, which is inside the array.\<close>

lemma redInv_chunk:
  assumes "redInv len s elem func z" "i < s"
  shows "len < 2 ^ 28" "s \<le> ComputeNumChunks len" "length (subreductions z) = s"
    "info z ! SLICE_START i = chunkLo len s i"
    "chunkLo len s i < info z ! SLICE_POS i \<Longrightarrow> subreductions z ! i =
       Some (seg func elem (32 * chunkLo len s i) (min (32 * info z ! SLICE_POS i) len))"
  using progress_pos(4) [OF assms] by (auto simp: reduced_def)

lemma redView_same:
  assumes "fst (redView s i) z w" "redInv len s elem func z" "i < s"
  shows "length (subreductions w) = length (subreductions z)" "subreductions w ! i = subreductions z ! i"
  using viewOf_slice(1) [OF assms(1)] redInv_chunk(3) [OF assms(2,3)] assms(3)
  by (auto simp: ownRed_def sameRange_def)

lemma ownRed_reduced:
  assumes "i < s" "ownRed i z w" "reduced len s elem func i p z"
  shows "reduced len s elem func i p w"
  using assms by (auto simp: ownRed_def reduced_def sameRange_def)

lemma redView_store:
  assumes "fst (redView s i) z w" "redInv len s elem func z" "i < s"
  shows "(i < length (subreductions w) \<and> posOk i w) \<and>
    fst (redView s i) (storeReduction i acc p z) (storeReduction i acc p w) \<and>
    snd (redView s i) w (storeReduction i acc p w)"
proof
  show "i < length (subreductions w) \<and> posOk i w"
    using redView_same [OF assms] redInv_chunk(3) [OF assms(2,3)] viewOf_slice(2) [OF assms(1)]
      progress_pos(5) [OF assms(2,3)] assms(3) by simp
  show "fst (redView s i) (storeReduction i acc p z) (storeReduction i acc p w) \<and>
    snd (redView s i) w (storeReduction i acc p w)"
    by (rule viewOf_move [OF assms(1)])
      (auto simp: ownRed_def nth_list_update intro!: sameRange_update sameRange_outside)
qed

lemma redInv_store:
  assumes inv: "redInv len s elem func z" and i: "i < s" "info z ! SLICE_POS i = c" "c < chunkHi len s i"
    and acc: "acc = seg func elem (32 * chunkLo len s i) (min (32 * (c + 1)) len)"
  shows "redInv len s elem func (storeReduction i acc (c + 1) z)"
proof -
  have "reduced len s elem func j (info z ! SLICE_POS j) z" if "j < s" for j
    using progress_pos(4) [OF inv that] .
  then show ?thesis
    using inv i acc by (auto simp: progress_def reduced_def nth_list_update)
qed

lemma finishedAt_store:
  assumes "\<forall>j\<in>D. finishedAt hi j z" "info z ! SLICE_POS i = c" "c < hi i"
    "info z' = (info z)[SLICE_POS i := c + 1]"
  shows "\<forall>j\<in>D. finishedAt hi j z'"
  using assms by (metis finishedAt_def less_irrefl nth_list_update_neq slice_positions(1))

lemma safe_reduceChunk:
  assumes "from \<le> min to' len"
  shows "safe V J (reduceChunk len elem func acc from to')
    (\<lambda>x z. J z \<and> x = foldl (\<lambda>acc i. func acc (elem i)) acc [from..<min to' len]) J"
proof -
  let ?I = "\<lambda>k x z. J z \<and> x = foldl (\<lambda>acc i. func acc (elem i)) acc [from..<k]"
  have "safe V (?I from acc) (loopP [from..<min to' len] acc (\<lambda>i acc. callFunc (func acc (elem i))))
      (?I (min to' len)) J"
    using assms by (intro safe_loop safe_weaken [OF safe_callFunc [where P = "?I _ _"]]) auto
  then show ?thesis by (simp add: reduceChunk_def Let_def)
qed

section \<open>The kernel is safe\<close>

text \<open>Invariant and finished slices, with slice \<open>i\<close> at chunk \<open>c\<close>.\<close>

definition redAt ::
  "nat \<Rightarrow> nat \<Rightarrow> (nat \<Rightarrow> 'v) \<Rightarrow> ('v \<Rightarrow> 'v \<Rightarrow> 'v) \<Rightarrow> nat set \<Rightarrow> nat \<Rightarrow> nat \<Rightarrow> 'v red_mem \<Rightarrow> bool" where
  "redAt len s elem func D i c z \<longleftrightarrow>
     (redInv len s elem func z \<and> (\<forall>j\<in>D. finishedAt (chunkHi len s) j z)) \<and> info z ! SLICE_POS i = c"

lemma redAt_inv: "redAt len s elem func D i c z \<Longrightarrow> redInv len s elem func z"
  by (simp add: redAt_def)

lemma redAt_checkpoint:
  assumes "i < s" "c < chunkHi len s i"
  shows "safe (redView s i) (\<lambda>z. redAt len s elem func D i c z \<and>
           acc = seg func elem (32 * chunkLo len s i) (min (32 * (c + 1)) len))
     (checkpoint i acc (c + 1))
     (\<lambda>_ z. redAt len s elem func D i (c + 1) z \<and>
           acc = seg func elem (32 * chunkLo len s i) (min (32 * (c + 1)) len))
     (\<lambda>z. redInv len s elem func z \<and> (\<forall>j\<in>D. finishedAt (chunkHi len s) j z))"
  unfolding checkpoint_def
proof (rule safe_set, elim conjE)
  fix z
  assume at: "redAt len s elem func D i c z"
    and acc: "acc = seg func elem (32 * chunkLo len s i) (min (32 * (c + 1)) len)"
  then have inv: "redInv len s elem func z" "\<forall>j\<in>D. finishedAt (chunkHi len s) j z" "info z ! SLICE_POS i = c"
    by (auto simp: redAt_def)
  let ?z = "storeReduction i acc (c + 1) z"
  have "SLICE_POS i < length (info z)" "i < length (subreductions z)"
    using inv(1) assms(1) redInv_chunk(3) [OF inv(1) assms(1)] by (auto simp: progress_pos(6))
  moreover have "redInv len s elem func ?z" by (rule redInv_store [OF inv(1) assms(1) inv(3) assms(2) acc])
  moreover have "\<forall>j\<in>D. finishedAt (chunkHi len s) j ?z"
    by (rule finishedAt_store [OF inv(2,3) assms(2)]) simp
  ultimately show "(i < length (subreductions z) \<and> posOk i z) \<and>
      (redAt len s elem func D i (c + 1) ?z \<and>
       acc = seg func elem (32 * chunkLo len s i) (min (32 * (c + 1)) len)) \<and>
      redInv len s elem func z \<and> (\<forall>j\<in>D. finishedAt (chunkHi len s) j z)"
    using inv acc by (simp add: redAt_def posOk_def)
next
  fix z z' assume z: "redAt len s elem func D i c z \<and>
      acc = seg func elem (32 * chunkLo len s i) (min (32 * (c + 1)) len)" "fst (redView s i) z z'"
  show "(i < length (subreductions z') \<and> posOk i z') \<and>
      fst (redView s i) (storeReduction i acc (c + 1) z) (storeReduction i acc (c + 1) z') \<and>
      snd (redView s i) z' (storeReduction i acc (c + 1) z')"
    by (rule redView_store [OF z(2) redAt_inv [OF conjunct1 [OF z(1)]] assms(1)])
qed

lemma redAt_chunk:
  assumes i: "i < s" "chunkLo len s i < c" "c < chunkHi len s i" and len: "len < 2 ^ 28"
  shows "safe (redView s i) (\<lambda>z. redAt len s elem func D i c z \<and>
           acc = seg func elem (32 * chunkLo len s i) (min (32 * c) len))
     (let indexPos = shl5 c in bindP (reduceChunk len elem func acc indexPos (indexPos + CHUNK_SIZE))
        (\<lambda>accumulator. bindP (checkpoint i accumulator (c + 1)) (\<lambda>_. Ret accumulator)))
     (\<lambda>acc z. redAt len s elem func D i (c + 1) z \<and>
           acc = seg func elem (32 * chunkLo len s i) (min (32 * (c + 1)) len))
     (\<lambda>z. redInv len s elem func z \<and> (\<forall>j\<in>D. finishedAt (chunkHi len s) j z))"
proof -
  note start = chunk_start [OF len i(1,3)]
  have "foldl (\<lambda>acc i. func acc (elem i)) (seg func elem (32 * chunkLo len s i) (32 * c))
      [32 * c..<min (32 * c + 32) len] = seg func elem (32 * chunkLo len s i) (min (32 * c + 32) len)"
    using i(2) start(2) by (intro seg_extend) auto
  moreover have "min (32 * c) len = 32 * c" "min (32 * (c + 1)) len = min (32 * c + 32) len"
    using start by auto
  ultimately show ?thesis
    unfolding Let_def start(1) CHUNK_SIZE_def
    by (intro safe_bind [OF safe_weaken [OF safe_reduceChunk [where J = "\<lambda>z. redAt len s elem func D i c z \<and>
            acc = seg func elem (32 * chunkLo len s i) (min (32 * c) len)"]]]
          safe_bind [OF safe_weaken [OF redAt_checkpoint [OF i(1,3)]]] safe_ret)
      (use start in \<open>auto simp: redAt_def\<close>)
qed

text \<open>The first chunk starts the fold from its first element.\<close>

lemma redAt_first:
  assumes i: "i < s" "chunkLo len s i < chunkHi len s i" and len: "len < 2 ^ 28"
  shows "safe (redView s i) (redAt len s elem func D i (chunkLo len s i))
     (let indexPos = shl5 (chunkLo len s i)
      in bindP (reduceChunk len elem func (elem indexPos) (indexPos + 1) (indexPos + CHUNK_SIZE))
           (\<lambda>accumulator. bindP (checkpoint i accumulator (chunkLo len s i + 1))
           (\<lambda>_. Ret (chunkLo len s i + 1))))
     (\<lambda>p z. redAt len s elem func D i p z \<and> p = chunkLo len s i + 1)
     (\<lambda>z. redInv len s elem func z \<and> (\<forall>j\<in>D. finishedAt (chunkHi len s) j z))"
proof -
  let ?c = "chunkLo len s i"
  note start = chunk_start [OF len i]
  have "foldl (\<lambda>acc i. func acc (elem i)) (elem (32 * ?c)) [32 * ?c + 1..<min (32 * ?c + 32) len] =
      seg func elem (32 * ?c) (min (32 * (?c + 1)) len)"
    by (simp add: seg_def add.commute)
  then show ?thesis
    unfolding Let_def start(1) CHUNK_SIZE_def
    by (intro safe_bind [OF safe_weaken [OF safe_reduceChunk [where J = "redAt len s elem func D i ?c"]]]
          safe_bind [OF safe_weaken [OF redAt_checkpoint [OF i]]] safe_ret)
      (use start in \<open>auto simp: redAt_def\<close>)
qed

lemma redAt_rest:
  assumes i: "i < s" "chunkLo len s i < a" "a \<le> b" "b \<le> chunkHi len s i" "len < 2 ^ 28"
  shows "safe (redView s i) (redAt len s elem func D i a) (reduceRest len elem func i a b)
     (\<lambda>_. redAt len s elem func D i b)
     (\<lambda>z. redInv len s elem func z \<and> (\<forall>j\<in>D. finishedAt (chunkHi len s) j z))"
proof -
  let ?I = "\<lambda>c acc z. redAt len s elem func D i c z \<and>
      acc = seg func elem (32 * chunkLo len s i) (min (32 * c) len)"
  have start: "safe (redView s i) (redAt len s elem func D i a) (loadElem subreductions i) (?I a) B" for B
    using redInv_chunk(3,5) [where len = len and s = s and elem = elem and func = func and i = i] i(1,2)
    by (intro safe_weaken [OF safe_loadElem [where P = "redAt len s elem func D i a" and
            g = "\<lambda>_. seg func elem (32 * chunkLo len s i) (min (32 * a) len)"]])
      (auto simp: redAt_def redView_same)
  have loop: "safe (redView s i) (?I a acc) (loopP [a..<b] acc (\<lambda>chunk accumulator. let indexPos = shl5 chunk
         in bindP (reduceChunk len elem func accumulator indexPos (indexPos + CHUNK_SIZE))
              (\<lambda>accumulator. bindP (checkpoint i accumulator (chunk + 1)) (\<lambda>_. Ret accumulator))))
     (?I b) (\<lambda>z. redInv len s elem func z \<and> (\<forall>j\<in>D. finishedAt (chunkHi len s) j z))" for acc
    by (rule safe_loop [where I = ?I, OF redAt_chunk]) (use i in auto)
  show ?thesis
    unfolding reduceRest_def by (rule safe_bind [OF start safe_weaken [OF loop]]) auto
qed

lemma redAt_start:
  assumes "i < s" "chunkLo len s i < chunkHi len s i" "len < 2 ^ 28"
    "chunkLo len s i \<le> p" "p < chunkHi len s i \<longrightarrow> p < stop" "p \<le> stop"
  shows "safe (redView s i) (redAt len s elem func D i p) (reduceFirst len elem func i (chunkLo len s i) p)
     (\<lambda>p' z. redAt len s elem func D i p' z \<and> chunkLo len s i < p' \<and> p' \<le> stop)
     (\<lambda>z. redInv len s elem func z \<and> (\<forall>j\<in>D. finishedAt (chunkHi len s) j z))"
proof (cases "chunkLo len s i = p")
  case True
  then show ?thesis
    using redAt_first [where elem = elem and func = func and D = D, OF assms(1-3)] assms
    by (auto simp: reduceFirst_def elim!: safe_weaken)
qed (use assms in \<open>auto simp: reduceFirst_def intro!: safe_ret\<close>)

lemma redInv_bounds:
  assumes "redInv len s elem func z" "i < s"
  shows "info z ! SLICE_START i = chunkLo len s i" "info z ! SLICE_END i = chunkHi len s i"
    "chunkLo len s i \<le> info z ! SLICE_POS i" "info z ! SLICE_POS i \<le> chunkHi len s i"
    "chunkLo len s i < chunkHi len s i" "len < 2 ^ 28"
  using redInv_chunk [OF assms] progress_pos [OF assms] slice_nonempty [OF _ assms(2), of len] by auto

lemma reduceSlice_safe:
  assumes i: "i < s"
  shows "safe (redView s i) (\<lambda>z. redInv len s elem func z \<and> (\<forall>j\<in>D. finishedAt (chunkHi len s) j z))
     (reduceSlice len elem func i warmup)
     (\<lambda>done z. (redInv len s elem func z \<and> (\<forall>j\<in>D. finishedAt (chunkHi len s) j z)) \<and>
        (done \<longrightarrow> finishedAt (chunkHi len s) i z) \<and> (\<not> warmup \<longrightarrow> done))
     (\<lambda>z. redInv len s elem func z \<and> (\<forall>j\<in>D. finishedAt (chunkHi len s) j z))"
    (is "safe _ ?K _ ?Q ?K")
proof -
  let ?lo = "chunkLo len s i" and ?hi = "chunkHi len s i"
  let ?stop = "\<lambda>p. if warmup \<and> ?hi > p + 2 then p + 2 else ?hi"
  have tail: "safe (redView s i) (redAt len s elem func D i stop)
      (bindP (load (\<lambda>z. info z ! SLICE_END i)) (\<lambda>e. Ret (stop = e))) ?Q ?K"
    if "\<not> warmup \<longrightarrow> stop = ?hi" for stop
    by (rule safe_bind [OF safe_load [OF viewOf_slice(5)] safe_ret])
      (use i that in \<open>auto simp: redAt_def finishedAt_def redInv_bounds(2)\<close>)
  have rest: "safe (redView s i) (\<lambda>z. redAt len s elem func D i p' z \<and> ?lo < p' \<and> p' \<le> ?stop p)
      (bindP (reduceRest len elem func i p' (?stop p)) (\<lambda>_.
       bindP (load (\<lambda>z. info z ! SLICE_END i)) (\<lambda>e. Ret (?stop p = e)))) ?Q ?K"
    if "p \<le> ?hi" "len < 2 ^ 28" for p p'
  proof (rule safe_pre [where c = "?lo < p' \<and> p' \<le> ?stop p"])
    assume "?lo < p' \<and> p' \<le> ?stop p"
    then have run: "safe (redView s i) (redAt len s elem func D i p') (reduceRest len elem func i p' (?stop p))
        (\<lambda>_. redAt len s elem func D i (?stop p)) ?K"
      using that i by (intro redAt_rest) auto
    show ?thesis by (rule safe_weaken [OF safe_bind [OF run tail]]) auto
  qed simp
  have main: "safe (redView s i) (redAt len s elem func D i p)
      (bindP (reduceFirst len elem func i ?lo p) (\<lambda>p'. bindP (reduceRest len elem func i p' (?stop p)) (\<lambda>_.
       bindP (load (\<lambda>z. info z ! SLICE_END i)) (\<lambda>e. Ret (?stop p = e))))) ?Q ?K"
    if "?lo \<le> p" "p \<le> ?hi" "?lo < ?hi" "len < 2 ^ 28" for p
    by (rule safe_bind [OF redAt_start [where stop = "?stop p"] rest]) (use that i in auto)
  show ?thesis
    unfolding reduceSlice_def
  proof (rule safe_bind [OF safe_load [OF viewOf_slice(4)]], assumption,
      rule safe_bind [OF safe_load [OF viewOf_slice(3)]], assumption,
      rule safe_bind [OF safe_load [OF viewOf_slice(5)]], assumption)
    fix chunkStart p chunkEnd
    let ?pre = "\<lambda>z. ((?K z \<and> chunkStart = info z ! SLICE_START i) \<and> p = info z ! SLICE_POS i) \<and>
        chunkEnd = info z ! SLICE_END i"
    let ?c = "chunkStart = ?lo \<and> chunkEnd = ?hi \<and> ?lo \<le> p \<and> p \<le> ?hi \<and> ?lo < ?hi \<and> len < 2 ^ 28"
    have c: "?c" if "?pre z" for z using that i redInv_bounds [of s len elem func z i] by auto
    show "safe (redView s i) ?pre (let chunkEnd = if warmup \<and> p + 2 < chunkEnd then p + 2 else chunkEnd in
        bindP (reduceFirst len elem func i chunkStart p) (\<lambda>p'. bindP (reduceRest len elem func i p' chunkEnd) (\<lambda>_.
        bindP (load (\<lambda>z. info z ! SLICE_END i)) (\<lambda>e. Ret (chunkEnd = e))))) ?Q ?K"
      by (rule safe_pre [OF c]) (use main [of p] in \<open>auto simp: Let_def redAt_def elim!: safe_weaken\<close>)
  qed
qed

interpretation reduce_slice: slice_kernel "reduceSlice len elem func" s "redInv len s elem func"
    "finishedAt (chunkHi len s)" "sameSlice ownRed" for len elem func s
  by unfold_locales
    (rule sameSlice_equiv, rule ownRed_equivp, rule finishedAt_same, assumption+,
     blast intro: progress_same [where own = ownRed] ownRed_reduced, rule reduceSlice_safe)

section \<open>The result\<close>

text \<open>Where the elements of a slice end.\<close>

definition sliceEnd :: "nat \<Rightarrow> nat \<Rightarrow> nat \<Rightarrow> nat" where
  "sliceEnd len s i = min (32 * chunkHi len s i) len"

lemma slice_bounds:
  assumes "len < 2 ^ 28" "s \<le> ComputeNumChunks len" "i < s"
  shows "32 * chunkLo len s i < sliceEnd len s i" "sliceEnd len s i \<le> len"
    "Suc i < s \<Longrightarrow> sliceEnd len s i = 32 * chunkLo len s (Suc i)"
    "Suc i = s \<Longrightarrow> sliceEnd len s i = len" "chunkLo len s 0 = 0"
proof -
  have ne: "chunkLo len s i < chunkHi len s i" by (rule slice_nonempty [OF assms(2,3)])
  show "32 * chunkLo len s i < sliceEnd len s i"
    using chunk_start(2) [OF assms(1,3) ne] ne by (simp add: sliceEnd_def)
  show "sliceEnd len s i \<le> len" by (simp add: sliceEnd_def)
  show "chunkLo len s 0 = 0" by (simp add: chunkLo_def slice_lo_0)
  show "sliceEnd len s i = 32 * chunkLo len s (Suc i)" if "Suc i < s"
    using that chunk_start(2) [OF assms(1) that slice_nonempty [OF assms(2) that]]
    by (simp add: sliceEnd_def chunkHi_def chunkLo_def slice_hi_Suc)
  show "sliceEnd len s i = len" if "Suc i = s"
  proof -
    have "chunkHi len s i = (len + 31) div 32"
      using that assms(1) slice_hi_last [of s] by (simp add: chunkHi_def ComputeNumChunks_eq flip: that)
    then show ?thesis by (simp add: sliceEnd_def)
  qed
qed

lemma seg_slices:
  assumes "assoc_fun func" "len < 2 ^ 28" "s \<le> ComputeNumChunks len" "Suc i < s"
  shows "func (seg func elem 0 (sliceEnd len s i))
      (seg func elem (32 * chunkLo len s (Suc i)) (sliceEnd len s (Suc i))) = seg func elem 0 (sliceEnd len s (Suc i))"
proof -
  have "i < s" using assms(4) by simp
  from slice_bounds [OF assms(2,3) this] slice_bounds [OF assms(2,3,4)] assms(1,4)
  show ?thesis by (auto intro!: seg_append)
qed

lemma redInv_init:
  assumes "len < 2 ^ 28" "s \<le> ComputeNumChunks len"
  shows "redInv len s elem func
    \<lparr>info = ComputeAllSliceBounds (ComputeNumChunks len) s, subreductions = NewDenseArray s\<rparr>"
proof -
  have "ComputeNumChunks len < 2 ^ 31" using chunks_28 [OF assms(1)] by simp
  note slice_info [OF this]
  then show ?thesis
    using assms by (auto simp: progress_def reduced_def chunkLo_def chunkHi_def NewDenseArray_def slice_lo_hi)
qed

lemma reduced_complete:
  assumes "redInv len s elem func z" "\<forall>i\<in>{..<s}. finishedAt (chunkHi len s) i z" "i < s"
  shows "i < length (subreductions z)"
    "subreductions z ! i = Some (seg func elem (32 * chunkLo len s i) (sliceEnd len s i))"
  using redInv_chunk [OF assms(1,3)] redInv_bounds(5) [OF assms(1,3)] assms(2,3)
  by (auto simp: finishedAt_def sliceEnd_def)

text \<open>The fold of the partial results.\<close>

lemma combine_slices:
  assumes "redInv len s elem func z" "\<forall>i\<in>{..<s}. finishedAt (chunkHi len s) i z" "0 < s" "assoc_fun func"
  shows "runOp (bindP (loadElem subreductions 0) (\<lambda>accumulator.
           loopP [1..<s] accumulator (\<lambda>i accumulator.
             bindP (loadElem subreductions i) (\<lambda>x. Ret (func accumulator x))))) z
         = Inr (seg func elem 0 len)"
proof -
  note b = redInv_chunk(1,2) [OF assms(1,3)]
  let ?sub = "\<lambda>i. seg func elem (32 * chunkLo len s i) (sliceEnd len s i)"
  let ?I = "\<lambda>k acc w. w = z \<and> acc = seg func elem 0 (sliceEnd len s (k - 1))"
  have load: "safe alone (\<lambda>w. w = z \<and> R) (loadElem subreductions i) (\<lambda>x w. (w = z \<and> R) \<and> x = ?sub i) B" if "i < s" for i R B
    by (rule safe_loadElem) (use reduced_complete [OF assms(1,2) that] in auto)
  have step: "safe alone (?I k acc) (bindP (loadElem subreductions k) (\<lambda>x. Ret (func acc x))) (?I (k + 1)) B"
    if "1 \<le> k" "k < s" for k acc B
    by (rule safe_bind [OF load [OF that(2)] safe_ret])
      (use that seg_slices [OF assms(4) b, of "k - 1" elem] in auto)
  have start: "safe alone (\<lambda>w. w = z \<and> True) (loadElem subreductions 0) (?I 1) (\<lambda>_. True)"
    by (rule safe_weaken [OF load [OF assms(3)]]) (auto simp: slice_bounds(5) [OF b assms(3)])
  have "1 \<le> s" using assms(3) by simp
  then have "safe alone (\<lambda>w. w = z \<and> True) (bindP (loadElem subreductions 0) (\<lambda>accumulator.
           loopP [1..<s] accumulator (\<lambda>i accumulator.
             bindP (loadElem subreductions i) (\<lambda>x. Ret (func accumulator x))))) (?I s) (\<lambda>_. True)"
    using step by (intro safe_bind [OF start] safe_loop [where I = ?I])
  then have "safe alone (\<lambda>w. w = z \<and> True) (bindP (loadElem subreductions 0) (\<lambda>accumulator.
           loopP [1..<s] accumulator (\<lambda>i accumulator.
             bindP (loadElem subreductions i) (\<lambda>x. Ret (func accumulator x)))))
           (\<lambda>x w. x = seg func elem 0 len) (\<lambda>_. True)"
    by (rule safe_weaken) (use assms(3) slice_bounds(4) [OF b, of "s - 1"] in auto)
  then show ?thesis
    by (rule safe_outcome [where z = z]) (auto simp: runOp_def)
qed

lemma loopP_ret: "loopP is acc (\<lambda>i acc. Ret (g i acc)) = Ret (fold g is acc)"
  by (induction "is" arbitrary: acc) auto

lemma sequential_fold:
  "runOp (loopP [1..<len] (elem 0) (\<lambda>i acc. Ret (func acc (elem i)))) z = Inr (seg func elem 0 len)"
  by (simp add: loopP_ret seg_def foldl_conv_fold)

section \<open>Properties\<close>

text \<open>
  C28: For an associative callback without effects that always returns, and fewer than \<open>2 ^ 28\<close> elements, \<open>reduce\<close>
  gives the left fold of the elements, whatever the number of slices and however ForkJoin interleaves their
  operations, with warm-ups, bailouts at any operation and retries; the empty array is an error. With such a
  callback it fails otherwise only if ForkJoin never goes to its last resort, or a testing mode is refused.
\<close>

theorem reduce_parallel:
  assumes "pa_shape self ! 0 < 2 ^ 28" "0 < numSlices e" "assoc_fun func"
  shows "if pa_shape self ! 0 = 0
    then ParallelArrayReduce e func mode self = Inl (JSMSG ''JSMSG_PAR_ARRAY_REDUCE_EMPTY'')
    else endsIn e 1 mode
      (\<lambda>r. r = foldl func (callGet self [0]) (map (\<lambda>i. callGet self [int i]) [1..<pa_shape self ! 0]))
      (ParallelArrayReduce e func mode self)"
proof (cases "pa_shape self ! 0 = 0")
  case True
  then show ?thesis by (simp add: ParallelArrayReduce_def)
next
  case False
  let ?len = "pa_shape self ! 0" and ?elem = "\<lambda>i. callGet self [int i]"
  let ?P = "\<lambda>r. r = foldl func (callGet self [0]) (map ?elem [1..<?len])"
  have result: "?P (seg func ?elem 0 ?len)" by (simp add: seg_def foldl_map)
  have par: "endsIn e 1 mode ?P (runOp (bindP (ForkJoin (reduceSlice ?len ?elem func) (numSlices e) (scheduleAt e 0)) (\<lambda>_.
        bindP (loadElem subreductions 0) (\<lambda>accumulator. loopP [1..<numSlices e] accumulator (\<lambda>i accumulator.
          bindP (loadElem subreductions i) (\<lambda>x. Ret (func accumulator x))))))
      \<lparr>info = ComputeAllSliceBounds (ComputeNumChunks ?len) (numSlices e), subreductions = NewDenseArray (numSlices e)\<rparr>)"
    if "\<not> forceSequential e" "numSlices e \<le> ComputeNumChunks ?len"
  proof (rule reduce_slice.endsIn_join [OF redInv_init [OF assms(1) that(2)] that(1)])
    fix z' :: "'a pval red_mem"
    assume "redInv ?len (numSlices e) ?elem func z'"
      "\<forall>i\<in>{..<numSlices e}. finishedAt (chunkHi ?len (numSlices e)) i z'"
    from combine_slices [OF this assms(2,3)] result
    show "endsIn e 1 mode ?P (runOp (bindP (loadElem subreductions 0) (\<lambda>accumulator.
        loopP [1..<numSlices e] accumulator (\<lambda>i accumulator.
          bindP (loadElem subreductions i) (\<lambda>x. Ret (func accumulator x))))) z')"
      by (simp only: endsIn_def sum.case)
  qed simp_all
  have seq: "endsIn e 1 mode ?P (runOp (loopP [1..<?len] (?elem 0) (\<lambda>i acc. Ret (func acc (?elem i)))) z)" for z :: "'a pval red_mem"
    using sequential_fold [of ?len ?elem func z] result by (simp only: endsIn_def sum.case)
  show ?thesis
    using False unfolding ParallelArrayReduce_def Let_def
    by (cases "\<not> forceSequential e \<and> TRY_PARALLEL mode \<and> \<not> ComputeNumChunks ?len < numSlices e")
      (simp_all only: if_True if_False simp_thms not_less par endsIn_parallel endsIn_sequential [OF seq])
qed

lemma reduce_parallel_witness:
  "ParallelArrayReduce \<lparr>forceSequential = False, numSlices = 2, testsShouldPass = True,
       schedules = [[Start 0 False, Start 1 True, Run 1, Run 0, Run 1, Run 0] @ sequentially 2]\<rparr>
     (\<lambda>x y. y) None (ParallelArrayView [40] (map Some [0..<40]) 0) = Inr (PElem 39)"
  (is "ParallelArrayReduce ?e ?f None ?pa = _")
proof -
  have "callGet ?pa [int 39] = PElem 39"
    by (simp add: callGet_def ParallelArrayView_def ParallelArrayGet1_def bufferAt_def)
  moreover have "[1..<40] = [1..<39] @ [39]" using upt_Suc_append [of 1 39] by simp
  ultimately have last: "foldl ?f (callGet ?pa [0]) (map (\<lambda>i. callGet ?pa [int i]) [1..<40]) = PElem 39"
    by simp
  have "endsIn ?e 1 None (\<lambda>r. r = foldl ?f (callGet ?pa [0]) (map (\<lambda>i. callGet ?pa [int i]) [1..<40]))
      (ParallelArrayReduce ?e ?f None ?pa)"
    using reduce_parallel [of ?pa ?e ?f None] by (simp add: assoc_fun_def)
  moreover have "lastResort ?e 0" unfolding lastResort_def scheduleAt_def by auto
  ultimately show ?thesis unfolding last by (auto dest!: endsIn_result)
qed

end
