(* ===== verification/Parallel_Scan.thy ===== *)
theory Parallel_Scan
  imports Parallel_Reduce
begin

text \<open>
  \<open>ParallelArrayScan\<close> of \<open>builtin/ParallelArray.js\<close>: the array of all prefix folds, in two joins. In
  \<open>phase1\<close> every slice scans its own elements; the folds of whole slices give the \<open>intermediates\<close>,
  sequentially; in \<open>phase2\<close> every slice but the first combines its elements, in place and index by
  index, with the fold of everything before it.
\<close>

section \<open>Phase 1\<close>

definition scan :: "(nat \<Rightarrow> 'v) \<Rightarrow> ('v \<Rightarrow> 'v \<Rightarrow> 'v) \<Rightarrow> 'v \<Rightarrow> nat \<Rightarrow> nat \<Rightarrow> ('v buf_mem, 'v) pjs" where
  "scan elem func accumulator start end =
     bindP (storeBuffer start accumulator) (\<lambda>_.
     loopP [start + 1..<end] accumulator (\<lambda>i accumulator.
       bindP (callFunc (func accumulator (elem i))) (\<lambda>accumulator.
       bindP (storeBuffer i accumulator) (\<lambda>_. Ret accumulator))))"

definition setPosition :: "nat \<Rightarrow> nat \<Rightarrow> ('v buf_mem, unit) pjs" where
  "setPosition i p = UnsafeSetElement (posOk i) (setPos i p)"

definition phase1First :: "nat \<Rightarrow> (nat \<Rightarrow> 'v) \<Rightarrow> ('v \<Rightarrow> 'v \<Rightarrow> 'v) \<Rightarrow> nat \<Rightarrow> nat \<Rightarrow> ('v buf_mem, unit) pjs" where
  "phase1First len elem func sliceId chunkPos =
     (let indexStart = shl5 chunkPos; indexEnd = min (indexStart + CHUNK_SIZE) len
      in bindP (scan elem func (elem indexStart) indexStart indexEnd) (\<lambda>_.
         setPosition sliceId (chunkPos + 1)))"

definition phase1Next :: "nat \<Rightarrow> (nat \<Rightarrow> 'v) \<Rightarrow> ('v \<Rightarrow> 'v \<Rightarrow> 'v) \<Rightarrow> nat \<Rightarrow> nat \<Rightarrow> ('v buf_mem, unit) pjs" where
  "phase1Next len elem func sliceId chunkPos =
     (let indexStart = shl5 chunkPos; indexEnd = min (indexStart + CHUNK_SIZE) len
      in bindP (loadElem buffer (indexStart - 1)) (\<lambda>prev.
         bindP (callFunc (func prev (elem indexStart))) (\<lambda>accumulator.
         bindP (scan elem func accumulator indexStart indexEnd) (\<lambda>_.
         setPosition sliceId (chunkPos + 1)))))"

definition phase1 :: "nat \<Rightarrow> (nat \<Rightarrow> 'v) \<Rightarrow> ('v \<Rightarrow> 'v \<Rightarrow> 'v) \<Rightarrow> 'v buf_mem kernel" where
  "phase1 len elem func sliceId warmup =
     bindP (load (\<lambda>z. info z ! SLICE_START sliceId)) (\<lambda>chunkStart.
     bindP (load (\<lambda>z. info z ! SLICE_POS sliceId)) (\<lambda>chunkPos.
     bindP (load (\<lambda>z. info z ! SLICE_END sliceId)) (\<lambda>chunkEnd.
     let chunkEnd = (if warmup \<and> chunkEnd > chunkPos + 2 then chunkPos + 2 else chunkEnd) in
     bindP (if chunkPos = chunkStart
            then bindP (phase1First len elem func sliceId chunkPos) (\<lambda>_. Ret (chunkPos + 1))
            else Ret chunkPos) (\<lambda>chunkPos.
     bindP (loopP [chunkPos..<chunkEnd] () (\<lambda>chunk _. phase1Next len elem func sliceId chunk)) (\<lambda>_.
     bindP (load (\<lambda>z. info z ! SLICE_END sliceId)) (\<lambda>sliceEnd. Ret (chunkEnd = sliceEnd)))))))"

section \<open>Between the phases\<close>

definition finalElement :: "nat \<Rightarrow> nat list \<Rightarrow> nat \<Rightarrow> nat" where
  "finalElement len bounds sliceId =
     (let chunkEnd = bounds ! SLICE_END sliceId; indexStart = min (shl5 chunkEnd) len in indexStart - 1)"

definition computeIntermediates :: "nat \<Rightarrow> ('v \<Rightarrow> 'v \<Rightarrow> 'v) \<Rightarrow> nat \<Rightarrow> ('v buf_mem, 'v list) pjs" where
  "computeIntermediates len func n =
     bindP (load info) (\<lambda>bounds.
     bindP (loadElem buffer (finalElement len bounds 0)) (\<lambda>accumulator.
     bindP (loopP [1..<n - 1] (accumulator, [accumulator]) (\<lambda>i (accumulator, intermediates).
       bindP (loadElem buffer (finalElement len bounds i)) (\<lambda>x.
       let accumulator = func accumulator x in Ret (accumulator, intermediates @ [accumulator]))))
       (\<lambda>(_, intermediates). Ret intermediates)))"

text \<open>Positions and ends become indices; the starts stay chunks.\<close>

definition resetSlice :: "nat \<Rightarrow> nat list \<Rightarrow> nat list" where
  "resetSlice i bounds =
     (let bounds = bounds[SLICE_POS i := shl5 (bounds ! SLICE_START i)]
      in bounds[SLICE_END i := shl5 (bounds ! SLICE_END i)])"

definition resetPositions :: "nat \<Rightarrow> nat \<Rightarrow> nat list \<Rightarrow> nat list" where
  "resetPositions len n bounds =
     (let bounds = fold resetSlice [0..<n] bounds
      in bounds[SLICE_END (n - 1) := min (bounds ! SLICE_END (n - 1)) len])"

definition reset :: "nat \<Rightarrow> nat \<Rightarrow> ('v buf_mem, unit) pjs" where
  "reset len n = Store (\<lambda>_. Ret ()) (\<lambda>z. z\<lparr>info := resetPositions len n (info z)\<rparr>)"

section \<open>Phase 2\<close>

definition phase2Step :: "('v \<Rightarrow> 'v \<Rightarrow> 'v) \<Rightarrow> 'v \<Rightarrow> nat \<Rightarrow> nat \<Rightarrow> ('v buf_mem, unit) pjs" where
  "phase2Step func intermediate sliceId indexPos =
     bindP (loadElem buffer indexPos) (\<lambda>x.
     bindP (callFunc (func intermediate x)) (\<lambda>v.
     UnsafeSetElement (\<lambda>z. indexPos < length (buffer z) \<and> posOk sliceId z)
       (\<lambda>z. setPos sliceId (indexPos + 1) (storeAt indexPos v z))))"

definition phase2 :: "('v \<Rightarrow> 'v \<Rightarrow> 'v) \<Rightarrow> 'v list \<Rightarrow> 'v buf_mem kernel" where
  "phase2 func intermediates sliceId warmup =
     (if sliceId = 0 then Ret True
      else
       bindP (load (\<lambda>z. info z ! SLICE_POS sliceId)) (\<lambda>indexPos.
       bindP (load (\<lambda>z. info z ! SLICE_END sliceId)) (\<lambda>indexEnd.
       let indexEnd = (if warmup then min indexEnd (indexPos + CHUNK_SIZE) else indexEnd);
           intermediate = intermediates ! (sliceId - 1) in
       bindP (loopP [indexPos..<indexEnd] () (\<lambda>indexPos _. phase2Step func intermediate sliceId indexPos)) (\<lambda>_.
       bindP (load (\<lambda>z. info z ! SLICE_END sliceId)) (\<lambda>sliceEnd. Ret (indexEnd = sliceEnd))))))"

definition ParallelArrayScan ::
  "engine \<Rightarrow> ('v pval \<Rightarrow> 'v pval \<Rightarrow> 'v pval) \<Rightarrow> exec_mode option \<Rightarrow> 'v parray \<Rightarrow> jserr + 'v pval parray" where
  "ParallelArrayScan e func mode self =
     (let length = pa_shape self ! 0; elem = (\<lambda>i. callGet self [int i]);
          chunks = ComputeNumChunks length; numSlices = numSlices e;
          result = bindP (load buffer) (\<lambda>b. Ret (ParallelArrayView [length] b 0)) in
      if length = 0 then Inl (JSMSG ''JSMSG_PAR_ARRAY_REDUCE_EMPTY'')
      else if \<not> forceSequential e \<and> TRY_PARALLEL mode \<and> \<not> chunks < numSlices
      then let bounds = ComputeAllSliceBounds chunks numSlices
           in runOp (bindP (ForkJoinMode mode) (\<lambda>_.
                     bindP (ForkJoin (phase1 length elem func) numSlices (scheduleAt e 0)) (\<lambda>_.
                     bindP (computeIntermediates length func numSlices) (\<lambda>intermediates.
                     bindP (reset length numSlices) (\<lambda>_.
                     bindP (ForkJoin (phase2 func intermediates) numSlices (scheduleAt e 1)) (\<lambda>_. result))))))
                \<lparr>info = bounds, buffer = NewDenseArray length\<rparr>
      else runOp (bindP (ASSERT_SEQUENTIAL_IS_OK (testsShouldPass e) mode) (\<lambda>_.
                  bindP (scan elem func (elem 0) 0 length) (\<lambda>_. result)))
             \<lparr>info = [], buffer = NewDenseArray length\<rparr>)"

section \<open>Phase 1 is safe\<close>

text \<open>A slice at chunk \<open>p\<close> has the prefix folds of its own elements in the chunks below \<open>p\<close>.\<close>

definition scanned :: "nat \<Rightarrow> nat \<Rightarrow> (nat \<Rightarrow> 'v) \<Rightarrow> ('v \<Rightarrow> 'v \<Rightarrow> 'v) \<Rightarrow> nat \<Rightarrow> nat \<Rightarrow> 'v buf_mem \<Rightarrow> bool" where
  "scanned len s elem func i p z \<longleftrightarrow> len < 2 ^ 28 \<and> s \<le> ComputeNumChunks len \<and> length (buffer z) = len \<and>
     info z ! SLICE_START i = chunkLo len s i \<and>
     (\<forall>k. 32 * chunkLo len s i \<le> k \<longrightarrow> k < 32 * p \<longrightarrow> k < len \<longrightarrow>
        buffer z ! k = Some (seg func elem (32 * chunkLo len s i) (k + 1)))"

abbreviation scanInv :: "nat \<Rightarrow> nat \<Rightarrow> (nat \<Rightarrow> 'v) \<Rightarrow> ('v \<Rightarrow> 'v \<Rightarrow> 'v) \<Rightarrow> 'v buf_mem \<Rightarrow> bool" where
  "scanInv len s elem func \<equiv> progress s (chunkLo len s) (chunkHi len s) (scanned len s elem func)"

lemma scanInv_slice:
  assumes "scanInv len s elem func z" "i < s"
  shows "len < 2 ^ 28" "s \<le> ComputeNumChunks len" "length (buffer z) = len"
    "info z ! SLICE_START i = chunkLo len s i" "info z ! SLICE_END i = chunkHi len s i"
    "chunkLo len s i \<le> info z ! SLICE_POS i" "info z ! SLICE_POS i \<le> chunkHi len s i"
    "chunkLo len s i < chunkHi len s i"
  using progress_pos(1-4) [OF assms] slice_nonempty [OF _ assms(2), of len] by (auto simp: scanned_def)

text \<open>
  The scan loop of slice \<open>i\<close> from index \<open>a\<close>: at every point the indices reached hold the prefix folds of
  the slice, and whatever storing such folds keeps is kept.
\<close>

lemma chunkView_read:
  assumes "fst (chunkView len s i) z w"
  shows "length (buffer w) = length (buffer z)"
    "32 * chunkLo len s i \<le> k \<Longrightarrow> k < 32 * chunkHi len s i \<Longrightarrow> k < length (buffer z) \<Longrightarrow> buffer w ! k = buffer z ! k"
  using viewOf_slice(1) [OF assms] by (auto simp: ownChunks_def dest: sameRange_length sameRange_nth)

lemma scan_safe:
  assumes ab: "lo \<le> a" "a < b" "b \<le> len" "storable V a b"
    and J: "\<And>z. J z \<Longrightarrow> length (buffer z) = len"
      "\<And>z k. J z \<Longrightarrow> a \<le> k \<Longrightarrow> k < b \<Longrightarrow> J (storeAt k (seg func elem lo (k + 1)) z)"
    and acc: "acc = seg func elem lo (a + 1)"
  shows "safe V J (scan elem func acc a b)
    (\<lambda>_ z. J z \<and> (\<forall>k. a \<le> k \<and> k < b \<longrightarrow> buffer z ! k = Some (seg func elem lo (k + 1)))) J"
proof -
  let ?val = "\<lambda>k. seg func elem lo (k + 1)"
  let ?done = "\<lambda>n z. J z \<and> (\<forall>k. a \<le> k \<and> k < n \<longrightarrow> buffer z ! k = Some (?val k))"
  have store: "safe V (\<lambda>z. ?done n z \<and> v = ?val n) (storeBuffer n v) (\<lambda>_ z. ?done (n + 1) z \<and> v = ?val n) J"
    if "a \<le> n" "n < b" for n v
    unfolding storeBuffer_def
  proof (rule safe_set)
    fix z z' assume z: "?done n z \<and> v = ?val n" "fst V z z'"
    show "n < length (buffer z') \<and> fst V (storeAt n v z) (storeAt n v z') \<and> snd V z' (storeAt n v z')"
      using storableD [OF ab(4) that z(2)] z(1) J(1) that ab(3) by auto
  qed (use that ab J in \<open>auto simp: nth_list_update less_Suc_eq\<close>)
  have body: "safe V (\<lambda>z. ?done n z \<and> acc = ?val (n - 1))
      (bindP (callFunc (func acc (elem n))) (\<lambda>v. bindP (storeBuffer n v) (\<lambda>_. Ret v)))
      (\<lambda>v z. ?done (n + 1) z \<and> v = ?val (n + 1 - 1)) J" if "a + 1 \<le> n" "n < b" for n acc
    using that ab
    by (intro safe_bind [OF safe_callFunc] safe_bind [OF safe_weaken [OF store]] safe_ret)
      (auto simp: seg_step [simplified])
  let ?I = "\<lambda>n acc z. ?done n z \<and> acc = ?val (n - 1)"
  have first: "safe V (\<lambda>z. ?done a z \<and> acc = ?val a) (storeBuffer a acc) (\<lambda>_. ?I (a + 1) acc) J"
    using store [of a acc] ab by simp
  have loop: "safe V (?I (a + 1) acc) (loopP [a + 1..<b] acc (\<lambda>n acc.
      bindP (callFunc (func acc (elem n))) (\<lambda>v. bindP (storeBuffer n v) (\<lambda>_. Ret v)))) (?I b) J"
    by (rule safe_loop [where I = ?I, OF body]) (use ab in auto)
  have "safe V (\<lambda>z. ?done a z \<and> acc = ?val a) (scan elem func acc a b) (?I b) J"
    unfolding scan_def by (rule safe_bind [OF first loop])
  then show ?thesis by (rule safe_weaken) (use acc in auto)
qed

lemma chunk_owner:
  assumes "i < s" "j < s" "chunkLo len s i \<le> c" "c < chunkHi len s i" "chunkLo len s j \<le> c" "c < chunkHi len s j"
  shows "i = j"
  using slices_ordered [of i j s "ComputeNumChunks len"] slices_ordered [of j i s "ComputeNumChunks len"] assms
  by (cases i j rule: linorder_cases) (auto simp: chunkLo_def chunkHi_def)

lemma scanInv_storeAt:
  assumes inv: "scanInv len s elem func z" and i: "i < s" "32 * chunkLo len s i \<le> k" "k < 32 * chunkHi len s i" "k < len"
  shows "scanInv len s elem func (storeAt k (seg func elem (32 * chunkLo len s i) (k + 1)) z)" (is "scanInv _ _ _ _ ?z")
proof -
  have "scanned len s elem func j (info z ! SLICE_POS j) ?z" if j: "j < s" for j
  proof -
    note sj = scanInv_slice [OF inv j]
    have sc: "scanned len s elem func j (info z ! SLICE_POS j) z" using progress_pos(4) [OF inv j] .
    have "i = j" if "32 * chunkLo len s j \<le> k" "k < 32 * info z ! SLICE_POS j"
    proof (rule chunk_owner [OF i(1) j])
      have "k < 32 * chunkHi len s j" using that sj(7) by simp
      then show "chunkLo len s i \<le> k div 32" "k div 32 < chunkHi len s i" "chunkLo len s j \<le> k div 32"
        "k div 32 < chunkHi len s j"
        using i that by (simp_all add: less_eq_div_iff_mult_less_eq div_less_iff_less_mult mult.commute)
    qed
    then show ?thesis using sc i(4) by (auto simp: scanned_def nth_list_update)
  qed
  then show ?thesis using inv by (simp add: progress_def)
qed

lemma scanned_setPos [simp]: "scanned len s elem func i p (setPos j q z) = scanned len s elem func i p z"
  by (simp add: scanned_def)

lemma phase1_position:
  assumes "i < s" "chunkLo len s i \<le> c" "c < chunkHi len s i" "w ! SLICE_POS i = c"
  shows "safe (chunkView len s i) (\<lambda>z. (scanInv len s elem func z \<and> info z = w) \<and> (\<forall>k. 32 * c \<le> k \<and> k < min (32 * c + 32) len \<longrightarrow>
             buffer z ! k = Some (seg func elem (32 * chunkLo len s i) (k + 1))))
    (setPosition i (c + 1)) (\<lambda>_ z. scanInv len s elem func z \<and> info z = w[SLICE_POS i := c + 1])
    (\<lambda>z. scanInv len s elem func z \<and> info z = w)"
  unfolding setPosition_def
proof (rule safe_set, elim conjE)
  fix z assume z: "scanInv len s elem func z" "info z = w"
    "\<forall>k. 32 * c \<le> k \<and> k < min (32 * c + 32) len \<longrightarrow>
       buffer z ! k = Some (seg func elem (32 * chunkLo len s i) (k + 1))"
  have "scanned len s elem func i c z" using progress_pos(4) [OF z(1) assms(1)] z(2) assms(4) by simp
  then have "scanned len s elem func i (c + 1) z" using z(3) by (auto simp: scanned_def not_less)
  then have "scanInv len s elem func (setPos i (c + 1) z)" using z assms by (intro progress_setPos) auto
  then show "posOk i z \<and> (scanInv len s elem func (setPos i (c + 1) z) \<and> info (setPos i (c + 1) z) = w[SLICE_POS i := c + 1]) \<and>
      scanInv len s elem func z \<and> info z = w"
    using z assms(1) by (simp add: progress_pos(5))
next
  fix z z' assume z: "(scanInv len s elem func z \<and> info z = w) \<and> (\<forall>k. 32 * c \<le> k \<and> k < min (32 * c + 32) len \<longrightarrow>
       buffer z ! k = Some (seg func elem (32 * chunkLo len s i) (k + 1)))" "fst (chunkView len s i) z z'"
  show "posOk i z' \<and> fst (chunkView len s i) (setPos i (c + 1) z) (setPos i (c + 1) z') \<and>
      snd (chunkView len s i) z' (setPos i (c + 1) z')"
    using z assms(1) progress_pos(5) by (intro chunkView_setPos) blast+
qed

definition phase1Step :: "nat \<Rightarrow> nat \<Rightarrow> (nat \<Rightarrow> 'v) \<Rightarrow> ('v \<Rightarrow> 'v \<Rightarrow> 'v) \<Rightarrow> nat \<Rightarrow> nat \<Rightarrow> ('v buf_mem, unit) pjs" where
  "phase1Step len s elem func i c =
     (if c = chunkLo len s i then phase1First len elem func i c else phase1Next len elem func i c)"

text \<open>The scan of one chunk, from the accumulator of the slice so far.\<close>

lemma phase1_chunk:
  assumes "i < s" "chunkLo len s i \<le> c" "c < chunkHi len s i" "w ! SLICE_POS i = c" "len < 2 ^ 28"
    "acc = seg func elem (32 * chunkLo len s i) (32 * c + 1)"
  shows "safe (chunkView len s i) (\<lambda>z. scanInv len s elem func z \<and> info z = w)
    (bindP (scan elem func acc (32 * c) (min (32 * c + 32) len)) (\<lambda>_. setPosition i (c + 1)))
    (\<lambda>_ z. scanInv len s elem func z \<and> info z = w[SLICE_POS i := c + 1])
    (\<lambda>z. scanInv len s elem func z \<and> info z = w)"
proof (rule safe_bind [OF scan_safe [where len = len] phase1_position [OF assms(1-4)]])
  show "32 * c < min (32 * c + 32) len" using chunk_start(2) [OF assms(5,1,3)] by simp
  show "storable (chunkView len s i) (32 * c) (min (32 * c + 32) len)" using assms by (intro chunk_storable) auto
  fix z k
  assume "scanInv len s elem func z \<and> info z = w" "32 * c \<le> k" "k < min (32 * c + 32) len"
  then show "scanInv len s elem func (storeAt k (seg func elem (32 * chunkLo len s i) (k + 1)) z) \<and>
      info (storeAt k (seg func elem (32 * chunkLo len s i) (k + 1)) z) = w"
    using assms by (intro conjI scanInv_storeAt) auto
qed (use assms in \<open>auto simp: scanInv_slice(3)\<close>)

lemma phase1Step_safe:
  assumes i: "i < s" "chunkLo len s i \<le> c" "c < chunkHi len s i" "w ! SLICE_POS i = c"
  shows "safe (chunkView len s i) (\<lambda>z. scanInv len s elem func z \<and> info z = w) (phase1Step len s elem func i c)
    (\<lambda>_ z. scanInv len s elem func z \<and> info z = w[SLICE_POS i := c + 1])
    (\<lambda>z. scanInv len s elem func z \<and> info z = w)" (is "safe _ ?I _ ?Q ?I")
proof (rule safe_pre [where c = "len < 2 ^ 28"])
  assume len: "len < 2 ^ 28"
  let ?lo = "32 * chunkLo len s i"
  note start = chunk_start [OF len i(1,3)]
  show "safe (chunkView len s i) ?I (phase1Step len s elem func i c) ?Q ?I"
  proof (cases "c = chunkLo len s i")
    case True
    then show ?thesis
      using phase1_chunk [OF i len, of "elem (32 * c)" func elem] start
      by (simp add: phase1Step_def phase1First_def CHUNK_SIZE_def Let_def seg_single [simplified])
  next
    case False
    then have lo: "?lo < 32 * c" using i(2) by simp
    have load: "safe (chunkView len s i) ?I (loadElem buffer (32 * c - 1)) (\<lambda>x z. ?I z \<and> x = seg func elem ?lo (32 * c)) ?I"
    proof (rule safe_loadElem)
      fix z assume z: "?I z"
      then have "scanned len s elem func i c z" using progress_pos(4) [of s _ _ _ z i] i by auto
      moreover have "32 * c - 1 + 1 = 32 * c" using lo by simp
      ultimately show "32 * c - 1 < length (buffer z) \<and> buffer z ! (32 * c - 1) = Some (seg func elem ?lo (32 * c))"
        using lo start(2) by (auto simp: scanned_def)
    next
      fix z z' assume z: "?I z" "fst (chunkView len s i) z z'"
      have "length (buffer z) = len" using z(1) scanInv_slice(3) i(1) by blast
      then show "length (buffer z') = length (buffer z) \<and> buffer z' ! (32 * c - 1) = buffer z ! (32 * c - 1)"
        using chunkView_read(1) [OF z(2)] chunkView_read(2) [OF z(2), of "32 * c - 1"] i(2,3) lo start(2) by auto
    qed
    have rest: "safe (chunkView len s i) (\<lambda>z. (?I z \<and> x = seg func elem ?lo (32 * c)) \<and> v = func x (elem (32 * c)))
        (bindP (scan elem func v (32 * c) (min (32 * c + 32) len)) (\<lambda>_. setPosition i (c + 1))) ?Q ?I" for x v
    proof (rule safe_pre [where c = "v = seg func elem ?lo (32 * c + 1)"])
      assume v: "v = seg func elem ?lo (32 * c + 1)"
      show ?thesis by (rule safe_weaken [OF phase1_chunk [OF i len v]]) auto
    qed (use seg_step [OF lo, of func elem] in auto)
    have "safe (chunkView len s i) ?I (bindP (loadElem buffer (32 * c - 1)) (\<lambda>prev.
        bindP (callFunc (func prev (elem (32 * c)))) (\<lambda>accumulator.
        bindP (scan elem func accumulator (32 * c) (min (32 * c + 32) len)) (\<lambda>_. setPosition i (c + 1))))) ?Q ?I"
      by (rule safe_bind [OF load safe_bind [OF safe_callFunc rest]])
    then show ?thesis
      using False start by (simp add: phase1Step_def phase1Next_def CHUNK_SIZE_def Let_def)
  qed
qed (use i(1) scanInv_slice(1) in blast)

lemma ownChunks_scanned:
  assumes "p \<le> chunkHi len s i" "ownChunks len s i z w" "scanned len s elem func i p z"
  shows "scanned len s elem func i p w"
  using assms by (auto simp: ownChunks_def scanned_def dest: sameRange_length sameRange_nth)

interpretation phase1_steps: stepwise s "chunkLo len s" "chunkHi len s" "scanned len s elem func" "phase1Step len s elem func"
    "ownChunks len s" for s len elem func
  by unfold_locales (rule ownChunks_equivp, erule (2) ownChunks_scanned, rule phase1Step_safe)

text \<open>The kernel: its first chunk when it is at its start, then the others.\<close>

lemma phase1_safe:
  assumes i: "i < s"
  shows "safe (chunkView len s i) (\<lambda>z. scanInv len s elem func z \<and> (\<forall>j\<in>D. finishedAt (chunkHi len s) j z))
     (phase1 len elem func i warmup)
     (\<lambda>done z. (scanInv len s elem func z \<and> (\<forall>j\<in>D. finishedAt (chunkHi len s) j z)) \<and>
        (done \<longrightarrow> finishedAt (chunkHi len s) i z) \<and> (\<not> warmup \<longrightarrow> done))
     (\<lambda>z. scanInv len s elem func z \<and> (\<forall>j\<in>D. finishedAt (chunkHi len s) j z))"
    (is "safe _ ?K _ ?Q ?K")
proof -
  let ?lo = "chunkLo len s i" and ?hi = "chunkHi len s i"
  let ?at = "\<lambda>c z. ?K z \<and> info z ! SLICE_POS i = c"
  let ?stop = "\<lambda>p. if warmup \<and> ?hi > p + 2 then p + 2 else ?hi"
  have step: "safe (chunkView len s i) (?at c) (phase1Step len s elem func i c) (\<lambda>_. ?at (c + 1)) ?K" if "?lo \<le> c" "c < ?hi" for c
    by (rule safe_weaken [OF phase1_steps.kept_step [OF i that, where D = D and elem = elem and func = func]])
      (auto simp: phase1_steps.kept_def)
  have tail: "safe (chunkView len s i) (?at stop) (bindP (load (\<lambda>z. info z ! SLICE_END i)) (\<lambda>e. Ret (stop = e))) ?Q ?K"
    if "\<not> warmup \<longrightarrow> stop = ?hi" for stop
    by (rule safe_bind [OF safe_load [OF viewOf_slice(5)] safe_ret])
      (use i that in \<open>auto simp: finishedAt_def scanInv_slice(5)\<close>)
  have loop: "safe (chunkView len s i) (\<lambda>z. ?at p' z \<and> ?lo < p' \<and> p' \<le> stop)
      (loopP [p'..<stop] () (\<lambda>c _. phase1Next len elem func i c)) (\<lambda>_. ?at stop) ?K"
    if "stop \<le> ?hi" for p' stop
  proof (rule safe_pre [where c = "?lo < p' \<and> p' \<le> stop"])
    assume p': "?lo < p' \<and> p' \<le> stop"
    have "safe (chunkView len s i) (?at c) (phase1Next len elem func i c) (\<lambda>_. ?at (c + 1)) ?K" if "p' \<le> c" "c < stop" for c
      using step [of c] that p' \<open>stop \<le> ?hi\<close> by (simp add: phase1Step_def)
    then have "safe (chunkView len s i) (?at p') (loopP [p'..<stop] () (\<lambda>c _. phase1Next len elem func i c)) (\<lambda>_. ?at stop) ?K"
      using p' by (intro safe_loop [where I = "\<lambda>c _. ?at c"]) auto
    then show ?thesis by (rule safe_weaken) auto
  qed simp
  have first: "safe (chunkView len s i) (?at p) (if p = ?lo then bindP (phase1First len elem func i p) (\<lambda>_. Ret (p + 1)) else Ret p)
      (\<lambda>p' z. ?at p' z \<and> ?lo < p' \<and> p' \<le> ?stop p) ?K" if "?lo \<le> p" "p \<le> ?hi" "?lo < ?hi" for p
  proof (cases "p = ?lo")
    case True
    have "safe (chunkView len s i) (?at p) (phase1First len elem func i p) (\<lambda>_. ?at (p + 1)) ?K"
      using step [of p] that True by (simp add: phase1Step_def)
    then have "safe (chunkView len s i) (?at p) (bindP (phase1First len elem func i p) (\<lambda>_. Ret (p + 1)))
        (\<lambda>p' z. ?at p' z \<and> ?lo < p' \<and> p' \<le> ?stop p) ?K"
      by (rule safe_bind [OF _ safe_ret]) (use that True in auto)
    then show ?thesis using True by simp
  qed (use that in \<open>auto intro!: safe_ret\<close>)
  have main: "safe (chunkView len s i) (?at p) (bindP (if p = ?lo then bindP (phase1First len elem func i p) (\<lambda>_. Ret (p + 1)) else Ret p)
      (\<lambda>p'. bindP (loopP [p'..<?stop p] () (\<lambda>c _. phase1Next len elem func i c)) (\<lambda>_.
       bindP (load (\<lambda>z. info z ! SLICE_END i)) (\<lambda>e. Ret (?stop p = e))))) ?Q ?K"
    if "?lo \<le> p" "p \<le> ?hi" "?lo < ?hi" for p
    by (rule safe_bind [OF first [OF that] safe_bind [OF loop tail]]) auto
  show ?thesis
    unfolding phase1_def
  proof (rule safe_bind [OF safe_load [OF viewOf_slice(4)]], assumption,
      rule safe_bind [OF safe_load [OF viewOf_slice(3)]], assumption,
      rule safe_bind [OF safe_load [OF viewOf_slice(5)]], assumption)
    fix start p "end"
    let ?pre = "\<lambda>z. ((?K z \<and> start = info z ! SLICE_START i) \<and> p = info z ! SLICE_POS i) \<and> end = info z ! SLICE_END i"
    have c: "start = ?lo \<and> end = ?hi \<and> ?lo \<le> p \<and> p \<le> ?hi \<and> ?lo < ?hi" if "?pre z" for z
      using that i scanInv_slice [of s len elem func z i] by auto
    show "safe (chunkView len s i) ?pre (let chunkEnd = if warmup \<and> p + 2 < end then p + 2 else end in
        bindP (if p = start then bindP (phase1First len elem func i p) (\<lambda>_. Ret (p + 1)) else Ret p) (\<lambda>p'.
        bindP (loopP [p'..<chunkEnd] () (\<lambda>c _. phase1Next len elem func i c)) (\<lambda>_.
        bindP (load (\<lambda>z. info z ! SLICE_END i)) (\<lambda>e. Ret (chunkEnd = e))))) ?Q ?K"
      by (rule safe_pre [OF c]) (use main [of p] in \<open>auto simp: Let_def elim!: safe_weaken\<close>)
  qed
qed

interpretation phase1_kernel: slice_kernel "phase1 len elem func" s "scanInv len s elem func" "finishedAt (chunkHi len s)"
    "sameSlice (ownChunks len s)" for len elem func s
  by unfold_locales
    (rule phase1_steps.own_facts(1), assumption, rule phase1_steps.own_facts(2), assumption+,
     blast intro: phase1_steps.own_facts(3), rule phase1_safe)

section \<open>Phase 2 is safe\<close>

text \<open>
  A slice at index \<open>p\<close> has the prefix folds of the whole array below \<open>p\<close> and its own from \<open>p\<close> on. The
  first slice has the folds of the whole array anyway. The other clauses are what phase 2 is given.
\<close>

definition combined ::
  "nat \<Rightarrow> nat \<Rightarrow> (nat \<Rightarrow> 'v) \<Rightarrow> ('v \<Rightarrow> 'v \<Rightarrow> 'v) \<Rightarrow> 'v list \<Rightarrow> nat \<Rightarrow> nat \<Rightarrow> 'v buf_mem \<Rightarrow> bool" where
  "combined len s elem func ints i p z \<longleftrightarrow> len < 2 ^ 28 \<and> s \<le> ComputeNumChunks len \<and> assoc_fun func \<and>
     (0 < i \<longrightarrow> ints ! (i - 1) = seg func elem 0 (32 * chunkLo len s i)) \<and> length (buffer z) = len \<and>
     (\<forall>k. 32 * chunkLo len s i \<le> k \<longrightarrow> k < sliceEnd len s i \<longrightarrow> buffer z ! k =
        Some (if i = 0 \<or> k < p then seg func elem 0 (k + 1) else seg func elem (32 * chunkLo len s i) (k + 1)))"

abbreviation combInv ::
  "nat \<Rightarrow> nat \<Rightarrow> (nat \<Rightarrow> 'v) \<Rightarrow> ('v \<Rightarrow> 'v \<Rightarrow> 'v) \<Rightarrow> 'v list \<Rightarrow> 'v buf_mem \<Rightarrow> bool" where
  "combInv len s elem func ints \<equiv>
     progress s (\<lambda>i. 32 * chunkLo len s i) (sliceEnd len s) (combined len s elem func ints)"

lemma combInv_slice:
  assumes "combInv len s elem func ints z" "i < s"
  shows "len < 2 ^ 28" "s \<le> ComputeNumChunks len" "length (buffer z) = len"
  using progress_pos(4) [OF assms] by (auto simp: combined_def)

lemma index_owner:
  assumes "len < 2 ^ 28" "s \<le> ComputeNumChunks len" "i < s" "j < s"
    "32 * chunkLo len s i \<le> k" "k < sliceEnd len s i" "32 * chunkLo len s j \<le> k" "k < sliceEnd len s j"
  shows "i = j"
  using assms(3-8)
  by (intro chunk_owner [of i s j len "k div 32"])
    (simp_all add: sliceEnd_def less_eq_div_iff_mult_less_eq div_less_iff_less_mult mult.commute)

lemma combInv_store:
  assumes inv: "combInv len s elem func ints z" and i: "0 < i" "i < s" "info z ! SLICE_POS i = c" "c < sliceEnd len s i"
  shows "combInv len s elem func ints (setPos i (c + 1) (storeAt c (seg func elem 0 (c + 1)) z))" (is "combInv _ _ _ _ _ ?z")
proof -
  note sl = combInv_slice [OF inv i(2)]
  have lo: "32 * chunkLo len s i \<le> c" using progress_pos(2) [OF inv i(2)] i(3) by simp
  have "c < len" using i(4) slice_bounds(2) [OF sl(1,2) i(2)] by simp
  have "combined len s elem func ints j (info ?z ! SLICE_POS j) ?z" if j: "j < s" for j
  proof (cases "j = i")
    case True
    then show ?thesis
      using progress_pos(4) [OF inv j] i(3) \<open>c < len\<close> progress_pos(6) [OF inv j] j
      by (auto simp: combined_def nth_list_update less_Suc_eq)
  next
    case False
    then have "\<not> (32 * chunkLo len s j \<le> c \<and> c < sliceEnd len s j)"
      using index_owner [OF sl(1,2) i(2) j lo i(4)] by auto
    then show ?thesis
      using progress_pos(4) [OF inv j] False by (auto simp: combined_def nth_list_update)
  qed
  then show ?thesis using inv i by (auto simp: progress_def nth_list_update)
qed

lemma phase2Step_safe:
  assumes i: "0 < i" "i < s" "32 * chunkLo len s i \<le> c" "c < sliceEnd len s i" "w ! SLICE_POS i = c"
  shows "safe (chunkView len s i) (\<lambda>z. combInv len s elem func ints z \<and> info z = w) (phase2Step func (ints ! (i - 1)) i c)
    (\<lambda>_ z. combInv len s elem func ints z \<and> info z = w[SLICE_POS i := c + 1])
    (\<lambda>z. combInv len s elem func ints z \<and> info z = w)" (is "safe _ ?I _ ?Q ?I")
proof (rule safe_pre [where c = "len < 2 ^ 28 \<and> s \<le> ComputeNumChunks len \<and> assoc_fun func \<and>
      ints ! (i - 1) = seg func elem 0 (32 * chunkLo len s i)"])
  fix z assume "?I z"
  then show "len < 2 ^ 28 \<and> s \<le> ComputeNumChunks len \<and> assoc_fun func \<and>
      ints ! (i - 1) = seg func elem 0 (32 * chunkLo len s i)"
    using progress_pos(4) [where P = "combined len s elem func ints" and n = s and i = i and z = z] i(1,2)
    by (auto simp: combined_def)
next
  assume g: "len < 2 ^ 28 \<and> s \<le> ComputeNumChunks len \<and> assoc_fun func \<and>
      ints ! (i - 1) = seg func elem 0 (32 * chunkLo len s i)"
  let ?own = "seg func elem (32 * chunkLo len s i) (c + 1)"
  obtain j where j: "i = Suc j" using i(1) by (cases i) auto
  have "0 < 32 * chunkLo len s i"
    using slice_bounds(1,3) [of len s j] g i(2) j by auto
  then have v: "func (ints ! (i - 1)) ?own = seg func elem 0 (c + 1)" using g i(3) by (simp add: seg_append)
  have load: "safe (chunkView len s i) ?I (loadElem buffer c) (\<lambda>x z. ?I z \<and> x = ?own) ?I"
  proof (rule safe_loadElem)
    fix z assume z: "?I z"
    then have "combined len s elem func ints i c z"
      using progress_pos(4) [where P = "combined len s elem func ints" and n = s and i = i and z = z] i by auto
    then show "c < length (buffer z) \<and> buffer z ! c = Some ?own"
      using i slice_bounds(2) [of len s i] g by (auto simp: combined_def)
  next
    fix z z' assume z: "?I z" "fst (chunkView len s i) z z'"
    have "length (buffer z) = len" using z(1) combInv_slice(3) i(2) by blast
    then show "length (buffer z') = length (buffer z) \<and> buffer z' ! c = buffer z ! c"
      using chunkView_read(1) [OF z(2)] chunkView_read(2) [OF z(2), of c] i(3,4) by (auto simp: sliceEnd_def)
  qed
  have store: "safe (chunkView len s i) (\<lambda>z. (?I z \<and> x = ?own) \<and> v = func (ints ! (i - 1)) x)
      (UnsafeSetElement (\<lambda>z. c < length (buffer z) \<and> posOk i z) (\<lambda>z. setPos i (c + 1) (storeAt c v z))) ?Q ?I" for x v
  proof (rule safe_set)
    fix z assume z: "(?I z \<and> x = ?own) \<and> v = func (ints ! (i - 1)) x"
    then have "v = seg func elem 0 (c + 1)" using v by simp
    then show "(c < length (buffer z) \<and> posOk i z) \<and> ?Q () (setPos i (c + 1) (storeAt c v z)) \<and> ?I z"
      using z i g slice_bounds(2) [of len s i] combInv_store [of s len elem func ints z i c]
      by (auto simp: combInv_slice(3) progress_pos(5))
  next
    fix z z' assume z: "(?I z \<and> x = ?own) \<and> v = func (ints ! (i - 1)) x" "fst (chunkView len s i) z z'"
    have len: "length (buffer z) = len" and pos: "posOk i z" using z(1) combInv_slice(3) progress_pos(5) i(2) by blast+
    have "length (buffer z') = len" using chunkView_read(1) [OF z(2)] len by simp
    then have "c < length (buffer z') \<and> posOk i z'"
      using i(4) viewOf_slice(2) [OF z(2)] pos by (simp add: sliceEnd_def)
    moreover have "fst (chunkView len s i) (setPos i (c + 1) (storeAt c v z)) (setPos i (c + 1) (storeAt c v z')) \<and>
        snd (chunkView len s i) z' (setPos i (c + 1) (storeAt c v z'))"
    proof (rule viewOf_move [OF z(2), of "\<lambda>z. setPos i (c + 1) (storeAt c v z)"])
      show "ownChunks len s j z' (setPos i (c + 1) (storeAt c v z'))" if "j < s" "j \<noteq> i" for j
        using storeAt_other [of i s j len c z' v] i that by (simp add: sliceEnd_def)
    qed (auto simp: storeAt_own)
    ultimately show "(c < length (buffer z') \<and> posOk i z') \<and>
        fst (chunkView len s i) (setPos i (c + 1) (storeAt c v z)) (setPos i (c + 1) (storeAt c v z')) \<and>
        snd (chunkView len s i) z' (setPos i (c + 1) (storeAt c v z'))" by blast
  qed
  show "safe (chunkView len s i) ?I (phase2Step func (ints ! (i - 1)) i c) ?Q ?I"
    unfolding phase2Step_def by (rule safe_bind [OF load safe_bind [OF safe_callFunc store]])
qed

text \<open>The first slice has nothing to do, so any move of its position would do.\<close>

definition phase2Move :: "('v \<Rightarrow> 'v \<Rightarrow> 'v) \<Rightarrow> 'v list \<Rightarrow> nat \<Rightarrow> nat \<Rightarrow> ('v buf_mem, unit) pjs" where
  "phase2Move func ints i c = (if i = 0 then setPosition i (c + 1) else phase2Step func (ints ! (i - 1)) i c)"

interpretation phase2_steps: stepwise s "\<lambda>i. 32 * chunkLo len s i" "sliceEnd len s" "combined len s elem func ints"
    "phase2Move func ints" "ownChunks len s" for s len elem func ints
proof
  show "equivp (ownChunks len s i)" for i by (rule ownChunks_equivp)
  show "combined len s elem func ints i p w" if "ownChunks len s i z w" "combined len s elem func ints i p z"
    for i p z w
    using that by (auto simp: ownChunks_def combined_def sliceEnd_def dest: sameRange_length sameRange_nth)
  fix i c w
  assume i: "i < s" "32 * chunkLo len s i \<le> c" "c < sliceEnd len s i" "w ! SLICE_POS i = c"
  show "safe (chunkView len s i) (\<lambda>z. combInv len s elem func ints z \<and> info z = w) (phase2Move func ints i c)
      (\<lambda>_ z. combInv len s elem func ints z \<and> info z = w[SLICE_POS i := c + 1])
      (\<lambda>z. combInv len s elem func ints z \<and> info z = w)"
  proof (cases "i = 0")
    case True
    have "combInv len s elem func ints (setPos i (c + 1) z)" if "combInv len s elem func ints z" "info z = w" for z
      using progress_pos(4) [OF that(1) i(1)] True i that
      by (intro progress_setPos) (auto simp: combined_def)
    note keep = this
    show ?thesis
      unfolding phase2Move_def setPosition_def if_P [OF True]
    proof (rule safe_set)
      fix z z' :: "'a buf_mem"
      assume z: "combInv len s elem func ints z \<and> info z = w" "fst (chunkView len s i) z z'"
      show "posOk i z' \<and> fst (chunkView len s i) (setPos i (c + 1) z) (setPos i (c + 1) z') \<and>
          snd (chunkView len s i) z' (setPos i (c + 1) z')"
        using z progress_pos(5) i(1) by (intro chunkView_setPos) blast+
    qed (use keep i(1) in \<open>auto simp: progress_pos(5)\<close>)
  next
    case False
    then show ?thesis using i phase2Step_safe [of i s len c w elem func ints] by (simp add: phase2Move_def)
  qed
qed

definition phase2Done :: "nat \<Rightarrow> nat \<Rightarrow> nat \<Rightarrow> 'v buf_mem \<Rightarrow> bool" where
  "phase2Done len s i z \<longleftrightarrow> i = 0 \<or> finishedAt (sliceEnd len s) i z"

interpretation phase2_kernel: slice_kernel "phase2 func ints" s "combInv len s elem func ints" "phase2Done len s"
    "sameSlice (ownChunks len s)" for func ints s len elem
proof
  fix i D warmup and z w g :: "'a buf_mem"
  show "i < s \<Longrightarrow> equivp (sameSlice (ownChunks len s) i)" by (rule phase2_steps.own_facts(1))
  show "phase2Done len s i w" if "sameSlice (ownChunks len s) i z w" "phase2Done len s i z"
    using that finishedAt_same [of "ownChunks len s" i z w "sliceEnd len s"] by (auto simp: phase2Done_def)
  show "combInv len s elem func ints w"
    if "i < s" "combInv len s elem func ints z" "combInv len s elem func ints g" "sameSlice (ownChunks len s) i g w"
      "\<And>j. j < s \<Longrightarrow> j \<noteq> i \<Longrightarrow> sameSlice (ownChunks len s) j z w"
    using that by (rule phase2_steps.own_facts(3))
  assume i: "i < s"
  let ?K = "\<lambda>D z. combInv len s elem func ints z \<and> (\<forall>j\<in>D. finishedAt (sliceEnd len s) j z)"
  have D: "(\<forall>j\<in>D. phase2Done len s j z) \<longleftrightarrow> (\<forall>j\<in>D - {0}. finishedAt (sliceEnd len s) j z)" for z :: "'a buf_mem"
    by (auto simp: phase2Done_def)
  have "safe (chunkView len s i) (?K (D - {0})) (phase2 func ints i warmup)
      (\<lambda>done z. ?K (D - {0}) z \<and> (done \<longrightarrow> phase2Done len s i z) \<and> (\<not> warmup \<longrightarrow> done)) (?K (D - {0}))"
  proof (cases "i = 0")
    case True
    then show ?thesis by (auto simp: phase2_def phase2Done_def intro!: safe_ret)
  next
    case False
    let ?stop = "\<lambda>p e. if warmup then min e (p + CHUNK_SIZE) else e"
    have "safe (chunkView len s i) (?K (D - {0})) (phase2 func ints i warmup)
        (\<lambda>done z. ?K (D - {0}) z \<and> (done \<longrightarrow> finishedAt (sliceEnd len s) i z) \<and> (\<not> warmup \<longrightarrow> done)) (?K (D - {0}))"
      unfolding phase2_def Let_def if_not_P [OF False]
      using phase2_steps.steps_kernel [OF i, where stop = ?stop and warmup = warmup and func = func and ints = ints]
      unfolding phase2Move_def if_not_P [OF False] by auto
    then show ?thesis by (rule safe_weaken) (auto simp: phase2Done_def)
  qed
  then show "safe (chunkView len s i) (\<lambda>z. combInv len s elem func ints z \<and> (\<forall>j\<in>D. phase2Done len s j z)) (phase2 func ints i warmup)
      (\<lambda>done z. (combInv len s elem func ints z \<and> (\<forall>j\<in>D. phase2Done len s j z)) \<and>
         (done \<longrightarrow> phase2Done len s i z) \<and> (\<not> warmup \<longrightarrow> done))
      (\<lambda>z. combInv len s elem func ints z \<and> (\<forall>j\<in>D. phase2Done len s j z))"
    by (simp only: D)
qed

section \<open>Between the phases\<close>

lemma scanned_complete:
  assumes "scanInv len s elem func z" "\<forall>i\<in>{..<s}. finishedAt (chunkHi len s) i z" "i < s"
    "32 * chunkLo len s i \<le> k" "k < sliceEnd len s i"
  shows "buffer z ! k = Some (seg func elem (32 * chunkLo len s i) (k + 1))" "k < length (buffer z)"
  using progress_pos(4) [OF assms(1,3)] assms by (auto simp: scanned_def finishedAt_def sliceEnd_def)

lemma shl5_chunk: "len < 2 ^ 28 \<Longrightarrow> i < s \<Longrightarrow> shl5 (chunkHi len s i) = 32 * chunkHi len s i"
  using chunks_28 [of len] slice_hi_le [of i s "ComputeNumChunks len"]
  by (intro shl5_eq) (simp add: chunkHi_def)

lemma finalElement_eq:
  assumes "scanInv len s elem func z" "i < s"
  shows "finalElement len (info z) i = sliceEnd len s i - 1"
  using scanInv_slice(1,5) [OF assms] shl5_chunk [OF _ assms(2), of len]
  by (simp add: finalElement_def Let_def sliceEnd_def)

text \<open>The intermediates are the folds of everything before the second, third, and so on slice.\<close>

lemma intermediates_safe:
  assumes inv: "scanInv len s elem func z" "\<forall>i\<in>{..<s}. finishedAt (chunkHi len s) i z" and "0 < s" "assoc_fun func"
  shows "safe alone (\<lambda>w. w = z) (computeIntermediates len func s)
    (\<lambda>ints w. w = z \<and> (\<forall>i. 0 < i \<longrightarrow> i < s \<longrightarrow> ints ! (i - 1) = seg func elem 0 (32 * chunkLo len s i))) B"
proof -
  note b = scanInv_slice(1,2) [OF inv(1) assms(3)]
  let ?sum = "\<lambda>i. seg func elem 0 (sliceEnd len s i)"
  have load: "safe alone (\<lambda>w. w = z \<and> R) (loadElem buffer (finalElement len (info z) i))
      (\<lambda>x w. (w = z \<and> R) \<and> x = seg func elem (32 * chunkLo len s i) (sliceEnd len s i)) B" if "i < s" for i R B
  proof (rule safe_loadElem)
    fix w assume "w = z \<and> R"
    then show "finalElement len (info z) i < length (buffer w) \<and>
        buffer w ! finalElement len (info z) i = Some (seg func elem (32 * chunkLo len s i) (sliceEnd len s i))"
      using scanned_complete [OF inv that, of "sliceEnd len s i - 1"] slice_bounds(1) [OF b that]
        finalElement_eq [OF inv(1) that] by auto
  qed simp
  let ?I = "\<lambda>k x w. w = z \<and> x = (?sum (k - 1), map ?sum [0..<k])"
  let ?body = "\<lambda>i (accumulator, ints). bindP (loadElem buffer (finalElement len (info z) i)) (\<lambda>x.
       let accumulator = func accumulator x in Ret (accumulator, ints @ [accumulator]))"
  have step: "safe alone (?I k x) (?body k x) (?I (k + 1)) B" if "1 \<le> k" "k < s - 1" for k x B
  proof -
    have "func (?sum (k - 1)) (seg func elem (32 * chunkLo len s k) (sliceEnd len s k)) = ?sum k"
      using that seg_slices [OF assms(4) b, of "k - 1" elem] by auto
    then show ?thesis
      unfolding case_prod_beta Let_def
      by (intro safe_bind [OF load] safe_ret) (use that in auto)
  qed
  have first: "safe alone (\<lambda>w. w = z \<and> True) (loadElem buffer (finalElement len (info z) 0)) (\<lambda>x w. ?I 1 (x, [x]) w) B" for B
    by (rule safe_weaken [OF load [OF assms(3)]]) (auto simp: slice_bounds(5) [OF b assms(3)])
  have loop: "safe alone (?I 1 x) (loopP [1..<s - 1] x ?body) (\<lambda>x w. w = z \<and> snd x = map ?sum [0..<max 1 (s - 1)]) B" for x B
  proof (cases "1 \<le> s - 1")
    case True
    have "safe alone (?I 1 x) (loopP [1..<s - 1] x ?body) (?I (s - 1)) B"
      using True step by (intro safe_loop [where I = ?I])
    then show ?thesis by (rule safe_weaken) (use True in \<open>auto simp: max_def\<close>)
  qed (auto simp: max_def intro!: safe_ret)
  have main: "safe alone (\<lambda>w. w = z \<and> True) (bindP (loadElem buffer (finalElement len (info z) 0)) (\<lambda>accumulator.
      bindP (loopP [1..<s - 1] (accumulator, [accumulator]) ?body) (\<lambda>(_, ints). Ret ints)))
      (\<lambda>ints w. w = z \<and> ints = map ?sum [0..<max 1 (s - 1)]) B" for B
    unfolding case_prod_beta by (rule safe_bind [OF first safe_bind [OF loop [unfolded case_prod_beta] safe_ret]]) simp
  have at: "map ?sum [0..<max 1 (s - 1)] ! (i - 1) = seg func elem 0 (32 * chunkLo len s i)" if "0 < i" "i < s" for i
    using that slice_bounds(3) [OF b, of "i - 1"] by auto
  show ?thesis
    unfolding computeIntermediates_def
  proof (rule safe_bind [OF safe_load], simp, rule safe_pre [where c = "_ = info z"])
    fix bounds
    assume "bounds = info z"
    then show "safe alone (\<lambda>w. w = z \<and> bounds = info w)
        (bindP (loadElem buffer (finalElement len bounds 0)) (\<lambda>accumulator.
         bindP (loopP [1..<s - 1] (accumulator, [accumulator]) (\<lambda>i (accumulator, ints).
           bindP (loadElem buffer (finalElement len bounds i)) (\<lambda>x.
           let accumulator = func accumulator x in Ret (accumulator, ints @ [accumulator])))) (\<lambda>(_, ints). Ret ints)))
        (\<lambda>ints w. w = z \<and> (\<forall>i. 0 < i \<longrightarrow> i < s \<longrightarrow> ints ! (i - 1) = seg func elem 0 (32 * chunkLo len s i))) B"
      by (elim ssubst) (rule safe_weaken [OF main], simp, use at in blast)
  qed simp
qed

lemma resetSlices:
  assumes "n \<le> s" "length b = 4 * s"
  shows "length (fold resetSlice [0..<n] b) = 4 * s \<and>
    (\<forall>i < s. fold resetSlice [0..<n] b ! SLICE_START i = b ! SLICE_START i \<and>
       fold resetSlice [0..<n] b ! SLICE_POS i = (if i < n then shl5 (b ! SLICE_START i) else b ! SLICE_POS i) \<and>
       fold resetSlice [0..<n] b ! SLICE_END i = (if i < n then shl5 (b ! SLICE_END i) else b ! SLICE_END i))"
  using assms(1)
proof (induction n)
  case 0
  then show ?case using assms(2) by simp
next
  case (Suc n)
  then show ?case
    using assms(2) by (auto simp: resetSlice_def Let_def nth_list_update less_Suc_eq)
qed

lemma reset_combInv:
  assumes inv: "scanInv len s elem func z" "\<forall>i\<in>{..<s}. finishedAt (chunkHi len s) i z" and s: "0 < s" "assoc_fun func"
    and ints: "\<forall>i. 0 < i \<longrightarrow> i < s \<longrightarrow> ints ! (i - 1) = seg func elem 0 (32 * chunkLo len s i)"
  shows "combInv len s elem func ints (z\<lparr>info := resetPositions len s (info z)\<rparr>)" (is "combInv _ _ _ _ _ ?z")
proof -
  note b = scanInv_slice(1,2) [OF inv(1) s(1)]
  have "length (info z) = 4 * s" using progress_pos(6) [OF inv(1) s(1)] .
  note r = resetSlices [OF order_refl this]
  have info: "info ?z ! SLICE_POS i = 32 * chunkLo len s i" "info ?z ! SLICE_END i = sliceEnd len s i" if i: "i < s" for i
  proof -
    note si = scanInv_slice [OF inv(1) i]
    have lo: "shl5 (chunkLo len s i) = 32 * chunkLo len s i" using chunk_start(1) [OF b(1) i si(8)] .
    have hi: "shl5 (chunkHi len s i) = 32 * chunkHi len s i" using shl5_chunk [OF b(1) i] .
    show "info ?z ! SLICE_POS i = 32 * chunkLo len s i"
      using r i si(4) lo by (simp add: resetPositions_def Let_def)
    show "info ?z ! SLICE_END i = sliceEnd len s i"
    proof (cases "i = s - 1")
      case True
      then show ?thesis using r i si(5) hi by (simp add: resetPositions_def Let_def sliceEnd_def)
    next
      case False
      then have "Suc i < s" using i by simp
      then have "32 * chunkHi len s i \<le> len"
        using slice_bounds(3) [OF b i] chunk_start(2) [OF b(1) _ slice_nonempty [OF b(2)], of "Suc i"]
        by (auto simp: chunkHi_def chunkLo_def slice_hi_Suc)
      then show ?thesis using r i si(5) hi False by (simp add: resetPositions_def Let_def sliceEnd_def)
    qed
  qed
  have "combined len s elem func ints i (32 * chunkLo len s i) ?z" if i: "i < s" for i
    using scanned_complete(1) [OF inv i] scanInv_slice(3) [OF inv(1) i] b s(2) ints i slice_bounds(5) [OF b i]
    by (auto simp: combined_def)
  moreover have "length (info ?z) = 4 * s" using r by (simp add: resetPositions_def Let_def)
  ultimately show ?thesis
    using info slice_bounds(1) [OF b] by (auto simp: progress_def intro: less_imp_le)
qed

section \<open>The result\<close>

lemma index_slice:
  assumes "len < 2 ^ 28" "s \<le> ComputeNumChunks len" "0 < s" "k < len"
  obtains i where "i < s" "32 * chunkLo len s i \<le> k" "k < sliceEnd len s i"
proof -
  have "k div 32 < ComputeNumChunks len" using assms(1,4) by (simp add: ComputeNumChunks_eq)
  then obtain i where "i < s" "chunkLo len s i \<le> k div 32" "k div 32 < chunkHi len s i"
    using slices_cover [of "k div 32" "ComputeNumChunks len" s] assms(3)
    by (auto simp: chunkLo_def chunkHi_def)
  then show ?thesis
    using that [of i] assms(4)
    by (simp add: sliceEnd_def less_eq_div_iff_mult_less_eq div_less_iff_less_mult mult.commute)
qed

lemma combined_complete:
  assumes "combInv len s elem func ints z" "\<forall>i\<in>{..<s}. phase2Done len s i z" "0 < s"
  shows "buffer z = map (\<lambda>k. Some (seg func elem 0 (k + 1))) [0..<len]"
proof (rule nth_equalityI)
  note sl = combInv_slice [OF assms(1,3)]
  show "length (buffer z) = length (map (\<lambda>k. Some (seg func elem 0 (k + 1))) [0..<len])" using sl(3) by simp
  fix k assume "k < length (buffer z)"
  then have k: "k < len" using sl(3) by simp
  then obtain i where i: "i < s" "32 * chunkLo len s i \<le> k" "k < sliceEnd len s i"
    by (rule index_slice [OF sl(1,2) assms(3)])
  have "i = 0 \<or> info z ! SLICE_POS i = sliceEnd len s i"
    using assms(2) i(1) by (auto simp: phase2Done_def finishedAt_def)
  then have "buffer z ! k = Some (seg func elem 0 (k + 1))"
    using progress_pos(4) [OF assms(1) i(1)] i(2,3) by (auto simp: combined_def)
  then show "buffer z ! k = map (\<lambda>k. Some (seg func elem 0 (k + 1))) [0..<len] ! k" using k by simp
qed

lemma scanInv_init:
  assumes "len < 2 ^ 28" "s \<le> ComputeNumChunks len"
  shows "scanInv len s elem func
    \<lparr>info = ComputeAllSliceBounds (ComputeNumChunks len) s, buffer = NewDenseArray len\<rparr>"
proof -
  have "ComputeNumChunks len < 2 ^ 31" using chunks_28 [OF assms(1)] by simp
  note slice_info [OF this]
  then show ?thesis
    using assms by (auto simp: progress_def scanned_def chunkLo_def chunkHi_def NewDenseArray_def slice_lo_hi)
qed

text \<open>The part of the operation after the first join.\<close>

abbreviation scanTail :: "engine \<Rightarrow> ('v \<Rightarrow> 'v \<Rightarrow> 'v) \<Rightarrow> nat \<Rightarrow> ('v buf_mem, 'v parray) pjs" where
  "scanTail e func len \<equiv>
     bindP (computeIntermediates len func (numSlices e)) (\<lambda>intermediates.
     bindP (reset len (numSlices e)) (\<lambda>_.
     bindP (ForkJoin (phase2 func intermediates) (numSlices e) (scheduleAt e 1)) (\<lambda>_.
     bindP (load buffer) (\<lambda>b. Ret (ParallelArrayView [len] b 0)))))"

lemma endsIn_tail:
  assumes inv: "scanInv len (numSlices e) elem func z" "\<forall>i\<in>{..<numSlices e}. finishedAt (chunkHi len (numSlices e)) i z"
    and e: "0 < numSlices e" "assoc_fun func" "\<not> forceSequential e"
    and P: "P (ParallelArrayView [len] (map (\<lambda>k. Some (seg func elem 0 (k + 1))) [0..<len]) 0)"
  shows "endsIn e 2 mode P (runOp (scanTail e func len) z)"
proof (rule runOp_safe_bind [OF intermediates_safe [OF inv e(1,2)] refl], elim conjE)
  fix ints w
  assume w: "w = z" "\<forall>i. 0 < i \<longrightarrow> i < numSlices e \<longrightarrow> ints ! (i - 1) = seg func elem 0 (32 * chunkLo len (numSlices e) i)"
  let ?w = "w\<lparr>info := resetPositions len (numSlices e) (info w)\<rparr>"
  have "combInv len (numSlices e) elem func ints ?w" using reset_combInv [OF inv e(1,2) w(2)] w(1) by simp
  then have "endsIn e 2 mode P (runOp (bindP (ForkJoin (phase2 func ints) (numSlices e) (scheduleAt e 1)) (\<lambda>_.
      bindP (load buffer) (\<lambda>b. Ret (ParallelArrayView [len] b 0)))) ?w)"
    by (rule phase2_kernel.endsIn_join [OF _ e(3) refl])
      (use P e(1) in \<open>auto simp: endsIn_def combined_complete\<close>)
  then show "endsIn e 2 mode P (runOp (bindP (reset len (numSlices e)) (\<lambda>_.
      bindP (ForkJoin (phase2 func ints) (numSlices e) (scheduleAt e 1)) (\<lambda>_.
      bindP (load buffer) (\<lambda>b. Ret (ParallelArrayView [len] b 0))))) w)"
    by (simp add: runOp_def reset_def)
qed

lemma sequential_scan:
  assumes "0 < len"
  shows "runOp (bindP (scan elem func (elem 0) 0 len) (\<lambda>_. bindP (load buffer) (\<lambda>b. Ret (g b))))
      \<lparr>info = [], buffer = NewDenseArray len\<rparr> = Inr (g (map (\<lambda>k. Some (seg func elem 0 (k + 1))) [0..<len]))"
proof (rule runOp_safe_bind [where P = "\<lambda>z. length (buffer z) = len" and R = "\<lambda>r. r = _", OF scan_safe])
  show "elem 0 = seg func elem 0 (0 + 1)" by (simp add: seg_def)
  fix z'
  assume "length (buffer z') = len \<and> (\<forall>k. 0 \<le> k \<and> k < len \<longrightarrow> buffer z' ! k = Some (seg func elem 0 (k + 1)))"
  then have "buffer z' = map (\<lambda>k. Some (seg func elem 0 (k + 1))) [0..<len]" by (intro nth_equalityI) auto
  then show "runOp (bindP (load buffer) (\<lambda>b. Ret (g b))) z' = Inr (g (map (\<lambda>k. Some (seg func elem 0 (k + 1))) [0..<len]))"
    by simp
qed (use assms in \<open>auto simp: NewDenseArray_def\<close>)

section \<open>Properties\<close>

text \<open>
  C29: For an associative callback without effects that always returns, and fewer than \<open>2 ^ 28\<close> elements, \<open>scan\<close>
  gives the array of the folds of all prefixes, whatever the number of slices and however ForkJoin interleaves
  their operations in the two joins, with warm-ups, bailouts at any operation and retries; in particular the
  in-place second phase never combines an element twice. The empty array is an error. With such a callback it
  fails otherwise only if ForkJoin never goes to its last resort in one of the joins, or a testing mode is refused.
\<close>

theorem scan_parallel:
  assumes "pa_shape self ! 0 < 2 ^ 28" "0 < numSlices e" "assoc_fun func"
  shows "if pa_shape self ! 0 = 0
    then ParallelArrayScan e func mode self = Inl (JSMSG ''JSMSG_PAR_ARRAY_REDUCE_EMPTY'')
    else endsIn e 2 mode
      (\<lambda>q. q = ParallelArrayView [pa_shape self ! 0]
         (map (\<lambda>k. Some (foldl func (callGet self [0]) (map (\<lambda>i. callGet self [int i]) [1..<k + 1])))
            [0..<pa_shape self ! 0]) 0)
      (ParallelArrayScan e func mode self)"
proof (cases "pa_shape self ! 0 = 0")
  case True
  then show ?thesis by (simp add: ParallelArrayScan_def)
next
  case False
  let ?len = "pa_shape self ! 0" and ?elem = "\<lambda>i. callGet self [int i]"
  let ?P = "\<lambda>q. q = ParallelArrayView [?len] (map (\<lambda>k. Some (foldl func (callGet self [0]) (map ?elem [1..<k + 1]))) [0..<?len]) 0"
  have result: "?P (ParallelArrayView [?len] (map (\<lambda>k. Some (seg func ?elem 0 (k + 1))) [0..<?len]) 0)"
    by (simp add: seg_def foldl_map)
  have par: "endsIn e 2 mode ?P (runOp (bindP (ForkJoin (phase1 ?len ?elem func) (numSlices e) (scheduleAt e 0))
      (\<lambda>_. scanTail e func ?len))
      \<lparr>info = ComputeAllSliceBounds (ComputeNumChunks ?len) (numSlices e), buffer = NewDenseArray ?len\<rparr>)"
    if "\<not> forceSequential e" "numSlices e \<le> ComputeNumChunks ?len"
    by (rule phase1_kernel.endsIn_join [OF scanInv_init [OF assms(1) that(2)] that(1) refl])
      (simp, rule endsIn_tail [where P = ?P, OF _ _ assms(2,3) that(1) result])
  have seq: "endsIn e 2 mode ?P (runOp (bindP (scan ?elem func (?elem 0) 0 ?len) (\<lambda>_.
      bindP (load buffer) (\<lambda>b. Ret (ParallelArrayView [?len] b 0)))) \<lparr>info = [], buffer = NewDenseArray ?len\<rparr>)"
    using sequential_scan [of ?len ?elem func "\<lambda>b. ParallelArrayView [?len] b 0"] False result
    by (simp only: endsIn_def sum.case neq0_conv simp_thms)
  show ?thesis
    using False unfolding ParallelArrayScan_def Let_def
    by (cases "\<not> forceSequential e \<and> TRY_PARALLEL mode \<and> \<not> ComputeNumChunks ?len < numSlices e")
      (simp_all only: if_True if_False simp_thms not_less par endsIn_parallel endsIn_sequential [OF seq])
qed

lemma scan_parallel_witness:
  "\<exists>q. ParallelArrayScan \<lparr>forceSequential = False, numSlices = 2, testsShouldPass = True,
         schedules = [[Start 1 True, Start 0 False, Run 1, Run 0, Run 1] @ sequentially 2,
           [Start 1 False, Run 1, Run 1, Start 1 True, Run 1] @ sequentially 2]\<rparr>
       (\<lambda>x y. y) None (ParallelArrayView [40] (map Some [0..<40 :: nat]) 0) = Inr q \<and> pa_shape q = [40]"
  (is "\<exists>q. ParallelArrayScan ?e ?f None ?pa = _ \<and> _")
proof -
  have "\<forall>j<2. lastResort ?e j"
    unfolding lastResort_def scheduleAt_def by (auto simp: less_Suc_eq numeral_2_eq_2)
  then have last: "forceSequential ?e \<or> (\<forall>j<2. lastResort ?e j)" ..
  have "if pa_shape ?pa ! 0 = 0
    then ParallelArrayScan ?e ?f None ?pa = Inl (JSMSG ''JSMSG_PAR_ARRAY_REDUCE_EMPTY'')
    else endsIn ?e 2 None
      (\<lambda>q. q = ParallelArrayView [pa_shape ?pa ! 0]
         (map (\<lambda>k. Some (foldl ?f (callGet ?pa [0]) (map (\<lambda>i. callGet ?pa [int i]) [1..<k + 1])))
            [0..<pa_shape ?pa ! 0]) 0)
      (ParallelArrayScan ?e ?f None ?pa)"
    by (rule scan_parallel) (simp_all add: assoc_fun_def)
  then have "endsIn ?e 2 None (\<lambda>q. pa_shape q = [40]) (ParallelArrayScan ?e ?f None ?pa)"
    by (auto simp: endsIn_def split: sum.splits)
  from endsIn_result [OF this last] show ?thesis .
qed

end
