(* ===== verification/Parallel_Filter.thy ===== *)
theory Parallel_Filter
  imports Parallel_Reduce
begin

text \<open>
  \<open>ParallelArrayFilter\<close> of \<open>builtin/ParallelArray.js\<close>, in two joins. In the first every slice computes a
  bit set of the elements that survive for each of its chunks, and counts them; in the second every
  slice copies its survivors to their place in the result, found from the counts of the slices before
  it.
\<close>

unbundle bit_operations_syntax

record 'v fil_mem = slices +
  f_counts :: "nat list"
  f_survivors :: "32 word option list"
  f_buffer :: "'v option list"

section \<open>Finding the survivors\<close>

text \<open>The bits and the count of one chunk.\<close>

definition findChunk ::
  "nat \<Rightarrow> (nat \<Rightarrow> bool) \<Rightarrow> nat \<Rightarrow> nat \<Rightarrow> nat \<Rightarrow> ('v fil_mem, nat) pjs" where
  "findChunk len keep sliceId chunkPos count =
     (let indexStart = shl5 chunkPos; indexEnd = min (indexStart + CHUNK_SIZE) len in
      bindP (loopP [0..<indexEnd - indexStart] (0 :: 32 word, count) (\<lambda>bit (chunkBits, count).
        bindP (callFunc (keep (indexStart + bit))) (\<lambda>keep.
        Ret (chunkBits OR push_bit bit (of_bool keep), count + of_bool keep)))) (\<lambda>(chunkBits, count).
      bindP (UnsafeSetElement
        (\<lambda>z. chunkPos < length (f_survivors z) \<and> sliceId < length (f_counts z) \<and> posOk sliceId z)
        (\<lambda>z. setPos sliceId (chunkPos + 1)
               (z\<lparr>f_survivors := (f_survivors z)[chunkPos := Some chunkBits],
                  f_counts := (f_counts z)[sliceId := count]\<rparr>))) (\<lambda>_.
      Ret count)))"

definition findSurvivorsInSlice :: "nat \<Rightarrow> (nat \<Rightarrow> bool) \<Rightarrow> 'v fil_mem kernel" where
  "findSurvivorsInSlice len keep sliceId warmup =
     bindP (load (\<lambda>z. info z ! SLICE_POS sliceId)) (\<lambda>chunkPos.
     bindP (load (\<lambda>z. info z ! SLICE_END sliceId)) (\<lambda>chunkEnd.
     let chunkEnd = (if warmup \<and> chunkEnd > chunkPos then chunkPos + 1 else chunkEnd) in
     bindP (load (\<lambda>z. f_counts z ! sliceId)) (\<lambda>count.
     bindP (loopP [chunkPos..<chunkEnd] count (findChunk len keep sliceId)) (\<lambda>_.
     bindP (load (\<lambda>z. info z ! SLICE_END sliceId)) (\<lambda>sliceEnd. Ret (chunkEnd = sliceEnd))))))"

section \<open>Copying them\<close>

text \<open>The loop over the bits of a chunk ends early when the slice's last survivor is copied.\<close>

fun copyBits :: "(nat \<Rightarrow> 'v) \<Rightarrow> 32 word \<Rightarrow> nat \<Rightarrow> nat \<Rightarrow> nat list \<Rightarrow> nat \<Rightarrow> ('v fil_mem, nat) pjs" where
  "copyBits elem chunkBits indexStart upTo [] count = Ret count"
| "copyBits elem chunkBits indexStart upTo (i # is) count =
     (if chunkBits AND push_bit i 1 \<noteq> 0
      then bindP (UnsafeSetElement (\<lambda>z. count < length (f_buffer z))
                    (\<lambda>z. z\<lparr>f_buffer := (f_buffer z)[count := Some (elem (indexStart + i))]\<rparr>)) (\<lambda>_.
           if count + 1 = upTo then Ret (count + 1)
           else copyBits elem chunkBits indexStart upTo is (count + 1))
      else copyBits elem chunkBits indexStart upTo is count)"

definition copyChunks :: "(nat \<Rightarrow> 'v) \<Rightarrow> nat \<Rightarrow> nat \<Rightarrow> nat \<Rightarrow> ('v fil_mem, bool) pjs" where
  "copyChunks elem sliceId upTo count =
     bindP (load (\<lambda>z. info z ! SLICE_START sliceId)) (\<lambda>chunkStart.
     bindP (load (\<lambda>z. info z ! SLICE_END sliceId)) (\<lambda>chunkEnd.
     bindP (loopP [chunkStart..<chunkEnd] count (\<lambda>chunk count.
       bindP (loadElem f_survivors chunk) (\<lambda>chunkBits.
       if chunkBits = 0 then Ret count
       else copyBits elem chunkBits (shl5 chunk) upTo [0..<CHUNK_SIZE] count))) (\<lambda>_.
     Ret True)))"

definition sumCounts :: "nat \<Rightarrow> ('v fil_mem, nat) pjs" where
  "sumCounts n = loopP [0..<n] 0 (\<lambda>i count. bindP (load (\<lambda>z. f_counts z ! i)) (\<lambda>c. Ret (count + c)))"

definition copySurvivorsInSlice :: "(nat \<Rightarrow> 'v) \<Rightarrow> 'v fil_mem kernel" where
  "copySurvivorsInSlice elem sliceId warmup =
     bindP (if sliceId > 0 then sumCounts sliceId else Ret 0) (\<lambda>count.
     bindP (load (\<lambda>z. f_counts z ! sliceId)) (\<lambda>own.
     let upTo = count + own in
     if count = upTo then Ret True else copyChunks elem sliceId upTo count))"

definition newBuffer :: "nat \<Rightarrow> ('v fil_mem, unit) pjs" where
  "newBuffer count = Store (\<lambda>_. Ret ()) (\<lambda>z. z\<lparr>f_buffer := NewDenseArray count\<rparr>)"

definition ParallelArrayFilter ::
  "engine \<Rightarrow> ('v pval \<Rightarrow> nat \<Rightarrow> bool) \<Rightarrow> exec_mode option \<Rightarrow> 'v parray \<Rightarrow> jserr + 'v pval parray" where
  "ParallelArrayFilter e func mode self =
     (let length = pa_shape self ! 0; elem = (\<lambda>i. callGet self [int i]); keep = (\<lambda>i. func (elem i) i);
          chunks = ComputeNumChunks length; numSlices = numSlices e in
      if \<not> forceSequential e \<and> TRY_PARALLEL mode \<and> \<not> chunks < numSlices * 2
      then runOp (bindP (ForkJoinMode mode) (\<lambda>_.
                  bindP (ForkJoin (findSurvivorsInSlice length keep) numSlices (scheduleAt e 0)) (\<lambda>_.
                  bindP (sumCounts numSlices) (\<lambda>count.
                  bindP (newBuffer count) (\<lambda>_.
                  bindP (if count > 0 then ForkJoin (copySurvivorsInSlice elem) numSlices (scheduleAt e 1) else Ret ()) (\<lambda>_.
                  bindP (load f_buffer) (\<lambda>b. Ret (ParallelArrayView [count] b 0))))))))
             \<lparr>info = ComputeAllSliceBounds chunks numSlices, f_counts = replicate numSlices 0,
              f_survivors = NewDenseArray chunks, f_buffer = []\<rparr>
      else runOp (bindP (ASSERT_SEQUENTIAL_IS_OK (testsShouldPass e) mode) (\<lambda>_.
                  bindP (loopP [0..<length] [] (\<lambda>i buffer. Ret (if keep i then buffer @ [Some (elem i)] else buffer)))
                    (\<lambda>buffer. Ret (ParallelArrayView [size buffer] buffer 0))))
             \<lparr>info = [], f_counts = [], f_survivors = [], f_buffer = [] :: 'v pval option list\<rparr>)"

section \<open>Facts: bits\<close>

lemma test_bit: "(w :: 32 word) AND push_bit i 1 \<noteq> 0 \<longleftrightarrow> bit w i" if "i < 32"
  using that by (metis (no_types, lifting) and_exp_eq_0_iff_not_bit push_bit_eq_mult mult_1)

definition chunkBitsAre :: "(nat \<Rightarrow> bool) \<Rightarrow> nat \<Rightarrow> nat \<Rightarrow> 32 word \<Rightarrow> bool" where
  "chunkBitsAre keep start n w \<longleftrightarrow> (\<forall>b<32. bit w b \<longleftrightarrow> b < n \<and> keep (start + b))"

lemma chunkBits_step:
  assumes "chunkBitsAre keep start n w" "n < 32"
  shows "chunkBitsAre keep start (n + 1) (w OR push_bit n (of_bool (keep (start + n))))"
  using assms by (auto simp: chunkBitsAre_def bit_or_iff bit_push_bit_iff bit_1_iff less_Suc_eq)

section \<open>The first join\<close>

definition survivors :: "(nat \<Rightarrow> bool) \<Rightarrow> nat \<Rightarrow> nat \<Rightarrow> nat" where
  "survivors keep a b = length (filter keep [a..<b])"

lemma survivors_step: "a \<le> b \<Longrightarrow> survivors keep a (b + 1) = survivors keep a b + of_bool (keep b)"
  by (simp add: survivors_def)

lemma survivors_append: "a \<le> b \<Longrightarrow> b \<le> c \<Longrightarrow> survivors keep a b + survivors keep b c = survivors keep a c"
  using upt_add_eq_append [of a b "c - b"] by (simp add: survivors_def)

definition found :: "nat \<Rightarrow> nat \<Rightarrow> (nat \<Rightarrow> bool) \<Rightarrow> nat \<Rightarrow> nat \<Rightarrow> 'v fil_mem \<Rightarrow> bool" where
  "found len s keep i p z \<longleftrightarrow> len < 2 ^ 28 \<and> length (f_counts z) = s \<and>
     length (f_survivors z) = ComputeNumChunks len \<and> info z ! SLICE_START i = chunkLo len s i \<and>
     f_counts z ! i = survivors keep (32 * chunkLo len s i) (min (32 * p) len) \<and>
     (\<forall>c. chunkLo len s i \<le> c \<longrightarrow> c < p \<longrightarrow>
        (\<exists>w. f_survivors z ! c = Some w \<and> chunkBitsAre keep (32 * c) (len - 32 * c) w))"

abbreviation foundInv :: "nat \<Rightarrow> nat \<Rightarrow> (nat \<Rightarrow> bool) \<Rightarrow> 'v fil_mem \<Rightarrow> bool" where
  "foundInv len s keep \<equiv> progress s (chunkLo len s) (chunkHi len s) (found len s keep)"

text \<open>What belongs to a slice: its bounds and position, its count, and the bits of its chunks.\<close>

definition ownFound :: "nat \<Rightarrow> nat \<Rightarrow> nat \<Rightarrow> 'v fil_mem \<Rightarrow> 'v fil_mem \<Rightarrow> bool" where
  "ownFound len s i z w \<longleftrightarrow> info z ! SLICE_START i = info w ! SLICE_START i \<and>
     sameRange i (i + 1) (f_counts z) (f_counts w) \<and>
     sameRange (chunkLo len s i) (chunkHi len s i) (f_survivors z) (f_survivors w)"

abbreviation findView :: "nat \<Rightarrow> nat \<Rightarrow> nat \<Rightarrow> 'v fil_mem view" where
  "findView len s i \<equiv> viewOf (sameSlice (ownFound len s)) s i"

lemma ownFound_equivp: "equivp (ownFound len s i)"
  unfolding ownFound_def [abs_def]
  by (intro equivp_conj equivp_eq sameRange_equivp [where f = f_counts] sameRange_equivp [where f = f_survivors])

lemma ownFound_found:
  assumes "p \<le> chunkHi len s i" "ownFound len s i z w" "found len s keep i p z"
  shows "found len s keep i p w"
  using assms by (auto simp: ownFound_def found_def dest: sameRange_length sameRange_nth)

lemma chunk_owner':
  assumes "i < s" "j < s" "chunkLo len s i \<le> c" "c < chunkHi len s i" "chunkLo len s j \<le> c" "c < chunkHi len s j"
  shows "i = j"
  using slices_ordered [of i j s "ComputeNumChunks len"] slices_ordered [of j i s "ComputeNumChunks len"] assms
  by (cases i j rule: linorder_cases) (auto simp: chunkLo_def chunkHi_def)

definition storeFound :: "nat \<Rightarrow> nat \<Rightarrow> 32 word \<Rightarrow> nat \<Rightarrow> 'v fil_mem \<Rightarrow> 'v fil_mem" where
  "storeFound i c w n z = setPos i (c + 1)
     (z\<lparr>f_survivors := (f_survivors z)[c := Some w], f_counts := (f_counts z)[i := n]\<rparr>)"

lemma storeFound_simps [simp]:
  "info (storeFound i c w n z) = (info z)[SLICE_POS i := c + 1]"
  "f_survivors (storeFound i c w n z) = (f_survivors z)[c := Some w]"
  "f_counts (storeFound i c w n z) = (f_counts z)[i := n]"
  by (simp_all add: storeFound_def setPos_def)

lemma foundInv_slice:
  assumes "foundInv len s keep z" "i < s"
  shows "len < 2 ^ 28" "length (f_counts z) = s" "length (f_survivors z) = ComputeNumChunks len"
    "info z ! SLICE_START i = chunkLo len s i"
    "f_counts z ! i = survivors keep (32 * chunkLo len s i) (min (32 * info z ! SLICE_POS i) len)"
  using progress_pos(4) [OF assms] by (auto simp: found_def)

lemma findView_store:
  assumes "fst (findView len s i) z z'" "foundInv len s keep z" "i < s" "chunkLo len s i \<le> c" "c < chunkHi len s i"
  shows "(c < length (f_survivors z') \<and> i < length (f_counts z') \<and> posOk i z') \<longleftrightarrow>
      (c < length (f_survivors z) \<and> i < length (f_counts z) \<and> posOk i z)"
    and "fst (findView len s i) (storeFound i c w n z) (storeFound i c w n z') \<and>
      snd (findView len s i) z' (storeFound i c w n z')"
proof -
  show "(c < length (f_survivors z') \<and> i < length (f_counts z') \<and> posOk i z') \<longleftrightarrow>
      (c < length (f_survivors z) \<and> i < length (f_counts z) \<and> posOk i z)"
    using viewOf_slice(1,2) [OF assms(1)] by (auto simp: ownFound_def dest: sameRange_length)
  have "ownFound len s j z' (storeFound i c w n z')" if "j < s" "j \<noteq> i" for j
  proof -
    have "c < chunkLo len s j \<or> chunkHi len s j \<le> c"
      using chunk_owner' [OF assms(3) that(1) assms(4,5)] that(2) not_less by metis
    then show ?thesis using that(2) by (auto simp: ownFound_def intro!: sameRange_outside)
  qed
  then show "fst (findView len s i) (storeFound i c w n z) (storeFound i c w n z') \<and>
      snd (findView len s i) z' (storeFound i c w n z')"
    by (intro viewOf_move [OF assms(1)]) (auto simp: ownFound_def sameRange_update)
qed

lemma chunk_in_range: "i < s \<Longrightarrow> c < chunkHi len s i \<Longrightarrow> c < ComputeNumChunks len"
  using slice_hi_le [of i s "ComputeNumChunks len"] by (simp add: chunkHi_def)

lemma foundInv_store:
  assumes inv: "foundInv len s keep z" and i: "i < s" "info z ! SLICE_POS i = c" "c < chunkHi len s i"
    and w: "chunkBitsAre keep (32 * c) (len - 32 * c) w"
    and n: "n = survivors keep (32 * chunkLo len s i) (min (32 * (c + 1)) len)"
  shows "foundInv len s keep (storeFound i c w n z)" (is "foundInv _ _ _ ?z")
proof -
  note sl = foundInv_slice [OF inv i(1)]
  have c: "chunkLo len s i \<le> c" "c < ComputeNumChunks len"
    using progress_pos(2) [OF inv i(1)] i chunk_in_range by auto
  have "found len s keep j (info ?z ! SLICE_POS j) ?z" if j: "j < s" for j
  proof (cases "j = i")
    case True
    then show ?thesis
      using progress_pos(4) [OF inv j] i c w n progress_pos(6) [OF inv j] j
      by (auto simp: found_def nth_list_update less_Suc_eq)
  next
    case False
    have "c \<noteq> d" if "chunkLo len s j \<le> d" "d < info z ! SLICE_POS j" for d
      using chunk_owner' [OF i(1) j c(1) i(3)] that progress_pos(3) [OF inv j] False by auto
    then show ?thesis
      using progress_pos(4) [OF inv j] False by (auto simp: found_def)
  qed
  then show ?thesis using inv i by (auto simp: progress_def nth_list_update)
qed

text \<open>Slice \<open>i\<close> at chunk \<open>c\<close>, with the count it carries.\<close>

abbreviation foundAt :: "nat \<Rightarrow> nat \<Rightarrow> (nat \<Rightarrow> bool) \<Rightarrow> nat set \<Rightarrow> nat \<Rightarrow> nat \<Rightarrow> nat \<Rightarrow> 'v fil_mem \<Rightarrow> bool" where
  "foundAt len s keep D i c n z \<equiv>
     (foundInv len s keep z \<and> (\<forall>j\<in>D. finishedAt (chunkHi len s) j z)) \<and> info z ! SLICE_POS i = c \<and>
     n = survivors keep (32 * chunkLo len s i) (min (32 * c) len)"

lemma findChunk_safe:
  assumes i: "i < s" "chunkLo len s i \<le> c" "c < chunkHi len s i"
  shows "safe (findView len s i) (foundAt len s keep D i c n) (findChunk len keep i c n) (foundAt len s keep D i (c + 1))
    (\<lambda>z. foundInv len s keep z \<and> (\<forall>j\<in>D. finishedAt (chunkHi len s) j z))"
    (is "safe _ _ _ _ ?K")
proof (rule safe_pre [where c = "len < 2 ^ 28"])
  assume len: "len < 2 ^ 28"
  note start = chunk_start [OF len i(1,3)]
  let ?m = "min (32 * c + 32) len - 32 * c" and ?lo = "32 * chunkLo len s i"
  let ?I = "\<lambda>b x z. foundAt len s keep D i c n z \<and> chunkBitsAre keep (32 * c) b (fst x) \<and>
      snd x = survivors keep ?lo (32 * c + b)"
  let ?body = "\<lambda>bit x. bindP (callFunc (keep (32 * c + bit))) (\<lambda>keep.
        Ret (fst x OR push_bit bit (of_bool keep), snd x + of_bool keep))"
  have step: "safe (findView len s i) (?I b x) (?body b x) (?I (b + 1)) ?K" if "b < ?m" for b x
    by (rule safe_bind [OF safe_callFunc safe_ret])
      (use that i(2) chunkBits_step [of keep "32 * c" b "fst x"] survivors_step [of ?lo "32 * c + b" keep]
        in \<open>auto simp: add.assoc\<close>)
  have loop: "safe (findView len s i) (foundAt len s keep D i c n) (loopP [0..<?m] (0, n) ?body) (?I ?m) ?K"
    by (rule safe_weaken [OF safe_loop [where I = ?I, OF step]])
      (use start in \<open>auto simp: chunkBitsAre_def min_absorb1\<close>)
  have store: "safe (findView len s i) (?I ?m x) (UnsafeSetElement
        (\<lambda>z. c < length (f_survivors z) \<and> i < length (f_counts z) \<and> posOk i z)
        (storeFound i c (fst x) (snd x))) (\<lambda>_. foundAt len s keep D i (c + 1) (snd x)) ?K" for x
  proof (rule safe_set, elim conjE)
    fix z :: "'a fil_mem"
    assume z: "foundInv len s keep z" "\<forall>j\<in>D. finishedAt (chunkHi len s) j z" "info z ! SLICE_POS i = c"
      and x: "chunkBitsAre keep (32 * c) ?m (fst x)" "snd x = survivors keep ?lo (32 * c + ?m)"
    have "chunkBitsAre keep (32 * c) (len - 32 * c) (fst x)" using x(1) by (auto simp: chunkBitsAre_def)
    moreover have n: "snd x = survivors keep ?lo (min (32 * (c + 1)) len)"
    proof -
      have "32 * c + ?m = min (32 * (c + 1)) len" using start(2) by auto
      then show ?thesis using x(2) by simp
    qed
    ultimately have "foundInv len s keep (storeFound i c (fst x) (snd x) z)"
      by (rule foundInv_store [OF z(1) i(1) z(3) i(3)])
    moreover have "\<forall>j\<in>D. finishedAt (chunkHi len s) j (storeFound i c (fst x) (snd x) z)"
      by (rule finishedAt_store [OF z(2,3) i(3)]) simp
    ultimately show "(c < length (f_survivors z) \<and> i < length (f_counts z) \<and> posOk i z) \<and>
        foundAt len s keep D i (c + 1) (snd x) (storeFound i c (fst x) (snd x) z) \<and> ?K z"
      using z n foundInv_slice [OF z(1) i(1)] chunk_in_range [OF i(1,3)] i(1) progress_pos(5,6) [OF z(1) i(1)]
      by simp
  next
    fix z z' assume z: "?I ?m x z" "fst (findView len s i) z z'"
    then have inv: "foundInv len s keep z" by simp
    have "c < length (f_survivors z) \<and> i < length (f_counts z) \<and> posOk i z"
      using foundInv_slice [OF inv i(1)] chunk_in_range [OF i(1,3)] i(1) progress_pos(5) [OF inv i(1)] by simp
    then show "(c < length (f_survivors z') \<and> i < length (f_counts z') \<and> posOk i z') \<and>
        fst (findView len s i) (storeFound i c (fst x) (snd x) z) (storeFound i c (fst x) (snd x) z') \<and>
        snd (findView len s i) z' (storeFound i c (fst x) (snd x) z')"
      using findView_store [OF z(2) inv i] by blast
  qed
  show "safe (findView len s i) (foundAt len s keep D i c n) (findChunk len keep i c n) (foundAt len s keep D i (c + 1)) ?K"
    unfolding findChunk_def Let_def start(1) CHUNK_SIZE_def case_prod_beta storeFound_def [symmetric]
    by (rule safe_bind [OF loop safe_bind [OF store safe_ret]])
qed (use i(1) in \<open>auto dest: foundInv_slice(1)\<close>)

lemma findView_count: "fst (findView len s i) z z' \<Longrightarrow> f_counts z' ! i = f_counts z ! i"
  by (drule viewOf_slice(1)) (auto simp: ownFound_def dest: sameRange_nth)

lemma findSurvivors_safe:
  assumes i: "i < s"
  shows "safe (findView len s i) (\<lambda>z. foundInv len s keep z \<and> (\<forall>j\<in>D. finishedAt (chunkHi len s) j z))
     (findSurvivorsInSlice len keep i warmup)
     (\<lambda>done z. (foundInv len s keep z \<and> (\<forall>j\<in>D. finishedAt (chunkHi len s) j z)) \<and>
        (done \<longrightarrow> finishedAt (chunkHi len s) i z) \<and> (\<not> warmup \<longrightarrow> done))
     (\<lambda>z. foundInv len s keep z \<and> (\<forall>j\<in>D. finishedAt (chunkHi len s) j z))"
    (is "safe _ ?K _ ?Q ?K")
proof -
  let ?lo = "chunkLo len s i" and ?hi = "chunkHi len s i"
  let ?at = "\<lambda>c n z. foundAt len s keep D i c n z"
  let ?stop = "\<lambda>p. if warmup \<and> ?hi > p then p + 1 else ?hi"
  have tail: "safe (findView len s i) (?at stop n) (bindP (load (\<lambda>z. info z ! SLICE_END i)) (\<lambda>e. Ret (stop = e))) ?Q ?K"
    if "\<not> warmup \<longrightarrow> stop = ?hi" for stop n
    by (rule safe_bind [OF safe_load [OF viewOf_slice(5)] safe_ret])
      (use i that in \<open>auto simp: finishedAt_def progress_pos(1)\<close>)
  have main: "safe (findView len s i) (\<lambda>z. (?K z \<and> info z ! SLICE_POS i = p) \<and> n = f_counts z ! i)
      (bindP (loopP [p..<?stop p] n (findChunk len keep i)) (\<lambda>_.
       bindP (load (\<lambda>z. info z ! SLICE_END i)) (\<lambda>e. Ret (?stop p = e)))) ?Q ?K"
    if p: "?lo \<le> p" "p \<le> ?hi" for p n
  proof -
    have "safe (findView len s i) (?at c m) (findChunk len keep i c m) (?at (c + 1)) ?K" if "p \<le> c" "c < ?stop p" for c m
      using findChunk_safe [OF i, of len c keep D m] that p by (auto split: if_splits)
    then have "safe (findView len s i) (?at p n) (loopP [p..<?stop p] n (findChunk len keep i)) (?at (?stop p)) ?K"
      using p by (intro safe_loop [where I = ?at]) auto
    then have "safe (findView len s i) (?at p n) (bindP (loopP [p..<?stop p] n (findChunk len keep i)) (\<lambda>_.
       bindP (load (\<lambda>z. info z ! SLICE_END i)) (\<lambda>e. Ret (?stop p = e)))) ?Q ?K"
      by (rule safe_bind) (rule tail, simp)
    then show ?thesis by (rule safe_weaken) (auto simp: foundInv_slice(5) [OF _ i])
  qed
  show ?thesis
    unfolding findSurvivorsInSlice_def
  proof (rule safe_bind [OF safe_load [OF viewOf_slice(3)]], assumption,
      rule safe_bind [OF safe_load [OF viewOf_slice(5)]], assumption)
    fix p "end"
    let ?pre = "\<lambda>z :: 'a fil_mem. (?K z \<and> p = info z ! SLICE_POS i) \<and> end = info z ! SLICE_END i"
    have c: "end = ?hi \<and> ?lo \<le> p \<and> p \<le> ?hi" if "?pre z" for z :: "'a fil_mem"
      using that i progress_pos(1-3) [of s _ _ _ z i] by auto
    show "safe (findView len s i) ?pre (let chunkEnd = if warmup \<and> p < end then p + 1 else end in
        bindP (load (\<lambda>z. f_counts z ! i)) (\<lambda>count.
        bindP (loopP [p..<chunkEnd] count (findChunk len keep i)) (\<lambda>_.
        bindP (load (\<lambda>z. info z ! SLICE_END i)) (\<lambda>e. Ret (chunkEnd = e))))) ?Q ?K"
    proof (rule safe_pre [OF c], assumption, unfold Let_def, rule safe_bind [OF safe_load [OF findView_count]], assumption)
      fix n
      assume b: "end = ?hi \<and> ?lo \<le> p \<and> p \<le> ?hi"
      then have e: "end = ?hi" by simp
      have "safe (findView len s i) (\<lambda>z. (?K z \<and> info z ! SLICE_POS i = p) \<and> n = f_counts z ! i)
        (bindP (loopP [p..<if warmup \<and> p < end then p + 1 else end] n (findChunk len keep i)) (\<lambda>_.
         bindP (load (\<lambda>z. info z ! SLICE_END i)) (\<lambda>e. Ret ((if warmup \<and> p < end then p + 1 else end) = e)))) ?Q ?K"
        unfolding e by (rule main) (use b in auto)
      then show "safe (findView len s i) (\<lambda>z. ?pre z \<and> n = f_counts z ! i)
        (bindP (loopP [p..<if warmup \<and> p < end then p + 1 else end] n (findChunk len keep i)) (\<lambda>_.
         bindP (load (\<lambda>z. info z ! SLICE_END i)) (\<lambda>e. Ret ((if warmup \<and> p < end then p + 1 else end) = e)))) ?Q ?K"
        by (rule safe_weaken) auto
    qed
  qed
qed

interpretation find_kernel: slice_kernel "findSurvivorsInSlice len keep" s "foundInv len s keep"
    "finishedAt (chunkHi len s)" "sameSlice (ownFound len s)" for len keep s
  by unfold_locales
    (rule sameSlice_equiv, rule ownFound_equivp, rule finishedAt_same, assumption+,
     blast intro: progress_same [where own = "ownFound len s"] ownFound_found, rule findSurvivors_safe)

section \<open>The second join\<close>

lemma survivors_mono: "b \<le> c \<Longrightarrow> survivors keep 0 b \<le> survivors keep 0 c"
  using survivors_append [of 0 b c keep] by simp

lemma survivors_nth:
  assumes "k < len" "keep k"
  shows "filter keep [0..<len] ! survivors keep 0 k = k" "survivors keep 0 k < survivors keep 0 len"
proof -
  have "[0..<len] = [0..<k] @ k # [Suc k..<len]"
    using assms(1) upt_add_eq_append [of 0 k "len - k"] by (simp add: upt_conv_Cons)
  then show "filter keep [0..<len] ! survivors keep 0 k = k" "survivors keep 0 k < survivors keep 0 len"
    using assms(2) by (simp_all add: survivors_def nth_append)
qed

text \<open>What the second join is given, and the part of the result that a slice writes.\<close>

definition copyInv :: "nat \<Rightarrow> nat \<Rightarrow> (nat \<Rightarrow> bool) \<Rightarrow> 'v fil_mem \<Rightarrow> bool" where
  "copyInv len s keep z \<longleftrightarrow> len < 2 ^ 28 \<and> length (f_counts z) = s \<and>
     length (f_survivors z) = ComputeNumChunks len \<and> length (f_buffer z) = survivors keep 0 len \<and>
     (\<forall>i < s. info z ! SLICE_START i = chunkLo len s i \<and> info z ! SLICE_END i = chunkHi len s i \<and>
        f_counts z ! i = survivors keep (32 * chunkLo len s i) (min (32 * chunkHi len s i) len) \<and>
        (\<forall>c. chunkLo len s i \<le> c \<longrightarrow> c < chunkHi len s i \<longrightarrow>
           (\<exists>w. f_survivors z ! c = Some w \<and> chunkBitsAre keep (32 * c) (len - 32 * c) w)))"

definition before :: "nat \<Rightarrow> (nat \<Rightarrow> bool) \<Rightarrow> nat \<Rightarrow> nat" where
  "before len keep c = survivors keep 0 (min (32 * c) len)"

definition copiedTo :: "nat \<Rightarrow> (nat \<Rightarrow> bool) \<Rightarrow> (nat \<Rightarrow> 'v) \<Rightarrow> nat \<Rightarrow> nat \<Rightarrow> 'v fil_mem \<Rightarrow> bool" where
  "copiedTo len keep elem a b z \<longleftrightarrow>
     (\<forall>m. a \<le> m \<longrightarrow> m < b \<longrightarrow> f_buffer z ! m = Some (elem (filter keep [0..<len] ! m)))"

definition copied :: "nat \<Rightarrow> nat \<Rightarrow> (nat \<Rightarrow> bool) \<Rightarrow> (nat \<Rightarrow> 'v) \<Rightarrow> nat \<Rightarrow> 'v fil_mem \<Rightarrow> bool" where
  "copied len s keep elem i =
     copiedTo len keep elem (before len keep (chunkLo len s i)) (before len keep (chunkHi len s i))"

definition putSurvivor :: "nat \<Rightarrow> 'v \<Rightarrow> 'v fil_mem \<Rightarrow> 'v fil_mem" where
  "putSurvivor m v z = z\<lparr>f_buffer := (f_buffer z)[m := Some v]\<rparr>"

text \<open>Nothing is stored but in the buffer, each slice between the survivors before it and those up to its end.\<close>

definition sameCopy :: "nat \<Rightarrow> nat \<Rightarrow> (nat \<Rightarrow> bool) \<Rightarrow> nat \<Rightarrow> 'v fil_mem \<Rightarrow> 'v fil_mem \<Rightarrow> bool" where
  "sameCopy len s keep i z w \<longleftrightarrow> info z = info w \<and> f_counts z = f_counts w \<and> f_survivors z = f_survivors w \<and>
     sameRange (before len keep (chunkLo len s i)) (before len keep (chunkHi len s i)) (f_buffer z) (f_buffer w)"

abbreviation copyView :: "nat \<Rightarrow> nat \<Rightarrow> (nat \<Rightarrow> bool) \<Rightarrow> nat \<Rightarrow> 'v fil_mem view" where
  "copyView len s keep i \<equiv> viewOf (sameCopy len s keep) s i"

lemma sameCopy_equivp: "equivp (sameCopy len s keep i)"
  unfolding sameCopy_def [abs_def] by (intro equivp_conj equivp_eq sameRange_equivp [where f = f_buffer])

lemma sameCopy_inv: "sameCopy len s keep i z w \<Longrightarrow> copyInv len s keep z \<Longrightarrow> copyInv len s keep w"
  by (auto simp: sameCopy_def copyInv_def dest: sameRange_length)

lemma sameCopy_copied: "sameCopy len s keep i z w \<Longrightarrow> copied len s keep elem i z \<Longrightarrow> copied len s keep elem i w"
  by (auto simp: sameCopy_def copied_def copiedTo_def dest: sameRange_nth)

lemma copyView_facts:
  assumes "fst (copyView len s keep i) z z'"
  shows "info z' = info z" "f_counts z' = f_counts z" "f_survivors z' = f_survivors z"
    "length (f_buffer z') = length (f_buffer z)"
  using assms by (auto simp: viewOf_def sameCopy_def dest: sameRange_length)

lemma before_mono: "c \<le> d \<Longrightarrow> before len keep c \<le> before len keep d"
  by (auto simp: before_def intro!: survivors_mono)

lemma copyView_put:
  assumes "fst (copyView len s keep i) z z'" "i < s" "before len keep (chunkLo len s i) \<le> m"
    "m < before len keep (chunkHi len s i)"
  shows "fst (copyView len s keep i) (putSurvivor m v z) (putSurvivor m v z') \<and>
    snd (copyView len s keep i) z' (putSurvivor m v z')"
proof -
  have "sameCopy len s keep j z' (putSurvivor m v z')" if "j < s" "j \<noteq> i" for j
  proof -
    have "chunkHi len s i \<le> chunkLo len s j \<or> chunkHi len s j \<le> chunkLo len s i"
      using chunks_disjoint [OF assms(2) that(1)] that(2) by simp
    then have "m < before len keep (chunkLo len s j) \<or> before len keep (chunkHi len s j) \<le> m"
      using assms(3,4) before_mono [of "chunkHi len s i" "chunkLo len s j" len keep]
        before_mono [of "chunkHi len s j" "chunkLo len s i" len keep] by auto
    then show ?thesis by (auto simp: sameCopy_def putSurvivor_def intro!: sameRange_outside)
  qed
  then show ?thesis using assms(1) by (auto simp: viewOf_def sameCopy_def putSurvivor_def sameRange_update)
qed

lemma copyInv_put [simp]: "copyInv len s keep (putSurvivor m v z) = copyInv len s keep z"
  by (simp add: copyInv_def putSurvivor_def)

lemma copiedTo_put:
  assumes "copiedTo len keep elem a b z" "v = elem (filter keep [0..<len] ! m)" "m < length (f_buffer z)"
  shows "copiedTo len keep elem a b (putSurvivor m v z)"
  using assms by (auto simp: copiedTo_def putSurvivor_def nth_list_update)

lemma copiedTo_step:
  assumes "copiedTo len keep elem a m z" "v = elem (filter keep [0..<len] ! m)" "m < length (f_buffer z)"
  shows "copiedTo len keep elem a (m + 1) (putSurvivor m v z)"
  using assms by (auto simp: copiedTo_def putSurvivor_def nth_list_update less_Suc_eq)

lemma counts_before:
  assumes "copyInv len s keep z" "i \<le> s"
  shows "fold (\<lambda>j count. count + f_counts z ! j) [0..<i] 0 = (if i = 0 then 0 else before len keep (chunkHi len s (i - 1)))"
  using assms(2)
proof (induction i)
  case (Suc i)
  have "chunkLo len s i \<le> chunkHi len s i" using Suc.prems by (simp add: chunkLo_def chunkHi_def slice_lo_hi)
  moreover have "f_counts z ! i = survivors keep (32 * chunkLo len s i) (min (32 * chunkHi len s i) len)"
    using assms(1) Suc.prems by (simp add: copyInv_def)
  moreover have "i \<noteq> 0 \<Longrightarrow> chunkHi len s (i - 1) = chunkLo len s i"
    using slice_hi_Suc [of "i - 1" s] Suc.prems by (simp add: chunkLo_def chunkHi_def)
  moreover have "chunkLo len s 0 = 0" by (simp add: chunkLo_def slice_lo_0)
  ultimately show ?case
    using Suc survivors_append [of 0 "min (32 * chunkLo len s i) len" "min (32 * chunkHi len s i) len" keep]
    by (auto simp: before_def min_def survivors_def split: if_splits)
qed simp

lemma sumCounts_safe:
  assumes "\<And>z z'. P z \<Longrightarrow> fst V z z' \<Longrightarrow> f_counts z' = f_counts z"
  shows "safe V P (sumCounts n) (\<lambda>x z. P z \<and> x = fold (\<lambda>i count. count + f_counts z ! i) [0..<n] 0) B"
proof -
  let ?I = "\<lambda>k x z. P z \<and> x = fold (\<lambda>i count. count + f_counts z ! i) [0..<k] 0"
  have "safe V (?I k x) (bindP (load (\<lambda>z. f_counts z ! k)) (\<lambda>c. Ret (x + c))) (?I (k + 1)) B" for k x
    by (rule safe_bind [OF safe_load safe_ret]) (use assms in auto)
  then have "safe V (?I 0 0) (sumCounts n) (?I n) B"
    unfolding sumCounts_def by (intro safe_loop [where I = ?I]) auto
  then show ?thesis by (rule safe_weaken) auto
qed

lemma copyBits_zero: "set is \<subseteq> {..<32} \<Longrightarrow> copyBits elem 0 start upTo is count = Ret count"
  by (induction "is") auto

lemma copyBits_Cons:
  assumes "i < 32"
  shows "copyBits elem w start upTo (i # is) count =
     (if bit w i
      then bindP (UnsafeSetElement (\<lambda>z. count < length (f_buffer z)) (putSurvivor count (elem (start + i)))) (\<lambda>_.
           if count + 1 = upTo then Ret (count + 1) else copyBits elem w start upTo is (count + 1))
      else copyBits elem w start upTo is count)"
  by (simp only: copyBits.simps test_bit [OF assms] putSurvivor_def [abs_def])

text \<open>What a slice has written when it holds \<open>n\<close> survivors, and what all slices keep.\<close>

definition copyAt ::
  "nat \<Rightarrow> nat \<Rightarrow> (nat \<Rightarrow> bool) \<Rightarrow> (nat \<Rightarrow> 'v) \<Rightarrow> nat set \<Rightarrow> nat \<Rightarrow> nat \<Rightarrow> 'v fil_mem \<Rightarrow> bool" where
  "copyAt len s keep elem D i n z \<longleftrightarrow> (copyInv len s keep z \<and> (\<forall>j\<in>D. copied len s keep elem j z)) \<and>
     copiedTo len keep elem (before len keep (chunkLo len s i)) n z"

lemma copyAt_put:
  assumes at: "copyAt len s keep elem D i (survivors keep 0 k) z" and k: "k < len" "keep k"
  shows "copyAt len s keep elem D i (survivors keep 0 (k + 1)) (putSurvivor (survivors keep 0 k) (elem k) z)"
    "survivors keep 0 k < length (f_buffer z)"
proof -
  note nth = survivors_nth [of k len keep, OF k]
  show room: "survivors keep 0 k < length (f_buffer z)" using at nth(2) by (simp add: copyAt_def copyInv_def)
  have v: "elem k = elem (filter keep [0..<len] ! survivors keep 0 k)" using nth(1) by simp
  have "survivors keep 0 (k + 1) = survivors keep 0 k + 1" using survivors_step [of 0 k keep] k(2) by simp
  then show "copyAt len s keep elem D i (survivors keep 0 (k + 1)) (putSurvivor (survivors keep 0 k) (elem k) z)"
    using at copiedTo_put [where len = len and elem = elem, OF _ v room]
      copiedTo_step [where len = len and elem = elem, OF _ v room]
    by (simp add: copyAt_def copied_def)
qed

text \<open>The bits of a chunk from \<open>b\<close> on; the early exit happens when no survivor is left in the slice.\<close>

lemma copyBits_safe:
  assumes w: "chunkBitsAre keep (32 * c) (len - 32 * c) w" and c: "32 * c < len" "chunkLo len s i \<le> c" "c < chunkHi len s i" and i: "i < s"
    and upTo: "upTo = before len keep (chunkHi len s i)" and b: "b \<le> 32"
  shows "safe (copyView len s keep i) (\<lambda>z. copyAt len s keep elem D i n z \<and> n = survivors keep 0 (min (32 * c + b) len))
    (copyBits elem w (32 * c) upTo [b..<32] n)
    (\<lambda>n z. copyAt len s keep elem D i n z \<and> n = before len keep (c + 1))
    (\<lambda>z. copyInv len s keep z \<and> (\<forall>j\<in>D. copied len s keep elem j z))"
    (is "safe (copyView len s keep i) (?pre b n) _ ?post ?K")
  using b
proof (induction "32 - b" arbitrary: b n)
  case 0
  then have "b = 32" by simp
  then show ?case by (auto simp: before_def add.commute intro!: safe_ret)
next
  case (Suc d)
  then have bits: "[b..<32] = b # [b + 1..<32]" and b: "b < 32" by (auto simp: upt_conv_Cons)
  have rest: "safe (copyView len s keep i) (?pre (b + 1) m) (copyBits elem w (32 * c) upTo [b + 1..<32] m) ?post ?K" for m
    using Suc b by (intro Suc.hyps) auto
  show ?case
  proof (cases "bit w b")
    case False
    then have "\<not> (32 * c + b < len \<and> keep (32 * c + b))" using w b by (auto simp: chunkBitsAre_def)
    then have "survivors keep 0 (min (32 * c + (b + 1)) len) = survivors keep 0 (min (32 * c + b) len)"
      using survivors_step [of 0 "32 * c + b" keep] by (cases "32 * c + b < len") auto
    then show ?thesis
      using rest [of n] False unfolding bits copyBits_Cons [OF b] by simp
  next
    case True
    then have k: "32 * c + b < len" "keep (32 * c + b)" using w b by (auto simp: chunkBitsAre_def)
    let ?k = "32 * c + b"
    have mink: "min ?k len = ?k" "min (32 * c + (b + 1)) len = ?k + 1" using k by auto
    have n1: "survivors keep 0 (?k + 1) = survivors keep 0 ?k + 1" using survivors_step [of 0 ?k keep] k(2) by simp
    have put: "safe (copyView len s keep i) (?pre b n) (UnsafeSetElement (\<lambda>z. n < length (f_buffer z)) (putSurvivor n (elem ?k)))
        (\<lambda>_. ?pre (b + 1) (n + 1)) ?K"
    proof (rule safe_set)
      fix z assume z: "?pre b n z"
      then show "n < length (f_buffer z) \<and> ?pre (b + 1) (n + 1) (putSurvivor n (elem ?k) z) \<and> ?K z"
        using copyAt_put [of len s keep elem D i ?k z] k mink n1 by (auto simp: copyAt_def)
    next
      fix z z' assume z: "?pre b n z" "fst (copyView len s keep i) z z'"
      have n: "n = survivors keep 0 ?k" using z(1) mink(1) by simp
      have room: "n < length (f_buffer z')"
        using copyAt_put(2) [of len s keep elem D i ?k z] z(1) k copyView_facts(4) [OF z(2)] n by simp
      have "before len keep (chunkLo len s i) \<le> n"
        unfolding n before_def using c(2) by (intro survivors_mono) simp
      moreover have "survivors keep 0 (?k + 1) \<le> before len keep (chunkHi len s i)"
        unfolding before_def using k b c(3) by (intro survivors_mono) auto
      then have "n < before len keep (chunkHi len s i)" using n n1 by simp
      ultimately show "n < length (f_buffer z') \<and> fst (copyView len s keep i) (putSurvivor n (elem ?k) z) (putSurvivor n (elem ?k) z') \<and>
          snd (copyView len s keep i) z' (putSurvivor n (elem ?k) z')"
        using room copyView_put [OF z(2) i] by blast
    qed
    have "safe (copyView len s keep i) (?pre (b + 1) (n + 1))
        (if n + 1 = upTo then Ret (n + 1) else copyBits elem w (32 * c) upTo [b + 1..<32] (n + 1)) ?post ?K"
    proof (cases "n + 1 = upTo")
      case True
      have "before len keep (c + 1) \<le> upTo" unfolding upTo using c(3) by (intro before_mono) simp
      moreover have "survivors keep 0 (?k + 1) \<le> before len keep (c + 1)"
        unfolding before_def using k b by (intro survivors_mono) auto
      ultimately show ?thesis using True mink by (auto intro!: safe_ret)
    qed (use rest in simp)
    then show ?thesis
      unfolding bits copyBits_Cons [OF b] if_P [OF True] by (rule safe_bind [OF put])
  qed
qed

lemma copyInv_slice:
  assumes "copyInv len s keep z" "i < s"
  shows "len < 2 ^ 28" "info z ! SLICE_START i = chunkLo len s i" "info z ! SLICE_END i = chunkHi len s i"
    "f_counts z ! i = survivors keep (32 * chunkLo len s i) (min (32 * chunkHi len s i) len)"
    "chunkLo len s i \<le> c \<Longrightarrow> c < chunkHi len s i \<Longrightarrow> c < length (f_survivors z) \<and>
       (\<exists>w. f_survivors z ! c = Some w \<and> chunkBitsAre keep (32 * c) (len - 32 * c) w)"
  using assms chunk_in_range [OF assms(2)] by (auto simp: copyInv_def)

text \<open>The counts give the positions: the survivors before the slice, and up to its end.\<close>

lemma slice_positions_of_counts:
  assumes "copyInv len s keep z" "i < s"
  shows "(if i > 0 then fold (\<lambda>j count. count + f_counts z ! j) [0..<i] 0 else 0) = before len keep (chunkLo len s i)"
    "before len keep (chunkLo len s i) + f_counts z ! i = before len keep (chunkHi len s i)"
proof -
  have "0 < i \<Longrightarrow> chunkHi len s (i - 1) = chunkLo len s i"
    using slice_hi_Suc [of "i - 1" s] assms(2) by (simp add: chunkLo_def chunkHi_def)
  moreover have "chunkLo len s 0 = 0" by (simp add: chunkLo_def slice_lo_0)
  ultimately show "(if i > 0 then fold (\<lambda>j count. count + f_counts z ! j) [0..<i] 0 else 0) = before len keep (chunkLo len s i)"
    using counts_before [OF assms(1), of i] assms(2) by (cases "i = 0") (auto simp: before_def survivors_def)
  have "chunkLo len s i \<le> chunkHi len s i" using assms(2) by (simp add: chunkLo_def chunkHi_def slice_lo_hi)
  then show "before len keep (chunkLo len s i) + f_counts z ! i = before len keep (chunkHi len s i)"
    using copyInv_slice(4) [OF assms] survivors_append [of 0 "min (32 * chunkLo len s i) len" "min (32 * chunkHi len s i) len" keep]
    by (auto simp: before_def min_def survivors_def split: if_splits)
qed

lemma copyChunk_safe:
  assumes i: "i < s" "chunkLo len s i \<le> c" "c < chunkHi len s i" and len: "len < 2 ^ 28"
    and upTo: "upTo = before len keep (chunkHi len s i)"
  shows "safe (copyView len s keep i) (\<lambda>z. copyAt len s keep elem D i n z \<and> n = before len keep c)
    (bindP (loadElem f_survivors c) (\<lambda>chunkBits.
       if chunkBits = 0 then Ret n else copyBits elem chunkBits (shl5 c) upTo [0..<CHUNK_SIZE] n))
    (\<lambda>n z. copyAt len s keep elem D i n z \<and> n = before len keep (c + 1))
    (\<lambda>z. copyInv len s keep z \<and> (\<forall>j\<in>D. copied len s keep elem j z))"
    (is "safe _ ?pre _ ?post ?K")
proof (rule safe_bind [OF safe_loadElem [where g = "\<lambda>z. the (f_survivors z ! c)"]])
  note start = chunk_start [OF len i(1,3)]
  fix w
  show "safe (copyView len s keep i) (\<lambda>z. ?pre z \<and> w = the (f_survivors z ! c))
      (if w = 0 then Ret n else copyBits elem w (shl5 c) upTo [0..<CHUNK_SIZE] n) ?post ?K"
  proof (rule safe_pre [where c = "chunkBitsAre keep (32 * c) (len - 32 * c) w"])
    assume w: "chunkBitsAre keep (32 * c) (len - 32 * c) w"
    have "(if w = 0 then Ret n else copyBits elem w (shl5 c) upTo [0..<CHUNK_SIZE] n) =
        copyBits elem w (32 * c) upTo [0..<32] n"
      using copyBits_zero [of "[0..<32]" elem "32 * c" upTo n] start(1)
      by (simp add: CHUNK_SIZE_def atLeast0LessThan)
    then show "safe (copyView len s keep i) (\<lambda>z. ?pre z \<and> w = the (f_survivors z ! c))
        (if w = 0 then Ret n else copyBits elem w (shl5 c) upTo [0..<CHUNK_SIZE] n) ?post ?K"
      using copyBits_safe [OF w start(2) i(2,3,1) upTo, where b = 0 and elem = elem and D = D and n = n] start(2)
      by (auto simp: before_def elim!: safe_weaken)
  next
    fix z assume "?pre z \<and> w = the (f_survivors z ! c)"
    then show "chunkBitsAre keep (32 * c) (len - 32 * c) w"
      using copyInv_slice(5) [OF _ i, of keep z] by (auto simp: copyAt_def)
  qed
next
  fix z assume "?pre z"
  then show "c < length (f_survivors z) \<and> f_survivors z ! c = Some (the (f_survivors z ! c))"
    using copyInv_slice(5) [OF _ i, of keep z] by (auto simp: copyAt_def)
qed (auto dest: copyView_facts(3))

lemma copyChunks_safe:
  assumes i: "i < s"
  shows "safe (copyView len s keep i) (\<lambda>z. copyInv len s keep z \<and> (\<forall>j\<in>D. copied len s keep elem j z))
     (copyChunks elem i (before len keep (chunkHi len s i)) (before len keep (chunkLo len s i)))
     (\<lambda>done z. (copyInv len s keep z \<and> (\<forall>j\<in>D. copied len s keep elem j z)) \<and> copied len s keep elem i z \<and> done)
     (\<lambda>z. copyInv len s keep z \<and> (\<forall>j\<in>D. copied len s keep elem j z))"
    (is "safe _ ?K _ ?Q ?K")
proof -
  let ?lo = "chunkLo len s i" and ?hi = "chunkHi len s i"
  let ?a = "before len keep ?lo" and ?b = "before len keep ?hi"
  let ?chunk = "\<lambda>chunk count. bindP (loadElem f_survivors chunk) (\<lambda>chunkBits.
         if chunkBits = 0 then Ret count else copyBits elem chunkBits (shl5 chunk) ?b [0..<CHUNK_SIZE] count)"
  let ?I = "\<lambda>c n z. copyAt len s keep elem D i n z \<and> n = before len keep c"
  have le: "?lo \<le> ?hi" using i by (simp add: chunkLo_def chunkHi_def slice_lo_hi)
  have loop: "safe (copyView len s keep i) ?K (loopP [?lo..<?hi] ?a ?chunk) (?I ?hi) ?K"
  proof (rule safe_pre [where c = "len < 2 ^ 28"])
    assume len: "len < 2 ^ 28"
    have "safe (copyView len s keep i) (?I ?lo ?a) (loopP [?lo..<?hi] ?a ?chunk) (?I ?hi) ?K"
      using copyChunk_safe [OF i _ _ len refl, where elem = elem and D = D] le
      by (intro safe_loop [where I = ?I]) auto
    then show "safe (copyView len s keep i) ?K (loopP [?lo..<?hi] ?a ?chunk) (?I ?hi) ?K"
      by (rule safe_weaken) (auto simp: copyAt_def copiedTo_def)
  qed (auto simp: copyInv_def)
  show ?thesis
    unfolding copyChunks_def
  proof (rule safe_bind [OF safe_load], simp add: copyView_facts(1),
      rule safe_bind [OF safe_load], simp add: copyView_facts(1))
    fix st "end"
    show "safe (copyView len s keep i) (\<lambda>z. (?K z \<and> st = info z ! SLICE_START i) \<and> end = info z ! SLICE_END i)
        (bindP (loopP [st..<end] ?a ?chunk) (\<lambda>_. Ret True)) ?Q ?K"
    proof (rule safe_pre [where c = "st = ?lo \<and> end = ?hi"])
      assume "st = ?lo \<and> end = ?hi"
      then have e: "st = ?lo" "end = ?hi" by auto
      show "safe (copyView len s keep i) (\<lambda>z. (?K z \<and> st = info z ! SLICE_START i) \<and> end = info z ! SLICE_END i)
        (bindP (loopP [st..<end] ?a ?chunk) (\<lambda>_. Ret True)) ?Q ?K"
        unfolding e
        by (rule safe_bind [OF safe_weaken [OF loop] safe_ret]) (auto simp: copyAt_def copied_def)
    qed (auto simp: copyInv_slice(2,3) [OF _ i])
  qed
qed

lemma copySurvivors_safe:
  assumes i: "i < s"
  shows "safe (copyView len s keep i) (\<lambda>z. copyInv len s keep z \<and> (\<forall>j\<in>D. copied len s keep elem j z))
     (copySurvivorsInSlice elem i warmup)
     (\<lambda>done z. (copyInv len s keep z \<and> (\<forall>j\<in>D. copied len s keep elem j z)) \<and>
        (done \<longrightarrow> copied len s keep elem i z) \<and> (\<not> warmup \<longrightarrow> done))
     (\<lambda>z. copyInv len s keep z \<and> (\<forall>j\<in>D. copied len s keep elem j z))"
    (is "safe _ ?K _ ?Q ?K")
proof -
  let ?a = "before len keep (chunkLo len s i)" and ?b = "before len keep (chunkHi len s i)"
  let ?V = "copyView len s keep i"
  have main: "safe ?V ?K (if ?a = ?b then Ret True else copyChunks elem i ?b ?a) ?Q ?K"
  proof (cases "?a = ?b")
    case True
    then show ?thesis by (auto simp: copied_def copiedTo_def intro!: safe_ret)
  next
    case False
    show ?thesis unfolding if_not_P [OF False] by (rule safe_weaken [OF copyChunks_safe [OF i]]) auto
  qed
  have sum: "safe ?V ?K (if i > 0 then sumCounts i else Ret 0) (\<lambda>x z. ?K z \<and> x = ?a) ?K"
  proof (cases "i > 0")
    case True
    have "safe ?V ?K (sumCounts i) (\<lambda>x z. ?K z \<and> x = fold (\<lambda>j count. count + f_counts z ! j) [0..<i] 0) ?K"
      by (rule sumCounts_safe) (simp add: copyView_facts(2))
    then show ?thesis
      unfolding if_P [OF True] by (rule safe_weaken) (use slice_positions_of_counts(1) [OF _ i] True in auto)
  next
    case False
    then have "?a = 0" using slice_positions_of_counts(1) [where s = s and i = i and len = len and keep = keep] i
      by (simp add: before_def survivors_def chunkLo_def slice_lo_0)
    then show ?thesis using False by (auto intro!: safe_ret)
  qed
  have rest: "safe ?V (\<lambda>z. (?K z \<and> count = ?a) \<and> own = f_counts z ! i)
      (let upTo = count + own in if count = upTo then Ret True else copyChunks elem i upTo count) ?Q ?K" for count own
  proof (rule safe_pre [where c = "count = ?a \<and> ?a + own = ?b"])
    assume "count = ?a \<and> ?a + own = ?b"
    then have e: "count = ?a" "?a + own = ?b" by auto
    show "safe ?V (\<lambda>z. (?K z \<and> count = ?a) \<and> own = f_counts z ! i)
      (let upTo = count + own in if count = upTo then Ret True else copyChunks elem i upTo count) ?Q ?K"
      unfolding e Let_def by (rule safe_weaken [OF main]) auto
  qed (use slice_positions_of_counts(2) [OF _ i] in auto)
  show ?thesis
    unfolding copySurvivorsInSlice_def
    by (rule safe_bind [OF sum safe_bind [OF safe_load rest]]) (simp add: copyView_facts(2))
qed

interpretation copy_kernel: slice_kernel "copySurvivorsInSlice elem" s "copyInv len s keep" "copied len s keep elem"
    "sameCopy len s keep" for elem s len keep
  by unfold_locales
    (rule sameCopy_equivp, rule sameCopy_copied, assumption+, blast intro: sameCopy_inv, rule copySurvivors_safe)

section \<open>The result\<close>

lemma foundInv_init:
  assumes "len < 2 ^ 28"
  shows "foundInv len s keep \<lparr>info = ComputeAllSliceBounds (ComputeNumChunks len) s, f_counts = replicate s 0,
      f_survivors = NewDenseArray (ComputeNumChunks len), f_buffer = b\<rparr>"
proof -
  have "ComputeNumChunks len < 2 ^ 31" using chunks_28 [OF assms] by simp
  note slice_info [OF this]
  then show ?thesis
    using assms
    by (auto simp: progress_def found_def chunkLo_def chunkHi_def NewDenseArray_def slice_lo_hi survivors_def)
qed

lemma found_copyInv:
  assumes "foundInv len s keep z" "\<forall>i\<in>{..<s}. finishedAt (chunkHi len s) i z" "0 < s"
    "length b = survivors keep 0 len"
  shows "copyInv len s keep (z\<lparr>f_buffer := b\<rparr>)"
proof -
  have "found len s keep i (chunkHi len s i) z" if "i < s" for i
    using progress_pos(4) [OF assms(1) that] assms(2) that by (auto simp: finishedAt_def)
  then show ?thesis
    using assms foundInv_slice(1-3) [OF assms(1,3)] progress_pos(1) [OF assms(1)]
    by (auto simp: copyInv_def found_def)
qed

lemma total_count:
  assumes "copyInv len s keep (z\<lparr>f_buffer := b\<rparr>)" "0 < s"
  shows "fold (\<lambda>i count. count + f_counts z ! i) [0..<s] 0 = survivors keep 0 len"
proof -
  have "len < 2 ^ 28" using assms(1) by (simp add: copyInv_def)
  then have "min (32 * chunkHi len s (s - 1)) len = len"
    using slice_hi_last [OF assms(2), of "ComputeNumChunks len"]
    by (simp add: chunkHi_def ComputeNumChunks_eq)
  then show ?thesis using counts_before [OF assms(1) order_refl] assms(2) by (simp add: before_def)
qed

lemma survivors_of_nth:
  assumes "m < survivors keep 0 len"
  defines "k \<equiv> filter keep [0..<len] ! m"
  shows "k < len" "keep k" "survivors keep 0 k = m"
proof -
  have "k \<in> set (filter keep [0..<len])" using assms nth_mem [of m "filter keep [0..<len]"] by (simp add: survivors_def)
  then show k: "k < len" "keep k" by auto
  have "filter keep [0..<len] ! survivors keep 0 k = filter keep [0..<len] ! m"
    using survivors_nth(1) [of k len keep] k by (simp add: k_def)
  moreover have "distinct (filter keep [0..<len])" by simp
  ultimately show "survivors keep 0 k = m"
    using survivors_nth(2) [of k len keep, OF k] assms(1) by (metis nth_eq_iff_index_eq survivors_def)
qed

lemma copied_complete:
  assumes "copyInv len s keep z" "\<forall>i\<in>{..<s}. copied len s keep elem i z" "0 < s"
  shows "f_buffer z = map (\<lambda>k. Some (elem k)) (filter keep [0..<len])"
proof (rule nth_equalityI)
  have len: "len < 2 ^ 28" "length (f_buffer z) = survivors keep 0 len" using assms(1) by (auto simp: copyInv_def)
  then show "length (f_buffer z) = length (map (\<lambda>k. Some (elem k)) (filter keep [0..<len]))"
    by (simp add: survivors_def)
  fix m assume "m < length (f_buffer z)"
  then have m: "m < survivors keep 0 len" using len by simp
  note k = survivors_of_nth [OF m]
  let ?k = "filter keep [0..<len] ! m"
  have "?k div 32 < ComputeNumChunks len" using len(1) k(1) by (simp add: ComputeNumChunks_eq)
  then obtain i where i: "i < s" "chunkLo len s i \<le> ?k div 32" "?k div 32 < chunkHi len s i"
    using slices_cover [of "?k div 32" "ComputeNumChunks len" s] assms(3) by (auto simp: chunkLo_def chunkHi_def)
  have "before len keep (chunkLo len s i) \<le> survivors keep 0 ?k"
    unfolding before_def using i(2) by (intro survivors_mono) (simp add: less_eq_div_iff_mult_less_eq mult.commute)
  moreover have "survivors keep 0 (?k + 1) \<le> before len keep (chunkHi len s i)"
    unfolding before_def using i(3) k(1) by (intro survivors_mono) (simp add: div_less_iff_less_mult mult.commute)
  ultimately have "before len keep (chunkLo len s i) \<le> m" "m < before len keep (chunkHi len s i)"
    using k(2,3) survivors_step [of 0 ?k keep] by auto
  then show "f_buffer z ! m = map (\<lambda>k. Some (elem k)) (filter keep [0..<len]) ! m"
    using assms(2) i(1) m by (auto simp: copied_def copiedTo_def survivors_def)
qed

lemma sequential_filter:
  "fold (\<lambda>i buffer. if keep i then buffer @ [Some (elem i)] else buffer) is b =
   b @ map (\<lambda>k. Some (elem k)) (filter keep is)"
  by (induction "is" arbitrary: b) auto

text \<open>The part of the operation after the first join.\<close>

abbreviation filterTail :: "engine \<Rightarrow> (nat \<Rightarrow> 'v) \<Rightarrow> ('v fil_mem, 'v parray) pjs" where
  "filterTail e elem \<equiv>
     bindP (sumCounts (numSlices e)) (\<lambda>count.
     bindP (newBuffer count) (\<lambda>_.
     bindP (if count > 0 then ForkJoin (copySurvivorsInSlice elem) (numSlices e) (scheduleAt e 1) else Ret ()) (\<lambda>_.
     bindP (load f_buffer) (\<lambda>b. Ret (ParallelArrayView [count] b 0)))))"

lemma runOp_newBuffer [simp]: "runOp (bindP (newBuffer n) k) z = runOp (k ()) (z\<lparr>f_buffer := NewDenseArray n\<rparr>)"
  by (simp add: newBuffer_def runOp_def)

lemma endsIn_filterTail:
  assumes inv: "foundInv len (numSlices e) keep z" "\<forall>i\<in>{..<numSlices e}. finishedAt (chunkHi len (numSlices e)) i z"
    and e: "0 < numSlices e" "\<not> forceSequential e"
    and P: "P (ParallelArrayView [survivors keep 0 len] (map (\<lambda>k. Some (elem k)) (filter keep [0..<len])) 0)"
  shows "endsIn e 2 mode P (runOp (filterTail e elem) z)"
proof -
  let ?n = "survivors keep 0 len"
  let ?z = "z\<lparr>f_buffer := NewDenseArray ?n\<rparr>"
  have c: "copyInv len (numSlices e) keep ?z" by (rule found_copyInv [OF inv e(1)]) (simp add: NewDenseArray_def)
  have count: "fold (\<lambda>i count. count + f_counts z ! i) [0..<numSlices e] 0 = ?n" by (rule total_count [OF c e(1)])
  have "endsIn e 2 mode P (runOp (bindP (if ?n > 0 then ForkJoin (copySurvivorsInSlice elem) (numSlices e) (scheduleAt e 1) else Ret ()) (\<lambda>_.
      bindP (load f_buffer) (\<lambda>b. Ret (ParallelArrayView [?n] b 0)))) ?z)"
  proof (cases "?n > 0")
    case True
    then show ?thesis
      unfolding if_P [OF True]
      by (intro copy_kernel.endsIn_join [OF c e(2) refl])
        (use P e(1) in \<open>auto simp: endsIn_def copied_complete\<close>)
  next
    case False
    then have "filter keep [0..<len] = []" by (simp add: survivors_def)
    then show ?thesis using False P by (simp add: endsIn_def NewDenseArray_def)
  qed
  note tail = this
  have sum: "safe alone (\<lambda>w. w = z) (sumCounts (numSlices e))
      (\<lambda>x w. w = z \<and> x = fold (\<lambda>i count. count + f_counts w ! i) [0..<numSlices e] 0) (\<lambda>_. True)"
    by (rule sumCounts_safe) simp
  show ?thesis
    by (rule runOp_safe_bind [OF sum refl]) (use tail count in simp)
qed

section \<open>Properties\<close>

text \<open>
  C30: For a predicate that is a function of its arguments, without effects, and that always returns, and fewer
  than \<open>2 ^ 28\<close> elements, \<open>filter\<close> gives the elements that satisfy it, in order, whatever the number of slices
  and however ForkJoin interleaves their operations in the two joins, with warm-ups, bailouts at any operation
  and retries; the bit sets never lose a member of a truncated chunk. With such a predicate it fails only if
  ForkJoin never goes to its last resort in one of the joins, or a testing mode is refused.
\<close>

theorem filter_parallel:
  assumes "pa_shape self ! 0 < 2 ^ 28" "0 < numSlices e"
  shows "endsIn e 2 mode
    (\<lambda>q. q = ParallelArrayView [length (filter (\<lambda>i. func (callGet self [int i]) i) [0..<pa_shape self ! 0])]
       (map (\<lambda>i. Some (callGet self [int i])) (filter (\<lambda>i. func (callGet self [int i]) i) [0..<pa_shape self ! 0])) 0)
    (ParallelArrayFilter e func mode self)"
proof -
  let ?len = "pa_shape self ! 0" and ?elem = "\<lambda>i. callGet self [int i]"
  let ?keep = "\<lambda>i. func (?elem i) i"
  let ?P = "\<lambda>q. q = ParallelArrayView [length (filter ?keep [0..<?len])]
       (map (\<lambda>i. Some (?elem i)) (filter ?keep [0..<?len])) 0"
  have result: "?P (ParallelArrayView [survivors ?keep 0 ?len] (map (\<lambda>k. Some (?elem k)) (filter ?keep [0..<?len])) 0)"
    by (simp add: survivors_def)
  have par: "endsIn e 2 mode ?P (runOp (bindP (ForkJoin (findSurvivorsInSlice ?len ?keep) (numSlices e) (scheduleAt e 0))
      (\<lambda>_. filterTail e ?elem))
      \<lparr>info = ComputeAllSliceBounds (ComputeNumChunks ?len) (numSlices e), f_counts = replicate (numSlices e) 0,
       f_survivors = NewDenseArray (ComputeNumChunks ?len), f_buffer = []\<rparr>)" if "\<not> forceSequential e"
    by (rule find_kernel.endsIn_join [OF foundInv_init [OF assms(1)] that refl])
      (simp, rule endsIn_filterTail [where P = ?P, OF _ _ assms(2) that result])
  have seq: "endsIn e 2 mode ?P (runOp (bindP (loopP [0..<?len] [] (\<lambda>i buffer.
        Ret (if ?keep i then buffer @ [Some (?elem i)] else buffer))) (\<lambda>buffer. Ret (ParallelArrayView [size buffer] buffer 0))) z)"
    for z :: "'a pval fil_mem"
    by (simp add: loopP_ret sequential_filter endsIn_def)
  show ?thesis
    unfolding ParallelArrayFilter_def Let_def
    using par [unfolded Let_def]
    by (cases "\<not> forceSequential e \<and> TRY_PARALLEL mode \<and> \<not> ComputeNumChunks ?len < numSlices e * 2")
      (simp_all only: if_True if_False simp_thms endsIn_parallel endsIn_sequential [OF seq])
qed

lemma filter_parallel_witness:
  "\<exists>q. ParallelArrayFilter \<lparr>forceSequential = False, numSlices = 1, testsShouldPass = True,
         schedules = [[Start 0 True, Run 0, Run 0] @ sequentially 1, [Start 0 False, Run 0] @ sequentially 1]\<rparr>
       (\<lambda>v i. i mod 30 = 7) None (ParallelArrayView [40] (map Some [0..<40 :: nat]) 0) = Inr q \<and> pa_shape q = [2]"
  (is "\<exists>q. ParallelArrayFilter ?e ?f None ?pa = _ \<and> _")
proof -
  have "\<forall>j<2. lastResort ?e j"
    unfolding lastResort_def scheduleAt_def by (auto simp: less_Suc_eq numeral_2_eq_2)
  then have last: "forceSequential ?e \<or> (\<forall>j<2. lastResort ?e j)" ..
  have two: "length (filter (\<lambda>i. i mod 30 = 7) [0..<40 :: nat]) = 2" by code_simp
  have "endsIn ?e 2 None
    (\<lambda>q. q = ParallelArrayView [length (filter (\<lambda>i. ?f (callGet ?pa [int i]) i) [0..<pa_shape ?pa ! 0])]
       (map (\<lambda>i. Some (callGet ?pa [int i])) (filter (\<lambda>i. ?f (callGet ?pa [int i]) i) [0..<pa_shape ?pa ! 0])) 0)
    (ParallelArrayFilter ?e ?f None ?pa)"
    by (rule filter_parallel) simp_all
  then have "endsIn ?e 2 None (\<lambda>q. pa_shape q = [2]) (ParallelArrayFilter ?e ?f None ?pa)"
    using two by (auto simp: endsIn_def split: sum.splits)
  from endsIn_result [OF this last] show ?thesis .
qed

end
