(* ===== verification/Parallel_Scatter.thy ===== *)
theory Parallel_Scatter
  imports Parallel_Reduce
begin

text \<open>
  \<open>ParallelArrayScatter\<close> of \<open>builtin/ParallelArray.js\<close>: element \<open>i\<close> goes to index \<open>targets[i]\<close> of the
  result, and elements with the same target are combined by the conflict function. Two parallel
  strategies: every slice scans all targets for its own range of the output, or every slice scatters
  its part of the targets into a buffer of its own, and the buffers are merged.
\<close>

section \<open>The operation\<close>

definition checkTarget :: "nat \<Rightarrow> nat \<Rightarrow> int \<Rightarrow> ('z, nat) pjs" where
  "checkTarget len i t =
     (if t < - (2 ^ 31) \<or> 2 ^ 31 \<le> t then Throw (JSMSG ''JSMSG_PAR_ARRAY_SCATTER_BAD_TARGET'')
      else if t < 0 \<or> t \<ge> int len then Throw (JSMSG ''JSMSG_PAR_ARRAY_SCATTER_BOUNDS'')
      else Ret (nat t))"

definition collide :: "('v \<Rightarrow> 'v \<Rightarrow> 'v) option \<Rightarrow> 'v \<Rightarrow> 'v \<Rightarrow> ('z, 'v) pjs" where
  "collide conflictFunc elem1 elem2 = (case conflictFunc of
       None \<Rightarrow> Throw (JSMSG ''JSMSG_PAR_ARRAY_SCATTER_CONFLICT'')
     | Some f \<Rightarrow> callFunc (f elem1 elem2))"

record 'v scat_mem =
  sc_checkpoints :: "nat list"
  sc_buffer :: "'v option list"
  sc_conflicts :: "bool list"

text \<open>Combining with what is at the target, when something is.\<close>

definition resolve :: "('z \<Rightarrow> bool list) \<Rightarrow> ('z \<Rightarrow> 'v option list) \<Rightarrow> ('v \<Rightarrow> 'v \<Rightarrow> 'v) option \<Rightarrow> nat \<Rightarrow> 'v \<Rightarrow> ('z, 'v) pjs" where
  "resolve conflicts buf conflictFunc t x =
     bindP (load (\<lambda>z. conflicts z ! t)) (\<lambda>conflict.
     if conflict then bindP (loadElem buf t) (\<lambda>y. collide conflictFunc x y) else Ret x)"

definition putAt :: "nat \<Rightarrow> 'v \<Rightarrow> 'v scat_mem \<Rightarrow> 'v scat_mem" where
  "putAt t x z = z\<lparr>sc_buffer := (sc_buffer z)[t := Some x], sc_conflicts := (sc_conflicts z)[t := True]\<rparr>"

definition inTarget :: "nat \<Rightarrow> 'v scat_mem \<Rightarrow> bool" where
  "inTarget t z \<longleftrightarrow> t < length (sc_buffer z) \<and> t < length (sc_conflicts z)"

definition scatterSeq ::
  "nat \<Rightarrow> (nat \<Rightarrow> 'v) \<Rightarrow> (nat \<Rightarrow> int) \<Rightarrow> nat \<Rightarrow> ('v \<Rightarrow> 'v \<Rightarrow> 'v) option \<Rightarrow> ('v scat_mem, unit) pjs" where
  "scatterSeq len elem targets targetsLength conflictFunc =
     loopP [0..<targetsLength] () (\<lambda>i _.
       bindP (checkTarget len i (targets i)) (\<lambda>t.
       bindP (resolve sc_conflicts sc_buffer conflictFunc t (elem i)) (\<lambda>x.
       UnsafeSetElement (inTarget t) (putAt t x))))"

definition setCheckpoint :: "nat \<Rightarrow> nat \<Rightarrow> 'v scat_mem \<Rightarrow> 'v scat_mem" where
  "setCheckpoint i p z = z\<lparr>sc_checkpoints := (sc_checkpoints z)[i := p]\<rparr>"

text \<open>One target of a slice that is responsible for the outputs from \<open>lo\<close> to before \<open>hi\<close>.\<close>

definition rangeStep ::
  "nat \<Rightarrow> (nat \<Rightarrow> 'v) \<Rightarrow> (nat \<Rightarrow> int) \<Rightarrow> ('v \<Rightarrow> 'v \<Rightarrow> 'v) option \<Rightarrow> nat \<Rightarrow> nat \<Rightarrow> nat \<Rightarrow> nat \<Rightarrow> ('v scat_mem, unit) pjs" where
  "rangeStep len elem targets conflictFunc sliceId outputStart outputEnd indexPos =
     bindP (checkTarget len indexPos (targets indexPos)) (\<lambda>t.
     if t < outputStart \<or> t \<ge> outputEnd then Ret ()
     else bindP (resolve sc_conflicts sc_buffer conflictFunc t (elem indexPos)) (\<lambda>x.
          UnsafeSetElement (\<lambda>z. inTarget t z \<and> sliceId < length (sc_checkpoints z))
            (\<lambda>z. setCheckpoint sliceId (indexPos + 1) (putAt t x z))))"

definition fillRange ::
  "nat \<Rightarrow> (nat \<Rightarrow> 'v) \<Rightarrow> (nat \<Rightarrow> int) \<Rightarrow> nat \<Rightarrow> ('v \<Rightarrow> 'v \<Rightarrow> 'v) option \<Rightarrow> nat \<Rightarrow> 'v scat_mem kernel" where
  "fillRange len elem targets targetsLength conflictFunc n sliceId warmup =
     bindP (load (\<lambda>z. sc_checkpoints z ! sliceId)) (\<lambda>indexPos.
     let indexEnd = (if warmup then min targetsLength (indexPos + CHUNK_SIZE) else targetsLength);
         (outputStart, outputEnd) = ComputeSliceBounds len sliceId n in
     bindP (loopP [indexPos..<indexEnd] () (\<lambda>indexPos _.
       rangeStep len elem targets conflictFunc sliceId outputStart outputEnd indexPos)) (\<lambda>_.
     Ret (indexEnd = targetsLength)))"

section \<open>What is scattered\<close>

text \<open>The value at output \<open>t\<close> of the elements from \<open>a\<close> to before \<open>b\<close>, if one of them has that target.\<close>

primrec scattered :: "('v \<Rightarrow> 'v \<Rightarrow> 'v) \<Rightarrow> (nat \<Rightarrow> 'v) \<Rightarrow> (nat \<Rightarrow> int) \<Rightarrow> nat \<Rightarrow> nat \<Rightarrow> nat \<Rightarrow> 'v option" where
  "scattered f elem targets a t 0 = None"
| "scattered f elem targets a t (Suc k) =
     (if targets (a + k) = int t
      then Some (case scattered f elem targets a t k of None \<Rightarrow> elem (a + k) | Some v \<Rightarrow> f (elem (a + k)) v)
      else scattered f elem targets a t k)"

text \<open>
  The targets are indices of the output, and no two are the same when there is no conflict function;
  \<open>conflictOf\<close> then never matters.
\<close>

definition scatterable :: "nat \<Rightarrow> (nat \<Rightarrow> int) \<Rightarrow> nat \<Rightarrow> ('v \<Rightarrow> 'v \<Rightarrow> 'v) option \<Rightarrow> bool" where
  "scatterable len targets targetsLength conflictFunc \<longleftrightarrow> len < 2 ^ 28 \<and>
     (\<forall>i<targetsLength. 0 \<le> targets i \<and> targets i < int len) \<and>
     (conflictFunc = None \<longrightarrow> inj_on targets {..<targetsLength})"

definition conflictOf :: "('v \<Rightarrow> 'v \<Rightarrow> 'v) option \<Rightarrow> 'v \<Rightarrow> 'v \<Rightarrow> 'v" where
  "conflictOf conflictFunc = (case conflictFunc of None \<Rightarrow> (\<lambda>x y. x) | Some f \<Rightarrow> f)"

lemma scattered_None_iff: "scattered f elem targets a t k = None \<longleftrightarrow> (\<forall>j<k. targets (a + j) \<noteq> int t)"
  by (induction k) (auto simp: less_Suc_eq split: option.splits)

lemma scattered_cong:
  assumes "k \<le> m" "\<And>j. k \<le> j \<Longrightarrow> j < m \<Longrightarrow> targets (a + j) \<noteq> int t"
  shows "scattered f elem targets a t m = scattered f elem targets a t k"
  using assms by (induction m rule: dec_induct) auto

text \<open>
  A buffer and its conflicts hold, at output \<open>t\<close>, the result of the first \<open>k\<close> elements from \<open>a\<close> on;
  \<open>dflt\<close> is what the buffer has where none of them is scattered.
\<close>

definition holdsIn :: "('v \<Rightarrow> 'v \<Rightarrow> 'v) \<Rightarrow> (nat \<Rightarrow> 'v) \<Rightarrow> (nat \<Rightarrow> int) \<Rightarrow> nat \<Rightarrow> 'v option \<Rightarrow> nat \<Rightarrow> nat \<Rightarrow> 'v option list \<Rightarrow> bool list \<Rightarrow> bool" where
  "holdsIn f elem targets a dflt k t buf conflicts \<longleftrightarrow>
     conflicts ! t = (scattered f elem targets a t k \<noteq> None) \<and>
     buf ! t = (case scattered f elem targets a t k of None \<Rightarrow> dflt | Some v \<Rightarrow> Some v)"

lemma holdsIn_step:
  assumes "holdsIn f elem targets a dflt k t buf conflicts" "u < length buf" "u < length conflicts" "targets (a + k) = int u"
    and "x = (case scattered f elem targets a u k of None \<Rightarrow> elem (a + k) | Some v \<Rightarrow> f (elem (a + k)) v)"
  shows "holdsIn f elem targets a dflt (k + 1) t (buf[u := Some x]) (conflicts[u := True])"
  using assms by (cases "t = u") (simp_all add: holdsIn_def)

definition holds :: "('v \<Rightarrow> 'v \<Rightarrow> 'v) \<Rightarrow> (nat \<Rightarrow> 'v) \<Rightarrow> (nat \<Rightarrow> int) \<Rightarrow> 'v \<Rightarrow> nat \<Rightarrow> nat \<Rightarrow> 'v scat_mem \<Rightarrow> bool" where
  "holds f elem targets dflt k t z \<longleftrightarrow> holdsIn f elem targets 0 (Some dflt) k t (sc_buffer z) (sc_conflicts z)"

lemmas holds_defs = holds_def holdsIn_def

lemma putAt_simps [simp]:
  "sc_buffer (putAt t x z) = (sc_buffer z)[t := Some x]" "sc_conflicts (putAt t x z) = (sc_conflicts z)[t := True]"
  "sc_checkpoints (putAt t x z) = sc_checkpoints z"
  by (simp_all add: putAt_def)

lemma setCheckpoint_simps [simp]:
  "sc_buffer (setCheckpoint i p z) = sc_buffer z" "sc_conflicts (setCheckpoint i p z) = sc_conflicts z"
  "sc_checkpoints (setCheckpoint i p z) = (sc_checkpoints z)[i := p]"
  by (simp_all add: setCheckpoint_def)

lemma holds_setCheckpoint [simp]: "holds f elem targets d k t (setCheckpoint i p z) = holds f elem targets d k t z"
  by (simp add: holds_defs)

text \<open>Storing the resolved element takes its output one element further, and no other.\<close>

lemma holds_putAt:
  assumes "holds f elem targets dflt k t z" "targets k = int t" "inTarget t z"
    "x = (case scattered f elem targets 0 t k of None \<Rightarrow> elem k | Some v \<Rightarrow> f (elem k) v)"
  shows "holds f elem targets dflt (k + 1) t (putAt t x z)"
  using assms by (auto simp: holds_defs inTarget_def)

lemma holds_other:
  assumes "t' \<noteq> t" shows "holds f elem targets dflt k t' (putAt t x z) = holds f elem targets dflt k t' z"
  using assms by (simp add: holds_defs)

lemma holds_skip:
  assumes "targets k \<noteq> int t"
  shows "holds f elem targets dflt (k + 1) t z = holds f elem targets dflt k t z"
  using assms by (simp add: holds_defs)

text \<open>Checking and resolving a target of a scatterable operation.\<close>

lemma checkTarget_ok:
  assumes "scatterable len targets m c" "k < m"
  shows "checkTarget len k (targets k) = Ret (nat (targets k))" "targets k = int (nat (targets k))" "nat (targets k) < len"
proof -
  have "0 \<le> targets k" "targets k < int len" "len < 2 ^ 28" using assms by (auto simp: scatterable_def)
  then show "checkTarget len k (targets k) = Ret (nat (targets k))" "targets k = int (nat (targets k))"
    "nat (targets k) < len" by (auto simp: checkTarget_def)
qed

lemma resolve_safe:
  assumes ok: "scatterable len targets m c" "a + k < m" "targets (a + k) = int t"
    and P: "\<And>z. P z \<Longrightarrow> holdsIn (conflictOf c) elem targets a dflt k t (buf z) (conflicts z) \<and> t < length (buf z)"
      "\<And>z. P z \<Longrightarrow> B z"
    and V: "\<And>z z'. P z \<Longrightarrow> fst V z z' \<Longrightarrow> conflicts z' ! t = conflicts z ! t \<and> length (buf z') = length (buf z) \<and> buf z' ! t = buf z ! t"
  shows "safe V P (resolve conflicts buf c t (elem (a + k)))
    (\<lambda>x z. P z \<and> x = (case scattered (conflictOf c) elem targets a t k of None \<Rightarrow> elem (a + k)
                       | Some v \<Rightarrow> conflictOf c (elem (a + k)) v)) B"
proof -
  let ?v = "scattered (conflictOf c) elem targets a t k"
  let ?x = "case ?v of None \<Rightarrow> elem (a + k) | Some v \<Rightarrow> conflictOf c (elem (a + k)) v"
  show ?thesis
  proof (cases ?v)
    case None
    have "safe V (\<lambda>z. P z \<and> conflict = conflicts z ! t)
        (if conflict then bindP (loadElem buf t) (\<lambda>y. collide c (elem (a + k)) y) else Ret (elem (a + k)))
        (\<lambda>x z. P z \<and> x = ?x) B" for conflict
      by (rule safe_pre [where c = "\<not> conflict"]) (use None P(1) in \<open>auto simp: holdsIn_def intro!: safe_ret\<close>)
    then show ?thesis unfolding resolve_def by (rule safe_bind [OF safe_load, rotated]) (use V in auto)
  next
    case (Some v)
    have "c \<noteq> None"
    proof
      assume "c = None"
      obtain j where "j < k" "targets (a + j) = int t"
        using Some scattered_None_iff [of "conflictOf c" elem targets a t k] by auto
      moreover have "inj_on targets {..<m}" using ok(1) \<open>c = None\<close> by (simp add: scatterable_def)
      ultimately have "a + j = a + k" using ok(2,3) by (intro inj_onD [of targets]) auto
      with \<open>j < k\<close> show False by simp
    qed
    then obtain g where g: "c = Some g" by auto
    have "safe V (\<lambda>z. P z \<and> conflict = conflicts z ! t)
        (if conflict then bindP (loadElem buf t) (\<lambda>y. collide c (elem (a + k)) y) else Ret (elem (a + k)))
        (\<lambda>x z. P z \<and> x = ?x) B" for conflict
    proof (rule safe_pre [where c = conflict])
      assume conflict
      have load: "safe V (\<lambda>z. P z \<and> conflict = conflicts z ! t) (loadElem buf t)
          (\<lambda>y z. (P z \<and> conflict = conflicts z ! t) \<and> y = v) B"
        using Some P(1) V by (intro safe_loadElem [where g = "\<lambda>_. v"]) (auto simp: holdsIn_def)
      have call: "safe V (\<lambda>z. (P z \<and> conflict = conflicts z ! t) \<and> y = v) (collide c (elem (a + k)) y)
          (\<lambda>x z. P z \<and> x = ?x) B" for y
        unfolding g collide_def option.case
        by (rule safe_weaken [OF safe_callFunc [where P = "\<lambda>z. P z \<and> y = v" and B = B]])
          (use Some P(2) g in \<open>auto simp: conflictOf_def\<close>)
      have "safe V (\<lambda>z. P z \<and> conflict = conflicts z ! t)
          (bindP (loadElem buf t) (\<lambda>y. collide c (elem (a + k)) y)) (\<lambda>x z. P z \<and> x = ?x) B"
        by (rule safe_bind [OF load call])
      then show "safe V (\<lambda>z. P z \<and> conflict = conflicts z ! t)
        (if conflict then bindP (loadElem buf t) (\<lambda>y. collide c (elem (a + k)) y) else Ret (elem (a + k)))
        (\<lambda>x z. P z \<and> x = ?x) B" using \<open>conflict\<close> by simp
    qed (use Some P(1) in \<open>auto simp: holdsIn_def\<close>)
    then show ?thesis unfolding resolve_def by (rule safe_bind [OF safe_load, rotated]) (use V in auto)
  qed
qed

lemma resolve_all_safe:
  assumes "scatterable len targets m c" "k < m" "targets k = int t"
    and "\<And>z. P z \<Longrightarrow> holds (conflictOf c) elem targets dflt k t z \<and> t < length (sc_buffer z)" "\<And>z. P z \<Longrightarrow> B z"
    "\<And>z z'. P z \<Longrightarrow> fst V z z' \<Longrightarrow> sc_conflicts z' ! t = sc_conflicts z ! t \<and>
       length (sc_buffer z') = length (sc_buffer z) \<and> sc_buffer z' ! t = sc_buffer z ! t"
  shows "safe V P (resolve sc_conflicts sc_buffer c t (elem k))
    (\<lambda>x z. P z \<and> x = (case scattered (conflictOf c) elem targets 0 t k of None \<Rightarrow> elem k
                       | Some v \<Rightarrow> conflictOf c (elem k) v)) B"
  using resolve_safe [of len targets m c 0 k t P elem "Some dflt" sc_buffer sc_conflicts B V] assms
  unfolding holds_def add_0 by blast

section \<open>The sequential fallback\<close>

definition holdsAll ::
  "nat \<Rightarrow> ('v \<Rightarrow> 'v \<Rightarrow> 'v) \<Rightarrow> (nat \<Rightarrow> 'v) \<Rightarrow> (nat \<Rightarrow> int) \<Rightarrow> 'v \<Rightarrow> nat \<Rightarrow> 'v scat_mem \<Rightarrow> bool" where
  "holdsAll len f elem targets dflt k z \<longleftrightarrow> length (sc_buffer z) = len \<and> length (sc_conflicts z) = len \<and>
     (\<forall>t<len. holds f elem targets dflt k t z)"

lemma scatterSeq_safe:
  assumes ok: "scatterable len targets m c"
  shows "safe alone (holdsAll len (conflictOf c) elem targets dflt 0) (scatterSeq len elem targets m c)
    (\<lambda>_. holdsAll len (conflictOf c) elem targets dflt m) (\<lambda>_. True)"
  unfolding scatterSeq_def
proof (rule safe_loop [where I = "\<lambda>k _. holdsAll len (conflictOf c) elem targets dflt k"])
  fix k x assume "k < m"
  define t where "t = nat (targets k)"
  note ct = checkTarget_ok [OF ok \<open>k < m\<close>, folded t_def]
  let ?I = "holdsAll len (conflictOf c) elem targets dflt"
  have "safe alone (?I k) (resolve sc_conflicts sc_buffer c t (elem k)) (\<lambda>x z. ?I k z \<and> x = (case scattered (conflictOf c) elem targets 0 t k of
      None \<Rightarrow> elem k | Some v \<Rightarrow> conflictOf c (elem k) v)) (\<lambda>_. True)"
    using ct(3) by (intro resolve_all_safe [OF ok \<open>k < m\<close> ct(2)]) (auto simp: holdsAll_def)
  then have "safe alone (?I k) (bindP (resolve sc_conflicts sc_buffer c t (elem k)) (\<lambda>x. UnsafeSetElement (inTarget t) (putAt t x))) (\<lambda>_. ?I (k + 1)) (\<lambda>_. True)"
  proof (rule safe_bind, intro safe_set conjI)
    fix v z
    assume z: "?I k z \<and> v = (case scattered (conflictOf c) elem targets 0 t k of
      None \<Rightarrow> elem k | Some v \<Rightarrow> conflictOf c (elem k) v)"
    then show "inTarget t z" using ct(3) by (auto simp: holdsAll_def inTarget_def)
    then show "?I (k + 1) (putAt t v z)"
      using z ct(2) holds_putAt [of "conflictOf c" elem targets dflt k t z v]
      by (auto simp: holdsAll_def holds_other holds_skip [simplified]) (metis holds_other holds_skip nat_int_comparison(1) Suc_eq_plus1 of_nat_eq_iff)
  qed (use ct(3) in \<open>auto simp: holdsAll_def inTarget_def alone_def\<close>)
  then show "safe alone (?I k) (bindP (checkTarget len k (targets k)) (\<lambda>t. bindP (resolve sc_conflicts sc_buffer c t (elem k)) (\<lambda>x.
      UnsafeSetElement (inTarget t) (putAt t x)))) (\<lambda>_. ?I (k + 1)) (\<lambda>_. True)"
    by (simp add: ct(1) t_def)
qed simp

section \<open>Slices of the output range\<close>

definition owns :: "nat \<Rightarrow> nat \<Rightarrow> nat \<Rightarrow> nat \<Rightarrow> bool" where
  "owns len s i t \<longleftrightarrow> slice_lo len s i \<le> t \<and> t < slice_hi len s i"

lemma owns_unique: "i < s \<Longrightarrow> j < s \<Longrightarrow> owns len s i t \<Longrightarrow> owns len s j t \<Longrightarrow> i = j"
  using slices_ordered [of i j s len] slices_ordered [of j i s len]
  by (cases i j rule: linorder_cases) (auto simp: owns_def)

text \<open>Every output a slice owns holds the result of the elements before its checkpoint.\<close>

definition rangeInv ::
  "nat \<Rightarrow> (nat \<Rightarrow> 'v) \<Rightarrow> (nat \<Rightarrow> int) \<Rightarrow> nat \<Rightarrow> ('v \<Rightarrow> 'v \<Rightarrow> 'v) option \<Rightarrow> nat \<Rightarrow> 'v \<Rightarrow> 'v scat_mem \<Rightarrow> bool" where
  "rangeInv len elem targets m c s dflt z \<longleftrightarrow> scatterable len targets m c \<and>
     length (sc_buffer z) = len \<and> length (sc_conflicts z) = len \<and> length (sc_checkpoints z) = s \<and>
     (\<forall>i < s. sc_checkpoints z ! i \<le> m \<and>
        (\<forall>t<len. owns len s i t \<longrightarrow> holds (conflictOf c) elem targets dflt (sc_checkpoints z ! i) t z))"

text \<open>No element from \<open>a\<close> to before \<open>b\<close> has a target of the slice.\<close>

definition quiet :: "nat \<Rightarrow> nat \<Rightarrow> (nat \<Rightarrow> int) \<Rightarrow> nat \<Rightarrow> nat \<Rightarrow> nat \<Rightarrow> bool" where
  "quiet len s targets i a b \<longleftrightarrow> (\<forall>t k. owns len s i t \<longrightarrow> a \<le> k \<longrightarrow> k < b \<longrightarrow> targets k \<noteq> int t)"

definition rangeDone :: "nat \<Rightarrow> nat \<Rightarrow> (nat \<Rightarrow> int) \<Rightarrow> nat \<Rightarrow> nat \<Rightarrow> 'v scat_mem \<Rightarrow> bool" where
  "rangeDone len s targets m i z \<longleftrightarrow> quiet len s targets i (sc_checkpoints z ! i) m"

lemma holds_quiet:
  assumes "quiet len s targets i a b" "owns len s i t" "a \<le> b"
  shows "holds f elem targets d b t z = holds f elem targets d a t z"
  using scattered_cong [of a b targets 0 t f elem] assms by (simp add: holds_defs quiet_def)

text \<open>What belongs to a slice: its checkpoint and its range of the output.\<close>

definition ownRange :: "nat \<Rightarrow> nat \<Rightarrow> nat \<Rightarrow> 'v scat_mem \<Rightarrow> 'v scat_mem \<Rightarrow> bool" where
  "ownRange len s i z w \<longleftrightarrow> sameRange i (i + 1) (sc_checkpoints z) (sc_checkpoints w) \<and>
     sameRange (slice_lo len s i) (slice_hi len s i) (sc_buffer z) (sc_buffer w) \<and>
     sameRange (slice_lo len s i) (slice_hi len s i) (sc_conflicts z) (sc_conflicts w)"

abbreviation rangeView :: "nat \<Rightarrow> nat \<Rightarrow> nat \<Rightarrow> 'v scat_mem view" where
  "rangeView len s i \<equiv> viewOf (ownRange len s) s i"

lemma ownRange_equivp: "equivp (ownRange len s i)"
  unfolding ownRange_def [abs_def]
  by (intro equivp_conj sameRange_equivp [where f = sc_checkpoints] sameRange_equivp [where f = sc_buffer]
      sameRange_equivp [where f = sc_conflicts])

lemma ownRange_facts:
  assumes "ownRange len s i z w"
  shows "sc_checkpoints w ! i = sc_checkpoints z ! i" "length (sc_checkpoints w) = length (sc_checkpoints z)"
    "length (sc_buffer w) = length (sc_buffer z)" "length (sc_conflicts w) = length (sc_conflicts z)"
    "owns len s i t \<Longrightarrow> sc_buffer w ! t = sc_buffer z ! t" "owns len s i t \<Longrightarrow> sc_conflicts w ! t = sc_conflicts z ! t"
  using assms by (auto simp: ownRange_def owns_def sameRange_def)

lemma ownRange_store:
  assumes "ownRange len s i z w"
  shows "ownRange len s i (setCheckpoint j p (putAt t x z)) (setCheckpoint j p (putAt t x w))"
  using assms by (simp add: ownRange_def sameRange_update)

lemma ownRange_other:
  assumes "i < s" "j < s" "j \<noteq> i" "owns len s i t"
  shows "ownRange len s j z (setCheckpoint i p (putAt t x z))"
proof -
  have "\<not> owns len s j t" using owns_unique [OF assms(1,2,4)] assms(3) by auto
  then have "t < slice_lo len s j \<or> slice_hi len s j \<le> t" by (auto simp: owns_def)
  then show ?thesis using assms(3) by (auto simp: ownRange_def intro!: sameRange_outside)
qed

lemma ownRange_inv:
  assumes "i < s" "rangeInv len elem targets m c s dflt z" "rangeInv len elem targets m c s dflt g" "ownRange len s i g w"
    and "\<And>j. j < s \<Longrightarrow> j \<noteq> i \<Longrightarrow> ownRange len s j z w"
  shows "rangeInv len elem targets m c s dflt w"
proof -
  have "sc_checkpoints w ! j \<le> m \<and>
      (\<forall>t<len. owns len s j t \<longrightarrow> holds (conflictOf c) elem targets dflt (sc_checkpoints w ! j) t w)" if j: "j < s" for j
  proof -
    have "\<exists>x. ownRange len s j x w \<and> rangeInv len elem targets m c s dflt x" using assms j by metis
    then obtain x where x: "ownRange len s j x w" "rangeInv len elem targets m c s dflt x" by blast
    then show ?thesis using j ownRange_facts [OF x(1)] by (simp add: rangeInv_def holds_defs)
  qed
  then show ?thesis using assms(3) ownRange_facts [OF assms(4)] by (simp add: rangeInv_def)
qed

lemma ownRange_done: "ownRange len s i z w \<Longrightarrow> rangeDone len s targets m i z \<Longrightarrow> rangeDone len s targets m i w"
  by (simp add: rangeDone_def ownRange_facts(1))

definition rangeAt ::
  "nat \<Rightarrow> (nat \<Rightarrow> 'v) \<Rightarrow> (nat \<Rightarrow> int) \<Rightarrow> nat \<Rightarrow> ('v \<Rightarrow> 'v \<Rightarrow> 'v) option \<Rightarrow> nat \<Rightarrow> 'v \<Rightarrow> nat set \<Rightarrow> nat \<Rightarrow> nat \<Rightarrow> 'v scat_mem \<Rightarrow> bool"
where
  "rangeAt len elem targets m c s dflt D i k z \<longleftrightarrow>
     (rangeInv len elem targets m c s dflt z \<and> (\<forall>j\<in>D. rangeDone len s targets m j z)) \<and>
     sc_checkpoints z ! i \<le> k \<and> quiet len s targets i (sc_checkpoints z ! i) k"

lemma rangeAt_store:
  assumes at: "rangeAt len elem targets m c s dflt D i k z" and i: "i < s" "k < m"
    and t: "targets k = int t" "t < len" "owns len s i t"
    and x: "x = (case scattered (conflictOf c) elem targets 0 t k of None \<Rightarrow> elem k | Some v \<Rightarrow> conflictOf c (elem k) v)"
  shows "rangeAt len elem targets m c s dflt D i (k + 1) (setCheckpoint i (k + 1) (putAt t x z))"
    (is "rangeAt _ _ _ _ _ _ _ _ _ _ ?z")
proof -
  have inv: "rangeInv len elem targets m c s dflt z" and D: "\<forall>j\<in>D. rangeDone len s targets m j z"
    and ck: "sc_checkpoints z ! i \<le> k" and q: "quiet len s targets i (sc_checkpoints z ! i) k"
    using at by (auto simp: rangeAt_def)
  have len: "length (sc_checkpoints z) = s" using inv by (simp add: rangeInv_def)
  have "i \<notin> D" using D t i(2) ck by (auto simp: rangeDone_def quiet_def)
  then have D': "\<forall>j\<in>D. rangeDone len s targets m j ?z"
    using D by (metis rangeDone_def nth_list_update_neq putAt_simps(3) setCheckpoint_simps(3))
  have own: "holds (conflictOf c) elem targets dflt (k + 1) t' ?z" if "t' < len" "owns len s i t'" for t'
  proof -
    have h: "holds (conflictOf c) elem targets dflt k t' z"
      using holds_quiet [OF q that(2) ck, of "conflictOf c" elem dflt z] inv i(1) that
      unfolding rangeInv_def by blast
    have "inTarget t z" using inv t(2) by (auto simp: rangeInv_def inTarget_def)
    then show ?thesis
      using h holds_putAt [OF _ t(1) _ x] holds_other [of t' t] holds_skip [of targets k t'] t(1)
      by (cases "t' = t") (auto simp: setCheckpoint_def holds_defs)
  qed
  have other: "holds (conflictOf c) elem targets dflt (sc_checkpoints z ! j) t' ?z"
    if "j < s" "j \<noteq> i" "t' < len" "owns len s j t'" for j t'
  proof -
    have "t' \<noteq> t" using owns_unique [OF that(1) i(1) that(4)] t(3) that(2) by auto
    then show ?thesis using inv that by (auto simp: rangeInv_def holds_other)
  qed
  have "rangeInv len elem targets m c s dflt ?z"
    using inv own other i by (auto simp: rangeInv_def nth_list_update)
  then show ?thesis using D' i(1) len by (auto simp: rangeAt_def quiet_def)
qed

lemma rangeStep_safe:
  assumes ok: "scatterable len targets m c" and i: "i < s" "k < m"
  shows "safe (rangeView len s i) (rangeAt len elem targets m c s dflt D i k)
    (rangeStep len elem targets c i (slice_lo len s i) (slice_hi len s i) k)
    (\<lambda>_. rangeAt len elem targets m c s dflt D i (k + 1))
    (\<lambda>z. rangeInv len elem targets m c s dflt z \<and> (\<forall>j\<in>D. rangeDone len s targets m j z))"
    (is "safe _ (?A k) _ _ ?K")
proof -
  define t where "t = nat (targets k)"
  note ct = checkTarget_ok [OF ok i(2), folded t_def]
  show ?thesis
  proof (cases "owns len s i t")
    case False
    have skip: "?A (k + 1) z" if "?A k z" for z
    proof -
      have "targets k \<noteq> int t'" if "owns len s i t'" for t' using False that ct(2) by auto
      then show ?thesis using that by (auto simp: rangeAt_def quiet_def less_Suc_eq)
    qed
    have "rangeStep len elem targets c i (slice_lo len s i) (slice_hi len s i) k = Ret ()"
      using False unfolding rangeStep_def ct(1) by (auto simp: owns_def)
    then show ?thesis using skip by (auto intro: safe_ret)
  next
    case True
    let ?v = "case scattered (conflictOf c) elem targets 0 t k of None \<Rightarrow> elem k | Some v \<Rightarrow> conflictOf c (elem k) v"
    have res: "safe (rangeView len s i) (?A k) (resolve sc_conflicts sc_buffer c t (elem k)) (\<lambda>x z. ?A k z \<and> x = ?v) ?K"
    proof (rule resolve_all_safe [OF ok i(2) ct(2)])
      fix z assume z: "?A k z"
      then have "holds (conflictOf c) elem targets dflt (sc_checkpoints z ! i) t z"
        and q: "quiet len s targets i (sc_checkpoints z ! i) k" "sc_checkpoints z ! i \<le> k"
        using i(1) ct(3) True unfolding rangeAt_def rangeInv_def by blast+
      then have "holds (conflictOf c) elem targets dflt k t z"
        using holds_quiet [OF q(1) True q(2), of "conflictOf c" elem dflt z] by simp
      then show "holds (conflictOf c) elem targets dflt k t z \<and> t < length (sc_buffer z)"
        using z ct(3) by (auto simp: rangeAt_def rangeInv_def)
    next
      fix z z' :: "'a scat_mem" assume "?A k z" "fst (rangeView len s i) z z'"
      then have "ownRange len s i z z'" by (simp add: viewOf_def)
      then show "sc_conflicts z' ! t = sc_conflicts z ! t \<and> length (sc_buffer z') = length (sc_buffer z) \<and> sc_buffer z' ! t = sc_buffer z ! t"
        by (simp add: ownRange_facts(3) ownRange_facts(5,6) [OF _ True])
    qed (simp add: rangeAt_def)
    have store: "safe (rangeView len s i) (\<lambda>z. ?A k z \<and> x = ?v) (UnsafeSetElement (\<lambda>z. inTarget t z \<and> i < length (sc_checkpoints z))
        (\<lambda>z. setCheckpoint i (k + 1) (putAt t x z))) (\<lambda>_. ?A (k + 1)) ?K" for x
    proof (rule safe_set, intro conjI)
      fix z z' :: "'a scat_mem" assume z: "?A k z \<and> x = ?v" "fst (rangeView len s i) z z'"
      then have own: "ownRange len s i z z'" by (simp add: viewOf_def)
      have room: "inTarget t z \<and> i < length (sc_checkpoints z)"
        using z(1) i(1) ct(3) by (auto simp: rangeAt_def rangeInv_def inTarget_def)
      then show "(inTarget t z' \<and> i < length (sc_checkpoints z')) \<and>
          fst (rangeView len s i) (setCheckpoint i (k + 1) (putAt t x z)) (setCheckpoint i (k + 1) (putAt t x z')) \<and>
          snd (rangeView len s i) z' (setCheckpoint i (k + 1) (putAt t x z'))"
        using own ownRange_facts(2-4) [OF own] ownRange_store [OF own] ownRange_other [OF i(1) _ _ True]
        by (auto simp: viewOf_def inTarget_def)
    next
      fix z assume z: "?A k z \<and> x = ?v"
      then show "?A (k + 1) (setCheckpoint i (k + 1) (putAt t x z))"
        by (intro rangeAt_store i ct(2) ct(3) True) simp_all
    qed (use i(1) ct(3) in \<open>auto simp: rangeAt_def rangeInv_def inTarget_def\<close>)
    have "rangeStep len elem targets c i (slice_lo len s i) (slice_hi len s i) k =
        bindP (resolve sc_conflicts sc_buffer c t (elem k)) (\<lambda>x. UnsafeSetElement (\<lambda>z. inTarget t z \<and> i < length (sc_checkpoints z))
          (\<lambda>z. setCheckpoint i (k + 1) (putAt t x z)))"
      using True unfolding rangeStep_def ct(1) by (auto simp: owns_def)
    then show ?thesis using safe_bind [OF res store] by simp
  qed
qed

lemma fillRange_safe:
  assumes i: "i < s"
  shows "safe (rangeView len s i) (\<lambda>z. rangeInv len elem targets m c s dflt z \<and> (\<forall>j\<in>D. rangeDone len s targets m j z))
    (fillRange len elem targets m c s i warmup)
    (\<lambda>done z. (rangeInv len elem targets m c s dflt z \<and> (\<forall>j\<in>D. rangeDone len s targets m j z)) \<and>
       (done \<longrightarrow> rangeDone len s targets m i z) \<and> (\<not> warmup \<longrightarrow> done))
    (\<lambda>z. rangeInv len elem targets m c s dflt z \<and> (\<forall>j\<in>D. rangeDone len s targets m j z))"
    (is "safe _ ?K _ ?Q ?K")
  unfolding fillRange_def
proof (rule safe_bind [OF safe_load], simp add: viewOf_def ownRange_facts(1))
  fix p
  define stop where "stop = (if warmup then min m (p + CHUNK_SIZE) else m)"
  let ?A = "rangeAt len elem targets m c s dflt D i"
  let ?pre = "\<lambda>z. ?K z \<and> p = sc_checkpoints z ! i"
  have "safe (rangeView len s i) ?pre (bindP (loopP [p..<stop] () (\<lambda>k _.
      rangeStep len elem targets c i (slice_lo len s i) (slice_hi len s i) k)) (\<lambda>_. Ret (stop = m))) ?Q ?K"
  proof (rule safe_pre [where c = "scatterable len targets m c \<and> p \<le> m"])
    assume ok: "scatterable len targets m c \<and> p \<le> m"
    then have "p \<le> stop" "stop \<le> m" by (auto simp: stop_def)
    then have "safe (rangeView len s i) (?A p) (loopP [p..<stop] () (\<lambda>k _.
        rangeStep len elem targets c i (slice_lo len s i) (slice_hi len s i) k)) (\<lambda>_. ?A stop) ?K"
      using ok i by (intro safe_loop [where I = "\<lambda>k _. ?A k"] rangeStep_safe) auto
    then have "safe (rangeView len s i) ?pre (loopP [p..<stop] () (\<lambda>k _.
        rangeStep len elem targets c i (slice_lo len s i) (slice_hi len s i) k)) (\<lambda>_. ?A stop) ?K"
      by (rule safe_weaken) (auto simp: rangeAt_def quiet_def)
    then show "safe (rangeView len s i) ?pre (bindP (loopP [p..<stop] () (\<lambda>k _.
        rangeStep len elem targets c i (slice_lo len s i) (slice_hi len s i) k)) (\<lambda>_. Ret (stop = m))) ?Q ?K"
      by (rule safe_bind [OF _ safe_ret]) (auto simp: rangeAt_def rangeDone_def stop_def)
  qed (use i in \<open>auto simp: rangeInv_def\<close>)
  note body = this
  have eq: "len < 2 ^ 31 \<Longrightarrow> (let indexEnd = if warmup then min m (p + CHUNK_SIZE) else m;
      (outputStart, outputEnd) = ComputeSliceBounds len i s in
      bindP (loopP [p..<indexEnd] () (\<lambda>k _. rangeStep len elem targets c i outputStart outputEnd k)) (\<lambda>_. Ret (indexEnd = m))) =
    bindP (loopP [p..<stop] () (\<lambda>k _.
      rangeStep len elem targets c i (slice_lo len s i) (slice_hi len s i) k)) (\<lambda>_. Ret (stop = m))"
    unfolding stop_def by (simp add: ComputeSliceBounds_eq Let_def)
  show "safe (rangeView len s i) ?pre (let indexEnd = if warmup then min m (p + CHUNK_SIZE) else m;
      (outputStart, outputEnd) = ComputeSliceBounds len i s in
      bindP (loopP [p..<indexEnd] () (\<lambda>k _. rangeStep len elem targets c i outputStart outputEnd k)) (\<lambda>_. Ret (indexEnd = m))) ?Q ?K"
  proof (rule safe_pre [where c = "len < 2 ^ 31"])
    assume "len < 2 ^ 31"
    then show "safe (rangeView len s i) ?pre (let indexEnd = if warmup then min m (p + CHUNK_SIZE) else m;
      (outputStart, outputEnd) = ComputeSliceBounds len i s in
      bindP (loopP [p..<indexEnd] () (\<lambda>k _. rangeStep len elem targets c i outputStart outputEnd k)) (\<lambda>_. Ret (indexEnd = m))) ?Q ?K"
      unfolding eq [OF \<open>len < 2 ^ 31\<close>] using body by blast
  qed (auto simp: rangeInv_def scatterable_def)
qed

interpretation range_kernel: slice_kernel "fillRange len elem targets m c s" s "rangeInv len elem targets m c s dflt"
    "rangeDone len s targets m" "ownRange len s" for len elem targets m c s dflt
  by unfold_locales
    (rule ownRange_equivp, rule ownRange_done, assumption+, blast intro: ownRange_inv, rule fillRange_safe)

end
