(* ===== verification/Parallel_ScatterVector.thy ===== *)
theory Parallel_ScatterVector
  imports Parallel_Scatter
begin

text \<open>
  The divide-scatter-vector strategy of \<open>ParallelArrayScatter\<close> (\<open>parDivideScatterVector\<close>,
  \<open>mergeBuffers\<close>) and the operation itself, which chooses between the strategies. Every slice scatters
  its part of the targets into a buffer of its own; the buffers are then merged into the first.
\<close>

section \<open>The slices\<close>

record 'v vec_mem = slices +
  localBuffers :: "'v option list list"
  localConflicts :: "bool list list"

definition putLocal :: "nat \<Rightarrow> nat \<Rightarrow> 'v \<Rightarrow> 'v vec_mem \<Rightarrow> 'v vec_mem" where
  "putLocal i t x z = z\<lparr>localBuffers := (localBuffers z)[i := (localBuffers z ! i)[t := Some x]],
     localConflicts := (localConflicts z)[i := (localConflicts z ! i)[t := True]]\<rparr>"

definition inLocal :: "nat \<Rightarrow> nat \<Rightarrow> 'v vec_mem \<Rightarrow> bool" where
  "inLocal i t z \<longleftrightarrow> i < length (localBuffers z) \<and> i < length (localConflicts z) \<and>
     t < length (localBuffers z ! i) \<and> t < length (localConflicts z ! i)"

definition vectorStep ::
  "nat \<Rightarrow> (nat \<Rightarrow> 'v) \<Rightarrow> (nat \<Rightarrow> int) \<Rightarrow> ('v \<Rightarrow> 'v \<Rightarrow> 'v) option \<Rightarrow> nat \<Rightarrow> nat \<Rightarrow> ('v vec_mem, unit) pjs" where
  "vectorStep len elem targets conflictFunc sliceId indexPos =
     bindP (checkTarget len indexPos (targets indexPos)) (\<lambda>t.
     bindP (resolve (\<lambda>z. localConflicts z ! sliceId) (\<lambda>z. localBuffers z ! sliceId) conflictFunc t (elem indexPos)) (\<lambda>x.
     UnsafeSetElement (\<lambda>z. inLocal sliceId t z \<and> posOk sliceId z)
       (\<lambda>z. setPos sliceId (indexPos + 1) (putLocal sliceId t x z))))"

definition fillVector ::
  "nat \<Rightarrow> (nat \<Rightarrow> 'v) \<Rightarrow> (nat \<Rightarrow> int) \<Rightarrow> ('v \<Rightarrow> 'v \<Rightarrow> 'v) option \<Rightarrow> 'v vec_mem kernel" where
  "fillVector len elem targets conflictFunc sliceId warmup =
     bindP (load (\<lambda>z. info z ! SLICE_POS sliceId)) (\<lambda>indexPos.
     bindP (load (\<lambda>z. info z ! SLICE_END sliceId)) (\<lambda>indexEnd.
     let indexEnd = (if warmup then min indexEnd (indexPos + CHUNK_SIZE) else indexEnd) in
     bindP (loopP [indexPos..<indexEnd] () (\<lambda>indexPos _. vectorStep len elem targets conflictFunc sliceId indexPos)) (\<lambda>_.
     bindP (load (\<lambda>z. info z ! SLICE_END sliceId)) (\<lambda>sliceEnd. Ret (indexEnd = sliceEnd)))))"

section \<open>Merging\<close>

definition assign :: "('z \<Rightarrow> 'z) \<Rightarrow> ('z, unit) pjs" where
  "assign upd = Store (\<lambda>_. Ret ()) upd"

definition mergeOutput :: "('v \<Rightarrow> 'v \<Rightarrow> 'v) option \<Rightarrow> nat \<Rightarrow> nat \<Rightarrow> ('v vec_mem, unit) pjs" where
  "mergeOutput conflictFunc i j =
     bindP (load (\<lambda>z. localConflicts z ! i ! j)) (\<lambda>other.
     if other
     then bindP (load (\<lambda>z. localConflicts z ! 0 ! j)) (\<lambda>conflict.
          bindP (loadElem (\<lambda>z. localBuffers z ! i) j) (\<lambda>y.
          if conflict
          then bindP (loadElem (\<lambda>z. localBuffers z ! 0) j) (\<lambda>x.
               bindP (collide conflictFunc y x) (\<lambda>v. assign (putLocal 0 j v)))
          else assign (putLocal 0 j y)))
     else Ret ())"

definition mergeBuffers :: "nat \<Rightarrow> ('v \<Rightarrow> 'v \<Rightarrow> 'v) option \<Rightarrow> nat \<Rightarrow> ('v vec_mem, unit) pjs" where
  "mergeBuffers len conflictFunc n =
     loopP [1..<n] () (\<lambda>i _. loopP [0..<len] () (\<lambda>j _. mergeOutput conflictFunc i j))"

section \<open>The operation\<close>

definition forceStrategy :: "string \<Rightarrow> exec_mode option \<Rightarrow> bool" where
  "forceStrategy s mode = (case mode of None \<Rightarrow> False | Some m \<Rightarrow> m_strategy m = Some s)"

definition forceDivideScatterVector :: "exec_mode option \<Rightarrow> bool" where
  "forceDivideScatterVector mode = forceStrategy ''divide-scatter-vector'' mode"

definition forceDivideOutputRange :: "exec_mode option \<Rightarrow> bool" where
  "forceDivideOutputRange mode = forceStrategy ''divide-output-range'' mode"

definition parDivideOutputRange ::
  "engine \<Rightarrow> exec_mode option \<Rightarrow> nat \<Rightarrow> (nat \<Rightarrow> 'v) \<Rightarrow> (nat \<Rightarrow> int) \<Rightarrow> nat \<Rightarrow> ('v \<Rightarrow> 'v \<Rightarrow> 'v) option \<Rightarrow> 'v \<Rightarrow> jserr + 'v parray" where
  "parDivideOutputRange e mode len elem targets targetsLength conflictFunc defaultValue =
     runOp (bindP (ForkJoinMode mode) (\<lambda>_.
            bindP (ForkJoin (fillRange len elem targets targetsLength conflictFunc (numSlices e)) (numSlices e) (scheduleAt e 0)) (\<lambda>_.
            bindP (load sc_buffer) (\<lambda>b. Ret (ParallelArrayView [len] b 0)))))
       \<lparr>sc_checkpoints = replicate (numSlices e) 0, sc_buffer = replicate len (Some defaultValue),
        sc_conflicts = replicate len False\<rparr>"

definition parDivideScatterVector ::
  "engine \<Rightarrow> exec_mode option \<Rightarrow> nat \<Rightarrow> (nat \<Rightarrow> 'v) \<Rightarrow> (nat \<Rightarrow> int) \<Rightarrow> nat \<Rightarrow> ('v \<Rightarrow> 'v \<Rightarrow> 'v) option \<Rightarrow> 'v \<Rightarrow> jserr + 'v parray" where
  "parDivideScatterVector e mode len elem targets targetsLength conflictFunc defaultValue =
     runOp (bindP (ForkJoinMode mode) (\<lambda>_.
            bindP (ForkJoin (fillVector len elem targets conflictFunc) (numSlices e) (scheduleAt e 0)) (\<lambda>_.
            bindP (mergeBuffers len conflictFunc (numSlices e)) (\<lambda>_.
            bindP (load (\<lambda>z. localBuffers z ! 0)) (\<lambda>b. Ret (ParallelArrayView [len] b 0))))))
       \<lparr>info = ComputeAllSliceBounds targetsLength (numSlices e),
        localBuffers = (replicate (numSlices e) (NewDenseArray len))[0 := replicate len (Some defaultValue)],
        localConflicts = replicate (numSlices e) (replicate len False)\<rparr>"

definition scatterSequential ::
  "engine \<Rightarrow> exec_mode option \<Rightarrow> nat \<Rightarrow> (nat \<Rightarrow> 'v) \<Rightarrow> (nat \<Rightarrow> int) \<Rightarrow> nat \<Rightarrow> ('v \<Rightarrow> 'v \<Rightarrow> 'v) option \<Rightarrow> 'v \<Rightarrow> jserr + 'v parray" where
  "scatterSequential e mode len elem targets targetsLength conflictFunc defaultValue =
     runOp (bindP (ASSERT_SEQUENTIAL_IS_OK (testsShouldPass e) mode) (\<lambda>_.
            bindP (scatterSeq len elem targets targetsLength conflictFunc) (\<lambda>_.
            bindP (load sc_buffer) (\<lambda>b. Ret (ParallelArrayView [len] b 0)))))
       \<lparr>sc_checkpoints = [], sc_buffer = replicate len (Some defaultValue), sc_conflicts = replicate len False\<rparr>"

text \<open>
  An array of the empty shape has no length: its \<open>length\<close> argument is not a length either when it is
  absent, and no element is scattered when it is present.
\<close>

definition ParallelArrayScatter ::
  "engine \<Rightarrow> int list \<Rightarrow> 'v pval \<Rightarrow> ('v pval \<Rightarrow> 'v pval \<Rightarrow> 'v pval) option \<Rightarrow> int option \<Rightarrow> exec_mode option \<Rightarrow>
   'v parray \<Rightarrow> jserr + 'v pval parray" where
  "ParallelArrayScatter e targets defaultValue conflictFunc outLength mode self =
     (let outLength = (case outLength of Some l \<Rightarrow> l
                      | None \<Rightarrow> (case ParallelArrayLength self of Some l \<Rightarrow> int l | None \<Rightarrow> - 1));
          elem = (\<lambda>i. callGet self [int i]); target = (\<lambda>i. targets ! i); len = nat outLength;
          targetsLength = (case ParallelArrayLength self of None \<Rightarrow> 0 | Some l \<Rightarrow> min (length targets) l) in
      if \<not> length targets < 2 ^ 32 then Inl (JSMSG ''JSMSG_BAD_ARRAY_LENGTH'')
      else if \<not> (0 \<le> outLength \<and> outLength < 2 ^ 32) then Inl (JSMSG ''JSMSG_BAD_ARRAY_LENGTH'')
      else if \<not> forceSequential e \<and> TRY_PARALLEL mode
      then if forceDivideScatterVector mode
           then parDivideScatterVector e mode len elem target targetsLength conflictFunc defaultValue
           else if forceDivideOutputRange mode
           then parDivideOutputRange e mode len elem target targetsLength conflictFunc defaultValue
           else if conflictFunc = None \<and> targetsLength < len
           then parDivideOutputRange e mode len elem target targetsLength conflictFunc defaultValue
           else parDivideScatterVector e mode len elem target targetsLength conflictFunc defaultValue
      else scatterSequential e mode len elem target targetsLength conflictFunc defaultValue)"

section \<open>Facts: the slices\<close>

lemma putLocal_simps [simp]:
  "info (putLocal i t x z) = info z" "length (localBuffers (putLocal i t x z)) = length (localBuffers z)"
  "length (localConflicts (putLocal i t x z)) = length (localConflicts z)"
  "localBuffers (setPos i p z) = localBuffers z" "localConflicts (setPos i p z) = localConflicts z"
  by (simp_all add: putLocal_def setPos_def)

lemma putLocal_nth:
  assumes "i < length (localBuffers z)" "i < length (localConflicts z)"
  shows "localBuffers (putLocal i t x z) ! j = (if j = i then (localBuffers z ! i)[t := Some x] else localBuffers z ! j)"
    and "localConflicts (putLocal i t x z) ! j = (if j = i then (localConflicts z ! i)[t := True] else localConflicts z ! j)"
  using assms by (simp_all add: putLocal_def)

text \<open>
  Slice \<open>i\<close> at position \<open>p\<close>: its buffer holds what its elements before \<open>p\<close> scatter. Only the first
  buffer has default values.
\<close>

definition sized :: "nat \<Rightarrow> nat \<Rightarrow> 'v vec_mem \<Rightarrow> bool" where
  "sized len s z \<longleftrightarrow> length (localBuffers z) = s \<and> length (localConflicts z) = s \<and>
     (\<forall>i < s. length (localBuffers z ! i) = len \<and> length (localConflicts z ! i) = len)"

definition localDefault :: "'v \<Rightarrow> nat \<Rightarrow> 'v option" where
  "localDefault dflt i = (if i = 0 then Some dflt else None)"

definition localHolds ::
  "nat \<Rightarrow> ('v \<Rightarrow> 'v \<Rightarrow> 'v) \<Rightarrow> (nat \<Rightarrow> 'v) \<Rightarrow> (nat \<Rightarrow> int) \<Rightarrow> 'v option \<Rightarrow> nat \<Rightarrow> nat \<Rightarrow> nat \<Rightarrow> 'v vec_mem \<Rightarrow> bool" where
  "localHolds len f elem targets dflt i a p z \<longleftrightarrow>
     (\<forall>t<len. holdsIn f elem targets a dflt (p - a) t (localBuffers z ! i) (localConflicts z ! i))"

definition vecAt ::
  "nat \<Rightarrow> (nat \<Rightarrow> 'v) \<Rightarrow> (nat \<Rightarrow> int) \<Rightarrow> nat \<Rightarrow> ('v \<Rightarrow> 'v \<Rightarrow> 'v) option \<Rightarrow> nat \<Rightarrow> 'v \<Rightarrow> nat \<Rightarrow> nat \<Rightarrow> 'v vec_mem \<Rightarrow> bool" where
  "vecAt len elem targets m c s dflt i p z \<longleftrightarrow> scatterable len targets m c \<and> m < 2 ^ 31 \<and> sized len s z \<and>
     localHolds len (conflictOf c) elem targets (localDefault dflt i) i (slice_lo m s i) p z"

abbreviation vecInv where
  "vecInv len elem targets m c s dflt \<equiv> progress s (slice_lo m s) (slice_hi m s) (vecAt len elem targets m c s dflt)"

lemma sized_putLocal: "sized len s z \<Longrightarrow> i < s \<Longrightarrow> sized len s (putLocal i t x z)"
  by (simp add: sized_def putLocal_nth)

lemma localHolds_other:
  assumes "sized len s z" "i < s" "j \<noteq> i"
  shows "localHolds len f elem targets d j a p (putLocal i t x z) = localHolds len f elem targets d j a p z"
  using assms by (simp add: localHolds_def sized_def putLocal_nth)

lemma localHolds_step:
  assumes "localHolds len f elem targets d i a p z" "sized len s z" "i < s" "a \<le> p" "targets p = int u" "u < len"
    and "x = (case scattered f elem targets a u (p - a) of None \<Rightarrow> elem p | Some v \<Rightarrow> f (elem p) v)"
  shows "localHolds len f elem targets d i a (p + 1) (putLocal i u x z)"
  unfolding localHolds_def
proof (intro allI impI)
  fix t assume "t < len"
  then have h: "holdsIn f elem targets a d (p - a) t (localBuffers z ! i) (localConflicts z ! i)"
    using assms(1) by (simp add: localHolds_def)
  have p: "a + (p - a) = p" "p + 1 - a = (p - a) + 1" using assms(4) by auto
  have u: "u < length (localBuffers z ! i)" "u < length (localConflicts z ! i)"
    "i < length (localBuffers z)" "i < length (localConflicts z)"
    using assms(2,3,6) by (auto simp: sized_def)
  show "holdsIn f elem targets a d (p + 1 - a) t (localBuffers (putLocal i u x z) ! i) (localConflicts (putLocal i u x z) ! i)"
    using holdsIn_step [OF h u(1,2), of x] assms(5,7) unfolding p by (simp add: putLocal_nth [OF u(3,4)])
qed

text \<open>
  What belongs to a slice besides its bounds and position: its buffer and its conflicts. The lengths of all buffers
  are what no slice changes.
\<close>

definition ownVec :: "nat \<Rightarrow> 'v vec_mem \<Rightarrow> 'v vec_mem \<Rightarrow> bool" where
  "ownVec i z w \<longleftrightarrow> sameRange i (i + 1) (localBuffers z) (localBuffers w) \<and>
     sameRange i (i + 1) (localConflicts z) (localConflicts w) \<and>
     map length (localBuffers z) = map length (localBuffers w) \<and>
     map length (localConflicts z) = map length (localConflicts w)"

abbreviation vecView :: "nat \<Rightarrow> nat \<Rightarrow> 'v vec_mem view" where
  "vecView s i \<equiv> viewOf (sameSlice ownVec) s i"

lemma ownVec_equivp: "equivp (ownVec i)"
  unfolding ownVec_def [abs_def]
  by (intro equivp_conj equivp_eq sameRange_equivp [where f = localBuffers] sameRange_equivp [where f = localConflicts])

lemma ownVec_facts:
  assumes "ownVec i z w"
  shows "localBuffers w ! i = localBuffers z ! i" "localConflicts w ! i = localConflicts z ! i"
    "length (localBuffers w) = length (localBuffers z)" "length (localConflicts w) = length (localConflicts z)"
  using assms by (auto simp: ownVec_def sameRange_def)

lemma ownVec_at:
  assumes "ownVec i z w" "vecAt len elem targets m c s dflt i p z"
  shows "vecAt len elem targets m c s dflt i p w"
proof -
  have l: "map length (localBuffers w) = map length (localBuffers z)" "map length (localConflicts w) = map length (localConflicts z)"
    using assms(1) by (simp_all add: ownVec_def)
  note f = ownVec_facts [OF assms(1)]
  have "length (localBuffers w ! j) = length (localBuffers z ! j)" if "j < length (localBuffers z)" for j
    using arg_cong [OF l(1), of "\<lambda>xs. xs ! j"] f(3) that by simp
  moreover have "length (localConflicts w ! j) = length (localConflicts z ! j)" if "j < length (localConflicts z)" for j
    using arg_cong [OF l(2), of "\<lambda>xs. xs ! j"] f(4) that by simp
  ultimately show ?thesis using assms(2) f by (simp add: vecAt_def sized_def localHolds_def)
qed

lemma lengths_putLocal [simp]:
  "map length (localBuffers (putLocal i t x z)) = map length (localBuffers z)"
  "map length (localConflicts (putLocal i t x z)) = map length (localConflicts z)"
proof -
  have update: "map length (xs[i := (xs ! i)[t := y]]) = map length xs" for xs :: "'b list list" and y
    using list_update_id [of "map length xs" i] by (cases "i < length xs") (simp_all add: map_update list_update_beyond)
  show "map length (localBuffers (putLocal i t x z)) = map length (localBuffers z)"
    "map length (localConflicts (putLocal i t x z)) = map length (localConflicts z)"
    by (simp_all add: putLocal_def update)
qed

lemma vecView_store:
  assumes "fst (vecView s i) z w"
  shows "fst (vecView s i) (setPos i p (putLocal i t x z)) (setPos i p (putLocal i t x w)) \<and>
    snd (vecView s i) w (setPos i p (putLocal i t x w))"
proof (rule viewOf_move [OF assms, of "\<lambda>z. setPos i p (putLocal i t x z)"])
  show "ownVec i (setPos i p (putLocal i t x z)) (setPos i p (putLocal i t x w))" if "ownVec i z w"
    using that ownVec_facts(1,2) [OF that] lengths_putLocal [of i t x z] lengths_putLocal [of i t x w]
    by (simp add: ownVec_def sameRange_update putLocal_def setPos_def)
  show "ownVec j w (setPos i p (putLocal i t x w))" if "j < s" "j \<noteq> i" for j
    using that lengths_putLocal [of i t x w] by (auto simp: ownVec_def putLocal_def setPos_def intro!: sameRange_outside)
qed simp

lemma vectorStep_safe:
  assumes i: "i < s" "slice_lo m s i \<le> k" "k < slice_hi m s i" "w ! SLICE_POS i = k"
  shows "safe (vecView s i) (\<lambda>z. vecInv len elem targets m c s dflt z \<and> info z = w) (vectorStep len elem targets c i k)
    (\<lambda>_ z. vecInv len elem targets m c s dflt z \<and> info z = w[SLICE_POS i := k + 1])
    (\<lambda>z. vecInv len elem targets m c s dflt z \<and> info z = w)" (is "safe _ ?P _ ?Q ?P")
proof -
  have at: "vecAt len elem targets m c s dflt i k z" if "?P z" for z :: "'a vec_mem"
    using that i(1,4) progress_pos(4) [of s _ _ _ z i] by auto
  show ?thesis
  proof (rule safe_pre [where c = "scatterable len targets m c"])
    assume ok: "scatterable len targets m c"
    have "k < m" using i(1,3) slice_hi_le [of i s m] by simp
    define t where "t = nat (targets k)"
    note ct = checkTarget_ok [OF ok \<open>k < m\<close>, folded t_def]
    let ?a = "slice_lo m s i"
    have k: "?a + (k - ?a) = k" using i(2) by simp
    let ?v = "case scattered (conflictOf c) elem targets ?a t (k - ?a) of None \<Rightarrow> elem k | Some v \<Rightarrow> conflictOf c (elem k) v"
    have res: "safe (vecView s i) ?P (resolve (\<lambda>z. localConflicts z ! i) (\<lambda>z. localBuffers z ! i) c t (elem k)) (\<lambda>x z. ?P z \<and> x = ?v) ?P"
    proof (rule resolve_safe [of len targets m c ?a "k - ?a" t, unfolded k, OF ok \<open>k < m\<close> ct(2)])
      fix z assume "?P z"
      then show "holdsIn (conflictOf c) elem targets ?a (localDefault dflt i) (k - ?a) t (localBuffers z ! i) (localConflicts z ! i) \<and>
          t < length (localBuffers z ! i)"
        using at ct(3) i(1) by (auto simp: vecAt_def localHolds_def sized_def)
    next
      fix z z' :: "'a vec_mem" assume z: "fst (vecView s i) z z'"
      show "localConflicts z' ! i ! t = localConflicts z ! i ! t \<and> length (localBuffers z' ! i) = length (localBuffers z ! i) \<and>
          localBuffers z' ! i ! t = localBuffers z ! i ! t"
        using ownVec_facts(1,2) [OF viewOf_slice(1) [OF z]] by simp
    qed
    have store: "safe (vecView s i) (\<lambda>z. ?P z \<and> x = ?v) (UnsafeSetElement (\<lambda>z. inLocal i t z \<and> posOk i z)
        (\<lambda>z. setPos i (k + 1) (putLocal i t x z))) ?Q ?P" for x
    proof (rule safe_set, intro conjI)
      fix z z' :: "'a vec_mem" assume z: "?P z \<and> x = ?v" "fst (vecView s i) z z'"
      have "inLocal i t z" "posOk i z"
        using at z(1) ct(3) i(1) by (auto simp: inLocal_def vecAt_def sized_def progress_pos)
      then show "(inLocal i t z' \<and> posOk i z') \<and>
          fst (vecView s i) (setPos i (k + 1) (putLocal i t x z)) (setPos i (k + 1) (putLocal i t x z')) \<and>
          snd (vecView s i) z' (setPos i (k + 1) (putLocal i t x z'))"
        using vecView_store [OF z(2)] ownVec_facts [OF viewOf_slice(1) [OF z(2)]] viewOf_slice(2) [OF z(2)]
        by (simp add: inLocal_def)
    next
      fix z assume z: "?P z \<and> x = ?v"
      let ?z = "putLocal i t x z"
      have v: "scatterable len targets m c" "m < 2 ^ 31" "sized len s z"
        "localHolds len (conflictOf c) elem targets (localDefault dflt i) i ?a k z"
        using at z by (auto simp: vecAt_def)
      show "inLocal i t z" "posOk i z" "vecInv len elem targets m c s dflt z" "info z = w"
        using z v(3) ct(3) i(1) by (auto simp: inLocal_def sized_def progress_pos)
      have "vecAt len elem targets m c s dflt i (k + 1) ?z"
        using localHolds_step [OF v(4,3) i(1,2) ct(2,3)] v sized_putLocal i(1) z by (auto simp: vecAt_def)
      moreover have "vecAt len elem targets m c s dflt j q ?z" if "vecAt len elem targets m c s dflt j q z" "j \<noteq> i" for j q
        using that sized_putLocal i(1) by (auto simp: vecAt_def localHolds_other)
      ultimately have "vecInv len elem targets m c s dflt (setPos i (k + 1) ?z)"
        using z i by (auto simp: progress_def nth_list_update vecAt_def localHolds_def sized_def)
      then show "vecInv len elem targets m c s dflt (setPos i (k + 1) ?z)"
        "info (setPos i (k + 1) ?z) = w[SLICE_POS i := k + 1]" using z by auto
    qed
    show "safe (vecView s i) ?P (vectorStep len elem targets c i k) ?Q ?P"
      unfolding vectorStep_def ct(1) using safe_bind [OF res store] by simp
  qed (use at in \<open>auto simp: vecAt_def\<close>)
qed

interpretation vector_steps: stepwise s "slice_lo m s" "slice_hi m s" "vecAt len elem targets m c s dflt"
    "vectorStep len elem targets c" ownVec for s m len elem targets c dflt
  by unfold_locales (rule ownVec_equivp, rule ownVec_at, assumption+, rule vectorStep_safe)

interpretation vector_kernel: slice_kernel "fillVector len elem targets c" s "vecInv len elem targets m c s dflt"
    "finishedAt (slice_hi m s)" "sameSlice ownVec" for len elem targets c s m dflt
  unfolding fillVector_def Let_def
  by unfold_locales
    (rule vector_steps.own_facts(1), assumption, rule vector_steps.own_facts(2), assumption+,
     blast intro: vector_steps.own_facts(3), rule vector_steps.steps_kernel [where stop = "\<lambda>p e. if _ then min e (p + CHUNK_SIZE) else e"], auto)

lemma vecInv_init:
  assumes "scatterable len targets m c" "m < 2 ^ 31" "0 < s"
  shows "vecInv len elem targets m c s dflt \<lparr>info = ComputeAllSliceBounds m s,
     localBuffers = (replicate s (NewDenseArray len))[0 := replicate len (Some dflt)],
     localConflicts = replicate s (replicate len False)\<rparr>"
  using assms slice_info [OF assms(2)]
  by (auto simp: progress_def vecAt_def sized_def localHolds_def holdsIn_def localDefault_def nth_list_update
      NewDenseArray_def slice_lo_hi)

section \<open>Facts: merging\<close>

text \<open>What two consecutive ranges of elements scatter to one output.\<close>

lemma scattered_append:
  assumes "assoc_fun f"
  shows "scattered f elem targets 0 t (a + n) = (case scattered f elem targets a t n of
      None \<Rightarrow> scattered f elem targets 0 t a
    | Some y \<Rightarrow> Some (case scattered f elem targets 0 t a of None \<Rightarrow> y | Some x \<Rightarrow> f y x))"
  using assms by (induction n) (auto simp: assoc_fun_def split: option.splits)

lemma conflictOf_assoc: "(\<And>f. c = Some f \<Longrightarrow> assoc_fun f) \<Longrightarrow> assoc_fun (conflictOf c)"
  by (cases c) (auto simp: conflictOf_def assoc_fun_def)

text \<open>
  Merging buffer \<open>k\<close> has reached output \<open>j\<close>: the first buffer holds, below \<open>j\<close>, what all slices up to
  \<open>k\<close> scatter, and from \<open>j\<close> on what those before \<open>k\<close> do.
\<close>

definition merging ::
  "nat \<Rightarrow> (nat \<Rightarrow> 'v) \<Rightarrow> (nat \<Rightarrow> int) \<Rightarrow> nat \<Rightarrow> ('v \<Rightarrow> 'v \<Rightarrow> 'v) option \<Rightarrow> nat \<Rightarrow> 'v \<Rightarrow> nat \<Rightarrow> nat \<Rightarrow> 'v vec_mem \<Rightarrow> bool" where
  "merging len elem targets m c s dflt k j z \<longleftrightarrow> sized len s z \<and>
     (\<forall>t<len. holdsIn (conflictOf c) elem targets 0 (Some dflt) (if t < j then slice_hi m s k else slice_hi m s (k - 1)) t
                (localBuffers z ! 0) (localConflicts z ! 0)) \<and>
     (\<forall>i < s. k \<le> i \<longrightarrow> localHolds len (conflictOf c) elem targets None i (slice_lo m s i) (slice_hi m s i) z)"

lemma merging_start:
  assumes "vecInv len elem targets m c s dflt z" "\<forall>i\<in>{..<s}. finishedAt (slice_hi m s) i z" "0 < s"
  shows "merging len elem targets m c s dflt 1 0 z"
proof -
  have at: "vecAt len elem targets m c s dflt i (slice_hi m s i) z" if "i < s" for i
    using that progress_pos(4) [OF assms(1) that] assms(2) by (simp add: finishedAt_def)
  have "localHolds len (conflictOf c) elem targets None i (slice_lo m s i) (slice_hi m s i) z" if "i < s" "1 \<le> i" for i
    using at [OF that(1)] that(2) by (simp add: vecAt_def localDefault_def)
  then show ?thesis
    using at [OF assms(3)] by (simp add: merging_def vecAt_def localHolds_def localDefault_def slice_lo_0)
qed

lemma merging_next:
  assumes "merging len elem targets m c s dflt k len z"
  shows "merging len elem targets m c s dflt (k + 1) 0 z"
  using assms by (auto simp: merging_def)

text \<open>A conflict between two slices needs two elements with one target.\<close>

lemma conflict_function:
  assumes "scatterable len targets m c" "a + n \<le> m"
    and "scattered f elem targets a t n \<noteq> None" "scattered f elem targets 0 t a \<noteq> None"
  obtains g where "c = Some g"
proof (cases c)
  case None
  then have inj: "inj_on targets {..<m}" using assms(1) by (simp add: scatterable_def)
  obtain j where j: "j < n" "targets (a + j) = int t" using assms(3) by (auto simp: scattered_None_iff)
  obtain i where i: "i < a" "targets i = int t" using assms(4) by (auto simp: scattered_None_iff)
  have "a + j = i" using inj_onD [OF inj, of "a + j" i] i j assms(2) by simp
  then show ?thesis using i by simp
qed

text \<open>Alone, a run is safe when it returns with the result.\<close>

lemma okRun_alone: "exec m z = (Inr x, z') \<Longrightarrow> Q x z' \<Longrightarrow> okRun alone Q (\<lambda>_. True) m z"
  by (induction m arbitrary: z) (auto simp: alone_def)

lemma merging_put:
  assumes "merging len elem targets m c s dflt k j z" "j < len" "1 \<le> k" "k < s"
    and "scattered (conflictOf c) elem targets 0 j (slice_hi m s k) = Some v"
  shows "merging len elem targets m c s dflt k (j + 1) (putLocal 0 j v z)"
proof -
  have len: "0 < length (localBuffers z)" "0 < length (localConflicts z)" "length (localBuffers z ! 0) = len"
    "length (localConflicts z ! 0) = len" "sized len s z"
    using assms(1,4) by (auto simp: merging_def sized_def)
  have "holdsIn (conflictOf c) elem targets 0 (Some dflt) (if t < j + 1 then slice_hi m s k else slice_hi m s (k - 1)) t
      (localBuffers (putLocal 0 j v z) ! 0) (localConflicts (putLocal 0 j v z) ! 0)" if "t < len" for t
  proof (cases "t = j")
    case True
    then show ?thesis using assms(5) len that by (simp add: putLocal_nth holdsIn_def)
  next
    case False
    then have "(t < j + 1) = (t < j)" by auto
    then show ?thesis using assms(1) False len(1,2) that by (simp add: merging_def putLocal_nth holdsIn_def)
  qed
  moreover have "localHolds len (conflictOf c) elem targets None i (slice_lo m s i) (slice_hi m s i) (putLocal 0 j v z)"
    if "i < s" "k \<le> i" for i
    using assms(1,3,4) that localHolds_other [OF len(5), of 0 i] by (auto simp: merging_def)
  ultimately show ?thesis using sized_putLocal [OF len(5)] assms(4) by (simp add: merging_def)
qed

lemma mergeOutput_safe:
  assumes ok: "scatterable len targets m c" "\<And>f. c = Some f \<Longrightarrow> assoc_fun f" and k: "1 \<le> k" "k < s" "j < len"
  shows "safe alone (merging len elem targets m c s dflt k j) (mergeOutput c k j)
    (\<lambda>_. merging len elem targets m c s dflt k (j + 1)) (\<lambda>_. True)"
  unfolding safe_def
proof (intro allI impI)
  fix z assume z: "merging len elem targets m c s dflt k j z"
  let ?M = "merging len elem targets m c s dflt k (j + 1)"
  let ?f = "conflictOf c" and ?a = "slice_hi m s (k - 1)" and ?n = "slice_hi m s k - slice_lo m s k"
  have a: "slice_lo m s k = ?a" using slice_hi_Suc [of "k - 1" s m] k by simp
  have n: "slice_hi m s k = ?a + ?n" using slice_lo_hi [OF k(2), of m] a by simp
  define x where "x = scattered ?f elem targets 0 j ?a"
  define y where "y = scattered ?f elem targets ?a j ?n"
  have all: "scattered ?f elem targets 0 j (slice_hi m s k) =
      (case y of None \<Rightarrow> x | Some y \<Rightarrow> Some (case x of None \<Rightarrow> y | Some x \<Rightarrow> ?f y x))"
    unfolding x_def y_def by (subst n) (rule scattered_append [OF conflictOf_assoc [OF ok(2)]])
  have lens: "sized len s z" using z by (simp add: merging_def)
  have first: "localConflicts z ! 0 ! j = (x \<noteq> None)" "x = Some u \<Longrightarrow> localBuffers z ! 0 ! j = Some u" for u
    using z k(3) by (auto simp: merging_def holdsIn_def x_def split: option.splits)
  have "localHolds len ?f elem targets None k ?a (slice_hi m s k) z" using z k(2) a by (auto simp: merging_def)
  then have other: "localConflicts z ! k ! j = (y \<noteq> None)" "localBuffers z ! k ! j = y"
    using k(3) a by (auto simp: localHolds_def holdsIn_def y_def split: option.splits)
  have idx: "j < length (localBuffers z ! 0)" "j < length (localBuffers z ! k)" using lens k by (auto simp: sized_def)
  have "?a + ?n \<le> m" using slice_hi_le [OF k(2), of m] n by simp
  note fn = conflict_function [OF ok(1) this]
  have "\<exists>z'. exec (mergeOutput c k j) z = (Inr (), z') \<and> ?M z'"
  proof (cases y)
    case None
    then have "?M z" using z all k(3) by (auto simp: merging_def holdsIn_def x_def less_Suc_eq)
    then show ?thesis using None other by (simp add: mergeOutput_def load_def)
  next
    case (Some u)
    show ?thesis
    proof (cases x)
      case None
      then have "?M (putLocal 0 j u z)" using all Some k z by (intro merging_put) auto
      then show ?thesis
        using None Some other first idx by (simp add: mergeOutput_def load_def loadElem_def assign_def)
    next
      case (Some w)
      note xw = this
      obtain g where g: "c = Some g"
        by (rule fn [of ?f elem j]) (use \<open>y = Some u\<close> xw in \<open>auto simp: x_def y_def a\<close>)
      then have "?M (putLocal 0 j (g u w) z)"
        using all \<open>y = Some u\<close> xw k z by (intro merging_put) (auto simp: conflictOf_def)
      then show ?thesis
        using g xw \<open>y = Some u\<close> other first idx
        by (simp add: mergeOutput_def load_def loadElem_def assign_def collide_def callFunc_def)
    qed
  qed
  then show "okRun alone (\<lambda>_. ?M) (\<lambda>_. True) (mergeOutput c k j) z" by (blast intro: okRun_alone)
qed

lemma mergeBuffers_safe:
  assumes ok: "scatterable len targets m c" "\<And>f. c = Some f \<Longrightarrow> assoc_fun f" and s: "0 < s"
  shows "safe alone (merging len elem targets m c s dflt 1 0) (mergeBuffers len c s)
    (\<lambda>_. merging len elem targets m c s dflt s 0) (\<lambda>_. True)"
  unfolding mergeBuffers_def
proof (rule safe_loop [where I = "\<lambda>k _. merging len elem targets m c s dflt k 0"])
  fix k x assume k: "1 \<le> k" "k < s"
  have "safe alone (merging len elem targets m c s dflt k 0) (loopP [0..<len] () (\<lambda>j _. mergeOutput c k j))
      (\<lambda>_. merging len elem targets m c s dflt k len) (\<lambda>_. True)"
    by (rule safe_loop [where I = "\<lambda>j _. merging len elem targets m c s dflt k j"])
      (use mergeOutput_safe [OF ok] k in auto)
  then show "safe alone (merging len elem targets m c s dflt k 0) (loopP [0..<len] () (\<lambda>j _. mergeOutput c k j))
      (\<lambda>_. merging len elem targets m c s dflt (k + 1) 0) (\<lambda>_. True)"
    by (rule safe_weaken) (use merging_next in auto)
qed (use s in simp)

section \<open>Facts: the results\<close>

text \<open>The output of an index: the elements with that target, combined in their order.\<close>

definition landed :: "('v \<Rightarrow> 'v \<Rightarrow> 'v) \<Rightarrow> (nat \<Rightarrow> 'v) \<Rightarrow> (nat \<Rightarrow> int) \<Rightarrow> nat \<Rightarrow> 'v \<Rightarrow> nat \<Rightarrow> 'v" where
  "landed f elem targets m dflt t = (case map elem (filter (\<lambda>i. targets i = int t) [0..<m]) of
       [] \<Rightarrow> dflt
     | x # xs \<Rightarrow> foldl (\<lambda>y x. f x y) x xs)"

lemma scattered_landed: "(case scattered f elem targets 0 t m of None \<Rightarrow> dflt | Some v \<Rightarrow> v) = landed f elem targets m dflt t"
proof -
  have "scattered f elem targets 0 t m = (case map elem (filter (\<lambda>i. targets i = int t) [0..<m]) of
       [] \<Rightarrow> None | x # xs \<Rightarrow> Some (foldl (\<lambda>y x. f x y) x xs))"
    by (induction m) (auto split: list.splits)
  then show ?thesis by (simp add: landed_def split: list.splits)
qed

definition scatterResult ::
  "nat \<Rightarrow> (nat \<Rightarrow> 'v) \<Rightarrow> (nat \<Rightarrow> int) \<Rightarrow> nat \<Rightarrow> ('v \<Rightarrow> 'v \<Rightarrow> 'v) option \<Rightarrow> 'v \<Rightarrow> 'v option list" where
  "scatterResult len elem targets m c dflt = map (\<lambda>t. Some (landed (conflictOf c) elem targets m dflt t)) [0..<len]"

lemma landed_buffer:
  assumes "length b = len" "\<And>t. t < len \<Longrightarrow> holdsIn (conflictOf c) elem targets 0 (Some dflt) m t b cs"
  shows "b = scatterResult len elem targets m c dflt"
proof (rule nth_equalityI)
  fix t assume "t < length b"
  then have "b ! t = Some (case scattered (conflictOf c) elem targets 0 t m of None \<Rightarrow> dflt | Some v \<Rightarrow> v)"
    using assms by (auto simp: holdsIn_def split: option.splits)
  then show "b ! t = scatterResult len elem targets m c dflt ! t"
    using \<open>t < length b\<close> assms(1) by (simp add: scatterResult_def scattered_landed)
qed (use assms(1) in \<open>simp add: scatterResult_def\<close>)

lemma sequential_buffer:
  assumes "holdsAll len (conflictOf c) elem targets dflt m z"
  shows "sc_buffer z = scatterResult len elem targets m c dflt"
  using assms by (intro landed_buffer [where cs = "sc_conflicts z"]) (auto simp: holdsAll_def holds_def)

lemma range_buffer:
  assumes "rangeInv len elem targets m c s dflt z" "\<forall>i\<in>{..<s}. rangeDone len s targets m i z" "0 < s"
  shows "sc_buffer z = scatterResult len elem targets m c dflt"
proof (rule landed_buffer [where cs = "sc_conflicts z"])
  fix t assume t: "t < len"
  obtain i where i: "i < s" "owns len s i t" using slices_cover [OF t assms(3)] by (auto simp: owns_def)
  have q: "quiet len s targets i (sc_checkpoints z ! i) m" "sc_checkpoints z ! i \<le> m"
    and h: "holds (conflictOf c) elem targets dflt (sc_checkpoints z ! i) t z"
    using assms(1,2) i t by (auto simp: rangeInv_def rangeDone_def)
  show "holdsIn (conflictOf c) elem targets 0 (Some dflt) m t (sc_buffer z) (sc_conflicts z)"
    using h holds_quiet [OF q(1) i(2) q(2), of "conflictOf c" elem dflt z] by (simp add: holds_def)
qed (use assms(1) in \<open>simp add: rangeInv_def\<close>)

lemma merged_buffer:
  assumes "merging len elem targets m c s dflt s 0 z" "0 < s"
  shows "localBuffers z ! 0 = scatterResult len elem targets m c dflt"
  using assms slice_hi_last [OF assms(2), of m]
  by (intro landed_buffer [where cs = "localConflicts z ! 0"]) (auto simp: merging_def sized_def)

section \<open>Properties\<close>

abbreviation scatterView where
  "scatterView len elem targets m c dflt \<equiv> ParallelArrayView [len] (scatterResult len elem targets m c dflt) 0"

lemma sequential_strategy:
  assumes "scatterable len targets m c"
  shows "endsIn e 1 mode (\<lambda>q. q = scatterView len elem targets m c dflt) (scatterSequential e mode len elem targets m c dflt)"
  unfolding scatterSequential_def
proof (rule endsIn_sequential, rule runOp_safe_bind [OF scatterSeq_safe [OF assms]])
  show "holdsAll len (conflictOf c) elem targets dflt 0
      \<lparr>sc_checkpoints = [], sc_buffer = replicate len (Some dflt), sc_conflicts = replicate len False\<rparr>"
    by (simp add: holdsAll_def holds_def holdsIn_def)
  fix z assume "holdsAll len (conflictOf c) elem targets dflt m z"
  then show "endsIn e 1 mode (\<lambda>q. q = scatterView len elem targets m c dflt)
      (runOp (bindP (load sc_buffer) (\<lambda>b. Ret (ParallelArrayView [len] b 0))) z)"
    by (simp add: endsIn_def sequential_buffer)
qed

lemma range_strategy:
  assumes "scatterable len targets m c" "0 < numSlices e" "\<not> forceSequential e"
  shows "endsIn e 1 mode (\<lambda>q. q = scatterView len elem targets m c dflt) (parDivideOutputRange e mode len elem targets m c dflt)"
  unfolding parDivideOutputRange_def
proof (rule endsIn_parallel, rule range_kernel.endsIn_join [OF _ assms(3) refl])
  show "rangeInv len elem targets m c (numSlices e) dflt \<lparr>sc_checkpoints = replicate (numSlices e) 0,
      sc_buffer = replicate len (Some dflt), sc_conflicts = replicate len False\<rparr>"
    using assms(1) by (simp add: rangeInv_def holds_def holdsIn_def)
  fix z assume "rangeInv len elem targets m c (numSlices e) dflt z" "\<forall>i\<in>{..<numSlices e}. rangeDone len (numSlices e) targets m i z"
  then show "endsIn e 1 mode (\<lambda>q. q = scatterView len elem targets m c dflt)
      (runOp (bindP (load sc_buffer) (\<lambda>b. Ret (ParallelArrayView [len] b 0))) z)"
    by (simp add: endsIn_def range_buffer [OF _ _ assms(2)])
qed simp

lemma vector_strategy:
  assumes ok: "scatterable len targets m c" "\<And>f. c = Some f \<Longrightarrow> assoc_fun f" and m: "m < 2 ^ 31"
    and e: "0 < numSlices e" "\<not> forceSequential e"
  shows "endsIn e 1 mode (\<lambda>q. q = scatterView len elem targets m c dflt) (parDivideScatterVector e mode len elem targets m c dflt)"
  unfolding parDivideScatterVector_def
proof (rule endsIn_parallel, rule vector_kernel.endsIn_join [OF vecInv_init [OF ok(1) m e(1)] e(2) refl])
  fix z assume "vecInv len elem targets m c (numSlices e) dflt z" "\<forall>i\<in>{..<numSlices e}. finishedAt (slice_hi m (numSlices e)) i z"
  note start = merging_start [OF this e(1)]
  let ?R = "endsIn e 1 mode (\<lambda>q. q = scatterView len elem targets m c dflt)"
  have fin: "?R (runOp (bindP (load (\<lambda>z. localBuffers z ! 0)) (\<lambda>b. Ret (ParallelArrayView [len] b 0))) w)"
    if "merging len elem targets m c (numSlices e) dflt (numSlices e) 0 w" for w
    using merged_buffer [OF that e(1)] by (simp add: endsIn_def)
  show "?R (runOp (bindP (mergeBuffers len c (numSlices e)) (\<lambda>_.
      bindP (load (\<lambda>z. localBuffers z ! 0)) (\<lambda>b. Ret (ParallelArrayView [len] b 0)))) z)"
    by (rule runOp_safe_bind [where R = ?R, OF mergeBuffers_safe [OF ok e(1)] start fin])
qed simp

lemma choose_strategy:
  assumes "P s" "\<not> forced \<Longrightarrow> P r" "\<not> forced \<Longrightarrow> try \<Longrightarrow> \<not> forceRange \<Longrightarrow> P v" "\<not> (forceVector \<and> forceRange)"
  shows "P (if \<not> forced \<and> try then if forceVector then v else if forceRange then r
            else if few then r else v else s)"
  using assms by auto

text \<open>
  C31: For targets inside an output of fewer than \<open>2 ^ 28\<close> elements, distinct when there is no conflict function,
  and a conflict function without effects that always returns, \<open>scatter\<close> puts every element at its target,
  combined with the elements of the same target in their order (the conflict function takes the later element
  first, where the documentation passes it the targets), and the default elsewhere. The sequential loop and
  slices of the output range do so for any conflict function; slices of the targets, whose buffers are merged, for an
  associative one, which is asked for whenever the operation may choose them. The array is the same
  whatever the number of slices and however ForkJoin interleaves their operations, with warm-ups, bailouts at
  any operation and retries. It fails only if ForkJoin never goes to its last resort, or a testing mode is refused.
\<close>

theorem scatter_parallel:
  assumes "scatterable (nat (case len of None \<Rightarrow> int (pa_shape self ! 0) | Some l \<Rightarrow> l)) ((!) targets)
      (min (length targets) (pa_shape self ! 0)) c"
    and "\<And>f. c = Some f \<Longrightarrow> \<not> forceSequential e \<Longrightarrow> TRY_PARALLEL mode \<Longrightarrow> \<not> forceDivideOutputRange mode \<Longrightarrow> assoc_fun f"
    and "0 < numSlices e" "pa_shape self \<noteq> []" "length targets < 2 ^ 31" "\<And>l. len = Some l \<Longrightarrow> 0 \<le> l"
  shows "endsIn e 1 mode
    (\<lambda>q. q = ParallelArrayView [nat (case len of None \<Rightarrow> int (pa_shape self ! 0) | Some l \<Rightarrow> l)]
       (map (\<lambda>t. Some (landed (conflictOf c) (\<lambda>i. callGet self [int i]) ((!) targets)
               (min (length targets) (pa_shape self ! 0)) dflt t))
          [0..<nat (case len of None \<Rightarrow> int (pa_shape self ! 0) | Some l \<Rightarrow> l)]) 0)
    (ParallelArrayScatter e targets dflt c len mode self)"
proof -
  let ?len = "case len of None \<Rightarrow> int (pa_shape self ! 0) | Some l \<Rightarrow> l"
  let ?elem = "\<lambda>i. callGet self [int i]" and ?m = "min (length targets) (pa_shape self ! 0)"
  let ?ends = "endsIn e 1 mode (\<lambda>q. q = scatterView (nat ?len) ?elem ((!) targets) ?m c dflt)"
  have shape: "ParallelArrayLength self = Some (pa_shape self ! 0)"
    using assms(4) by (cases "pa_shape self") (simp_all add: ParallelArrayLength_def)
  have "0 \<le> ?len" using assms(6) by (auto split: option.splits)
  moreover have "nat ?len < 2 ^ 28" using assms(1) by (simp add: scatterable_def)
  ultimately have bounds: "0 \<le> ?len \<and> ?len < 2 ^ 32" "length targets < 2 ^ 32" using assms(5) by auto
  have m: "?m < 2 ^ 31" using assms(5) by simp
  note seq = sequential_strategy [OF assms(1), of e mode ?elem dflt]
  note rng = range_strategy [OF assms(1,3), of mode ?elem dflt]
  have vec: "?ends (parDivideScatterVector e mode (nat ?len) ?elem ((!) targets) ?m c dflt)"
    if "\<not> forceSequential e" "TRY_PARALLEL mode" "\<not> forceDivideOutputRange mode"
    using vector_strategy [OF assms(1) _ m assms(3) that(1)] assms(2) that by blast
  have strategies: "\<not> (forceDivideScatterVector mode \<and> forceDivideOutputRange mode)"
    by (auto simp: forceDivideScatterVector_def forceDivideOutputRange_def forceStrategy_def split: option.splits)
  have body: "ParallelArrayScatter e targets dflt c len mode self =
      (if \<not> forceSequential e \<and> TRY_PARALLEL mode
       then if forceDivideScatterVector mode then parDivideScatterVector e mode (nat ?len) ?elem ((!) targets) ?m c dflt
            else if forceDivideOutputRange mode then parDivideOutputRange e mode (nat ?len) ?elem ((!) targets) ?m c dflt
            else if c = None \<and> ?m < nat ?len then parDivideOutputRange e mode (nat ?len) ?elem ((!) targets) ?m c dflt
            else parDivideScatterVector e mode (nat ?len) ?elem ((!) targets) ?m c dflt
       else scatterSequential e mode (nat ?len) ?elem ((!) targets) ?m c dflt)"
    by (simp only: ParallelArrayScatter_def Let_def shape option.case bounds simp_thms if_False)
  have "?ends (ParallelArrayScatter e targets dflt c len mode self)"
    unfolding body
    by (rule choose_strategy [where P = ?ends, OF seq rng vec strategies])
  then show ?thesis by (simp only: scatterResult_def)
qed

lemma all_less_Suc: "(\<forall>i < Suc n. P i) \<longleftrightarrow> P n \<and> (\<forall>i < n. P i)"
  by (auto simp: less_Suc_eq)

lemma scatter_parallel_witness:
  "ParallelArrayScatter \<lparr>forceSequential = False, numSlices = 2, testsShouldPass = True,
       schedules = [[Start 0 True, Start 1 False, Run 0, Run 1, Run 1, Run 0] @ sequentially 2]\<rparr>
     [1, 0, 1, 3] (PElem 0) (Some (\<lambda>x y. x)) None None (ParallelArrayView [4] (map Some [5, 6, 7, 8 :: nat]) 0)
   = Inr (ParallelArrayView [4] (map (Some \<circ> PElem) [6, 7, 0, 8]) 0)"
  (is "ParallelArrayScatter ?e ?t ?d (Some ?f) None None ?pa = _")
proof -
  have "endsIn ?e 1 None
    (\<lambda>q. q = ParallelArrayView [nat (case None of None \<Rightarrow> int (pa_shape ?pa ! 0) | Some l \<Rightarrow> l)]
       (map (\<lambda>t. Some (landed (conflictOf (Some ?f)) (\<lambda>i. callGet ?pa [int i]) ((!) ?t)
               (min (length ?t) (pa_shape ?pa ! 0)) ?d t))
          [0..<nat (case None of None \<Rightarrow> int (pa_shape ?pa ! 0) | Some l \<Rightarrow> l)]) 0)
    (ParallelArrayScatter ?e ?t ?d (Some ?f) None None ?pa)"
  proof (rule scatter_parallel)
    show "scatterable (nat (case None of None \<Rightarrow> int (pa_shape ?pa ! 0) | Some l \<Rightarrow> l)) ((!) ?t)
        (min (length ?t) (pa_shape ?pa ! 0)) (Some ?f)"
      by (simp add: scatterable_def ParallelArrayView_def all_less_Suc)
  qed (simp_all add: assoc_fun_def ParallelArrayView_def)
  moreover have "lastResort ?e 0" unfolding lastResort_def scheduleAt_def by auto
  ultimately show ?thesis
    by (auto dest!: endsIn_result simp: upt_conv_Cons eval_nat_numeral landed_def conflictOf_def callGet_def
        ParallelArrayGet1_def ParallelArrayView_def bufferAt_def argAt_def)
qed

end
