(* ===== verification/SelfHosted_Array.thy ===== *)
theory SelfHosted_Array
  imports JS_Prelude
begin

text \<open>
  \<open>builtin/Array.js\<close>: the self-hosted methods of arrays (\<open>indexOf\<close>, \<open>lastIndexOf\<close>, \<open>every\<close>, \<open>some\<close>,
  \<open>forEach\<close>, \<open>map\<close>, \<open>reduce\<close>, \<open>reduceRight\<close>) and their static forms.

  Values are undefined, null, booleans, numbers (the integers, the infinities and NaN), strings,
  references to arrays, and functions. The heap is the list of the arrays; an array is the list of
  its elements, none where it has a hole. Nothing is inherited through the prototypes. What
  functions do when called, and the number a string or an object converts to, belong to the
  environment; a called function may change any array and may throw.
\<close>

section \<open>Values\<close>

datatype xnum = NInf | Fin int | PInf

datatype jv = VUndef | VNull | VBool bool | VNum xnum | VNaN | VStr string | VArr nat | VFun nat

type_synonym heap = "jv option list list"

record jsenv =
  e_call :: "nat \<Rightarrow> jv \<Rightarrow> jv list \<Rightarrow> (heap, jv) jsm"
  e_integer :: "jv \<Rightarrow> (heap, xnum) jsm"

instantiation xnum :: linorder
begin

fun less_eq_xnum :: "xnum \<Rightarrow> xnum \<Rightarrow> bool" where
  "less_eq_xnum NInf y = True"
| "less_eq_xnum x PInf = True"
| "less_eq_xnum (Fin m) (Fin n) = (m \<le> n)"
| "less_eq_xnum (Fin m) NInf = False"
| "less_eq_xnum PInf (Fin n) = False"
| "less_eq_xnum PInf NInf = False"

definition less_xnum :: "xnum \<Rightarrow> xnum \<Rightarrow> bool" where
  "less_xnum x y = (x \<le> y \<and> \<not> y \<le> x)"

instance
proof
  fix x y z :: xnum
  show "x < y \<longleftrightarrow> x \<le> y \<and> \<not> y \<le> x" by (simp add: less_xnum_def)
  show "x \<le> x" by (cases x) auto
  show "x \<le> y \<Longrightarrow> y \<le> z \<Longrightarrow> x \<le> z" by (cases x; cases y; cases z) auto
  show "x \<le> y \<Longrightarrow> y \<le> x \<Longrightarrow> x = y" by (cases x; cases y) auto
  show "x \<le> y \<or> y \<le> x" by (cases x; cases y) auto
qed

end

lemma less_xnum_simps [simp]:
  "Fin m < Fin n \<longleftrightarrow> m < n" "NInf < Fin n" "Fin n < PInf" "\<not> Fin n < NInf" "\<not> PInf < Fin n"
  by (auto simp: less_xnum_def)

text \<open>Adding a number to a length, and the index a number in range is.\<close>

definition xadd :: "nat \<Rightarrow> xnum \<Rightarrow> xnum" where
  "xadd len x = (case x of Fin n \<Rightarrow> Fin (int len + n) | _ \<Rightarrow> x)"

definition xindex :: "xnum \<Rightarrow> nat" where
  "xindex x = (case x of Fin n \<Rightarrow> nat n | _ \<Rightarrow> 0)"

section \<open>Intrinsics\<close>

definition ToObject :: "jv \<Rightarrow> (heap, jv) jsm" where
  "ToObject v = (if v = VUndef \<or> v = VNull then throw TypeError else ret v)"

definition ToInteger :: "jsenv \<Rightarrow> jv \<Rightarrow> (heap, xnum) jsm" where
  "ToInteger env v = (case v of
       VUndef \<Rightarrow> ret (Fin 0)
     | VNull \<Rightarrow> ret (Fin 0)
     | VBool b \<Rightarrow> ret (Fin (if b then 1 else 0))
     | VNum x \<Rightarrow> ret x
     | VNaN \<Rightarrow> ret (Fin 0)
     | _ \<Rightarrow> e_integer env v)"

definition ToBoolean :: "jv \<Rightarrow> bool" where
  "ToBoolean v = (case v of VUndef \<Rightarrow> False | VNull \<Rightarrow> False | VBool b \<Rightarrow> b | VNum x \<Rightarrow> x \<noteq> Fin 0 | VNaN \<Rightarrow> False
     | VStr s \<Rightarrow> s \<noteq> '''' | _ \<Rightarrow> True)"

definition IsCallable :: "jv \<Rightarrow> bool" where
  "IsCallable v = (case v of VFun _ \<Rightarrow> True | _ \<Rightarrow> False)"

definition callFunction :: "jsenv \<Rightarrow> jv \<Rightarrow> jv \<Rightarrow> jv list \<Rightarrow> (heap, jv) jsm" where
  "callFunction env f this args = (case f of VFun i \<Rightarrow> e_call env i this args | _ \<Rightarrow> throw TypeError)"

definition strictEq :: "jv \<Rightarrow> jv \<Rightarrow> bool" where
  "strictEq x y \<longleftrightarrow> x = y \<and> x \<noteq> VNaN"

definition vindex :: "nat \<Rightarrow> jv" where
  "vindex k = VNum (Fin (int k))"

text \<open>\<open>TO_UINT32(O.length)\<close>, \<open>k in O\<close>, \<open>O[k]\<close>: only arrays and strings have a length and elements.\<close>

definition elementsOf :: "heap \<Rightarrow> jv \<Rightarrow> jv option list" where
  "elementsOf h obj = (case obj of
       VArr a \<Rightarrow> if a < length h then h ! a else []
     | VStr s \<Rightarrow> map (\<lambda>c. Some (VStr [c])) s
     | _ \<Rightarrow> [])"

definition lengthOf :: "jv \<Rightarrow> (heap, nat) jsm" where
  "lengthOf obj h = (Inr (length (elementsOf h obj) mod 2 ^ 32), h)"

definition hasIndex :: "jv \<Rightarrow> nat \<Rightarrow> (heap, bool) jsm" where
  "hasIndex obj k h = (Inr (k < length (elementsOf h obj) \<and> elementsOf h obj ! k \<noteq> None), h)"

definition getIndex :: "jv \<Rightarrow> nat \<Rightarrow> (heap, jv) jsm" where
  "getIndex obj k h = (Inr (if k < length (elementsOf h obj)
     then (case elementsOf h obj ! k of None \<Rightarrow> VUndef | Some v \<Rightarrow> v) else VUndef), h)"

text \<open>\<open>NewDenseArray\<close> and \<open>UnsafeSetElement\<close>.\<close>

definition newArray :: "nat \<Rightarrow> (heap, nat) jsm" where
  "newArray len h = (Inr (length h), h @ [replicate len None])"

definition setElement :: "nat \<Rightarrow> nat \<Rightarrow> jv \<Rightarrow> (heap, unit) jsm" where
  "setElement a k v h = (Inr (), h[a := (h ! a)[k := Some v]])"

section \<open>Searching\<close>

definition searchAt :: "jv \<Rightarrow> jv \<Rightarrow> nat \<Rightarrow> (heap, jv option) jsm" where
  "searchAt obj searchElement k =
     bindM (hasIndex obj k) (\<lambda>present.
     if present then bindM (getIndex obj k) (\<lambda>v. ret (if strictEq v searchElement then Some (vindex k) else None))
     else ret None)"

definition searchIn :: "jv \<Rightarrow> jv \<Rightarrow> nat list \<Rightarrow> (heap, jv) jsm" where
  "searchIn obj searchElement ks =
     bindM (firstM (searchAt obj searchElement) ks) (\<lambda>r. ret (case r of None \<Rightarrow> VNum (Fin (- 1)) | Some k \<Rightarrow> k))"

definition argument :: "jv list \<Rightarrow> nat \<Rightarrow> jv" where
  "argument args i = (if i < length args then args ! i else VUndef)"

definition ArrayIndexOf :: "jsenv \<Rightarrow> jv \<Rightarrow> jv list \<Rightarrow> (heap, jv) jsm" where
  "ArrayIndexOf env this arguments =
     bindM (ToObject this) (\<lambda>obj.
     bindM (lengthOf obj) (\<lambda>len.
     if len = 0 then ret (VNum (Fin (- 1)))
     else bindM (if length arguments > 1 then ToInteger env (argument arguments 1) else ret (Fin 0)) (\<lambda>n.
     if n \<ge> Fin (int len) then ret (VNum (Fin (- 1)))
     else let k = (if n \<ge> Fin 0 then n
                   else let k = xadd len n in if k < Fin 0 then Fin 0 else k)
          in searchIn obj (argument arguments 0) [xindex k..<len])))"

definition ArrayStaticIndexOf :: "jsenv \<Rightarrow> jv list \<Rightarrow> (heap, jv) jsm" where
  "ArrayStaticIndexOf env arguments =
     (if length arguments < 1 then throw (MissingFunArg 0 ''Array.indexOf'')
      else let fromIndex = (if length arguments > 2 then argument arguments 2 else VNum (Fin 0))
           in ArrayIndexOf env (argument arguments 0) [argument arguments 1, fromIndex])"

definition ArrayLastIndexOf :: "jsenv \<Rightarrow> jv \<Rightarrow> jv list \<Rightarrow> (heap, jv) jsm" where
  "ArrayLastIndexOf env this arguments =
     bindM (ToObject this) (\<lambda>obj.
     bindM (lengthOf obj) (\<lambda>len.
     if len = 0 then ret (VNum (Fin (- 1)))
     else bindM (if length arguments > 1 then ToInteger env (argument arguments 1) else ret (Fin (int len - 1))) (\<lambda>n.
     let k = (if n > Fin (int len - 1) then Fin (int len - 1) else if n < Fin 0 then xadd len n else n)
     in searchIn obj (argument arguments 0) (if k < Fin 0 then [] else rev [0..<xindex k + 1]))))"

definition ArrayStaticLastIndexOf :: "jsenv \<Rightarrow> jv list \<Rightarrow> (heap, jv) jsm" where
  "ArrayStaticLastIndexOf env arguments =
     (if length arguments < 1 then throw (MissingFunArg 0 ''Array.lastIndexOf'')
      else bindM (if length arguments > 2 then ret (argument arguments 2)
                  else bindM (ToObject (argument arguments 0)) (\<lambda>obj.
                       bindM (lengthOf obj) (\<lambda>len. ret (VNum (Fin (int len - 1))))))
       (\<lambda>fromIndex. ArrayLastIndexOf env (argument arguments 0) [argument arguments 1, fromIndex]))"

section \<open>Visiting\<close>

text \<open>The checks of a callback, and the value \<open>this\<close> has in it.\<close>

definition checkCallback :: "string \<Rightarrow> jv list \<Rightarrow> (heap, unit) jsm" where
  "checkCallback name arguments =
     (if arguments = [] then throw (MissingFunArg 0 name)
      else if \<not> IsCallable (argument arguments 0) then throw (JSMSG ''JSMSG_NOT_FUNCTION'') else ret ())"

definition checkStaticCallback :: "string \<Rightarrow> jv list \<Rightarrow> (heap, unit) jsm" where
  "checkStaticCallback name arguments =
     (if length arguments < 2 then throw (MissingFunArg 0 name)
      else if \<not> IsCallable (argument arguments 1) then throw (JSMSG ''JSMSG_NOT_FUNCTION'') else ret ())"

text \<open>One index of a visit: what to do with the callback's result where there is an element.\<close>

definition visitAt :: "jsenv \<Rightarrow> jv \<Rightarrow> jv \<Rightarrow> jv \<Rightarrow> (jv \<Rightarrow> 'a) \<Rightarrow> 'a \<Rightarrow> nat \<Rightarrow> (heap, 'a) jsm" where
  "visitAt env obj callbackfn T present absent k =
     bindM (hasIndex obj k) (\<lambda>has.
     if has then bindM (getIndex obj k) (\<lambda>v. bindM (callFunction env callbackfn T [v, vindex k, obj]) (\<lambda>r. ret (present r)))
     else ret absent)"

definition ArrayEvery :: "jsenv \<Rightarrow> jv \<Rightarrow> jv list \<Rightarrow> (heap, jv) jsm" where
  "ArrayEvery env this arguments =
     bindM (ToObject this) (\<lambda>obj.
     bindM (lengthOf obj) (\<lambda>len.
     bindM (checkCallback ''Array.prototype.every'' arguments) (\<lambda>_.
     bindM (firstM (visitAt env obj (argument arguments 0) (argument arguments 1)
              (\<lambda>r. if \<not> ToBoolean r then Some (VBool False) else None) None) [0..<len]) (\<lambda>r.
     ret (case r of None \<Rightarrow> VBool True | Some v \<Rightarrow> v)))))"

definition ArrayStaticEvery :: "jsenv \<Rightarrow> jv list \<Rightarrow> (heap, jv) jsm" where
  "ArrayStaticEvery env arguments =
     bindM (checkStaticCallback ''Array.every'' arguments) (\<lambda>_.
     ArrayEvery env (argument arguments 0) [argument arguments 1, argument arguments 2])"

definition ArraySome :: "jsenv \<Rightarrow> jv \<Rightarrow> jv list \<Rightarrow> (heap, jv) jsm" where
  "ArraySome env this arguments =
     bindM (ToObject this) (\<lambda>obj.
     bindM (lengthOf obj) (\<lambda>len.
     bindM (checkCallback ''Array.prototype.some'' arguments) (\<lambda>_.
     bindM (firstM (visitAt env obj (argument arguments 0) (argument arguments 1)
              (\<lambda>r. if ToBoolean r then Some (VBool True) else None) None) [0..<len]) (\<lambda>r.
     ret (case r of None \<Rightarrow> VBool False | Some v \<Rightarrow> v)))))"

definition ArrayStaticSome :: "jsenv \<Rightarrow> jv list \<Rightarrow> (heap, jv) jsm" where
  "ArrayStaticSome env arguments =
     bindM (checkStaticCallback ''Array.some'' arguments) (\<lambda>_.
     ArraySome env (argument arguments 0) [argument arguments 1, argument arguments 2])"

definition ArrayForEach :: "jsenv \<Rightarrow> jv \<Rightarrow> jv list \<Rightarrow> (heap, jv) jsm" where
  "ArrayForEach env this arguments =
     bindM (ToObject this) (\<lambda>obj.
     bindM (lengthOf obj) (\<lambda>len.
     bindM (checkCallback ''Array.prototype.forEach'' arguments) (\<lambda>_.
     bindM (forLoop [0..<len] () (\<lambda>k _.
       visitAt env obj (argument arguments 0) (argument arguments 1) (\<lambda>_. ()) () k)) (\<lambda>_. ret VUndef))))"

definition ArrayStaticForEach :: "jsenv \<Rightarrow> jv list \<Rightarrow> (heap, jv) jsm" where
  "ArrayStaticForEach env arguments =
     bindM (checkStaticCallback ''Array.forEach'' arguments) (\<lambda>_.
     bindM (ArrayForEach env (argument arguments 0) [argument arguments 1, argument arguments 2]) (\<lambda>_. ret VUndef))"

definition mapAt :: "jsenv \<Rightarrow> jv \<Rightarrow> jv \<Rightarrow> jv \<Rightarrow> nat \<Rightarrow> nat \<Rightarrow> (heap, unit) jsm" where
  "mapAt env obj callbackfn T A k =
     bindM (visitAt env obj callbackfn T Some None k) (\<lambda>r.
     case r of None \<Rightarrow> ret () | Some mappedValue \<Rightarrow> setElement A k mappedValue)"

definition ArrayMap :: "jsenv \<Rightarrow> jv \<Rightarrow> jv list \<Rightarrow> (heap, jv) jsm" where
  "ArrayMap env this arguments =
     bindM (ToObject this) (\<lambda>obj.
     bindM (lengthOf obj) (\<lambda>len.
     bindM (checkCallback ''Array.prototype.map'' arguments) (\<lambda>_.
     bindM (newArray len) (\<lambda>A.
     bindM (forLoop [0..<len] () (\<lambda>k _. mapAt env obj (argument arguments 0) (argument arguments 1) A k)) (\<lambda>_.
     ret (VArr A))))))"

definition ArrayStaticMap :: "jsenv \<Rightarrow> jv list \<Rightarrow> (heap, jv) jsm" where
  "ArrayStaticMap env arguments =
     bindM (checkStaticCallback ''Array.map'' arguments) (\<lambda>_.
     ArrayMap env (argument arguments 0) [argument arguments 1, argument arguments 2])"

section \<open>Reducing\<close>

text \<open>The first index of the list that is present, with its element and the indices after it.\<close>

fun seekFirst :: "jv \<Rightarrow> nat list \<Rightarrow> (heap, (jv \<times> nat list) option) jsm" where
  "seekFirst obj [] = ret None"
| "seekFirst obj (k # ks) =
     bindM (hasIndex obj k) (\<lambda>has.
     if has then bindM (getIndex obj k) (\<lambda>v. ret (Some (v, ks))) else seekFirst obj ks)"

definition reduceAt :: "jsenv \<Rightarrow> jv \<Rightarrow> jv \<Rightarrow> nat \<Rightarrow> jv \<Rightarrow> (heap, jv) jsm" where
  "reduceAt env obj callbackfn k accumulator =
     bindM (hasIndex obj k) (\<lambda>has.
     if has then bindM (getIndex obj k) (\<lambda>v. callFunction env callbackfn VUndef [accumulator, v, vindex k, obj])
     else ret accumulator)"

definition reduceOver :: "jsenv \<Rightarrow> jv \<Rightarrow> jv list \<Rightarrow> nat list \<Rightarrow> (heap, jv) jsm" where
  "reduceOver env obj arguments ks =
     bindM (if length arguments > 1 then ret (argument arguments 1, ks)
            else if ks = [] then throw (JSMSG ''JSMSG_EMPTY_ARRAY_REDUCE'')
            else bindM (seekFirst obj ks) (\<lambda>r.
              case r of None \<Rightarrow> throw (JSMSG ''JSMSG_EMPTY_ARRAY_REDUCE'') | Some p \<Rightarrow> ret p))
       (\<lambda>(accumulator, ks). forLoop ks accumulator (reduceAt env obj (argument arguments 0)))"

definition ArrayReduce :: "jsenv \<Rightarrow> jv \<Rightarrow> jv list \<Rightarrow> (heap, jv) jsm" where
  "ArrayReduce env this arguments =
     bindM (ToObject this) (\<lambda>obj.
     bindM (lengthOf obj) (\<lambda>len.
     bindM (checkCallback ''Array.prototype.reduce'' arguments) (\<lambda>_.
     reduceOver env obj arguments [0..<len])))"

definition ArrayStaticReduce :: "jsenv \<Rightarrow> jv list \<Rightarrow> (heap, jv) jsm" where
  "ArrayStaticReduce env arguments =
     bindM (checkStaticCallback ''Array.reduce'' arguments) (\<lambda>_.
     if length arguments > 2 then ArrayReduce env (argument arguments 0) [argument arguments 1, argument arguments 2]
     else ArrayReduce env (argument arguments 0) [argument arguments 1])"

definition ArrayReduceRight :: "jsenv \<Rightarrow> jv \<Rightarrow> jv list \<Rightarrow> (heap, jv) jsm" where
  "ArrayReduceRight env this arguments =
     bindM (ToObject this) (\<lambda>obj.
     bindM (lengthOf obj) (\<lambda>len.
     bindM (checkCallback ''Array.prototype.reduce'' arguments) (\<lambda>_.
     reduceOver env obj arguments (rev [0..<len]))))"

definition ArrayStaticReduceRight :: "jsenv \<Rightarrow> jv list \<Rightarrow> (heap, jv) jsm" where
  "ArrayStaticReduceRight env arguments =
     bindM (checkStaticCallback ''Array.reduceRight'' arguments) (\<lambda>_.
     if length arguments > 2 then ArrayReduceRight env (argument arguments 0) [argument arguments 1, argument arguments 2]
     else ArrayReduceRight env (argument arguments 0) [argument arguments 1])"

section \<open>Facts: loops\<close>

lemma firstM_result:
  assumes "\<And>k h. keeps h \<Longrightarrow> k \<in> set ks \<Longrightarrow> \<exists>h'. body k h = (Inr (r k), h') \<and> keeps h'" "keeps h"
  shows "\<exists>h'. firstM body ks h = (Inr (case find (\<lambda>k. r k \<noteq> None) ks of None \<Rightarrow> None | Some k \<Rightarrow> r k), h') \<and> keeps h'"
  using assms
proof (induction ks arbitrary: h)
  case Nil
  then show ?case by (simp add: ret_app)
next
  case (Cons k ks)
  from Cons.prems obtain h1 where h1: "body k h = (Inr (r k), h1)" "keeps h1" by force
  show ?case
  proof (cases "r k")
    case None
    then show ?thesis using Cons.IH [OF Cons.prems(1) h1(2)] h1(1) by (simp add: bindM_Inr)
  next
    case (Some x)
    then show ?thesis using h1 by (simp add: bindM_Inr ret_app)
  qed
qed

lemma forLoop_result:
  assumes "\<And>k x h. keeps h \<Longrightarrow> k \<in> set ks \<Longrightarrow> \<exists>h'. body k x h = (Inr (f k x), h') \<and> keeps h'" "keeps h"
  shows "\<exists>h'. forLoop ks x body h = (Inr (fold f ks x), h') \<and> keeps h'"
  using assms
proof (induction ks arbitrary: h x)
  case Nil
  then show ?case by (simp add: ret_app)
next
  case (Cons k ks)
  from Cons.prems obtain h1 where h1: "body k x h = (Inr (f k x), h1)" "keeps h1" by force
  show ?case using Cons.IH [OF Cons.prems(1) h1(2), of "f k x"] h1(1) by (simp add: bindM_Inr)
qed

lemma find_upt:
  "find P [a..<b] = None \<Longrightarrow> a \<le> k \<Longrightarrow> k < b \<Longrightarrow> \<not> P k"
  "find P [a..<b] = Some k \<Longrightarrow> a \<le> k \<and> k < b \<and> P k \<and> (\<forall>j. a \<le> j \<and> j < k \<longrightarrow> \<not> P j)"
proof -
  show "find P [a..<b] = None \<Longrightarrow> a \<le> k \<Longrightarrow> k < b \<Longrightarrow> \<not> P k" by (auto simp: find_None_iff)
  assume "find P [a..<b] = Some k"
  then obtain i where "i < b - a" "P (a + i)" "k = a + i" "\<forall>j<i. \<not> P (a + j)"
    by (auto simp: find_Some_iff)
  then show "a \<le> k \<and> k < b \<and> P k \<and> (\<forall>j. a \<le> j \<and> j < k \<longrightarrow> \<not> P j)"
    by (auto simp: le_iff_add)
qed

lemma find_rev_upt:
  "find P (rev [0..<b]) = None \<Longrightarrow> k < b \<Longrightarrow> \<not> P k"
  "find P (rev [0..<b]) = Some k \<Longrightarrow> k < b \<and> P k \<and> (\<forall>j. k < j \<and> j < b \<longrightarrow> \<not> P j)"
proof -
  show "find P (rev [0..<b]) = None \<Longrightarrow> k < b \<Longrightarrow> \<not> P k" by (auto simp: find_None_iff)
  show "find P (rev [0..<b]) = Some k \<Longrightarrow> k < b \<and> P k \<and> (\<forall>j. k < j \<and> j < b \<longrightarrow> \<not> P j)"
    by (induction b) (auto simp: less_Suc_eq split: if_splits)
qed

section \<open>What the methods promise\<close>

text \<open>
  There is an element strictly equal to \<open>x\<close> at index \<open>k\<close>; the index a search starts from; the present
  elements.
\<close>

definition isAt :: "jv option list \<Rightarrow> jv \<Rightarrow> nat \<Rightarrow> bool" where
  "isAt elems x k \<longleftrightarrow> (\<exists>v. elems ! k = Some v \<and> strictEq v x)"

definition fromIndex :: "jv option list \<Rightarrow> int \<Rightarrow> int" where
  "fromIndex elems n = (if n < 0 then int (length elems) + n else n)"

definition present :: "jv option list \<Rightarrow> (nat \<times> jv) set" where
  "present elems = {(k, v). k < length elems \<and> elems ! k = Some v}"

text \<open>
  The present elements along a list of indices, and what reducing them gives: with an initial value
  the fold from it, without one the fold from the first, which must exist.
\<close>

definition along :: "jv option list \<Rightarrow> nat list \<Rightarrow> (nat \<times> jv) list" where
  "along elems ks = concat (map (\<lambda>k. case elems ! k of None \<Rightarrow> [] | Some v \<Rightarrow> [(k, v)]) ks)"

definition reduction :: "(jv \<Rightarrow> jv \<Rightarrow> nat \<Rightarrow> jv) \<Rightarrow> jv list \<Rightarrow> (nat \<times> jv) list \<Rightarrow> jserr + jv" where
  "reduction f init ps = (case init of
       x # _ \<Rightarrow> Inr (foldl (\<lambda>x (k, v). f x v k) x ps)
     | [] \<Rightarrow> (case ps of
         [] \<Rightarrow> Inl (JSMSG ''JSMSG_EMPTY_ARRAY_REDUCE'')
       | (_, x) # ps \<Rightarrow> Inr (foldl (\<lambda>x (k, v). f x v k) x ps)))"

text \<open>The element of the mapped array at an index: a hole stays a hole.\<close>

definition mapped :: "(jv \<Rightarrow> nat \<Rightarrow> jv) \<Rightarrow> jv option list \<Rightarrow> nat \<Rightarrow> jv option" where
  "mapped f elems k = map_option (\<lambda>v. f v k) (elems ! k)"

lemma last_start:
  fixes L :: nat
  assumes "L \<noteq> 0"
  defines "stop n \<equiv> if n > int L - 1 then int L - 1 else if n < 0 then int L + n else n"
  shows "nat (min ((if n < 0 then int L + n else n) + 1) (int L)) = (if stop n < 0 then 0 else nat (stop n) + 1)"
    "stop n < 0 \<or> nat (stop n) + 1 \<le> L"
  using assms by (auto simp: min_def)

lemma call_checks:
  "checkCallback name (VFun i # args) = ret ()" "argument (x # xs) 0 = x" "argument (x # y # xs) 1 = y"
  by (simp_all add: checkCallback_def argument_def IsCallable_def)

text \<open>
  The contract of a callback: called on an element, it returns \<open>f\<close> of it, and whatever it does to
  other objects it keeps \<open>keeps\<close>.
\<close>

definition answers :: "(heap \<Rightarrow> bool) \<Rightarrow> jsenv \<Rightarrow> nat \<Rightarrow> jv \<Rightarrow> jv \<Rightarrow> (jv \<Rightarrow> nat \<Rightarrow> jv) \<Rightarrow> bool" where
  "answers keeps env i T obj f \<longleftrightarrow>
     (\<forall>v k h. keeps h \<longrightarrow> (\<exists>h'. e_call env i T [v, vindex k, obj] h = (Inr (f v k), h') \<and> keeps h'))"

definition combines :: "(heap \<Rightarrow> bool) \<Rightarrow> jsenv \<Rightarrow> nat \<Rightarrow> jv \<Rightarrow> (jv \<Rightarrow> jv \<Rightarrow> nat \<Rightarrow> jv) \<Rightarrow> bool" where
  "combines keeps env i obj f \<longleftrightarrow>
     (\<forall>x v k h. keeps h \<longrightarrow> (\<exists>h'. e_call env i VUndef [x, v, vindex k, obj] h = (Inr (f x v k), h') \<and> keeps h'))"

section \<open>Array-like objects\<close>

text \<open>
  An object whose elements do not change while \<open>keeps\<close> holds of the heap. The methods only use its
  length, its indices and its elements.
\<close>

locale array_like =
  fixes keeps :: "heap \<Rightarrow> bool" and obj :: jv and elems :: "jv option list"
  assumes object: "obj \<noteq> VUndef" "obj \<noteq> VNull"
    and elements: "keeps h \<Longrightarrow> elementsOf h obj = elems \<and> length elems < 2 ^ 32"
begin

lemma to_object: "ToObject obj = ret obj"
  using object by (simp add: ToObject_def)

lemma len: "keeps h \<Longrightarrow> lengthOf obj h = (Inr (length elems), h)"
  using elements [of h] by (simp add: lengthOf_def)

lemma has: "keeps h \<Longrightarrow> k < length elems \<Longrightarrow> hasIndex obj k h = (Inr (elems ! k \<noteq> None), h)"
  using elements [of h] by (simp add: hasIndex_def)

lemma get: "keeps h \<Longrightarrow> k < length elems \<Longrightarrow> elems ! k = Some v \<Longrightarrow> getIndex obj k h = (Inr v, h)"
  using elements [of h] by (simp add: getIndex_def)

lemma search_at:
  assumes "keeps h" "k < length elems"
  shows "searchAt obj x k h = (Inr (case elems ! k of None \<Rightarrow> None | Some v \<Rightarrow> if strictEq v x then Some (vindex k) else None), h)"
  using assms by (simp add: searchAt_def has get bindM_Inr ret_app split: option.splits)

lemma search_in:
  assumes "keeps h" "\<forall>k\<in>set ks. k < length elems"
  shows "searchIn obj x ks h = (Inr (case find (\<lambda>k. \<exists>v. elems ! k = Some v \<and> strictEq v x) ks of
      None \<Rightarrow> VNum (Fin (- 1)) | Some k \<Rightarrow> vindex k), h)"
proof -
  let ?r = "\<lambda>k. case elems ! k of None \<Rightarrow> None | Some v \<Rightarrow> if strictEq v x then Some (vindex k) else None"
  have "firstM (searchAt obj x) ks h = (Inr (case find (\<lambda>k. ?r k \<noteq> None) ks of None \<Rightarrow> None | Some k \<Rightarrow> ?r k), h)"
    using firstM_result [of "\<lambda>h'. h' = h" ks "searchAt obj x" ?r h] search_at assms by auto
  moreover have "(\<lambda>k. ?r k \<noteq> None) = (\<lambda>k. \<exists>v. elems ! k = Some v \<and> strictEq v x)"
    by (auto simp: fun_eq_iff split: option.splits)
  moreover have "find (\<lambda>k. \<exists>v. elems ! k = Some v \<and> strictEq v x) ks = Some k \<Longrightarrow> ?r k = Some (vindex k)" for k
    by (auto simp: find_Some_iff)
  ultimately show ?thesis by (auto simp: searchIn_def bindM_Inr ret_app split: option.split)
qed

text \<open>A callback that answers with \<open>f\<close> and keeps the elements.\<close>

lemma visit_at:
  assumes call: "\<And>v h. keeps h \<Longrightarrow> \<exists>h'. callFunction env cb T [v, vindex k, obj] h = (Inr (f v k), h') \<and> keeps h'"
    and "keeps h" "k < length elems"
  shows "\<exists>h'. visitAt env obj cb T p a k h = (Inr (case elems ! k of None \<Rightarrow> a | Some v \<Rightarrow> p (f v k)), h') \<and> keeps h'"
proof (cases "elems ! k")
  case None
  then show ?thesis using has [OF assms(2,3)] assms(2) by (simp add: visitAt_def bindM_def ret_def)
next
  case (Some v)
  then show ?thesis using call [OF assms(2), of v] assms(2,3) by (auto simp: visitAt_def has get bindM_Inr ret_app)
qed

lemma reduce_at:
  assumes call: "\<And>x v h. keeps h \<Longrightarrow> \<exists>h'. callFunction env cb VUndef [x, v, vindex k, obj] h = (Inr (f x v k), h') \<and> keeps h'"
    and "keeps h" "k < length elems"
  shows "\<exists>h'. reduceAt env obj cb k x h = (Inr (case elems ! k of None \<Rightarrow> x | Some v \<Rightarrow> f x v k), h') \<and> keeps h'"
proof (cases "elems ! k")
  case None
  then show ?thesis using has [OF assms(2,3)] assms(2) by (simp add: reduceAt_def bindM_def ret_def)
next
  case (Some v)
  then show ?thesis using call [OF assms(2), of x v] assms(2,3) by (auto simp: reduceAt_def has get bindM_Inr)
qed

lemma seek_first:
  assumes "keeps h" "\<forall>k\<in>set ks. k < length elems"
  shows "seekFirst obj ks h = (Inr (case dropWhile (\<lambda>k. elems ! k = None) ks of
      [] \<Rightarrow> None | k # ks' \<Rightarrow> Some (the (elems ! k), ks')), h)"
  using assms(2)
proof (induction ks)
  case Nil
  then show ?case by (simp add: ret_app)
next
  case (Cons k ks)
  then show ?case using assms(1) by (cases "elems ! k") (auto simp: has get bindM_Inr ret_app)
qed

lemma index_of:
  assumes "keeps h"
  shows "ArrayIndexOf env obj [x, VNum (Fin n)] h =
     (Inr (case find (isAt elems x) [nat (fromIndex elems n)..<length elems] of
        None \<Rightarrow> VNum (Fin (- 1)) | Some k \<Rightarrow> vindex k), h)"
proof -
  have "searchIn obj x [m..<length elems] h = (Inr (case find (isAt elems x) [m..<length elems] of
      None \<Rightarrow> VNum (Fin (- 1)) | Some k \<Rightarrow> vindex k), h)" for m
    using search_in [OF assms, of "[m..<length elems]" x] by (simp add: isAt_def [abs_def])
  then show ?thesis
    by (auto simp: ArrayIndexOf_def to_object len [OF assms] bindM_Inr ret_app argument_def ToInteger_def
        xadd_def xindex_def fromIndex_def Let_def)
qed

lemma last_index_of:
  assumes "keeps h"
  shows "ArrayLastIndexOf env obj [x, VNum (Fin n)] h =
     (Inr (case find (isAt elems x) (rev [0..<nat (min (fromIndex elems n + 1) (int (length elems)))]) of
        None \<Rightarrow> VNum (Fin (- 1)) | Some k \<Rightarrow> vindex k), h)"
proof -
  have s: "searchIn obj x (rev [0..<m]) h = (Inr (case find (isAt elems x) (rev [0..<m]) of
      None \<Rightarrow> VNum (Fin (- 1)) | Some k \<Rightarrow> vindex k), h)" if "m \<le> length elems" for m
    using search_in [OF assms, of "rev [0..<m]" x] that by (simp add: isAt_def [abs_def])
  define stop where "stop = (if n > int (length elems) - 1 then int (length elems) - 1 else if n < 0 then int (length elems) + n else n)"
  have m: "nat (min (fromIndex elems n + 1) (int (length elems))) = (if stop < 0 then 0 else nat stop + 1)"
    "stop < 0 \<or> nat stop + 1 \<le> length elems" if "length elems \<noteq> 0"
    using last_start [OF that, of n] by (auto simp: stop_def fromIndex_def)
  have "ArrayLastIndexOf env obj [x, VNum (Fin n)] h =
      (if length elems = 0 then (Inr (VNum (Fin (- 1))), h)
       else searchIn obj x (if stop < 0 then [] else rev [0..<nat stop + 1]) h)"
    by (auto simp: ArrayLastIndexOf_def to_object len [OF assms] bindM_Inr ret_app argument_def ToInteger_def
        xadd_def xindex_def Let_def stop_def)
  also have "\<dots> = (Inr (case find (isAt elems x) (rev [0..<nat (min (fromIndex elems n + 1) (int (length elems)))]) of
        None \<Rightarrow> VNum (Fin (- 1)) | Some k \<Rightarrow> vindex k), h)"
    using s [of "nat stop + 1"] s [of 0] m by (auto simp del: upt_Suc)
  finally show ?thesis .
qed

text \<open>A visit that is left at the first answer with \<open>P\<close>.\<close>

lemma visit_until:
  assumes call: "answers keeps env i T obj f"
    and "keeps h"
  shows "\<exists>h'. firstM (visitAt env obj (VFun i) T (\<lambda>r. if P r then Some w else None) None) [0..<length elems] h =
      (Inr (if \<exists>(k, v)\<in>present elems. P (f v k) then Some w else None), h') \<and> keeps h'"
proof -
  let ?r = "\<lambda>k. case elems ! k of None \<Rightarrow> None | Some v \<Rightarrow> if P (f v k) then Some w else None"
  let ?hit = "\<lambda>k. \<exists>v. elems ! k = Some v \<and> P (f v k)"
  have "\<exists>h'. firstM (visitAt env obj (VFun i) T (\<lambda>r. if P r then Some w else None) None) [0..<length elems] h =
      (Inr (case find (\<lambda>k. ?r k \<noteq> None) [0..<length elems] of None \<Rightarrow> None | Some k \<Rightarrow> ?r k), h') \<and> keeps h'"
    by (rule firstM_result [OF visit_at assms(2)]) (use call in \<open>auto simp: callFunction_def answers_def\<close>)
  moreover have "(\<lambda>k. ?r k \<noteq> None) = ?hit" and hit: "?hit k \<Longrightarrow> ?r k = Some w" for k
    by (auto simp: fun_eq_iff split: option.splits)
  moreover have "(case find ?hit [0..<length elems] of None \<Rightarrow> None | Some k \<Rightarrow> ?r k) =
      (if \<exists>(k, v)\<in>present elems. P (f v k) then Some w else None)"
  proof (cases "find ?hit [0..<length elems]")
    case None
    then have "\<forall>k<length elems. \<not> ?hit k" using find_upt(1) [OF None] by blast
    then show ?thesis using None by (auto simp: present_def)
  next
    case (Some k)
    then have k: "k < length elems" "?hit k" using find_upt(2) [OF Some] by auto
    then have "\<exists>(k, v)\<in>present elems. P (f v k)" by (auto simp: present_def)
    then show ?thesis using Some hit [OF k(2)] by simp
  qed
  ultimately show ?thesis by simp
qed

lemma every_result:
  assumes call: "answers keeps env i T obj f"
    and "keeps h"
  shows "\<exists>h'. ArrayEvery env obj [VFun i, T] h = (Inr (VBool (\<forall>(k, v)\<in>present elems. ToBoolean (f v k))), h') \<and> keeps h'"
proof -
  obtain h' where h': "firstM (visitAt env obj (VFun i) T (\<lambda>r. if \<not> ToBoolean r then Some (VBool False) else None) None) [0..<length elems] h =
      (Inr (if \<exists>(k, v)\<in>present elems. \<not> ToBoolean (f v k) then Some (VBool False) else None), h')" "keeps h'"
    using visit_until [OF assms, where P = "\<lambda>r. \<not> ToBoolean r" and w = "VBool False"] by (elim exE conjE)
  then have "ArrayEvery env obj [VFun i, T] h = (Inr (VBool (\<forall>(k, v)\<in>present elems. ToBoolean (f v k))), h')"
    by (simp only: ArrayEvery_def to_object bindM_ret call_checks bindM_def len [OF assms(2)] h'(1) prod.case sum.case ret_def) auto
  then show ?thesis using h'(2) by blast
qed

lemma some_result:
  assumes call: "answers keeps env i T obj f"
    and "keeps h"
  shows "\<exists>h'. ArraySome env obj [VFun i, T] h = (Inr (VBool (\<exists>(k, v)\<in>present elems. ToBoolean (f v k))), h') \<and> keeps h'"
proof -
  obtain h' where h': "firstM (visitAt env obj (VFun i) T (\<lambda>r. if ToBoolean r then Some (VBool True) else None) None) [0..<length elems] h =
      (Inr (if \<exists>(k, v)\<in>present elems. ToBoolean (f v k) then Some (VBool True) else None), h')" "keeps h'"
    using visit_until [OF assms, where P = ToBoolean and w = "VBool True"] by (elim exE conjE)
  then have "ArraySome env obj [VFun i, T] h = (Inr (VBool (\<exists>(k, v)\<in>present elems. ToBoolean (f v k))), h')"
    by (simp only: ArraySome_def to_object bindM_ret call_checks bindM_def len [OF assms(2)] h'(1) prod.case sum.case ret_def) auto
  then show ?thesis using h'(2) by blast
qed

text \<open>Reducing along a list of indices is folding along those that are present.\<close>

lemma reduce_loop:
  assumes call: "combines keeps env i obj f"
    and "keeps h" "\<forall>k\<in>set ks. k < length elems"
  shows "\<exists>h'. forLoop ks x (reduceAt env obj (VFun i)) h = (Inr (foldl (\<lambda>x (k, v). f x v k) x (along elems ks)), h') \<and> keeps h'"
proof -
  have "\<exists>h'. forLoop ks x (reduceAt env obj (VFun i)) h =
      (Inr (fold (\<lambda>k x. case elems ! k of None \<Rightarrow> x | Some v \<Rightarrow> f x v k) ks x), h') \<and> keeps h'"
    by (rule forLoop_result [OF reduce_at assms(2)]) (use call assms(3) in \<open>auto simp: callFunction_def combines_def\<close>)
  moreover have "fold (\<lambda>k x. case elems ! k of None \<Rightarrow> x | Some v \<Rightarrow> f x v k) ks x = foldl (\<lambda>x (k, v). f x v k) x (along elems ks)"
    by (induction ks arbitrary: x) (auto simp: along_def split: option.splits)
  ultimately show ?thesis by simp
qed

lemma along_seek:
  "along elems ks = (case dropWhile (\<lambda>k. elems ! k = None) ks of [] \<Rightarrow> [] | k # ks' \<Rightarrow> (k, the (elems ! k)) # along elems ks')"
  by (induction ks) (auto simp: along_def split: option.splits)

lemma reduce_over:
  assumes call: "combines keeps env i obj f"
    and "keeps h" "\<forall>k\<in>set ks. k < length elems" "length rest \<le> 1"
  shows "\<exists>h'. reduceOver env obj (VFun i # rest) ks h = (reduction f rest (along elems ks), h') \<and> keeps h'"
proof (cases rest)
  case (Cons x rest')
  then show ?thesis
    using reduce_loop [OF assms(1,2,3), of x] by (simp add: reduceOver_def argument_def reduction_def)
next
  case Nil
  show ?thesis
  proof (cases "dropWhile (\<lambda>k. elems ! k = None) ks")
    case Nil
    have "reduceOver env obj [VFun i] ks h = (Inl (JSMSG ''JSMSG_EMPTY_ARRAY_REDUCE''), h)"
      using seek_first [OF assms(2,3)] unfolding Nil by (simp add: reduceOver_def bindM_def throw_def)
    moreover have "along elems ks = []" using along_seek [of ks] unfolding Nil by simp
    ultimately show ?thesis using \<open>rest = []\<close> assms(2) by (simp add: reduction_def)
  next
    case (Cons k ks')
    then have "set ks' \<subseteq> set ks" by (metis set_dropWhileD set_subset_Cons subsetD subsetI)
    then have ks': "\<forall>k\<in>set ks'. k < length elems" using assms(3) by blast
    have "ks \<noteq> []" using Cons by auto
    then have "reduceOver env obj [VFun i] ks h = forLoop ks' (the (elems ! k)) (reduceAt env obj (VFun i)) h"
      using seek_first [OF assms(2,3)] Cons by (simp add: reduceOver_def bindM_def ret_def argument_def)
    then show ?thesis
      using reduce_loop [OF assms(1,2) ks', of "the (elems ! k)"] Cons \<open>rest = []\<close> along_seek [of ks]
      by (simp add: reduction_def)
  qed
qed

lemma map_loop:
  assumes call: "\<And>v k A. e_call env i T [v, vindex k, obj] (h @ [A]) = (Inr (f v k), h @ [A])"
    and keeps: "\<And>A. keeps (h @ [A])" and "m \<le> length elems"
  shows "forLoop [m..<length elems] () (\<lambda>k _. mapAt env obj (VFun i) T (length h) k)
      (h @ [map (\<lambda>k. if k < m then mapped f elems k else None) [0..<length elems]]) =
    (Inr (), h @ [map (mapped f elems) [0..<length elems]])"
  using assms(3)
proof (induction m rule: inc_induct)
  case base
  have "map (\<lambda>k. if k < length elems then mapped f elems k else None) [0..<length elems] = map (mapped f elems) [0..<length elems]"
    by (rule map_cong) auto
  then show ?case by (simp add: ret_app)
next
  case (step m)
  let ?part = "\<lambda>m. map (\<lambda>k. if k < m then mapped f elems k else None) [0..<length elems]"
  have "mapAt env obj (VFun i) T (length h) m (h @ [?part m]) = (Inr (), h @ [?part (Suc m)])"
  proof (cases "elems ! m")
    case None
    then have "?part (Suc m) = ?part m" by (auto simp: mapped_def less_Suc_eq)
    then show ?thesis
      using has [OF keeps step.hyps(2)] None by (simp add: mapAt_def visitAt_def bindM_def ret_def)
  next
    case (Some v)
    have "(?part m)[m := Some (f v m)] = ?part (Suc m)"
      using Some step.hyps(2) by (intro nth_equalityI) (auto simp: nth_list_update mapped_def less_Suc_eq)
    then show ?thesis
      using has [OF keeps step.hyps(2)] get [OF keeps step.hyps(2) Some] call Some
      by (simp add: mapAt_def visitAt_def bindM_def ret_def callFunction_def setElement_def)
  qed
  then show ?case using step.IH step.hyps(2) by (simp add: upt_conv_Cons bindM_Inr)
qed

lemma map_result:
  assumes "\<And>v k A. e_call env i T [v, vindex k, obj] (h @ [A]) = (Inr (f v k), h @ [A])"
    and "\<And>A. keeps (h @ [A])" "keeps h"
  shows "ArrayMap env obj [VFun i, T] h = (Inr (VArr (length h)), h @ [map (mapped f elems) [0..<length elems]])"
proof -
  have "replicate (length elems) None = map (\<lambda>k. if k < 0 then mapped f elems k else None) [0..<length elems]"
    by (simp add: map_replicate_trivial)
  then have "forLoop [0..<length elems] () (\<lambda>k _. mapAt env obj (VFun i) T (length h) k) (h @ [replicate (length elems) None]) =
      (Inr (), h @ [map (mapped f elems) [0..<length elems]])"
    using map_loop [OF assms(1,2), of 0] by simp
  then show ?thesis
    by (simp only: ArrayMap_def to_object bindM_ret call_checks bindM_def len [OF assms(3)] newArray_def prod.case sum.case ret_def)
qed

end

interpretation array: array_like "\<lambda>h. a < length h \<and> h ! a = elems \<and> length elems < 2 ^ 32" "VArr a" elems for a elems
  by unfold_locales (simp_all add: elementsOf_def)

interpretation characters: array_like "\<lambda>_. length s < 2 ^ 32" "VStr s" "map (\<lambda>c. Some (VStr [c])) s" for s
  by unfold_locales (simp_all add: elementsOf_def)

abbreviation isArray :: "nat \<Rightarrow> jv option list \<Rightarrow> heap \<Rightarrow> bool" where
  "isArray a elems h \<equiv> a < length h \<and> h ! a = elems \<and> length elems < 2 ^ 32"

text \<open>An environment whose functions only compute.\<close>

definition pureEnv :: "(jv list \<Rightarrow> jv) \<Rightarrow> jsenv" where
  "pureEnv f = \<lparr>e_call = (\<lambda>i this args. ret (f args)), e_integer = (\<lambda>v. ret (Fin 0))\<rparr>"

lemma pureEnv_contracts:
  "answers keeps (pureEnv g) i T obj (\<lambda>v k. g [v, vindex k, obj])"
  "combines keeps (pureEnv g) i obj (\<lambda>x v k. g [x, v, vindex k, obj])"
  by (simp_all add: pureEnv_def answers_def combines_def ret_app)

section \<open>Properties\<close>

lemma index_of_least:
  assumes "isArray a elems h"
  shows "\<exists>r. ArrayIndexOf env (VArr a) [x, VNum (Fin n)] h = (Inr (VNum (Fin r)), h) \<and>
      (if r = -1 then \<forall>k<length elems. fromIndex elems n \<le> int k \<longrightarrow> \<not> isAt elems x k
       else 0 \<le> r \<and> r < int (length elems) \<and> fromIndex elems n \<le> r \<and> isAt elems x (nat r) \<and>
         (\<forall>k. fromIndex elems n \<le> int k \<and> int k < r \<longrightarrow> \<not> isAt elems x k))"
proof (cases "find (isAt elems x) [nat (fromIndex elems n)..<length elems]")
  case None
  have "\<not> isAt elems x k" if "k < length elems" "fromIndex elems n \<le> int k" for k
    using find_upt(1) [OF None, of k] that by simp
  then show ?thesis using array.index_of [OF assms, of env x n] None by (intro exI [of _ "-1"]) auto
next
  case (Some k)
  then show ?thesis
    using array.index_of [OF assms, of env x n] find_upt(2) [OF Some]
    by (intro exI [of _ "int k"]) (auto simp: vindex_def)
qed

lemma last_index_of_greatest:
  assumes "isArray a elems h"
  shows "\<exists>r. ArrayLastIndexOf env (VArr a) [x, VNum (Fin n)] h = (Inr (VNum (Fin r)), h) \<and>
      (if r = -1 then \<forall>k<length elems. int k \<le> fromIndex elems n \<longrightarrow> \<not> isAt elems x k
       else 0 \<le> r \<and> r < int (length elems) \<and> r \<le> fromIndex elems n \<and> isAt elems x (nat r) \<and>
         (\<forall>k<length elems. r < int k \<and> int k \<le> fromIndex elems n \<longrightarrow> \<not> isAt elems x k))"
proof (cases "find (isAt elems x) (rev [0..<nat (min (fromIndex elems n + 1) (int (length elems)))])")
  case None
  have "\<not> isAt elems x k" if "k < length elems" "int k \<le> fromIndex elems n" for k
    using find_rev_upt(1) [OF None, of k] that by simp
  then show ?thesis using array.last_index_of [OF assms, of env x n] None by (intro exI [of _ "-1"]) auto
next
  case (Some k)
  then show ?thesis
    using array.last_index_of [OF assms, of env x n] find_rev_upt(2) [OF Some]
    by (intro exI [of _ "int k"]) (auto simp: vindex_def)
qed

text \<open>
  C36: \<open>indexOf\<close> gives the least index, from the start index on, whose element is strictly equal to the
  searched one, and \<open>lastIndexOf\<close> the greatest up to it; -1 when there is none. A negative start
  counts from the end; holes are never found, and no array changes.
\<close>

theorem array_search:
  assumes "isArray a elems h"
  shows "(\<exists>r. ArrayIndexOf env (VArr a) [x, VNum (Fin n)] h = (Inr (VNum (Fin r)), h) \<and>
      (if r = -1 then \<forall>k<length elems. fromIndex elems n \<le> int k \<longrightarrow> \<not> isAt elems x k
       else 0 \<le> r \<and> r < int (length elems) \<and> fromIndex elems n \<le> r \<and> isAt elems x (nat r) \<and>
         (\<forall>k. fromIndex elems n \<le> int k \<and> int k < r \<longrightarrow> \<not> isAt elems x k))) \<and>
    (\<exists>r. ArrayLastIndexOf env (VArr a) [x, VNum (Fin n)] h = (Inr (VNum (Fin r)), h) \<and>
      (if r = -1 then \<forall>k<length elems. int k \<le> fromIndex elems n \<longrightarrow> \<not> isAt elems x k
       else 0 \<le> r \<and> r < int (length elems) \<and> r \<le> fromIndex elems n \<and> isAt elems x (nat r) \<and>
         (\<forall>k<length elems. r < int k \<and> int k \<le> fromIndex elems n \<longrightarrow> \<not> isAt elems x k)))"
  using index_of_least [OF assms] last_index_of_greatest [OF assms] by blast

lemma array_search_witness:
  "\<exists>r. ArrayIndexOf (pureEnv hd) (VArr 0) [VBool True, VNum (Fin (- 2))] [[Some VNull, None, Some (VBool True)]] =
      (Inr (VNum (Fin r)), [[Some VNull, None, Some (VBool True)]]) \<and> r \<noteq> -1"
proof -
  let ?es = "[Some VNull, None, Some (VBool True)]"
  have "isArray 0 ?es [?es]" by simp
  from array_search [OF this, of "pureEnv hd" "VBool True" "- 2"] show ?thesis
    by (auto simp: fromIndex_def isAt_def strictEq_def split: if_splits dest: spec [of _ 2])
qed

text \<open>
  For a callback that keeps the array, \<open>every\<close> says whether it answers with a truthy value on all
  present elements and \<open>some\<close> whether it does on one, so each is the negation of the other on the
  negated callback; holes are not visited, and nothing is true of all of an empty array.
\<close>

theorem every_some:
  assumes "isArray a elems h" "answers (isArray a elems) env i T (VArr a) f"
  shows "\<exists>h1 h2. ArrayEvery env (VArr a) [VFun i, T] h = (Inr (VBool (\<forall>(k, v)\<in>present elems. ToBoolean (f v k))), h1) \<and>
    ArraySome env (VArr a) [VFun i, T] h = (Inr (VBool (\<exists>(k, v)\<in>present elems. ToBoolean (f v k))), h2) \<and>
    isArray a elems h1 \<and> isArray a elems h2"
  using array.every_result [OF assms(2,1)] array.some_result [OF assms(2,1)] by blast

lemma every_some_witness:
  "\<exists>h'. ArrayEvery (pureEnv hd) (VArr 0) [VFun 0, VUndef] [[Some (VBool True), None, Some (VStr ''a'')]] = (Inr (VBool True), h')"
proof -
  let ?es = "[Some (VBool True), None, Some (VStr ''a'')]"
  have "isArray 0 ?es [?es]" by simp
  from every_some [OF this pureEnv_contracts(1)] obtain h1 where
    "ArrayEvery (pureEnv hd) (VArr 0) [VFun 0, VUndef] [?es] =
      (Inr (VBool (\<forall>(k, v)\<in>present ?es. ToBoolean (hd [v, vindex k, VArr 0]))), h1)" by blast
  moreover have "\<forall>(k, v)\<in>present ?es. ToBoolean (hd [v, vindex k, VArr 0])"
    by (auto simp: present_def ToBoolean_def less_Suc_eq)
  ultimately show ?thesis by auto
qed

text \<open>
  C37: \<open>reduce\<close> folds the present elements from the first index to the last, \<open>reduceRight\<close> the same
  elements in the reverse order, from the initial value or from the first of them; both refuse an
  array without elements when there is no initial value.
\<close>

theorem reduce_folds:
  assumes "isArray a elems h" "combines (isArray a elems) env i (VArr a) f" "length rest \<le> 1"
  shows "\<exists>h1 h2. ArrayReduce env (VArr a) (VFun i # rest) h = (reduction f rest (along elems [0..<length elems]), h1) \<and>
    ArrayReduceRight env (VArr a) (VFun i # rest) h = (reduction f rest (rev (along elems [0..<length elems])), h2) \<and>
    isArray a elems h1 \<and> isArray a elems h2"
proof -
  have rev: "along elems (rev ks) = rev (along elems ks)" for ks
    by (induction ks) (auto simp: along_def split: option.splits)
  have up: "\<forall>k\<in>set [0..<length elems]. k < length elems" and down: "\<forall>k\<in>set (rev [0..<length elems]). k < length elems"
    by auto
  have "ArrayReduce env (VArr a) (VFun i # rest) h = reduceOver env (VArr a) (VFun i # rest) [0..<length elems] h"
    "ArrayReduceRight env (VArr a) (VFun i # rest) h = reduceOver env (VArr a) (VFun i # rest) (rev [0..<length elems]) h"
    by (simp_all only: ArrayReduce_def ArrayReduceRight_def array.to_object bindM_ret bindM_Inr [where m = "lengthOf (VArr a)", OF array.len [OF assms(1)]]
        call_checks)
  then show ?thesis
    using array.reduce_over [OF assms(2,1) up assms(3)] array.reduce_over [OF assms(2,1) down assms(3)] unfolding rev by auto
qed

lemma reduce_folds_witness:
  "\<exists>h'. ArrayReduceRight (pureEnv (\<lambda>args. args ! 1)) (VArr 0) [VFun 0] [[Some VNull, None, Some (VBool True)]] = (Inr VNull, h')"
proof -
  let ?es = "[Some VNull, None, Some (VBool True)]"
  have "isArray 0 ?es [?es]" by simp
  from reduce_folds [OF this pureEnv_contracts(2) [of _ "\<lambda>args. args ! 1" 0], of "[]"] obtain h2 where
    "ArrayReduceRight (pureEnv (\<lambda>args. args ! 1)) (VArr 0) [VFun 0] [?es] =
      (reduction (\<lambda>x v k. [x, v, vindex k, VArr 0] ! 1) [] (rev (along ?es [0..<length ?es])), h2)" by auto
  then show ?thesis by (simp add: along_def reduction_def upt_conv_Cons)
qed

text \<open>
  \<open>map\<close> returns a new array of the same length whose element at every index is the callback's answer
  to the element there, with a hole where the array has one; the array itself and all other arrays
  are as before.
\<close>

theorem map_elements:
  assumes "isArray a elems h" "\<And>v k h. e_call env i T [v, vindex k, VArr a] h = (Inr (f v k), h)"
  shows "ArrayMap env (VArr a) [VFun i, T] h = (Inr (VArr (length h)), h @ [map (mapped f elems) [0..<length elems]])"
  using assms by (intro array.map_result) (auto simp: nth_append)

lemma map_elements_witness:
  "ArrayMap (pureEnv (\<lambda>args. args ! 1)) (VArr 0) [VFun 0, VUndef] [[Some VNull, None, Some VNull]] =
   (Inr (VArr 1), [[Some VNull, None, Some VNull], [Some (vindex 0), None, Some (vindex 2)]])"
proof -
  let ?es = "[Some VNull, None, Some VNull]"
  have "isArray 0 ?es [?es]" by simp
  from map_elements [OF this, of "pureEnv (\<lambda>args. args ! 1)" 0 VUndef "\<lambda>v k. vindex k"] show ?thesis
    by (simp add: pureEnv_def ret_app mapped_def upt_conv_Cons numeral_2_eq_2)
qed

text \<open>
  Without a callback every method throws the error that names it, except \<open>reduceRight\<close>, which names
  \<open>reduce\<close>; the static form names \<open>Array.reduceRight\<close>.
\<close>

theorem missing_callback:
  assumes "isArray a elems h"
  shows "ArrayEvery env (VArr a) [] h = (Inl (MissingFunArg 0 ''Array.prototype.every''), h) \<and>
    ArraySome env (VArr a) [] h = (Inl (MissingFunArg 0 ''Array.prototype.some''), h) \<and>
    ArrayForEach env (VArr a) [] h = (Inl (MissingFunArg 0 ''Array.prototype.forEach''), h) \<and>
    ArrayMap env (VArr a) [] h = (Inl (MissingFunArg 0 ''Array.prototype.map''), h) \<and>
    ArrayReduce env (VArr a) [] h = (Inl (MissingFunArg 0 ''Array.prototype.reduce''), h) \<and>
    ArrayReduceRight env (VArr a) [] h = (Inl (MissingFunArg 0 ''Array.prototype.reduce''), h) \<and>
    ArrayStaticReduceRight env [VArr a] h = (Inl (MissingFunArg 0 ''Array.reduceRight''), h)"
  using array.len [OF assms]
  by (simp add: ArrayEvery_def ArraySome_def ArrayForEach_def ArrayMap_def ArrayReduce_def ArrayReduceRight_def
      ArrayStaticReduceRight_def checkCallback_def checkStaticCallback_def ToObject_def bindM_Inr throw_app)

lemma missing_callback_witness:
  "ArrayReduceRight (pureEnv hd) (VArr 0) [] [[]] = (Inl (MissingFunArg 0 ''Array.prototype.reduce''), [[]])"
  using missing_callback [of 0 "[[]]" "[]" "pureEnv hd"] by simp

end
