(* ===== verification/Staged_Lib.thy ===== *)
theory Staged_Lib
  imports JS_Prelude
begin

text \<open>
  \<open>stagedlib.js\<close>, the library that staged code runs on in the browser: the escape functions, which put
  the statements of ASTs into an array of nodes; \<open>inline\<close> and \<open>STG_InspectAst\<close>, which send an AST to the
  server; and the debugging session, which asks the server for the next stage, evaluates it, and asks
  again until the depth is zero.

  The state of a session is the page shown, the flag \<open>executionFail\<close>, the console, the requests sent,
  the number of stage requests not answered yet, and the stage sources whose evaluation is deferred.
  The world around it is a parameter: whether the server accepts a synchronous request, given the
  requests so far; the text of an AST; and the library calls a stage source makes when evaluated.
\<close>

section \<open>ASTs\<close>

definition isAstObj :: "jsval \<Rightarrow> bool" where
  "isAstObj astObj \<longleftrightarrow> astObj \<noteq> JUndef \<and> astObj \<noteq> JNull \<and> fld astObj ''type'' = JStr ''Program''"

text \<open>The result is none where the code returns undefined.\<close>

definition mngGetBody :: "jsval \<Rightarrow> bool \<Rightarrow> ('s, jsval list option) jsm" where
  "mngGetBody node fromStmt =
     (if \<not> isAstObj node then ret None
      else let body = fld node ''body'' in
        if \<not> js_truthy body then ret None
        else if fromStmt then ret (Some (us_elems body))
        else bindM (mapM (\<lambda>stmt. getp stmt ''expression'') (us_elems body)) (\<lambda>es. ret (Some es)))"

definition meta_escapejsvalue :: "jsval \<Rightarrow> jsval" where
  "meta_escapejsvalue value = JObj [(''type'', JStr ''Literal''), (''value'', value)]"

section \<open>Escaping\<close>

text \<open>The pairs are those of the calls the unparser generates; the array is the state.\<close>

record escape_pair =
  p_index :: int
  p_expr :: jsval

text \<open>\<open>splice\<close> that removes nothing: a negative start counts from the end, and none is out of range.\<close>

definition spliceIn :: "int \<Rightarrow> 'a list \<Rightarrow> 'a list \<Rightarrow> 'a list" where
  "spliceIn start xs body =
     (let len = int (length xs); k = nat (if start < 0 then max 0 (len + start) else min start len)
      in take k xs @ body @ drop k xs)"

definition escapeBody :: "jsval \<Rightarrow> bool \<Rightarrow> ('s, jsval list) jsm" where
  "escapeBody node fromStmt = bindM (mngGetBody node fromStmt) (\<lambda>body.
     case body of None \<Rightarrow> throw (StagedException ''body not found in ast'') | Some b \<Rightarrow> ret b)"

fun escapePairs :: "bool \<Rightarrow> escape_pair list \<Rightarrow> int \<Rightarrow> (jsval list, unit) jsm" where
  "escapePairs fromStmt [] idxOffset = ret ()"
| "escapePairs fromStmt (pair # pairs) idxOffset =
     bindM (escapeBody (p_expr pair) fromStmt) (\<lambda>body.
     bindM (\<lambda>normalNodes. (Inr (), spliceIn (p_index pair + idxOffset) normalNodes body)) (\<lambda>_.
     escapePairs fromStmt pairs (idxOffset + 1)))"

definition mEscapeArray :: "escape_pair list \<Rightarrow> bool \<Rightarrow> (jsval list, jsval) jsm" where
  "mEscapeArray escapeNodes fromStmt =
     bindM (escapePairs fromStmt escapeNodes 0) (\<lambda>_ normalNodes. (Inr (JArr normalNodes), normalNodes))"

definition mEscapeNode :: "jsval \<Rightarrow> bool \<Rightarrow> ('s, jsval) jsm" where
  "mEscapeNode node fromStmt = bindM (escapeBody node fromStmt) (\<lambda>body.
     ret (if length body = 1 then body ! 0 else JArr body))"

datatype escape_call =
    FromArray "jsval list" "escape_pair list" bool
  | FromNode jsval bool

definition mEscape :: "escape_call \<Rightarrow> jserr + jsval" where
  "mEscape call = (case call of
       FromArray normalNodes escapeNodes fromStmt \<Rightarrow> fst (mEscapeArray escapeNodes fromStmt normalNodes)
     | FromNode node fromStmt \<Rightarrow> fst (mEscapeNode node fromStmt ()))"

section \<open>The session\<close>

datatype page = BEGIN | ONPROGRESS | FINISHED | ERROR string

datatype route = NEXT_STAGE | EXEC_INLINE | INSPECT_AST | CLOSE_SESSION

record request =
  q_type :: string
  q_url :: string
  q_async :: bool
  q_cache :: bool
  q_data :: "string option"
  q_dataType :: string
  q_contentType :: string

record session =
  s_fail :: bool
  s_page :: page
  s_log :: "string list"
  s_sent :: "request list"
  s_pending :: nat
  s_deferred :: "string list"

datatype stage_op = OpInline jsval | OpInspect jsval | OpThrow

record world =
  w_accepts :: "request list \<Rightarrow> bool"
  w_text :: "jsval \<Rightarrow> string"
  w_code :: "string \<Rightarrow> stage_op list"

definition Report :: "string \<Rightarrow> (session, unit) jsm" where
  "Report msg s = (Inr (), s\<lparr>s_log := s_log s @ [msg]\<rparr>)"

definition openPage :: "page \<Rightarrow> (session, unit) jsm" where
  "openPage p s = (Inr (), s\<lparr>s_page := p\<rparr>)"

definition setFail :: "(session, unit) jsm" where
  "setFail s = (Inr (), s\<lparr>s_fail := True\<rparr>)"

definition genRoute :: "string \<Rightarrow> string \<Rightarrow> string \<times> string \<times> string \<times> string" where
  "genRoute url type = (url, type, ''json'', ''application/json'')"

definition serverRoutes :: "route \<Rightarrow> string \<times> string \<times> string \<times> string" where
  "serverRoutes r = (case r of
       NEXT_STAGE \<Rightarrow> genRoute ''nextstage'' ''post''
     | EXEC_INLINE \<Rightarrow> genRoute ''execinline'' ''post''
     | INSPECT_AST \<Rightarrow> genRoute ''inspectast'' ''post''
     | CLOSE_SESSION \<Rightarrow> genRoute ''closesession'' ''post'')"

definition SERVER_IP :: string where "SERVER_IP = ''http://localhost:8085''"

definition ajaxOpts :: "route \<Rightarrow> bool \<Rightarrow> string option \<Rightarrow> request" where
  "ajaxOpts r async data = (case serverRoutes r of (url, type, dataType, contentType) \<Rightarrow>
     \<lparr>q_type = type, q_url = SERVER_IP @ ''/'' @ url, q_async = async, q_cache = False, q_data = data,
      q_dataType = dataType, q_contentType = contentType\<rparr>)"

text \<open>
  Sending: a synchronous request is answered before the call returns, an asynchronous one is left
  pending. The only asynchronous request is the one for the next stage.
\<close>

definition STG_ServerSend ::
  "world \<Rightarrow> route \<Rightarrow> bool \<Rightarrow> string option \<Rightarrow> (session, unit) jsm \<Rightarrow> (session, unit) jsm \<Rightarrow> (session, unit) jsm" where
  "STG_ServerSend w r async data success fail =
     bindM (\<lambda>s. (Inr (), s\<lparr>s_sent := s_sent s @ [ajaxOpts r async data]\<rparr>)) (\<lambda>_ s.
     if async then (Inr (), s\<lparr>s_pending := s_pending s + 1\<rparr>)
     else if w_accepts w (s_sent s) then success s else fail s)"

definition onServerNextStageError :: "(session, unit) jsm" where
  "onServerNextStageError = bindM setFail (\<lambda>_. openPage (ERROR ''server error on next stage.''))"

definition onServerInlineError :: "(session, unit) jsm" where
  "onServerInlineError = bindM setFail (\<lambda>_. openPage (ERROR ''inline execution fail on server.''))"

definition mInline :: "world \<Rightarrow> jsval \<Rightarrow> (session, unit) jsm" where
  "mInline w astObj s =
     (if s_fail s then (Inr (), s)
      else if \<not> isAstObj astObj then throw (StagedException ''trying to inline a non-ast object'') s
      else STG_ServerSend w EXEC_INLINE False (Some (w_text w astObj)) (Report ''inline executed'') onServerInlineError s)"

definition STG_InspectAst :: "world \<Rightarrow> jsval \<Rightarrow> (session, jsval) jsm" where
  "STG_InspectAst w ast =
     (if \<not> isAstObj ast then bindM (Report ''argument is not an ast'') (\<lambda>_. ret ast)
      else bindM (STG_ServerSend w INSPECT_AST False (Some (w_text w ast)) (Report ''inspected'')
                    (Report ''inspection fail on server'')) (\<lambda>_. ret JUndef))"

definition startDebugging :: "world \<Rightarrow> (session, unit) jsm" where
  "startDebugging w = STG_ServerSend w NEXT_STAGE True None (ret ()) (ret ())"

text \<open>The server's answer to a stage request: the depth and the escaped source.\<close>

definition onServerNextStageStart :: "world \<Rightarrow> nat \<Rightarrow> string \<Rightarrow> (session, unit) jsm" where
  "onServerNextStageStart w depth srcCode =
     (if depth = 0 then openPage FINISHED
      else let src = js_unescape srcCode in
        bindM (openPage ONPROGRESS) (\<lambda>_ s. (Inr (), s\<lparr>s_deferred := s_deferred s @ [src]\<rparr>)))"

definition runLibCall :: "world \<Rightarrow> stage_op \<Rightarrow> (session, unit) jsm" where
  "runLibCall w x = (case x of OpInline a \<Rightarrow> mInline w a | OpInspect a \<Rightarrow> bindM (STG_InspectAst w a) (\<lambda>_. ret ()) | OpThrow \<Rightarrow> throw (StagedException ''stage''))"

definition runDeferred :: "world \<Rightarrow> string \<Rightarrow> (session, unit) jsm" where
  "runDeferred w src = bindM (mapM (runLibCall w) (w_code w src)) (\<lambda>_. startDebugging w)"

text \<open>The events of the browser: a click on the start button, an answer, a deferred evaluation.\<close>

definition initial :: session where
  "initial = \<lparr>s_fail = False, s_page = BEGIN, s_log = [], s_sent = [], s_pending = 0, s_deferred = []\<rparr>"

inductive session_step :: "world \<Rightarrow> session \<Rightarrow> session \<Rightarrow> bool" for w where
  click: "s_page s = BEGIN \<Longrightarrow> session_step w s (snd (startDebugging w s))"
| answer: "0 < s_pending s \<Longrightarrow> session_step w s (snd (onServerNextStageStart w depth srcCode (s\<lparr>s_pending := s_pending s - 1\<rparr>)))"
| refuse: "0 < s_pending s \<Longrightarrow> session_step w s (snd (onServerNextStageError (s\<lparr>s_pending := s_pending s - 1\<rparr>)))"
| evaluate: "s_deferred s = src # rest \<Longrightarrow> session_step w s (snd (runDeferred w src (s\<lparr>s_deferred := rest\<rparr>)))"

section \<open>What escaping should give\<close>

text \<open>
  An array of nodes in which some are escapes: the nodes and the pairs the unparser passes, whose
  indices count every node of the array, and the array with every escape replaced by its statements.
\<close>

datatype node_item = Plain jsval | Escape jsval "jsval list"

fun normals :: "node_item list \<Rightarrow> jsval list" where
  "normals [] = []"
| "normals (Plain x # items) = x # normals items"
| "normals (Escape a body # items) = normals items"

fun pairsFrom :: "nat \<Rightarrow> node_item list \<Rightarrow> escape_pair list" where
  "pairsFrom i [] = []"
| "pairsFrom i (Plain x # items) = pairsFrom (i + 1) items"
| "pairsFrom i (Escape a body # items) = \<lparr>p_index = int i, p_expr = a\<rparr> # pairsFrom (i + 1) items"

fun expand :: "node_item list \<Rightarrow> jsval list" where
  "expand [] = []"
| "expand (Plain x # items) = x # expand items"
| "expand (Escape a body # items) = body @ expand items"

text \<open>Every escape is of an AST with the given statements, and all but the last have \<open>n\<close> of them.\<close>

fun escapesOf :: "bool \<Rightarrow> nat \<Rightarrow> node_item list \<Rightarrow> bool" where
  "escapesOf fromStmt n [] = True"
| "escapesOf fromStmt n (Plain x # items) = escapesOf fromStmt n items"
| "escapesOf fromStmt n (Escape a body # items) =
     (mngGetBody a fromStmt ([] :: jsval list) = (Inr (Some body), []) \<and> (pairsFrom 0 items \<noteq> [] \<longrightarrow> length body = n) \<and> escapesOf fromStmt n items)"

text \<open>An AST with the given statements.\<close>

definition node_of :: "jsval list \<Rightarrow> jsval" where
  "node_of body = JObj [(''type'', JStr ''Program''), (''body'', JArr body)]"

lemma pairsFrom_Nil: "pairsFrom i items = [] \<longleftrightarrow> pairsFrom j items = []"
  by (induction items arbitrary: i j rule: normals.induct) auto

lemma no_escapes: "pairsFrom i items = [] \<Longrightarrow> expand items = normals items"
  by (induction items arbitrary: i rule: normals.induct) auto

text \<open>Reading the statements does not depend on the state.\<close>

lemma mapM_getp_state: "mapM (\<lambda>v. getp v k) vs s = (fst (mapM (\<lambda>v. getp v k) vs ([] :: jsval list)), s)"
proof (induction vs)
  case Nil
  then show ?case by (simp add: ret_def)
next
  case (Cons v vs)
  then show ?case by (auto simp: getp_def bindM_def ret_def throw_def split: sum.splits prod.splits)
qed

lemma mngGetBody_state:
  "mngGetBody a fromStmt s = (fst (mngGetBody a fromStmt ([] :: jsval list)), s)"
  using mapM_getp_state [of "''expression''" "us_elems (fld a ''body'')" s]
    mapM_getp_state [of "''expression''" "us_elems (fld a ''body'')" "[] :: jsval list"]
  by (auto simp: mngGetBody_def bindM_def ret_def Let_def split: sum.splits prod.splits)

lemma escapeBody_body:
  assumes "mngGetBody a fromStmt ([] :: jsval list) = (Inr (Some body), [])"
  shows "escapeBody a fromStmt s = (Inr body, s :: jsval list)"
  using mngGetBody_state [of a fromStmt s] assms by (simp add: escapeBody_def bindM_def ret_def)

lemma spliceIn_at: "length xs = k \<Longrightarrow> spliceIn (int k) (xs @ ys) body = xs @ body @ ys"
  by (simp add: spliceIn_def)

lemma escapePairs_places:
  assumes "escapesOf fromStmt 2 items" "length placed = i + k"
  shows "escapePairs fromStmt (pairsFrom i items) (int k) (placed @ normals items) = (Inr (), placed @ expand items)"
  using assms
proof (induction items arbitrary: i k placed rule: normals.induct)
  case 1
  then show ?case by (simp add: ret_app)
next
  case (2 x items)
  then show ?case using "2.IH" [of "placed @ [x]" "i + 1" k] by simp
next
  case (3 a body items)
  have body: "escapeBody a fromStmt (placed @ normals items) = (Inr body, placed @ normals items)"
    using 3 by (intro escapeBody_body) simp
  have at: "spliceIn (int i + int k) (placed @ normals items) body = placed @ body @ normals items"
    using spliceIn_at [of placed "i + k" "normals items" body] 3 by simp
  show ?case
  proof (cases "pairsFrom 0 items = []")
    case True
    then show ?thesis
      using body at pairsFrom_Nil [of 0 items "i + 1"] no_escapes [of 0 items] by (simp add: bindM_def ret_def)
  next
    case False
    then have "length body = 2" using 3 by simp
    then have "escapePairs fromStmt (pairsFrom (i + 1) items) (int k + 1) ((placed @ body) @ normals items) =
        (Inr (), (placed @ body) @ expand items)"
      using "3.IH" [of "placed @ body" "i + 1" "k + 1"] 3 by (simp add: add.commute)
    then show ?thesis using body at by (simp add: bindM_def)
  qed
qed

lemma pairsFrom_plain: "pairsFrom i (map Plain xs @ items) = pairsFrom (i + length xs) items"
  by (induction xs arbitrary: i) auto

lemma normals_plain: "normals (map Plain xs @ items) = xs @ normals items"
  by (induction xs) auto

section \<open>Facts: sessions\<close>

definition sentTo :: "string \<Rightarrow> session \<Rightarrow> nat" where
  "sentTo url s = length (filter (\<lambda>q. q_url q = SERVER_IP @ ''/'' @ url) (s_sent s))"

text \<open>Nothing clears the failure, and nothing is inlined after one.\<close>

definition noInline :: "session \<Rightarrow> session \<Rightarrow> bool" where
  "noInline s t \<longleftrightarrow> (s_fail s \<longrightarrow> s_fail t \<and> sentTo ''execinline'' t = sentTo ''execinline'' s)"

lemma noInline_refl: "noInline s s" by (simp add: noInline_def)

lemma noInline_trans: "noInline s t \<Longrightarrow> noInline t u \<Longrightarrow> noInline s u" by (auto simp: noInline_def)

lemma noInline_bindM:
  assumes "\<And>s. noInline s (snd (m s))" "\<And>x s. noInline s (snd (f x s))"
  shows "noInline s (snd (bindM m f s))"
  using assms(1) [of s] assms(2) noInline_trans
  by (auto simp: bindM_def split: prod.splits sum.splits)

lemma noInline_mapM: "(\<And>x s. noInline s (snd (f x s))) \<Longrightarrow> noInline s (snd (mapM f xs s))"
proof (induction xs arbitrary: s)
  case Nil
  then show ?case by (simp add: ret_def noInline_refl)
next
  case (Cons x xs)
  then show ?case by (auto intro!: noInline_bindM simp: ret_def noInline_refl)
qed

lemma route_urls:
  "q_url (ajaxOpts EXEC_INLINE b d) = SERVER_IP @ ''/'' @ ''execinline''"
  "q_url (ajaxOpts NEXT_STAGE b d) = SERVER_IP @ ''/'' @ ''nextstage''"
  "q_url (ajaxOpts INSPECT_AST b d) = SERVER_IP @ ''/'' @ ''inspectast''"
  by (simp_all add: ajaxOpts_def serverRoutes_def genRoute_def)

lemmas session_defs = Report_def openPage_def setFail_def STG_ServerSend_def startDebugging_def
  onServerNextStageError_def onServerInlineError_def onServerNextStageStart_def mInline_def STG_InspectAst_def bindM_def ret_def throw_def

lemma noInline_library:
  "noInline s (snd (startDebugging w s))" "noInline s (snd (mInline w a s))" "noInline s (snd (STG_InspectAst w a s))"
  "noInline s (snd (onServerNextStageStart w d src s))" "noInline s (snd (onServerNextStageError s))"
  by (simp_all add: session_defs noInline_def sentTo_def route_urls Let_def)

lemma noInline_runLibCall: "noInline s (snd (runLibCall w x s))"
  by (cases x) (auto simp: runLibCall_def noInline_library throw_def noInline_refl ret_def intro!: noInline_bindM)

lemma noInline_step: "session_step w s t \<Longrightarrow> noInline s t"
proof (induction rule: session_step.induct)
  case (evaluate s src rest)
  have "noInline (s\<lparr>s_deferred := rest\<rparr>) (snd (runDeferred w src (s\<lparr>s_deferred := rest\<rparr>)))"
    unfolding runDeferred_def by (intro noInline_bindM noInline_mapM noInline_runLibCall noInline_library)
  then show ?case by (simp add: noInline_def sentTo_def)
next
  case (answer s d src)
  then show ?case using noInline_library(4) [of "s\<lparr>s_pending := s_pending s - 1\<rparr>" w d src] by (simp add: noInline_def sentTo_def)
next
  case (refuse s)
  then show ?case using noInline_library(5) [of "s\<lparr>s_pending := s_pending s - 1\<rparr>"] by (simp add: noInline_def sentTo_def)
qed (rule noInline_library)

text \<open>A stage that does not throw: it only inlines ASTs.\<close>

definition calm :: "world \<Rightarrow> string \<Rightarrow> bool" where
  "calm w src \<longleftrightarrow> (\<forall>x\<in>set (w_code w src). x \<noteq> OpThrow \<and> (\<forall>a. x = OpInline a \<longrightarrow> isAstObj a))"

definition sameQueue :: "session \<Rightarrow> session \<Rightarrow> bool" where
  "sameQueue s t \<longleftrightarrow> s_pending t = s_pending s \<and> s_deferred t = s_deferred s \<and> sentTo ''nextstage'' t = sentTo ''nextstage'' s"

lemma runLibCall_calm:
  assumes "x \<noteq> OpThrow" "\<And>a. x = OpInline a \<Longrightarrow> isAstObj a"
  shows "\<exists>t. runLibCall w x s = (Inr (), t) \<and> sameQueue s t"
  using assms by (cases x) (auto simp: runLibCall_def session_defs sameQueue_def sentTo_def route_urls)

lemma calm_calls:
  assumes "\<forall>x\<in>set xs. x \<noteq> OpThrow \<and> (\<forall>a. x = OpInline a \<longrightarrow> isAstObj a)"
  shows "\<exists>t ys. mapM (runLibCall w) xs s = (Inr ys, t) \<and> sameQueue s t"
  using assms
proof (induction xs arbitrary: s)
  case Nil
  then show ?case by (simp add: ret_def sameQueue_def)
next
  case (Cons x xs)
  obtain t where t: "runLibCall w x s = (Inr (), t)" "sameQueue s t" using runLibCall_calm [of x w s] Cons.prems by auto
  obtain u ys where u: "mapM (runLibCall w) xs t = (Inr ys, u)" "sameQueue t u" using Cons by fastforce
  have "mapM (runLibCall w) (x # xs) s = (Inr (() # ys), u)" using t(1) u(1) by (simp add: bindM_Inr ret_app)
  then show ?case using t(2) u(2) by (auto simp: sameQueue_def)
qed

lemma runDeferred_calm:
  assumes "calm w src"
  shows "s_pending (snd (runDeferred w src s)) = s_pending s + 1" "s_deferred (snd (runDeferred w src s)) = s_deferred s"
    "sentTo ''nextstage'' (snd (runDeferred w src s)) = sentTo ''nextstage'' s + 1"
proof -
  obtain t ys where t: "mapM (runLibCall w) (w_code w src) s = (Inr ys, t)" "sameQueue s t"
    using calm_calls assms unfolding calm_def by blast
  then have "runDeferred w src s = startDebugging w t" by (simp add: runDeferred_def bindM_Inr)
  then show "s_pending (snd (runDeferred w src s)) = s_pending s + 1" "s_deferred (snd (runDeferred w src s)) = s_deferred s"
    "sentTo ''nextstage'' (snd (runDeferred w src s)) = sentTo ''nextstage'' s + 1"
    using t(2) by (simp_all add: session_defs sameQueue_def sentTo_def route_urls)
qed

section \<open>Inline requests that fail\<close>

definition isInline :: "request \<Rightarrow> bool" where
  "isInline q \<longleftrightarrow> q_url q = SERVER_IP @ ''/'' @ ''execinline''"

text \<open>The request at a position of those sent is for inlining, and the server did not accept it.\<close>

definition refused :: "world \<Rightarrow> request list \<Rightarrow> nat \<Rightarrow> bool" where
  "refused w qs i \<longleftrightarrow> i < length qs \<and> isInline (qs ! i) \<and> \<not> w_accepts w (take (Suc i) qs)"

definition inlineInv :: "world \<Rightarrow> session \<Rightarrow> bool" where
  "inlineInv w s \<longleftrightarrow> (\<forall>i. refused w (s_sent s) i \<longrightarrow> s_fail s \<and> (\<forall>j<length (s_sent s). i < j \<longrightarrow> \<not> isInline (s_sent s ! j)))"

definition keepsInline :: "world \<Rightarrow> (session, 'a) jsm \<Rightarrow> bool" where
  "keepsInline w m \<longleftrightarrow> (\<forall>s. inlineInv w s \<longrightarrow> inlineInv w (snd (m s)))"

named_theorems inline_intros \<open>steps that keep a refused request the last one\<close>

lemma keepsInline_ret [inline_intros]: "keepsInline w (ret x)"
  by (simp add: keepsInline_def ret_def)

lemma keepsInline_bindM [inline_intros]:
  assumes "keepsInline w m" "\<And>x. keepsInline w (f x)"
  shows "keepsInline w (bindM m f)"
  unfolding keepsInline_def
proof (intro allI impI)
  fix s assume "inlineInv w s"
  then have "inlineInv w (snd (m s))" using assms(1) by (simp add: keepsInline_def)
  then show "inlineInv w (snd (bindM m f s))"
    using assms(2) by (auto simp: keepsInline_def bindM_def split: prod.split sum.split)
qed

lemma keepsInline_mapM [inline_intros]: "(\<And>x. keepsInline w (f x)) \<Longrightarrow> keepsInline w (mapM f xs)"
  by (induction xs) (simp_all add: keepsInline_ret keepsInline_bindM)

lemma refused_append:
  "refused w (qs @ [q]) i \<longleftrightarrow> refused w qs i \<or> i = length qs \<and> isInline q \<and> \<not> w_accepts w (qs @ [q])"
  by (auto simp: refused_def nth_append less_Suc_eq)

text \<open>A request is sent that is not for inlining, or one for inlining while nothing has failed.\<close>

lemma inlineInv_send:
  assumes "inlineInv w s" "isInline q \<Longrightarrow> \<not> s_fail s" "s_fail s \<Longrightarrow> s_fail t" "s_sent t = s_sent s @ [q]"
    "isInline q \<Longrightarrow> \<not> w_accepts w (s_sent s @ [q]) \<Longrightarrow> s_fail t"
  shows "inlineInv w t"
  unfolding inlineInv_def
proof (intro allI impI)
  fix i assume i: "refused w (s_sent t) i"
  show "s_fail t \<and> (\<forall>j<length (s_sent t). i < j \<longrightarrow> \<not> isInline (s_sent t ! j))"
  proof (cases "refused w (s_sent s) i")
    case True
    then have f: "s_fail s" "\<forall>j<length (s_sent s). i < j \<longrightarrow> \<not> isInline (s_sent s ! j)" using assms(1) by (auto simp: inlineInv_def)
    then show ?thesis using assms(2-4) by (auto simp: nth_append less_Suc_eq)
  next
    case False
    then have "i = length (s_sent s)" "isInline q" "\<not> w_accepts w (s_sent s @ [q])" using i by (auto simp: assms(4) refused_append)
    then show ?thesis using assms(4,5) by simp
  qed
qed

lemma inlineInv_same: "inlineInv w s \<Longrightarrow> s_sent t = s_sent s \<Longrightarrow> (s_fail s \<Longrightarrow> s_fail t) \<Longrightarrow> inlineInv w t"
  by (auto simp: inlineInv_def)

lemma inline_routes: "isInline (ajaxOpts r b d) \<longleftrightarrow> r = EXEC_INLINE"
  by (cases r) (simp_all add: isInline_def ajaxOpts_def serverRoutes_def genRoute_def)

lemma keepsInline_library [inline_intros]:
  "keepsInline w (throw e)" "keepsInline w (Report l)" "keepsInline w (openPage p)" "keepsInline w setFail"
  "keepsInline w (onServerNextStageStart w depth srcCode)" "keepsInline w onServerNextStageError"
  by (auto simp: keepsInline_def session_defs Let_def intro: inlineInv_same)

lemma keepsInline_start [inline_intros]: "keepsInline w (startDebugging w)"
  unfolding keepsInline_def
  by (intro allI impI, rule inlineInv_send [where q = "ajaxOpts NEXT_STAGE True None"]) (auto simp: session_defs inline_routes)

lemma keepsInline_calls [inline_intros]: "keepsInline w (mInline w a)" "keepsInline w (STG_InspectAst w a)"
proof -
  show "keepsInline w (mInline w a)"
    unfolding keepsInline_def
  proof (intro allI impI)
    fix s assume inv: "inlineInv w s"
    let ?q = "ajaxOpts EXEC_INLINE False (Some (w_text w a))"
    show "inlineInv w (snd (mInline w a s))"
    proof (cases "s_fail s \<or> \<not> isAstObj a")
      case True
      then show ?thesis using inv by (auto simp: session_defs)
    next
      case False
      then show ?thesis by (intro inlineInv_send [OF inv, where q = ?q]) (auto simp: session_defs inline_routes)
    qed
  qed
  show "keepsInline w (STG_InspectAst w a)"
    unfolding keepsInline_def
  proof (intro allI impI)
    fix s assume inv: "inlineInv w s"
    show "inlineInv w (snd (STG_InspectAst w a s))"
    proof (cases "isAstObj a")
      case False
      then show ?thesis by (intro inlineInv_same [OF inv]) (auto simp: session_defs)
    next
      case True
      then show ?thesis
        by (intro inlineInv_send [OF inv, where q = "ajaxOpts INSPECT_AST False (Some (w_text w a))"]) (auto simp: session_defs inline_routes)
    qed
  qed
qed

lemma keepsInline_runDeferred: "keepsInline w (runDeferred w src)"
proof -
  have "keepsInline w (runLibCall w x)" for x by (cases x) (auto simp: runLibCall_def intro!: inline_intros)
  then show ?thesis unfolding runDeferred_def by (intro inline_intros)
qed

lemma inlineInv_step: "session_step w s t \<Longrightarrow> inlineInv w s \<Longrightarrow> inlineInv w t"
proof (induction rule: session_step.induct)
  case (click s)
  then show ?case using keepsInline_start [of w] by (simp add: keepsInline_def)
next
  case (answer s d src)
  then have "inlineInv w (s\<lparr>s_pending := s_pending s - 1\<rparr>)" by (auto intro: inlineInv_same)
  then show ?case using keepsInline_library(5) unfolding keepsInline_def by blast
next
  case (refuse s)
  then have "inlineInv w (s\<lparr>s_pending := s_pending s - 1\<rparr>)" by (auto intro: inlineInv_same)
  then show ?case using keepsInline_library(6) unfolding keepsInline_def by blast
next
  case (evaluate s src rest)
  then have "inlineInv w (s\<lparr>s_deferred := rest\<rparr>)" by (auto intro: inlineInv_same)
  then show ?case using keepsInline_runDeferred unfolding keepsInline_def by blast
qed

section \<open>A server with finitely many stages\<close>

text \<open>
  The events of a session with a server that answers each request for a stage with the next of its stages, and with
  depth zero when there is none left, and of a user who clicks on the start button a number of times at most. Any
  order of the events is a run.
\<close>

type_synonym served = "session \<times> (nat \<times> string) list \<times> nat"

inductive served_step :: "world \<Rightarrow> served \<Rightarrow> served \<Rightarrow> bool" for w where
  click: "s_page s = BEGIN \<Longrightarrow> served_step w (s, stages, Suc n) (snd (startDebugging w s), stages, n)"
| stage: "0 < s_pending s \<Longrightarrow> served_step w (s, (depth, srcCode) # stages, n)
    (snd (onServerNextStageStart w depth srcCode (s\<lparr>s_pending := s_pending s - 1\<rparr>)), stages, n)"
| last: "0 < s_pending s \<Longrightarrow> served_step w (s, [], n) (snd (onServerNextStageStart w 0 [] (s\<lparr>s_pending := s_pending s - 1\<rparr>)), [], n)"
| evaluate: "s_deferred s = src # rest \<Longrightarrow> served_step w (s, stages, n) (snd (runDeferred w src (s\<lparr>s_deferred := rest\<rparr>)), stages, n)"

lemma served_session: "served_step w x y \<Longrightarrow> session_step w (fst x) (fst y)"
  by (induction rule: served_step.induct) (simp_all only: fst_conv session_step.intros)

definition calmStage :: "world \<Rightarrow> nat \<times> string \<Rightarrow> bool" where
  "calmStage w = (\<lambda>(depth, srcCode). 0 < depth \<and> calm w (js_unescape srcCode))"

definition workLeft :: "served \<Rightarrow> nat" where
  "workLeft = (\<lambda>(s, stages, n). 3 * length stages + 2 * length (s_deferred s) + s_pending s + 2 * n)"

text \<open>
  Of \<open>whole\<close> requests, one for each click and each stage, those that are not sent yet wait for a click, for a stage of
  the server or for the evaluation of a stage; and only depth zero leaves nothing to do.
\<close>

definition servedInv :: "world \<Rightarrow> nat \<Rightarrow> served \<Rightarrow> bool" where
  "servedInv w whole = (\<lambda>(s, stages, n).
     (\<forall>st\<in>set stages. calmStage w st) \<and> (\<forall>src\<in>set (s_deferred s). calm w src) \<and>
     sentTo ''nextstage'' s + length stages + length (s_deferred s) + n = whole \<and>
     (s_pending s = 0 \<and> s_deferred s = [] \<longrightarrow> s_sent s = [] \<or> s_page s = FINISHED \<and> stages = []))"

lemma served_progress:
  assumes "served_step w x y" "servedInv w whole x"
  shows "servedInv w whole y \<and> workLeft y < workLeft x"
  using assms
proof (induction rule: served_step.induct)
  case (click s stages n)
  then show ?case by (auto simp: servedInv_def workLeft_def session_defs sentTo_def route_urls)
next
  case (stage s depth srcCode stages n)
  then show ?case by (auto simp: servedInv_def workLeft_def session_defs sentTo_def calmStage_def Let_def)
next
  case (last s n)
  then show ?case by (auto simp: servedInv_def workLeft_def session_defs sentTo_def)
next
  case (evaluate s src rest stages n)
  then have "calm w src" by (simp add: servedInv_def)
  note run = runDeferred_calm [OF this, of "s\<lparr>s_deferred := rest\<rparr>"]
  have "sentTo ''nextstage'' (s\<lparr>s_deferred := rest\<rparr>) = sentTo ''nextstage'' s" by (simp add: sentTo_def)
  then show ?case using evaluate run by (auto simp: servedInv_def workLeft_def)
qed

lemma served_reach:
  assumes "(served_step w)\<^sup>*\<^sup>* x y" "servedInv w whole x"
  shows "servedInv w whole y"
  using assms(1) by (induction rule: rtranclp_induct) (use assms(2) served_progress in blast)+

lemma served_ends:
  assumes "servedInv w whole (f 0)" "\<And>i. served_step w (f i) (f (Suc i))"
  shows False
proof -
  have "servedInv w whole (f i) \<and> workLeft (f i) + i \<le> workLeft (f 0)" for i
  proof (induction i)
    case (Suc i)
    then show ?case using served_progress [OF assms(2), of whole i] by auto
  qed (use assms(1) in simp)
  from this [of "Suc (workLeft (f 0))"] show False by simp
qed

section \<open>Properties\<close>

text \<open>
  C38: When every escape but the last has two statements, \<open>meta_escape\<close> on an array gives the array with
  every escape replaced by its statements; in particular with at most one escape, of any length.
\<close>

theorem escape_places:
  assumes "escapesOf fromStmt 2 items"
  shows "mEscape (FromArray (normals items) (pairsFrom 0 items) fromStmt) = Inr (JArr (expand items))"
  using escapePairs_places [OF assms, of "[]" 0 0]
  by (simp add: mEscape_def mEscapeArray_def bindM_def)

lemma escape_places_witness:
  "mEscape (FromArray [JNum 1, JNum 2] [\<lparr>p_index = 1, p_expr = node_of [JNum 7, JNum 8, JNum 9]\<rparr>] True)
    = Inr (JArr [JNum 1, JNum 7, JNum 8, JNum 9, JNum 2])"
proof -
  have "escapesOf True 2 [Plain (JNum 1), Escape (node_of [JNum 7, JNum 8, JNum 9]) [JNum 7, JNum 8, JNum 9], Plain (JNum 2)]"
    by (simp add: mngGetBody_def isAstObj_def node_of_def fld_def us_elems_def js_truthy_def ret_app)
  from escape_places [OF this] show ?thesis by simp
qed

text \<open>
  When two escapes have one statement each and a node follows the second, the statement of the
  second is put behind that node instead of in front of it: the offset grows by one for every escape
  although the escape itself had taken one index.
\<close>

theorem escape_shifts:
  assumes "mngGetBody a fromStmt ([] :: jsval list) = (Inr (Some [x]), [])"
    "mngGetBody b fromStmt ([] :: jsval list) = (Inr (Some [y]), [])"
  shows "mEscape (FromArray (xs @ ys @ [z] @ zs)
      [\<lparr>p_index = int (length xs), p_expr = a\<rparr>, \<lparr>p_index = int (length xs + 1 + length ys), p_expr = b\<rparr>] fromStmt)
    = Inr (JArr (xs @ [x] @ ys @ [z] @ [y] @ zs))"
proof -
  have "spliceIn (int (length xs)) (xs @ ys @ z # zs) [x] = xs @ x # ys @ z # zs"
    using spliceIn_at [of xs "length xs" "ys @ z # zs" "[x]"] by simp
  moreover have "spliceIn (int (length xs + 1 + length ys) + 1) (xs @ x # ys @ z # zs) [y] = xs @ x # ys @ z # y # zs"
    using spliceIn_at [of "xs @ x # ys @ [z]" "length xs + 1 + length ys + 1" zs "[y]"] by simp
  ultimately show ?thesis
    using escapeBody_body [OF assms(1)] escapeBody_body [OF assms(2)]
    by (simp add: mEscape_def mEscapeArray_def bindM_def ret_def)
qed

lemma escape_shifts_witness:
  "mEscape (FromArray [JNum 1, JNum 2] [\<lparr>p_index = 0, p_expr = node_of [JNum 7]\<rparr>, \<lparr>p_index = 2, p_expr = node_of [JNum 8]\<rparr>] True)
    = Inr (JArr [JNum 7, JNum 1, JNum 2, JNum 8])"
proof -
  have "mngGetBody (node_of [JNum n]) True ([] :: jsval list) = (Inr (Some [JNum n]), [])" for n
    by (simp add: mngGetBody_def isAstObj_def node_of_def fld_def us_elems_def js_truthy_def ret_app)
  from escape_shifts [OF this [of 7] this [of 8], of "[]" "[JNum 1]" "JNum 2" "[]"] show ?thesis by simp
qed

text \<open>
  C39: After a request to inline an AST that the server refuses, no other AST is sent to be inlined, neither by the
  rest of the same stage nor by a later event of the session; and none is sent after the server has failed to
  give the next stage. (A request to inspect an AST that fails stops nothing.)
\<close>

theorem inline_stops:
  assumes "(session_step w)\<^sup>*\<^sup>* initial t"
  shows "(\<forall>i j. refused w (s_sent t) i \<and> i < j \<and> j < length (s_sent t) \<longrightarrow> \<not> isInline (s_sent t ! j)) \<and>
    (\<forall>u. (session_step w)\<^sup>*\<^sup>* (snd (onServerNextStageError t)) u \<longrightarrow> sentTo ''execinline'' u = sentTo ''execinline'' t)"
proof -
  have "inlineInv w initial" by (simp add: inlineInv_def initial_def refused_def)
  from assms(1) this have "inlineInv w t" by (induction rule: rtranclp_induct) (use inlineInv_step in blast)+
  moreover have "sentTo ''execinline'' u = sentTo ''execinline'' t" if "(session_step w)\<^sup>*\<^sup>* (snd (onServerNextStageError t)) u" for u
  proof -
    have "noInline (snd (onServerNextStageError t)) u"
      using that by (induction rule: rtranclp_induct) (use noInline_refl noInline_trans noInline_step in blast)+
    then show ?thesis by (simp add: noInline_def session_defs sentTo_def)
  qed
  ultimately show ?thesis by (auto simp: inlineInv_def)
qed

text \<open>A server that refuses, and a stage that inlines two ASTs.\<close>

definition refusing :: world where
  "refusing = \<lparr>w_accepts = (\<lambda>_. False), w_text = (\<lambda>_. []), w_code = (\<lambda>_. [OpInline (node_of []), OpInline (node_of [])])\<rparr>"

lemma inline_stops_witness:
  "\<exists>t. (session_step refusing)\<^sup>*\<^sup>* initial t \<and> refused refusing (s_sent t) 1 \<and> length (s_sent t) = 3 \<and> \<not> isInline (s_sent t ! 2)"
proof -
  let ?a = "snd (startDebugging refusing initial)"
  let ?b = "snd (onServerNextStageStart refusing 1 ''a'' (?a\<lparr>s_pending := s_pending ?a - 1\<rparr>))"
  let ?c = "snd (runDeferred refusing ''a'' (?b\<lparr>s_deferred := []\<rparr>))"
  have "session_step refusing initial ?a" by (rule session_step.click) (simp add: initial_def)
  moreover have "session_step refusing ?a ?b" by (rule session_step.answer) (simp add: session_defs)
  moreover have "session_step refusing ?b ?c"
    by (rule session_step.evaluate) (simp add: session_defs initial_def refusing_def)
  ultimately have run: "(session_step refusing)\<^sup>*\<^sup>* initial ?c" by (meson converse_rtranclp_into_rtranclp rtranclp.rtrancl_refl)
  have sent: "s_sent ?c = [ajaxOpts NEXT_STAGE True None, ajaxOpts EXEC_INLINE False (Some []), ajaxOpts NEXT_STAGE True None]"
    by (simp add: runDeferred_def runLibCall_def session_defs initial_def refusing_def isAstObj_def node_of_def fld_def)
  then have "refused refusing (s_sent ?c) 1" "length (s_sent ?c) = 3" by (simp_all add: refused_def inline_routes refusing_def)
  moreover from this have "\<not> isInline (s_sent ?c ! 2)" using inline_stops [OF run] by (metis lessI numeral_2_eq_2 numeral_3_eq_3 One_nat_def)
  ultimately show ?thesis using run by blast
qed

text \<open>
  C40: When the server has finitely many stages, none of which throws, a session that is started ends, whatever the
  order of the clicks, the answers and the evaluations is: no run goes on for ever, and a run that was started and
  cannot go on is on the page FINISHED with nothing unanswered and nothing to evaluate, has been given every stage, and
  has sent one request for each stage and each click. So it is also when an inline request fails on the way, and when
  the start button is clicked again before the first answer. The requests for a stage are all answered.
\<close>

theorem session_finishes:
  assumes "\<forall>(depth :: nat, srcCode)\<in>set stages. 0 < depth \<and> calm w (js_unescape srcCode)"
  shows "\<not> (\<exists>f. f 0 = (initial, stages, clicks) \<and> (\<forall>i. served_step w (f i) (f (Suc i)))) \<and>
    (\<forall>t rest n. (served_step w)\<^sup>*\<^sup>* (initial, stages, clicks) (t, rest, n) \<and> s_sent t \<noteq> [] \<and> (\<forall>y. \<not> served_step w (t, rest, n) y) \<longrightarrow>
       s_page t = FINISHED \<and> s_pending t = 0 \<and> s_deferred t = [] \<and> rest = [] \<and>
       sentTo ''nextstage'' t + n = length stages + clicks)"
proof (intro conjI allI impI)
  have inv: "servedInv w (length stages + clicks) (initial, stages, clicks)"
    using assms by (auto simp: servedInv_def calmStage_def initial_def sentTo_def)
  show "\<not> (\<exists>f. f 0 = (initial, stages, clicks) \<and> (\<forall>i. served_step w (f i) (f (Suc i))))"
    using served_ends inv by metis
  fix t rest n
  assume t: "(served_step w)\<^sup>*\<^sup>* (initial, stages, clicks) (t, rest, n) \<and> s_sent t \<noteq> [] \<and> (\<forall>y. \<not> served_step w (t, rest, n) y)"
  have "s_pending t = 0" using t served_step.stage [of t w] served_step.last [of t w n] by (cases rest) (metis neq0_conv prod.collapse)+
  moreover have "s_deferred t = []" using t served_step.evaluate [of t] by (metis neq_Nil_conv)
  moreover note served_reach [OF conjunct1 [OF t] inv]
  ultimately show "s_page t = FINISHED" "s_pending t = 0" "s_deferred t = []" "rest = []"
    "sentTo ''nextstage'' t + n = length stages + clicks"
    using t by (auto simp: servedInv_def)
qed

lemma session_finishes_witness:
  "\<not> (\<exists>f. f 0 = (initial, [(2, ''a''), (1, ''b'')], 2) \<and> (\<forall>i. served_step refusing (f i) (f (Suc i))))"
proof -
  have "\<forall>(depth, srcCode)\<in>set [(2, ''a''), (1 :: nat, ''b'')]. 0 < depth \<and> calm refusing (js_unescape srcCode)"
    by (simp add: calm_def refusing_def isAstObj_def node_of_def fld_def)
  from session_finishes [OF this, of 2] show ?thesis by simp
qed

text \<open>The error page of a failed inline request does not stay: the session goes on and shows FINISHED.\<close>

lemma error_page_lost:
  "\<exists>s t. (session_step refusing)\<^sup>*\<^sup>* initial s \<and> s_page s = ERROR ''inline execution fail on server.'' \<and>
     (session_step refusing)\<^sup>*\<^sup>* s t \<and> s_page t = FINISHED"
proof -
  let ?a = "snd (startDebugging refusing initial)"
  let ?b = "snd (onServerNextStageStart refusing 1 ''a'' (?a\<lparr>s_pending := s_pending ?a - 1\<rparr>))"
  let ?c = "snd (runDeferred refusing ''a'' (?b\<lparr>s_deferred := []\<rparr>))"
  let ?d = "snd (onServerNextStageStart refusing 0 [] (?c\<lparr>s_pending := s_pending ?c - 1\<rparr>))"
  have "session_step refusing initial ?a" by (rule session_step.click) (simp add: initial_def)
  moreover have "session_step refusing ?a ?b" by (rule session_step.answer) (simp add: session_defs)
  moreover have "session_step refusing ?b ?c"
    by (rule session_step.evaluate) (simp add: session_defs initial_def refusing_def)
  moreover have c: "s_page ?c = ERROR ''inline execution fail on server.''" "s_pending ?c = 1"
    by (simp_all add: runDeferred_def runLibCall_def session_defs initial_def refusing_def isAstObj_def node_of_def fld_def)
  moreover have "session_step refusing ?c ?d" by (rule session_step.answer) (simp only: c zero_less_one)
  moreover have "s_page ?d = FINISHED" by (simp add: onServerNextStageStart_def openPage_def)
  ultimately show ?thesis by (meson converse_rtranclp_into_rtranclp rtranclp.rtrancl_refl)
qed

end
