(* ===== verification/JS_Strings.thy ===== *)
theory JS_Strings
  imports JS_Prelude
begin

text \<open>
  The string methods of JavaScript that the analysis scripts use, and the pieces of their regular
  expressions: a search for a literal text, runs of digits, and runs of characters that a dot matches.
\<close>

definition startsWith :: "string \<Rightarrow> string \<Rightarrow> bool" where
  "startsWith p s \<longleftrightarrow> take (length p) s = p"

definition endsWith :: "string \<Rightarrow> string \<Rightarrow> bool" where
  "endsWith p s \<longleftrightarrow> startsWith (rev p) (rev s)"

text \<open>The index of the first occurrence, none where \<open>indexOf\<close> gives -1.\<close>

fun indexOf :: "string \<Rightarrow> string \<Rightarrow> nat option" where
  "indexOf p [] = (if p = [] then Some 0 else None)"
| "indexOf p (c # cs) = (if startsWith p (c # cs) then Some 0 else map_option Suc (indexOf p cs))"

definition has :: "string \<Rightarrow> string \<Rightarrow> bool" where
  "has p s \<longleftrightarrow> indexOf p s \<noteq> None"

definition lastIndexOf :: "string \<Rightarrow> string \<Rightarrow> nat option" where
  "lastIndexOf p s = map_option (\<lambda>i. length s - length p - i) (indexOf (rev p) (rev s))"

definition replaceFirst :: "string \<Rightarrow> string \<Rightarrow> string \<Rightarrow> string" where
  "replaceFirst p q s = (case indexOf p s of None \<Rightarrow> s | Some i \<Rightarrow> take i s @ q @ drop (i + length p) s)"

definition stripPrefix :: "string \<Rightarrow> string \<Rightarrow> string option" where
  "stripPrefix p s = (if startsWith p s then Some (drop (length p) s) else None)"

text \<open>\<open>split\<close> at a line feed.\<close>

fun splitLines :: "string \<Rightarrow> string list" where
  "splitLines [] = [[]]"
| "splitLines (c # cs) =
     (if c = char_of (10 :: nat) then [] # splitLines cs
      else case splitLines cs of [] \<Rightarrow> [[c]] | l # ls \<Rightarrow> (c # l) # ls)"

definition joinLines :: "string list \<Rightarrow> string" where
  "joinLines ls = concat (map (\<lambda>l. l @ [char_of (10 :: nat)]) ls)"

definition isDigit :: "char \<Rightarrow> bool" where
  "isDigit c = (48 \<le> (of_char c :: nat) \<and> (of_char c :: nat) \<le> 57)"

text \<open>A dot matches every character but the line terminators.\<close>

definition isDot :: "char \<Rightarrow> bool" where
  "isDot c = (c \<noteq> char_of (10 :: nat) \<and> c \<noteq> char_of (13 :: nat))"

definition digitRun :: "string \<Rightarrow> (string \<times> string) option" where
  "digitRun s = (if takeWhile isDigit s = [] then None else Some (takeWhile isDigit s, dropWhile isDigit s))"

section \<open>Facts\<close>

lemma startsWith_append [simp]: "startsWith p (p @ s)"
  by (simp add: startsWith_def)

lemma startsWith_iff: "startsWith p s \<longleftrightarrow> (\<exists>r. s = p @ r)"
  by (metis append_take_drop_id append_eq_conv_conj startsWith_def)

lemma stripPrefix_append [simp]: "stripPrefix p (p @ s) = Some s"
  by (simp add: stripPrefix_def)

lemma stripPrefix_Some_iff: "stripPrefix p s = Some r \<longleftrightarrow> s = p @ r"
  by (auto simp: stripPrefix_def startsWith_iff)

lemma indexOf_Some: "indexOf p s = Some i \<Longrightarrow> s = take i s @ p @ drop (i + length p) s \<and> i + length p \<le> length s"
proof (induction p s arbitrary: i rule: indexOf.induct)
  case (2 p c cs)
  show ?case
  proof (cases "startsWith p (c # cs)")
    case True
    then obtain r where r: "c # cs = p @ r" by (auto simp: startsWith_iff)
    then have "length (c # cs) = length p + length r" by (metis length_append)
    moreover have "i = 0" using True 2(2) by simp
    ultimately show ?thesis using r by simp
  next
    case False
    then obtain j where "indexOf p cs = Some j" "i = Suc j" using 2(2) by auto
    then show ?thesis using 2(1) False by auto
  qed
qed (auto split: if_splits)

lemma indexOf_start: "indexOf p (p @ b) = Some 0"
proof (cases "p @ b")
  case (Cons c cs)
  then show ?thesis by (metis indexOf.simps(2) startsWith_append)
qed simp

lemma has_iff: "has p s \<longleftrightarrow> (\<exists>a b. s = a @ p @ b)"
proof
  assume "has p s"
  then obtain i where "indexOf p s = Some i" by (auto simp: has_def)
  from indexOf_Some [OF this] show "\<exists>a b. s = a @ p @ b" by blast
next
  assume "\<exists>a b. s = a @ p @ b"
  then obtain a b where "s = a @ p @ b" by blast
  moreover have "indexOf p (a @ p @ b) \<noteq> None"
  proof (induction a)
    case Nil
    then show ?case by (simp add: indexOf_start)
  qed auto
  ultimately show "has p s" by (simp add: has_def)
qed

lemma indexOf_first:
  assumes "\<And>i. i < length a \<Longrightarrow> \<not> startsWith p (drop i (a @ p @ b))"
  shows "indexOf p (a @ p @ b) = Some (length a)"
  using assms
proof (induction a)
  case Nil
  show ?case by (simp add: indexOf_start)
next
  case (Cons c a)
  have "\<not> startsWith p ((c # a) @ p @ b)" using Cons.prems [of 0] by simp
  moreover have "indexOf p (a @ p @ b) = Some (length a)"
    by (rule Cons.IH) (use Cons.prems [of "Suc _"] in simp)
  ultimately show ?case by simp
qed

lemma splitLines_nonempty: "splitLines s \<noteq> []"
  by (cases s) (auto split: list.splits)

lemma splitLines_line:
  "char_of (10 :: nat) \<notin> set l \<Longrightarrow> splitLines (l @ char_of (10 :: nat) # s) = l # splitLines s"
  by (induction l) auto

lemma splitLines_joinLines:
  "\<forall>l\<in>set ls. char_of (10 :: nat) \<notin> set l \<Longrightarrow> splitLines (joinLines ls) = ls @ [[]]"
  by (induction ls) (auto simp: joinLines_def splitLines_line)

lemma digitRun_append:
  assumes "d \<noteq> []" "list_all isDigit d" "s = [] \<or> \<not> isDigit (hd s)"
  shows "digitRun (d @ s) = Some (d, s)"
proof -
  have "takeWhile isDigit (d @ s) = d" "dropWhile isDigit (d @ s) = s"
    using assms(2,3) by (cases s; auto simp: list_all_iff)+
  then show ?thesis using assms(1) by (simp add: digitRun_def)
qed

lemma show_nat_digits: "show_nat n \<noteq> [] \<and> list_all isDigit (show_nat n)"
proof (induction n rule: show_nat.induct)
  case (1 n)
  have d: "isDigit (char_of (48 + d))" if "d < 10" for d :: nat
  proof -
    have "of_char (char_of (48 + d) :: char) = 48 + d" using that by simp
    then show ?thesis using that by (simp add: isDigit_def)
  qed
  show ?case
    using 1 d [of n] d [of "n mod 10"] by (subst (1 2) show_nat.simps) (auto simp: Let_def)
qed

end
