(* ===== verification/Hazard_Data.thy ===== *)
theory Hazard_Data
  imports JS_Strings
begin

text \<open>
  What the scripts of \<open>devtools/rootAnalysis\<close> read and share: the function bodies that the sixgill
  plugin writes as JSON, the comparisons of \<open>utility.js\<close>, and the tables and patterns of
  \<open>annotations.js\<close>, which say what is trusted not to collect garbage.

  A body is a block of program points with edges between them; a loop inside a function is a block of its
  own, entered by a loop edge of its parent. Names are those of C++ functions with their signatures, and
  never the name of a property that every JavaScript object has.
\<close>

section \<open>Bodies\<close>

record gvar =
  v_kind :: string
  v_name :: "string option"

record gfield =
  f_name :: string
  f_csu :: string
  f_virtual :: bool

datatype gexp =
    EVar gvar
  | EFld gexp gfield
  | EDrf gexp
  | EOther string "gexp list"

datatype gtype =
    TCSU string
  | TPointer gtype
  | TArray gtype
  | TOther string "gtype option"

record blockid =
  k_kind :: string
  k_var :: gvar
  k_loop :: string

record edge =
  e_kind :: string
  e_src :: nat
  e_dst :: nat
  e_exps :: "gexp list"
  e_inst :: "gexp option"
  e_args :: "gexp list"
  e_block :: "blockid option"

record body =
  b_block :: blockid
  b_entry :: nat
  b_exit :: nat
  b_edges :: "edge list"
  b_parents :: "(blockid \<times> nat) list"
  b_vars :: "(gvar \<times> gtype) list"
  b_points :: "(string \<times> nat) list"

section \<open>Utilities\<close>

definition assert :: "bool \<Rightarrow> string \<Rightarrow> ('s, unit) jsm" where
  "assert x what = guardM x (AssertionFailed what)"

definition named :: "gvar \<Rightarrow> bool" where
  "named v \<longleftrightarrow> v_name v \<noteq> None \<or> v_kind v = ''This'' \<or> v_kind v = ''Return''"

definition sameVariable :: "gvar \<Rightarrow> gvar \<Rightarrow> ('s, bool) jsm" where
  "sameVariable var0 var1 =
     bindM (assert (named var0) ''Name'') (\<lambda>_.
     bindM (assert (named var1) ''Name'') (\<lambda>_.
     ret (case v_name var0 of
            Some n \<Rightarrow> v_name var1 = Some n
          | None \<Rightarrow> v_kind var0 = v_kind var1)))"

definition sameBlockId :: "blockid \<Rightarrow> blockid \<Rightarrow> ('s, bool) jsm" where
  "sameBlockId id0 id1 =
     (if k_kind id0 \<noteq> k_kind id1 then ret False
      else bindM (sameVariable (k_var id0) (k_var id1)) (\<lambda>same.
           if \<not> same then ret False
           else if k_kind id0 = ''Loop'' \<and> k_loop id0 \<noteq> k_loop id1 then ret False
           else ret True))"

definition otherDestructorName :: "string \<Rightarrow> string option" where
  "otherDestructorName name =
     (if \<not> has ''::~'' name then None
      else if has ''(int32)'' name then Some (replaceFirst ''(int32)'' ''()'' name)
      else if has ''()'' name then Some (replaceFirst ''()'' ''(int32)'' name)
      else None)"

text \<open>An element of an expression list; reading the kind of a missing one throws.\<close>

definition expAt :: "edge \<Rightarrow> nat \<Rightarrow> ('s, gexp) jsm" where
  "expAt e i = (if i < length (e_exps e) then ret (e_exps e ! i) else throw TypeError)"

text \<open>The first component of a variable's name.\<close>

definition nameOf :: "gvar \<Rightarrow> ('s, string) jsm" where
  "nameOf v = (case v_name v of None \<Rightarrow> throw TypeError | Some n \<Rightarrow> ret n)"

text \<open>A callee that is a variable is a function.\<close>

definition calleeName :: "gvar \<Rightarrow> ('s, string) jsm" where
  "calleeName v = bindM (assert (v_kind v = ''Func'') ''Func'') (\<lambda>_. nameOf v)"

text \<open>
  The questions about variables, expressions and edges have no state of their own: they are asked in
  whatever state the analysis is in.
\<close>

type_synonym 'a question = "(unit, 'a) jsm"

definition ask :: "'a question \<Rightarrow> ('s, 'a) jsm" where
  "ask q s = (fst (q ()), s)"

definition answers :: "'a question \<Rightarrow> 'a \<Rightarrow> bool" where
  "answers q x \<longleftrightarrow> fst (q ()) = Inr x"

lemma ask_answers: "answers q x \<Longrightarrow> ask q = ret x"
  by (simp add: answers_def ask_def ret_def fun_eq_iff)

lemma answers_unique: "answers q x \<Longrightarrow> answers q y \<Longrightarrow> x = y"
  by (simp add: answers_def)

section \<open>Annotations\<close>

definition ignoreIndirectCalls :: "string list" where
  "ignoreIndirectCalls = [''mallocSizeOf'', ''aMallocSizeOf'', ''_malloc_message'', ''__conv'', ''__convf'',
     ''prerrortable.c:callback_newtable'', ''mozalloc_oom.cpp:void (* gAbortHandler)(size_t)'']"

definition indirectCallCannotGC :: "string \<Rightarrow> string \<Rightarrow> bool" where
  "indirectCallCannotGC caller name \<longleftrightarrow>
     name \<in> set ignoreIndirectCalls \<or>
     name = ''mapper'' \<and> caller = ''ptio.c:pt_MapError'' \<or>
     name = ''params'' \<and> caller = ''PR_ExplodeTime'' \<or>
     has ''CallDestroyScriptHook'' caller \<or>
     name = ''op'' \<and> startsWith ''bool js::WeakMap<Key, Value, HashPolicy>::keyNeedsMark(JSObject*)'' caller"

definition ignoreClasses :: "string list" where
  "ignoreClasses = [''JSTracer'', ''JSStringFinalizer'', ''SprintfStateStr'', ''JSLocaleCallbacks'', ''JSC::ExecutableAllocator'',
     ''PRIOMethods'', ''XPCOMFunctions'', ''_MD_IOVector'']"

definition ignoreCallees :: "string list" where
  "ignoreCallees = [''js::Class.trace'', ''js::Class.finalize'', ''JSRuntime.destroyPrincipals'', ''nsISupports.AddRef'',
     ''nsISupports.Release'', ''nsAXPCNativeCallContext.GetJSContext'', ''js::ion::MDefinition.op'', ''js::ion::MDefinition.opName'',
     ''js::ion::LInstruction.getDef'', ''js::ion::IonCache.kind'', ''icu_50::UObject.__deleting_dtor'']"

definition fieldCallCannotGC :: "string \<Rightarrow> string \<Rightarrow> bool" where
  "fieldCallCannotGC csu fullfield \<longleftrightarrow> csu \<in> set ignoreClasses \<or> fullfield \<in> set ignoreCallees"

definition shouldSuppressGC :: "string \<Rightarrow> bool" where
  "shouldSuppressGC name \<longleftrightarrow>
     has ''TypeScript::Purge'' name \<or> has ''StackTypeSet::addPropagateThis'' name \<or>
     has ''ScriptAnalysis::addPushedType'' name \<or> has ''IonBuilder'' name"

text \<open>The name of the function that an edge calls directly.\<close>

definition directCallee :: "edge \<Rightarrow> ('s, string option) jsm" where
  "directCallee e =
     (if e_kind e \<noteq> ''Call'' then ret None
      else bindM (expAt e 0) (\<lambda>callee. case callee of
             EVar v \<Rightarrow> bindM (nameOf v) (\<lambda>n. ret (Some n))
           | _ \<Rightarrow> ret None))"

definition ignoreEdgeUse :: "edge \<Rightarrow> ('s, bool) jsm" where
  "ignoreEdgeUse e = bindM (directCallee e) (\<lambda>callee. ret (case callee of
       None \<Rightarrow> False
     | Some name \<Rightarrow> has ''~Anchor'' name \<or> has ''::Unrooted()'' name \<or> has ''::~Unrooted()'' name \<or> has ''~DebugOnly'' name))"

definition ignoreEdgeAddressTaken :: "edge \<Rightarrow> ('s, bool) jsm" where
  "ignoreEdgeAddressTaken e = bindM (directCallee e) (\<lambda>callee. ret (case callee of
       None \<Rightarrow> False
     | Some name \<Rightarrow> has ''js::Invoke('' name))"

definition ignoreFunctions :: "string list" where
  "ignoreFunctions = [''ptio.c:pt_MapError'', ''PR_ExplodeTime'', ''PR_ErrorInstallTable'', ''PR_SetThreadPrivate'',
     ''JSObject* js::GetWeakmapKeyDelegate(JSObject*)'']"

definition ignoreGCFunction :: "string \<Rightarrow> bool" where
  "ignoreGCFunction f \<longleftrightarrow>
     f \<in> set ignoreFunctions \<or>
     has ''void nsCOMPtr<T>::Assert_NoQueryNeeded()'' f \<or>
     has ''refillFreeList'' f \<and> has ''(js::AllowGC)0u'' f"

definition isRootedTypeName :: "string \<Rightarrow> bool" where
  "isRootedTypeName name \<longleftrightarrow>
     name \<in> set [''mozilla::ErrorResult'', ''js::frontend::TokenStream'', ''js::frontend::TokenStream::Position'', ''ModuleCompiler'']"

definition dropPrefix :: "string \<Rightarrow> string \<Rightarrow> string" where
  "dropPrefix p name = (if startsWith p name then drop (length p) name else name)"

definition isRootedPointerTypeName :: "string \<Rightarrow> bool" where
  "isRootedPointerTypeName name0 =
     (let name = fold dropPrefix [''struct '', ''class '', ''const '', ''js::ctypes::'', ''js::'', ''JS::''] name0 in
      if startsWith ''MaybeRooted<'' name then has ''(js::AllowGC)1u>::RootType'' name
      else startsWith ''Rooted'' name)"

definition isSuppressConstructor :: "string \<Rightarrow> bool" where
  "isSuppressConstructor name \<longleftrightarrow> has ''::AutoSuppressGC'' name \<or> has ''::AutoEnterAnalysis'' name"

end
