(* ===== verification/Worklist.thy ===== *)
theory Worklist
  imports JS_Prelude "HOL-Library.While_Combinator" "HOL-Library.Multiset"
begin

text \<open>
  Worklist loops: \<open>while (worklist.length) { x = worklist.pop(); ... worklist.push(y); ... }\<close>. The body is a
  computation that is given the popped item and returns the items it pushes, in order, or the value with
  which it leaves the enclosing function. The loop is a while loop, which need not end: a loop that
  does not end is a \<open>RecursionGuard\<close>, which no code raises.
\<close>

type_synonym ('s, 'x, 'a) work = "(jserr + ('x list + 'a)) \<times> 's"

definition unfinished :: "('s, 'x, 'a) work \<Rightarrow> bool" where
  "unfinished c = (case fst c of Inr (Inl w) \<Rightarrow> w \<noteq> [] | _ \<Rightarrow> False)"

definition workStep :: "('x \<Rightarrow> ('s, 'x list + 'a) jsm) \<Rightarrow> ('s, 'x, 'a) work \<Rightarrow> ('s, 'x, 'a) work" where
  "workStep visit c = (case c of
       (Inr (Inl w), s) \<Rightarrow> (case visit (List.last w) s of
           (Inr (Inl new), t) \<Rightarrow> (Inr (Inl (butlast w @ new)), t)
         | r \<Rightarrow> r)
     | r \<Rightarrow> r)"

definition loopM :: "('x \<Rightarrow> ('s, 'x list + 'a) jsm) \<Rightarrow> 'x list \<Rightarrow> ('s, 'a option) jsm" where
  "loopM visit w s = (case while_option unfinished (workStep visit) (Inr (Inl w), s) of
       None \<Rightarrow> (Inl RecursionGuard, s)
     | Some (Inl e, t) \<Rightarrow> (Inl e, t)
     | Some (Inr (Inl w'), t) \<Rightarrow> (Inr None, t)
     | Some (Inr (Inr a), t) \<Rightarrow> (Inr (Some a), t))"

text \<open>
  The rule for total correctness: an invariant of the worklist and the state that every iteration keeps
  while it descends in a well-founded relation, or after which it leaves the loop.
\<close>

theorem loopM_rule:
  fixes visit :: "'x \<Rightarrow> ('s, 'x list + 'a) jsm"
  assumes "P w s" "wf R"
    and step: "\<And>w x s. P (w @ [x]) s \<Longrightarrow> (case visit x s of
          (Inl e, t) \<Rightarrow> E e t
        | (Inr (Inr a), t) \<Rightarrow> Q a t
        | (Inr (Inl new), t) \<Rightarrow> P (w @ new) t \<and> ((w @ new, t), (w @ [x], s)) \<in> R)"
  shows "\<exists>r t. loopM visit w s = (r, t) \<and> (case r of Inl e \<Rightarrow> E e t | Inr None \<Rightarrow> P [] t | Inr (Some a) \<Rightarrow> Q a t)"
proof -
  let ?P = "\<lambda>(r, t). case r of Inl e \<Rightarrow> E e t | Inr (Inl w) \<Rightarrow> P w t | Inr (Inr a) \<Rightarrow> Q a t"
  let ?R = "{(c :: ('s, 'x, 'a) work, d :: ('s, 'x, 'a) work). \<exists>w s. d = (Inr (Inl w), s) \<and> (\<not> (\<exists>v t. c = (Inr (Inl v), t)) \<or> (\<exists>v t. c = (Inr (Inl v), t) \<and> ((v, t), (w, s)) \<in> R))}"
  have wfR: "wf ?R"
  proof (rule wfI_min)
    fix c :: "('s, 'x, 'a) work" and C assume "c \<in> C"
    show "\<exists>z\<in>C. \<forall>y. (y, z) \<in> ?R \<longrightarrow> y \<notin> C"
    proof (cases "\<exists>z\<in>C. \<not> (\<exists>v t. z = (Inr (Inl v), t))")
      case True
      then show ?thesis by blast
    next
      case False
      let ?D = "{(w, t). (Inr (Inl w), t) \<in> C}"
      obtain v t where "c = (Inr (Inl v), t)" using False \<open>c \<in> C\<close> by blast
      then have "(v, t) \<in> ?D" using \<open>c \<in> C\<close> by simp
      from wfE_min [OF \<open>wf R\<close> this] obtain z where z: "z \<in> ?D" "\<And>y. (y, z) \<in> R \<Longrightarrow> y \<notin> ?D" by blast
      show ?thesis
      proof (intro bexI allI impI)
        show "(Inr (Inl (fst z)), snd z) \<in> C" using z(1) by auto
        fix y assume y: "(y, (Inr (Inl (fst z)), snd z)) \<in> ?R"
        show "y \<notin> C"
        proof
          assume "y \<in> C"
          then obtain u r where u: "y = (Inr (Inl u), r)" using False by blast
          then have "((u, r), z) \<in> R" using y by auto
          then show False using z(2) u \<open>y \<in> C\<close> by auto
        qed
      qed
    qed
  qed
  have step': "?P (workStep visit c) \<and> (workStep visit c, c) \<in> ?R" if c: "?P c" "unfinished c" for c
  proof -
    obtain w t where w: "c = (Inr (Inl w), t)" "w \<noteq> []"
      using c(2) by (cases c; cases "fst c") (auto simp: unfinished_def split: sum.splits)
    then have "P (butlast w @ [List.last w]) t" using c(1) by simp
    from step [OF this] show ?thesis
      using w by (auto simp: workStep_def split: prod.splits sum.splits)
  qed
  obtain c where c: "while_option unfinished (workStep visit) (Inr (Inl w), s) = Some c"
    using wf_rel_while_option_Some [where P = ?P and b = unfinished and c = "workStep visit" and s = "(Inr (Inl w), s)", OF wfR]
      step' assms(1) by auto
  have "?P c" "\<not> unfinished c"
    using while_option_rule [where P = ?P, OF _ c] step' assms(1) while_option_stop [OF c] by auto
  then show ?thesis
    by (auto simp: loopM_def c unfinished_def split: prod.splits sum.splits)
qed

text \<open>A worklist whose items only push smaller items: it ends although items may be visited many times.\<close>

lemma wf_pushes_smaller:
  fixes h :: "'x \<Rightarrow> nat"
  shows "wf (inv_image (mult less_than) (\<lambda>(w, s). mset (map h w)))"
  by (intro wf_inv_image wf_mult wf_less_than)

lemma pushes_smaller:
  fixes h :: "'x \<Rightarrow> nat"
  assumes "\<And>y. y \<in> set new \<Longrightarrow> h y < h x"
  shows "((w @ new, t), (w @ [x], s)) \<in> inv_image (mult less_than) (\<lambda>(w, s). mset (map h w))"
proof -
  have "(mset (map h w) + mset (map h new), mset (map h w) + {#h x#}) \<in> mult less_than"
    by (rule one_step_implies_mult) (use assms in auto)
  then show ?thesis by (simp add: inv_image_def)
qed

section \<open>Searches\<close>

text \<open>
  A search handles every item it is given and every item that a handled one needs, but an item counts as
  handled when a greater one is. Each visit of an item that is not handled lowers the rank.
\<close>

locale search =
  fixes visit :: "'x \<Rightarrow> ('s, 'x list + 'a) jsm"
    and inv :: "'s \<Rightarrow> bool" and item :: "'x \<Rightarrow> bool" and rank :: "'s \<Rightarrow> nat"
    and handled :: "'s \<Rightarrow> 'x set" and needs :: "'x \<Rightarrow> 'x set" and le :: "'x \<Rightarrow> 'x \<Rightarrow> bool"
  assumes le_refl: "le x x"
    and handled_le: "inv s \<Longrightarrow> y \<in> handled s \<Longrightarrow> le x y \<Longrightarrow> x \<in> handled s"
    and visit_item: "inv s \<Longrightarrow> item x \<Longrightarrow> (case visit x s of
          (Inl e, t) \<Rightarrow> False
        | (Inr (Inr a), t) \<Rightarrow> True
        | (Inr (Inl new), t) \<Rightarrow> inv t \<and> set new \<subseteq> needs x \<and> (\<forall>y\<in>set new. item y) \<and>
            (rank t < rank s \<or> rank t = rank s \<and> new = []) \<and> x \<in> handled t \<and> handled s \<subseteq> handled t \<and>
            (\<forall>y\<in>handled t - handled s. le y x \<and> (\<forall>z\<in>needs y. \<exists>u\<in>handled t \<union> set new. le z u)))"
begin

definition reach :: "'x list \<Rightarrow> 'x \<Rightarrow> bool" where
  "reach w y \<longleftrightarrow> (\<exists>x\<in>set w. (\<lambda>a b. b \<in> needs a)\<^sup>*\<^sup>* x y)"

definition closedBy :: "'x list \<Rightarrow> 's \<Rightarrow> bool" where
  "closedBy w s \<longleftrightarrow> (\<forall>y\<in>handled s. \<forall>z\<in>needs y. z \<in> handled s \<or> (\<exists>u\<in>set w. le z u))"

lemma reach_start: "x \<in> set w \<Longrightarrow> reach w x"
  by (auto simp: reach_def)

lemma reach_step: "reach w x \<Longrightarrow> y \<in> needs x \<Longrightarrow> reach w y"
  unfolding reach_def by (meson rtranclp.rtrancl_into_rtrancl)

text \<open>What holds of the worklist and the state, from the start on.\<close>

definition searching :: "'x list \<Rightarrow> 's \<Rightarrow> 'x list \<Rightarrow> 's \<Rightarrow> bool" where
  "searching w0 s0 w s \<longleftrightarrow> inv s \<and> (\<forall>x\<in>set w. item x \<and> reach w0 x) \<and> closedBy w s \<and>
     handled s0 \<subseteq> handled s \<and> set w0 \<subseteq> handled s \<union> set w \<and> (\<forall>y\<in>handled s. y \<in> handled s0 \<or> (\<exists>x. reach w0 x \<and> le y x))"

lemma searching_step:
  assumes "searching w0 s0 (w @ [x]) s" "visit x s = (Inr (Inl new), t)"
  shows "searching w0 s0 (w @ new) t \<and> (rank t < rank s \<or> rank t = rank s \<and> new = [])"
proof -
  have x: "inv s" "item x" "reach w0 x" using assms(1) by (auto simp: searching_def)
  have v: "inv t" "set new \<subseteq> needs x" "\<forall>y\<in>set new. item y" "rank t < rank s \<or> rank t = rank s \<and> new = []"
    "x \<in> handled t" "handled s \<subseteq> handled t"
    "\<And>y. y \<in> handled t - handled s \<Longrightarrow> le y x \<and> (\<forall>z\<in>needs y. \<exists>u\<in>handled t \<union> set new. le z u)"
    using visit_item [OF x(1,2)] assms(2) by auto
  have "closedBy (w @ new) t"
    unfolding closedBy_def
  proof (intro ballI)
    fix y z assume y: "y \<in> handled t" "z \<in> needs y"
    show "z \<in> handled t \<or> (\<exists>u\<in>set (w @ new). le z u)"
    proof (cases "y \<in> handled s")
      case True
      then have "z \<in> handled s \<or> (\<exists>u\<in>set (w @ [x]). le z u)"
        using assms(1) y(2) unfolding searching_def closedBy_def by blast
      then show ?thesis using v(1,5,6) handled_le [of t x z] by auto
    next
      case False
      then obtain u where "u \<in> handled t \<union> set new" "le z u" using v(7) [of y] y by blast
      then show ?thesis using v(1) handled_le [of t u z] by auto
    qed
  qed
  moreover have "reach w0 y" if "y \<in> set new" for y using that v(2) x(3) reach_step by blast
  moreover have "y \<in> handled s0 \<or> (\<exists>x. reach w0 x \<and> le y x)" if "y \<in> handled t" for y
    using that v(7) [of y] x(3) assms(1) unfolding searching_def by blast
  ultimately show ?thesis using v(1-6) assms(1) unfolding searching_def by auto
qed

theorem search_result:
  assumes "inv s" "\<forall>x\<in>set w. item x" "closedBy [] s"
  shows "\<exists>r t. loopM visit w s = (Inr r, t) \<and> (case r of
      None \<Rightarrow> searching w s [] t
    | Some a \<Rightarrow> \<exists>x s'. reach w x \<and> item x \<and> inv s' \<and> visit x s' = (Inr (Inr a), t))"
proof -
  let ?R = "inv_image (less_than <*lex*> less_than) (\<lambda>(w, s). (rank s, length w))"
  let ?Q = "\<lambda>a t. \<exists>x s'. reach w x \<and> item x \<and> inv s' \<and> visit x s' = (Inr (Inr a), t)"
  have "\<exists>r t. loopM visit w s = (r, t) \<and> (case r of Inl e \<Rightarrow> False | Inr None \<Rightarrow> searching w s [] t | Inr (Some a) \<Rightarrow> ?Q a t)"
  proof (rule loopM_rule [where R = ?R and P = "searching w s"])
    show "searching w s w s" using assms reach_start by (auto simp: searching_def closedBy_def)
    show "wf ?R" by auto
    fix v x u assume h: "searching w s (v @ [x]) u"
    then have x: "inv u" "item x" "reach w x" by (auto simp: searching_def)
    obtain r t where r: "visit x u = (r, t)" by (cases "visit x u")
    show "case visit x u of (Inl e, t) \<Rightarrow> False | (Inr (Inr a), t) \<Rightarrow> ?Q a t
        | (Inr (Inl new), t) \<Rightarrow> searching w s (v @ new) t \<and> ((v @ new, t), (v @ [x], u)) \<in> ?R"
    proof (cases r)
      case (Inl e)
      then show ?thesis using visit_item [OF x(1,2)] r by simp
    next
      case (Inr b)
      show ?thesis
      proof (cases b)
        case (Inl new)
        then show ?thesis using searching_step [OF h] r Inr by auto
      next
        case (Inr a)
        then have "visit x u = (Inr (Inr a), t)" using r \<open>r = Inr b\<close> by simp
        then show ?thesis using x by auto
      qed
    qed
  qed
  then obtain r t where "loopM visit w s = (r, t)" "case r of Inl e \<Rightarrow> False | Inr None \<Rightarrow> searching w s [] t | Inr (Some a) \<Rightarrow> ?Q a t"
    by blast
  then show ?thesis by (cases r) auto
qed

text \<open>At the end of a search every reachable item is handled.\<close>

lemma search_complete:
  assumes "searching w s [] t" "reach w y"
  shows "y \<in> handled t"
proof -
  obtain x where "x \<in> set w" "(\<lambda>a b. b \<in> needs a)\<^sup>*\<^sup>* x y" using assms(2) by (auto simp: reach_def)
  from this(2,1) show ?thesis
  proof (induction rule: rtranclp_induct)
    case base
    then show ?case using assms(1) by (auto simp: searching_def)
  next
    case (step y z)
    then show ?case using assms(1) unfolding searching_def closedBy_def by fastforce
  qed
qed

lemma search_sound:
  assumes "searching w s [] t" "y \<in> handled t"
  shows "y \<in> handled s \<or> (\<exists>x. reach w x \<and> le y x)"
  using assms unfolding searching_def by blast

end

section \<open>Loops over a list\<close>

text \<open>What every step keeps, and what the steps of a loop collect.\<close>

lemma mapM_invariant:
  assumes "mapM f xs s = (r, t)" "P s" "\<And>x s r t. f x s = (r, t) \<Longrightarrow> P s \<Longrightarrow> P t"
  shows "P t"
  using assms(1,2)
proof (induction xs arbitrary: s r)
  case (Cons x xs)
  obtain r1 s1 where f: "f x s = (r1, s1)" by (cases "f x s")
  then have "P s1" using assms(3) Cons.prems(2) by blast
  show ?case
  proof (cases r1)
    case (Inl e)
    then show ?thesis using f Cons.prems(1) \<open>P s1\<close> by (simp add: bindM_def)
  next
    case (Inr a)
    obtain r2 s2 where m: "mapM f xs s1 = (r2, s2)" by (cases "mapM f xs s1")
    then have "s2 = t" using f Inr Cons.prems(1) by (auto simp: bindM_def ret_def split: sum.splits)
    then show ?thesis using Cons.IH m \<open>P s1\<close> by blast
  qed
qed (simp add: ret_def)

lemma mapM_collect:
  fixes E :: "'f set"
  assumes "\<And>x E s. x \<in> set xs \<Longrightarrow> I E s \<Longrightarrow> \<exists>y s'. h x s = (Inr y, s') \<and> I (E \<union> F x) s'"
    and "I E s"
  shows "\<exists>ys s'. mapM h xs s = (Inr ys, s') \<and> I (E \<union> (\<Union>x\<in>set xs. F x)) s'"
  using assms
proof (induction xs arbitrary: E s)
  case (Cons x xs)
  obtain y s1 where s1: "h x s = (Inr y, s1)" "I (E \<union> F x) s1" using Cons.prems by (meson list.set_intros(1))
  obtain ys s2 where "mapM h xs s1 = (Inr ys, s2)" "I (E \<union> F x \<union> (\<Union>x\<in>set xs. F x)) s2"
    using Cons.IH [OF _ s1(2)] Cons.prems(1) by (meson list.set_intros(2))
  then show ?case using s1(1) by (auto simp: bindM_def ret_def Un_assoc)
qed (simp add: ret_def)

end
