(* ===== verification/Hazard_Graph.thy ===== *)
theory Hazard_Graph
  imports Hazard_Data Worklist "HOL-Library.AList"
begin

text \<open>
  \<open>loadCallgraph.js\<close> and \<open>computeGCFunctions.js\<close>: the call graph that \<open>computeCallgraph.js\<close> printed is read
  back, the functions that only run with garbage collection suppressed are found, and the functions that
  may collect garbage, each with the callee or the call that is the reason.

  An object used as a table is the list of its properties in the order of their insertion. A name that
  \<open>functionNames\<close> does not have is the string \<open>undefined\<close>, as it is where the code uses it as a property key.
\<close>

type_synonym calltable = "(string \<times> (string \<times> bool) list) list"

record callgraph =
  g_callees :: calltable
  g_callers :: calltable
  g_gc :: "(string \<times> string) list"
  g_suppressed :: "string list"
  g_names :: "string list"

definition emptyGraph :: callgraph where
  "emptyGraph = \<lparr>g_callees = [], g_callers = [], g_gc = [], g_suppressed = [], g_names = [[]]\<rparr>"

definition entries :: "calltable \<Rightarrow> string \<Rightarrow> (string \<times> bool) list" where
  "entries m k = (case map_of m k of None \<Rightarrow> [] | Some xs \<Rightarrow> xs)"

definition pushEntry :: "string \<Rightarrow> string \<times> bool \<Rightarrow> calltable \<Rightarrow> calltable" where
  "pushEntry k e m = AList.update k (entries m k @ [e]) m"

definition keys :: "(string \<times> 'v) list \<Rightarrow> string set" where
  "keys m = fst ` set m"

definition addGCFunction :: "string \<Rightarrow> string \<Rightarrow> (callgraph, bool) jsm" where
  "addGCFunction caller reason s =
     (if caller \<in> set (g_suppressed s) then (Inr False, s)
      else if caller = ''undefined'' then (Inl TypeError, s)
      else if ignoreGCFunction caller then (Inr False, s)
      else if caller \<notin> keys (g_gc s) then (Inr True, s\<lparr>g_gc := g_gc s @ [(caller, reason)]\<rparr>)
      else (Inr False, s))"

definition addCallEdge :: "string \<Rightarrow> string \<Rightarrow> bool \<Rightarrow> (callgraph, unit) jsm" where
  "addCallEdge caller callee suppressed s = (Inr (),
     s\<lparr>g_callees := pushEntry caller (callee, suppressed) (g_callees s),
       g_callers := pushEntry callee (caller, suppressed) (g_callers s)\<rparr>)"

section \<open>Lines\<close>

datatype cg_line =
    NameLine string string
  | IndirectLine string string bool
  | FieldLine string string string bool
  | DirectLine string string bool
  | OtherLine

text \<open>The regular expressions of the lines, in the order in which they are tried.\<close>

definition matchName :: "string \<Rightarrow> (string \<times> string) option" where
  "matchName line =
     Option.bind (stripPrefix ''#'' line) (\<lambda>r.
     Option.bind (digitRun r) (\<lambda>(d, r).
     Option.bind (stripPrefix '' '' r) (\<lambda>r. Some (d, takeWhile isDot r))))"

definition matchSuppress :: "string \<Rightarrow> string option" where
  "matchSuppress line =
     (if length line < 2 \<or> \<not> list_all isDot (take 2 line) then None
      else map_option (\<lambda>r. take 2 line @ takeWhile isDot r) (stripPrefix ''SUPPRESS_GC '' (drop 2 line)))"

definition matchIndirect :: "string \<Rightarrow> (string \<times> string) option" where
  "matchIndirect line =
     Option.bind (stripPrefix ''I '' line) (\<lambda>r.
     Option.bind (digitRun r) (\<lambda>(d, r).
     Option.bind (stripPrefix '' VARIABLE '' r) (\<lambda>r. Some (d, takeWhile (\<lambda>c. c \<noteq> CHR '','') r))))"

definition matchField :: "string \<Rightarrow> (string \<times> string \<times> string) option" where
  "matchField line =
     Option.bind (stripPrefix ''F '' line) (\<lambda>r.
     Option.bind (digitRun r) (\<lambda>(d, r).
     Option.bind (stripPrefix '' CLASS '' r) (\<lambda>r.
     Option.bind (indexOf '' FIELD '' r) (\<lambda>i.
       if list_all isDot (take i r) then Some (d, take i r, takeWhile isDot (drop (i + 7) r)) else None))))"

definition matchDirect :: "string \<Rightarrow> (string \<times> string) option" where
  "matchDirect line =
     Option.bind (stripPrefix ''D '' line) (\<lambda>r.
     Option.bind (digitRun r) (\<lambda>(d, r).
     Option.bind (stripPrefix '' '' r) (\<lambda>r.
     Option.bind (digitRun r) (\<lambda>(d', r). Some (d, d')))))"

definition parseCall :: "bool \<Rightarrow> string \<Rightarrow> cg_line" where
  "parseCall suppressed line = (case matchIndirect line of
       Some (d, name) \<Rightarrow> IndirectLine d name suppressed
     | None \<Rightarrow> (case matchField line of
         Some (d, csu, field) \<Rightarrow> FieldLine d csu field suppressed
       | None \<Rightarrow> (case matchDirect line of
           Some (d, d') \<Rightarrow> DirectLine d d' suppressed
         | None \<Rightarrow> OtherLine)))"

definition parseLine :: "string \<Rightarrow> jserr + cg_line" where
  "parseLine line = (case matchName line of
       Some (d, name) \<Rightarrow> Inr (NameLine d name)
     | None \<Rightarrow>
         (if has ''SUPPRESS_GC'' line
          then case matchSuppress line of None \<Rightarrow> Inl TypeError | Some l \<Rightarrow> Inr (parseCall True l)
          else Inr (parseCall False line)))"

text \<open>\<open>functionNames[match]\<close>: only the text of an index is a key of the array.\<close>

definition nameAt :: "callgraph \<Rightarrow> string \<Rightarrow> string" where
  "nameAt s d = (let n = digits_value d in
     if show_nat n = d \<and> n < length (g_names s) then g_names s ! n else ''undefined'')"

definition runLine :: "cg_line \<Rightarrow> (callgraph, unit) jsm" where
  "runLine line s = (case line of
       NameLine d name \<Rightarrow>
         bindM (assert (length (g_names s) = digits_value d) ''functionNames'') (\<lambda>_ s. (Inr (), s\<lparr>g_names := g_names s @ [name]\<rparr>)) s
     | IndirectLine d name suppressed \<Rightarrow>
         (let caller = nameAt s d in
          if \<not> indirectCallCannotGC caller name \<and> \<not> suppressed
          then bindM (addGCFunction caller (''IndirectCall: '' @ name)) (\<lambda>_. ret ()) s
          else (Inr (), s))
     | FieldLine d csu field suppressed \<Rightarrow>
         (let caller = nameAt s d; fullfield = csu @ ''.'' @ field in
          if \<not> fieldCallCannotGC csu fullfield \<and> \<not> suppressed
          then bindM (addGCFunction caller (''FieldCall: '' @ fullfield)) (\<lambda>_. ret ()) s
          else (Inr (), s))
     | DirectLine d d' suppressed \<Rightarrow> addCallEdge (nameAt s d) (nameAt s d') suppressed s
     | OtherLine \<Rightarrow> (Inr (), s))"

definition loadLine :: "string \<Rightarrow> (callgraph, unit) jsm" where
  "loadLine line = (case parseLine line of Inl e \<Rightarrow> throw e | Inr l \<Rightarrow> runLine l)"

section \<open>Suppressed functions\<close>

definition addKey :: "string \<Rightarrow> string list \<Rightarrow> string list" where
  "addKey k xs = (if k \<in> set xs then xs else xs @ [k])"

text \<open>Every function of the graph is taken as suppressed; those without a caller start the search.\<close>

definition markAll :: "(callgraph, string list) jsm" where
  "markAll s =
     (let ks = map fst (g_callers s); roots = filter (\<lambda>n. n \<notin> set ks) (map fst (g_callees s))
      in (Inr roots, s\<lparr>g_suppressed := fold addKey (ks @ roots) (g_suppressed s)\<rparr>))"

definition visitLive :: "string \<Rightarrow> (callgraph, string list + unit) jsm" where
  "visitLive name s =
     (if shouldSuppressGC name then (Inr (Inl []), s)
      else if name \<notin> set (g_suppressed s) then (Inr (Inl []), s)
      else (Inr (Inl (map fst (filter (\<lambda>e. \<not> snd e) (entries (g_callees s) name)))),
            s\<lparr>g_suppressed := removeAll name (g_suppressed s)\<rparr>))"

definition dropSuppressed :: "(callgraph, unit) jsm" where
  "dropSuppressed s = (Inr (), s\<lparr>g_gc := filter (\<lambda>(name, _). name \<notin> set (g_suppressed s)) (g_gc s)\<rparr>)"

section \<open>Functions that may collect\<close>

definition gcName :: string where
  "gcName = ''void js::GC(JSRuntime*, uint32, uint32)''"

definition addCaller :: "string \<Rightarrow> string \<times> bool \<Rightarrow> (callgraph, string list) jsm" where
  "addCaller name entry =
     (if snd entry then ret []
      else bindM (addGCFunction (fst entry) name) (\<lambda>added. ret (if added then [fst entry] else [])))"

definition visitGC :: "string \<Rightarrow> (callgraph, string list + unit) jsm" where
  "visitGC name s =
     bindM (assert (name \<in> keys (g_gc s)) ''gcFunctions'') (\<lambda>_.
     bindM (mapM (addCaller name) (entries (g_callers s) name)) (\<lambda>new. ret (Inl (concat new)))) s"

definition loadCallgraph :: "string \<Rightarrow> (callgraph, unit) jsm" where
  "loadCallgraph text =
     bindM (mapM loadLine (splitLines text)) (\<lambda>_.
     bindM markAll (\<lambda>worklist.
     bindM (loopM visitLive worklist) (\<lambda>_.
     bindM dropSuppressed (\<lambda>_ s.
     bindM (assert (gcName \<in> keys (g_callers s)) ''gcName'') (\<lambda>_.
     bindM (addGCFunction gcName ''GC'') (\<lambda>_ s.
     bindM (loopM visitGC (map fst (g_gc s))) (\<lambda>_. ret ()) s)) s))))"

section \<open>The report\<close>

text \<open>The reasons below a function's name: a function's reason is followed when it has one itself.\<close>

definition reasonLines :: "(string \<times> string) list \<Rightarrow> string \<Rightarrow> string list option" where
  "reasonLines gc name = map_option (\<lambda>(name, out). out @ [the (map_of gc name)])
     (while_option (\<lambda>(name, out). the (map_of gc name) \<in> keys gc) (\<lambda>(name, out). (the (map_of gc name), out @ [the (map_of gc name)])) (name, []))"

section \<open>The graph\<close>

definition calls :: "callgraph \<Rightarrow> string \<Rightarrow> string \<Rightarrow> bool" where
  "calls s f g \<longleftrightarrow> (g, False) \<in> set (entries (g_callees s) f)"

definition inGraph :: "callgraph \<Rightarrow> string \<Rightarrow> bool" where
  "inGraph s f \<longleftrightarrow> f \<in> keys (g_callees s) \<union> keys (g_callers s)"

text \<open>Both tables have every edge; a name is a key when it has an edge.\<close>

definition graph_ok :: "callgraph \<Rightarrow> bool" where
  "graph_ok s \<longleftrightarrow>
     (\<forall>f g b. (g, b) \<in> set (entries (g_callees s) f) \<longleftrightarrow> (f, b) \<in> set (entries (g_callers s) g)) \<and>
     (\<forall>f\<in>keys (g_callees s). entries (g_callees s) f \<noteq> []) \<and> (\<forall>f\<in>keys (g_callers s). entries (g_callers s) f \<noteq> [])"

lemma keys_pushEntry: "keys (pushEntry k e m) = insert k (keys m)"
  by (simp add: keys_def pushEntry_def dom_update)

lemma entries_pushEntry: "entries (pushEntry k e m) k' = (if k' = k then entries m k @ [e] else entries m k')"
  by (simp add: entries_def pushEntry_def update_conv')

lemma entries_key: "e \<in> set (entries m k) \<Longrightarrow> k \<in> keys m"
  by (cases "map_of m k") (auto simp: entries_def keys_def dest!: map_of_SomeD intro: rev_image_eqI)

lemma calls_inGraph: "graph_ok s \<Longrightarrow> calls s f g \<Longrightarrow> inGraph s f \<and> inGraph s g \<and> g \<in> keys (g_callers s)"
  unfolding calls_def inGraph_def graph_ok_def by (meson UnCI entries_key)

lemma graph_ok_addCallEdge:
  "graph_ok s \<Longrightarrow> graph_ok (snd (addCallEdge f g b s))"
  by (auto simp: graph_ok_def addCallEdge_def keys_pushEntry entries_pushEntry split: if_splits)

text \<open>
  What the lines leave: a consistent graph, nothing suppressed yet, and no ignored function. A reason is
  the name of a callee, or the text of a call that is its own reason.
\<close>

definition seedReason :: "string \<Rightarrow> bool" where
  "seedReason r \<longleftrightarrow> r = ''GC'' \<or> startsWith ''IndirectCall: '' r \<or> startsWith ''FieldCall: '' r"

definition loaded_ok :: "callgraph \<Rightarrow> bool" where
  "loaded_ok s \<longleftrightarrow> graph_ok s \<and> g_suppressed s = [] \<and> (\<forall>f\<in>keys (g_gc s). \<not> ignoreGCFunction f) \<and>
     distinct (map fst (g_gc s)) \<and> (\<forall>e\<in>set (g_gc s). seedReason (snd e))"

lemma loaded_ok_gc:
  "loaded_ok s \<Longrightarrow> seedReason r \<Longrightarrow> loaded_ok (snd (addGCFunction f r s))"
  by (auto simp: loaded_ok_def addGCFunction_def graph_ok_def keys_def)

lemma seedReason_texts: "seedReason (''IndirectCall: '' @ x)" "seedReason (''FieldCall: '' @ x)"
  by (simp_all only: seedReason_def startsWith_append simp_thms)

lemma loaded_ok_runLine: "loaded_ok s \<Longrightarrow> loaded_ok (snd (runLine l s))"
proof (cases l)
  case (NameLine d n)
  then show "loaded_ok s \<Longrightarrow> ?thesis"
    by (auto simp: runLine_def assert_def guardM_def bindM_def ret_def throw_def loaded_ok_def graph_ok_def)
next
  case (IndirectLine d n b)
  then show "loaded_ok s \<Longrightarrow> ?thesis"
    using loaded_ok_gc seedReason_texts by (auto simp: runLine_def Let_def bindM_def ret_def split: prod.splits sum.splits) (metis snd_conv)+
next
  case (FieldLine d c n b)
  then show "loaded_ok s \<Longrightarrow> ?thesis"
    using loaded_ok_gc seedReason_texts by (auto simp: runLine_def Let_def bindM_def ret_def split: prod.splits sum.splits) (metis snd_conv)+
next
  case (DirectLine d d' b)
  then show "loaded_ok s \<Longrightarrow> ?thesis"
    using graph_ok_addCallEdge [of s] by (auto simp: runLine_def loaded_ok_def) (auto simp: addCallEdge_def)
qed (simp add: runLine_def)

lemma loaded_ok_lines: "loaded_ok s \<Longrightarrow> mapM loadLine ls s = (Inr u, t) \<Longrightarrow> loaded_ok t"
proof (induction ls arbitrary: s u)
  case (Cons l ls)
  then obtain x s' u' where l: "loadLine l s = (Inr x, s')" "mapM loadLine ls s' = (Inr u', t)"
    by (auto simp: bindM_Inr_iff run_simps)
  then have "loaded_ok s'"
    using loaded_ok_runLine [OF Cons.prems(1)] by (auto simp: loadLine_def throw_def split: sum.splits) (metis snd_conv)
  then show ?case using Cons.IH l(2) by blast
qed (auto simp: ret_def)

lemma loaded_ok_empty: "loaded_ok emptyGraph"
  by (simp add: loaded_ok_def emptyGraph_def graph_ok_def keys_def entries_def)

section \<open>Which functions stay suppressed\<close>

text \<open>
  A function runs unsuppressed when it has no caller or an unsuppressed function calls it outside a
  suppressing scope, unless it is one of those that always suppress.
\<close>

inductive live :: "callgraph \<Rightarrow> string \<Rightarrow> bool" for s where
  root: "f \<in> keys (g_callees s) \<Longrightarrow> f \<notin> keys (g_callers s) \<Longrightarrow> \<not> shouldSuppressGC f \<Longrightarrow> live s f"
| call: "live s f \<Longrightarrow> calls s f g \<Longrightarrow> \<not> shouldSuppressGC g \<Longrightarrow> live s g"

definition roots :: "callgraph \<Rightarrow> string list" where
  "roots s = filter (\<lambda>n. n \<notin> keys (g_callers s)) (map fst (g_callees s))"

text \<open>The state of the search from the graph \<open>g\<close>: functions that always suppress are not removed.\<close>

definition liveInv :: "callgraph \<Rightarrow> callgraph \<Rightarrow> bool" where
  "liveInv g s \<longleftrightarrow> (\<exists>xs. s = g\<lparr>g_suppressed := xs\<rparr> \<and> set xs \<subseteq> {f. inGraph g f} \<and> (\<forall>f. inGraph g f \<and> shouldSuppressGC f \<longrightarrow> f \<in> set xs))"

lemma liveInv_remove:
  assumes "liveInv g s" "\<not> shouldSuppressGC x"
  shows "liveInv g (s\<lparr>g_suppressed := removeAll x (g_suppressed s)\<rparr>)"
proof -
  obtain xs where "s = g\<lparr>g_suppressed := xs\<rparr>" "set xs \<subseteq> {f. inGraph g f}" "\<forall>f. inGraph g f \<and> shouldSuppressGC f \<longrightarrow> f \<in> set xs"
    using assms(1) by (auto simp: liveInv_def)
  then show ?thesis unfolding liveInv_def using assms(2) by (intro exI [of _ "removeAll x xs"]) auto
qed

interpretation liveSearch: search visitLive "liveInv g" "\<lambda>_. True" "\<lambda>s. length (g_suppressed s)"
    "\<lambda>s. {f. shouldSuppressGC f \<or> f \<notin> set (g_suppressed s)}" "\<lambda>f. {h. calls g f h \<and> \<not> shouldSuppressGC f}" "(=)" for g
proof
  fix x s assume s: "liveInv g s"
  then have e: "entries (g_callees s) x = entries (g_callees g) x" for x by (auto simp: liveInv_def)
  have "\<not> shouldSuppressGC x \<Longrightarrow> liveInv g (s\<lparr>g_suppressed := removeAll x (g_suppressed s)\<rparr>)"
    using s by (rule liveInv_remove)
  moreover have "length (removeAll x (g_suppressed s)) < length (g_suppressed s)" if "x \<in> set (g_suppressed s)"
    using that by (rule length_removeAll_less)
  ultimately show "case visitLive x s of (Inl e, t) \<Rightarrow> False | (Inr (Inr a), t) \<Rightarrow> True
      | (Inr (Inl new), t) \<Rightarrow> liveInv g t \<and> set new \<subseteq> {h. calls g x h \<and> \<not> shouldSuppressGC x} \<and> (\<forall>y\<in>set new. True) \<and>
         (length (g_suppressed t) < length (g_suppressed s) \<or> length (g_suppressed t) = length (g_suppressed s) \<and> new = []) \<and>
         x \<in> {f. shouldSuppressGC f \<or> f \<notin> set (g_suppressed t)} \<and>
         {f. shouldSuppressGC f \<or> f \<notin> set (g_suppressed s)} \<subseteq> {f. shouldSuppressGC f \<or> f \<notin> set (g_suppressed t)} \<and>
         (\<forall>y\<in>{f. shouldSuppressGC f \<or> f \<notin> set (g_suppressed t)} - {f. shouldSuppressGC f \<or> f \<notin> set (g_suppressed s)}.
            y = x \<and> (\<forall>z\<in>{h. calls g y h \<and> \<not> shouldSuppressGC y}. \<exists>u\<in>{f. shouldSuppressGC f \<or> f \<notin> set (g_suppressed t)} \<union> set new. z = u))"
    using s e by (auto simp: visitLive_def calls_def image_iff)
qed auto

lemma set_roots: "f \<in> set (roots s) \<longleftrightarrow> f \<in> keys (g_callees s) \<and> f \<notin> keys (g_callers s)"
  by (simp add: roots_def keys_def)

lemma reach_live: "liveSearch.reach g (roots g) f \<Longrightarrow> \<not> shouldSuppressGC f \<Longrightarrow> live g f"
proof -
  assume "liveSearch.reach g (roots g) f" "\<not> shouldSuppressGC f"
  then obtain r where "r \<in> set (roots g)" "(\<lambda>a b. b \<in> {h. calls g a h \<and> \<not> shouldSuppressGC a})\<^sup>*\<^sup>* r f"
    by (auto simp: liveSearch.reach_def)
  from this(2,1) \<open>\<not> shouldSuppressGC f\<close> show "live g f"
  proof (induction rule: rtranclp_induct)
    case base
    then show ?case by (auto simp: set_roots intro!: live.root)
  next
    case (step y z)
    then show ?case by (auto intro: live.call)
  qed
qed

lemma live_reach: "live g f \<Longrightarrow> liveSearch.reach g (roots g) f"
proof (induction rule: live.induct)
  case (root f)
  then show ?case by (intro liveSearch.reach_start) (auto simp: set_roots)
next
  case (call f h)
  then have "\<not> shouldSuppressGC f" by (auto elim: live.cases)
  then show ?case using call by (auto intro: liveSearch.reach_step)
qed

lemma live_inGraph: "graph_ok g \<Longrightarrow> live g f \<Longrightarrow> inGraph g f"
  by (erule live.cases) (auto simp: inGraph_def dest: calls_inGraph)

text \<open>The search ends, and leaves as suppressed exactly the functions of the graph that are not live.\<close>

lemma loop_live:
  assumes "graph_ok g" "set xs = {f. inGraph g f}"
  shows "\<exists>ys. loopM visitLive (roots g) (g\<lparr>g_suppressed := xs\<rparr>) = (Inr None, g\<lparr>g_suppressed := ys\<rparr>) \<and>
    set ys = {f. inGraph g f \<and> \<not> live g f}"
proof -
  let ?s = "g\<lparr>g_suppressed := xs\<rparr>"
  have "liveInv g ?s" using assms(2) by (auto simp: liveInv_def)
  moreover have "liveSearch.closedBy g [] ?s"
    using assms by (auto simp: liveSearch.closedBy_def dest: calls_inGraph)
  ultimately obtain r t where r: "loopM visitLive (roots g) ?s = (Inr r, t)"
    "case r of None \<Rightarrow> liveSearch.searching g (roots g) ?s [] t
      | Some a \<Rightarrow> \<exists>x s'. liveSearch.reach g (roots g) x \<and> True \<and> liveInv g s' \<and> visitLive x s' = (Inr (Inr a), t)"
    using liveSearch.search_result [of g ?s "roots g"] by auto
  have "r = None" using r(2) by (cases r) (auto simp: visitLive_def split: if_splits)
  then have t: "liveSearch.searching g (roots g) ?s [] t" using r(2) by simp
  obtain ys where ys: "t = g\<lparr>g_suppressed := ys\<rparr>" "set ys \<subseteq> {f. inGraph g f}" "\<And>f. inGraph g f \<Longrightarrow> shouldSuppressGC f \<Longrightarrow> f \<in> set ys"
    using t by (auto simp: liveSearch.searching_def liveInv_def)
  have "f \<notin> set ys \<longleftrightarrow> live g f" if "inGraph g f" for f
  proof
    assume f: "f \<notin> set ys"
    then have "\<not> shouldSuppressGC f" using ys(3) that by blast
    moreover have "liveSearch.reach g (roots g) f"
      using liveSearch.search_sound [OF t, of f] f ys(1) \<open>\<not> shouldSuppressGC f\<close> assms(2) that by auto
    ultimately show "live g f" by (rule reach_live [rotated])
  next
    assume "live g f"
    moreover from this have "\<not> shouldSuppressGC f" by (auto elim: live.cases)
    ultimately show "f \<notin> set ys" using liveSearch.search_complete [OF t live_reach] ys(1) by auto
  qed
  then show ?thesis using r(1) \<open>r = None\<close> ys(1,2) by auto
qed

section \<open>Which functions may collect\<close>

definition suppressedIn :: "callgraph \<Rightarrow> string \<Rightarrow> bool" where
  "suppressedIn s f \<longleftrightarrow> inGraph s f \<and> \<not> live s f"

text \<open>
  A function may collect when it makes a call that is not known to be harmless, when it is the collector,
  or when it calls, outside a suppressing scope, a function that may; but a function that only runs
  suppressed may not, and neither may one that is ignored.
\<close>

inductive mayGC :: "callgraph \<Rightarrow> string \<Rightarrow> bool" for s where
  seed: "f \<in> keys (g_gc s) \<Longrightarrow> \<not> suppressedIn s f \<Longrightarrow> mayGC s f"
| collector: "\<not> suppressedIn s gcName \<Longrightarrow> mayGC s gcName"
| caller: "mayGC s g \<Longrightarrow> calls s f g \<Longrightarrow> \<not> suppressedIn s f \<Longrightarrow> \<not> ignoreGCFunction f \<Longrightarrow> mayGC s f"

text \<open>Every reason is the text of a call, or a function that is called and entered the table before.\<close>

definition reasonsOk :: "callgraph \<Rightarrow> (string \<times> string) list \<Rightarrow> bool" where
  "reasonsOk g gc \<longleftrightarrow> distinct (map fst gc) \<and>
     (\<forall>i<length gc. seedReason (snd (gc ! i)) \<or> (calls g (fst (gc ! i)) (snd (gc ! i)) \<and> (\<exists>j<i. fst (gc ! j) = snd (gc ! i))))"

lemma ignore_gcName: "\<not> ignoreGCFunction gcName"
  by (simp add: ignoreGCFunction_def gcName_def ignoreFunctions_def has_def startsWith_def)

lemma keys_append: "keys (xs @ ys) = keys xs \<union> keys ys"
  by (auto simp: keys_def)

lemma reasonsOk_snoc:
  assumes "reasonsOk g gc" "f \<notin> keys gc" "seedReason r \<or> (calls g f r \<and> r \<in> keys gc)"
  shows "reasonsOk g (gc @ [(f, r)])"
proof -
  let ?l = "gc @ [(f, r)]"
  have "distinct (map fst (gc @ [(f, r)]))" using assms(1,2) by (auto simp: reasonsOk_def keys_def)
  moreover have "seedReason (snd (?l ! i)) \<or> (calls g (fst (?l ! i)) (snd (?l ! i)) \<and> (\<exists>j<i. fst (?l ! j) = snd (?l ! i)))"
    if "i < length ?l" for i
  proof (cases "i < length gc")
    case True
    then have n: "?l ! j = gc ! j" if "j \<le> i" for j using that by (simp add: nth_append)
    have "seedReason (snd (gc ! i)) \<or> (calls g (fst (gc ! i)) (snd (gc ! i)) \<and> (\<exists>j<i. fst (gc ! j) = snd (gc ! i)))"
      using assms(1) True by (simp add: reasonsOk_def)
    moreover have "(\<exists>j<i. fst (?l ! j) = snd (gc ! i)) \<longleftrightarrow> (\<exists>j<i. fst (gc ! j) = snd (gc ! i))"
      using n [OF less_imp_le] by auto
    ultimately show ?thesis using n [of i] by simp
  next
    case False
    then have i: "i = length gc" using that by simp
    have "\<exists>j<length gc. fst (gc ! j) = r" if "r \<in> keys gc"
      using that by (metis imageE in_set_conv_nth keys_def)
    then show ?thesis using assms(3) by (auto simp: i nth_append)
  qed
  ultimately show ?thesis by (simp add: reasonsOk_def)
qed

text \<open>One step of the propagation: the callers of a function that may collect.\<close>

lemma addCaller_run:
  assumes "reasonsOk g (g_gc s)" "name \<in> keys (g_gc s)"
    and "\<forall>(f, b)\<in>set es. \<not> b \<longrightarrow> calls g f name \<and> f \<noteq> ''undefined''"
  shows "\<exists>news gc. mapM (addCaller name) es s = (Inr news, s\<lparr>g_gc := gc\<rparr>) \<and> reasonsOk g gc \<and>
     keys gc = keys (g_gc s) \<union> {f. (f, False) \<in> set es \<and> f \<notin> set (g_suppressed s) \<and> \<not> ignoreGCFunction f} \<and>
     set (concat news) = keys gc - keys (g_gc s)"
  using assms
proof (induction es arbitrary: s)
  case Nil
  then show ?case by (intro exI [of _ "[]"] exI [of _ "g_gc s"]) (simp add: ret_def)
next
  case (Cons e es)
  obtain f b where e: "e = (f, b)" by (cases e)
  define new where "new \<longleftrightarrow> \<not> b \<and> f \<notin> set (g_suppressed s) \<and> \<not> ignoreGCFunction f \<and> f \<notin> keys (g_gc s)"
  define u where "u = (if new then s\<lparr>g_gc := g_gc s @ [(f, name)]\<rparr> else s)"
  have f: "\<not> b \<Longrightarrow> calls g f name \<and> f \<noteq> ''undefined''" using Cons.prems(3) e by auto
  have step: "addCaller name e s = (Inr (if new then [f] else []), u)"
    using f by (auto simp: addCaller_def e addGCFunction_def bindM_def ret_def new_def u_def)
  have "keys (g_gc u) = keys (g_gc s) \<union> (if new then {f} else {})"
    by (simp add: u_def keys_append) (simp add: keys_def)
  moreover have "reasonsOk g (g_gc u)"
  proof (cases new)
    case True
    then have "f \<notin> keys (g_gc s)" "calls g f name" using f by (auto simp: new_def)
    then show ?thesis using True Cons.prems(1,2) by (auto simp: u_def intro: reasonsOk_snoc)
  qed (simp add: u_def Cons.prems(1))
  ultimately have s': "reasonsOk g (g_gc u)" "name \<in> keys (g_gc u)" "g_suppressed u = g_suppressed s"
    "keys (g_gc u) = keys (g_gc s) \<union> (if new then {f} else {})"
    using Cons.prems(2) by (auto simp: u_def)
  have es: "\<forall>(f, b)\<in>set es. \<not> b \<longrightarrow> calls g f name \<and> f \<noteq> ''undefined''" using Cons.prems(3) by simp
  obtain news gc where r: "mapM (addCaller name) es u = (Inr news, u\<lparr>g_gc := gc\<rparr>)" "reasonsOk g gc"
    "keys gc = keys (g_gc u) \<union> {f. (f, False) \<in> set es \<and> f \<notin> set (g_suppressed u) \<and> \<not> ignoreGCFunction f}"
    "set (concat news) = keys gc - keys (g_gc u)"
    using Cons.IH [OF s'(1,2) es] by blast
  have u: "u\<lparr>g_gc := gc\<rparr> = s\<lparr>g_gc := gc\<rparr>" by (simp add: u_def)
  have "mapM (addCaller name) (e # es) s = (Inr ((if new then [f] else []) # news), s\<lparr>g_gc := gc\<rparr>)"
    using step r(1) u by (simp add: bindM_def ret_def)
  moreover have "keys gc = keys (g_gc s) \<union> {f. (f, False) \<in> set (e # es) \<and> f \<notin> set (g_suppressed s) \<and> \<not> ignoreGCFunction f}"
  proof (cases new)
    case True
    then show ?thesis unfolding r(3) s'(3,4) by (auto simp: e new_def)
  next
    case False
    then have "\<not> b \<Longrightarrow> f \<notin> set (g_suppressed s) \<Longrightarrow> \<not> ignoreGCFunction f \<Longrightarrow> f \<in> keys (g_gc s)" by (simp add: new_def)
    then show ?thesis unfolding r(3) s'(3,4) using False by (auto simp: e)
  qed
  moreover have "set (concat ((if new then [f] else []) # news)) = keys gc - keys (g_gc s)"
  proof (cases new)
    case True
    then have "f \<in> keys gc" "f \<notin> keys (g_gc s)" using r(3) s'(4) by (auto simp: new_def)
    then show ?thesis using r(4) s'(4) True by auto
  qed (use r(4) s'(4) in simp)
  ultimately show ?case using r(2) by blast
qed

text \<open>The propagation ends with the least set that has the given functions and is closed under callers.\<close>

lemma loop_gc:
  assumes "graph_ok g" "reasonsOk g (g_gc g)" "\<And>f h. calls g h f \<Longrightarrow> h \<noteq> ''undefined''"
    and Q: "\<And>f. f \<in> keys (g_gc g) \<Longrightarrow> Q f"
      "\<And>f h. Q f \<Longrightarrow> calls g h f \<Longrightarrow> h \<notin> set (g_suppressed g) \<Longrightarrow> \<not> ignoreGCFunction h \<Longrightarrow> Q h"
  shows "\<exists>gc. loopM visitGC (map fst (g_gc g)) g = (Inr None, g\<lparr>g_gc := gc\<rparr>) \<and> reasonsOk g gc \<and> keys (g_gc g) \<subseteq> keys gc \<and>
    (\<forall>f\<in>keys gc. Q f) \<and>
    (\<forall>f h. f \<in> keys gc \<and> calls g h f \<and> h \<notin> set (g_suppressed g) \<and> \<not> ignoreGCFunction h \<longrightarrow> h \<in> keys gc)"
proof -
  let ?ok = "\<lambda>h. h \<notin> set (g_suppressed g) \<and> \<not> ignoreGCFunction h"
  let ?P = "\<lambda>w s. \<exists>gc. s = g\<lparr>g_gc := gc\<rparr> \<and> reasonsOk g gc \<and> keys (g_gc g) \<subseteq> keys gc \<and> set w \<subseteq> keys gc \<and>
    (\<forall>f\<in>keys gc. Q f) \<and> (\<forall>f\<in>keys gc. f \<in> set w \<or> (\<forall>h. calls g h f \<and> ?ok h \<longrightarrow> h \<in> keys gc))"
  let ?R = "inv_image (less_than <*lex*> less_than) (\<lambda>(w, s). (card (keys (g_callees g) - keys (g_gc s)), length w))"
  have fin: "finite (keys (g_callees g) - keys gc)" for gc by (simp add: keys_def)
  have "\<exists>r t. loopM visitGC (map fst (g_gc g)) g = (r, t) \<and> (case r of Inl e \<Rightarrow> False | Inr None \<Rightarrow> ?P [] t | Inr (Some a) \<Rightarrow> False)"
  proof (rule loopM_rule [where R = ?R and P = ?P])
    show "?P (map fst (g_gc g)) g"
      using assms(2) Q(1) by (intro exI [of _ "g_gc g"]) (auto simp: keys_def)
    show "wf ?R" by auto
    fix w name s assume "?P (w @ [name]) s"
    then obtain gc where p: "s = g\<lparr>g_gc := gc\<rparr>" "reasonsOk g gc" "keys (g_gc g) \<subseteq> keys gc" "set (w @ [name]) \<subseteq> keys gc"
      "\<forall>f\<in>keys gc. Q f" "\<forall>f\<in>keys gc. f \<in> set (w @ [name]) \<or> (\<forall>h. calls g h f \<and> ?ok h \<longrightarrow> h \<in> keys gc)" by blast
    then have "set w \<subseteq> keys gc" "name \<in> keys gc"
      "\<forall>f\<in>keys gc. f \<in> set w \<or> f = name \<or> (\<forall>h. calls g h f \<and> ?ok h \<longrightarrow> h \<in> keys gc)" by auto
    note gc = p(1-3) this(1,2) p(5) this(3)
    have callers: "(h, False) \<in> set (entries (g_callers s) name) \<longleftrightarrow> calls g h name" for h
      using assms(1) by (simp add: gc(1) calls_def graph_ok_def)
    have "\<forall>(f, b)\<in>set (entries (g_callers s) name). \<not> b \<longrightarrow> calls g f name \<and> f \<noteq> ''undefined''"
    proof (clarify)
      fix f b assume "(f, b) \<in> set (entries (g_callers s) name)" "\<not> b"
      then have "calls g f name" using callers by simp
      then show "calls g f name \<and> f \<noteq> ''undefined''" using assms(3) by blast
    qed
    from addCaller_run [of g s name, OF _ _ this] gc(1,2,5) obtain news gc' where n:
      "mapM (addCaller name) (entries (g_callers s) name) s = (Inr news, s\<lparr>g_gc := gc'\<rparr>)" "reasonsOk g gc'"
      "keys gc' = keys gc \<union> {h. calls g h name \<and> ?ok h}" "set (concat news) = keys gc' - keys gc"
      using callers by auto
    have visit: "visitGC name s = (Inr (Inl (concat news)), g\<lparr>g_gc := gc'\<rparr>)"
      using n(1) gc(1,5) by (simp add: visitGC_def assert_def bindM_def ret_def)
    have "?P (w @ concat news) (g\<lparr>g_gc := gc'\<rparr>)"
    proof (intro exI [of _ gc'] conjI ballI)
      show "keys (g_gc g) \<subseteq> keys gc'" "set (w @ concat news) \<subseteq> keys gc'" using gc(3,4) n(3,4) by auto
      show "Q f" if "f \<in> keys gc'" for f using that gc(5,6) n(3) Q(2) by auto
      show "f \<in> set (w @ concat news) \<or> (\<forall>h. calls g h f \<and> ?ok h \<longrightarrow> h \<in> keys gc')" if "f \<in> keys gc'" for f
        using that gc(7) n(3,4) by auto
    qed (simp_all add: n(2))
    moreover have "((w @ concat news, g\<lparr>g_gc := gc'\<rparr>), (w @ [name], s)) \<in> ?R"
    proof (cases "concat news = []")
      case True
      then have "keys gc' - keys gc = {}" using n(4) by (simp only: list.set)
      moreover have "keys gc \<subseteq> keys gc'" using n(3) by blast
      ultimately have "keys gc' = keys gc" by blast
      then show ?thesis using gc(1) True by simp
    next
      case False
      then obtain h where h: "h \<in> keys gc'" "h \<notin> keys gc" using n(4) by (metis DiffE last_in_set)
      then have "h \<in> keys (g_callees g)" using n(3) by (auto simp: calls_def intro: entries_key)
      then have "keys (g_callees g) - keys gc' \<subset> keys (g_callees g) - keys gc" using h n(3) by auto
      then have "card (keys (g_callees g) - keys gc') < card (keys (g_callees g) - keys gc)" by (rule psubset_card_mono [OF fin])
      then show ?thesis using gc(1) by simp
    qed
    ultimately show "case visitGC name s of (Inl e, t) \<Rightarrow> False | (Inr (Inr a), t) \<Rightarrow> False
        | (Inr (Inl new), t) \<Rightarrow> ?P (w @ new) t \<and> ((w @ new, t), (w @ [name], s)) \<in> ?R"
      unfolding visit by (simp only: prod.case sum.case)
  qed
  then obtain r t where "loopM visitGC (map fst (g_gc g)) g = (r, t)" "case r of Inl e \<Rightarrow> False | Inr None \<Rightarrow> ?P [] t | Inr (Some a) \<Rightarrow> False"
    by blast
  then show ?thesis by (cases r; cases "projr r") auto
qed

section \<open>The whole run\<close>

lemma set_fold_addKey: "set (fold addKey ks xs) = set xs \<union> set ks"
  by (induction ks arbitrary: xs) (auto simp: addKey_def)

lemma markAll_run:
  assumes "g_suppressed s = []"
  shows "\<exists>xs. markAll s = (Inr (roots s), s\<lparr>g_suppressed := xs\<rparr>) \<and> set xs = {f. inGraph s f}"
proof -
  have "filter (\<lambda>n. n \<notin> set (map fst (g_callers s))) (map fst (g_callees s)) = roots s"
    by (simp add: roots_def keys_def)
  moreover have "set (fold addKey (map fst (g_callers s) @ roots s) []) = {f. inGraph s f}"
  proof -
    have "fst ` set (g_callers s) = keys (g_callers s)" by (simp add: keys_def)
    then show ?thesis by (auto simp: set_fold_addKey set_roots inGraph_def)
  qed
  ultimately show ?thesis using assms by (intro exI conjI) (simp_all add: markAll_def Let_def)
qed

text \<open>The table with which the propagation starts.\<close>

definition gcSeeds :: "callgraph \<Rightarrow> string list \<Rightarrow> (string \<times> string) list" where
  "gcSeeds s ys = (let gc = filter (\<lambda>(name, _). name \<notin> set ys) (g_gc s) in
     if gcName \<in> set ys \<or> gcName \<in> keys gc then gc else gc @ [(gcName, ''GC'')])"

lemma gcSeeds_ok:
  assumes "loaded_ok s"
  shows "reasonsOk g (gcSeeds s ys)" "keys (gcSeeds s ys) = (keys (g_gc s) \<union> {gcName}) - set ys"
proof -
  let ?gc = "filter (\<lambda>(name, _). name \<notin> set ys) (g_gc s)"
  have "distinct (map fst ?gc)" using assms by (auto simp: loaded_ok_def distinct_map_filter)
  moreover have "seedReason (snd (?gc ! i))" if "i < length ?gc" for i
    using assms nth_mem [OF that] by (auto simp: loaded_ok_def)
  ultimately have "reasonsOk g ?gc" by (simp add: reasonsOk_def)
  moreover have "seedReason ''GC''" by (simp add: seedReason_def)
  ultimately show "reasonsOk g (gcSeeds s ys)" using reasonsOk_snoc [of g ?gc gcName "''GC''"] by (auto simp: gcSeeds_def Let_def)
  have "keys ?gc = keys (g_gc s) - set ys" by (force simp: keys_def)
  then show "keys (gcSeeds s ys) = (keys (g_gc s) \<union> {gcName}) - set ys"
  proof -
    assume k: "keys ?gc = keys (g_gc s) - set ys"
    have "keys [(gcName, ''GC'')] = {gcName}" by (simp add: keys_def)
    then show ?thesis unfolding gcSeeds_def Let_def using k
      by (cases "gcName \<in> set ys"; cases "gcName \<in> keys ?gc") (simp_all only: keys_append if_True if_False simp_thms, blast+)
  qed
qed

lemma dropSuppressed_run: "dropSuppressed (s\<lparr>g_suppressed := ys\<rparr>) = (Inr (), s\<lparr>g_suppressed := ys, g_gc := filter (\<lambda>(name, _). name \<notin> set ys) (g_gc s)\<rparr>)"
  by (simp add: dropSuppressed_def)

lemma seed_run:
  fixes s ys
  defines "gc \<equiv> filter (\<lambda>(name, _). name \<notin> set ys) (g_gc s)"
  shows "\<exists>b. addGCFunction gcName ''GC'' (s\<lparr>g_suppressed := ys, g_gc := gc\<rparr>) = (Inr b, s\<lparr>g_suppressed := ys, g_gc := gcSeeds s ys\<rparr>)"
proof -
  have "gcName \<noteq> ''undefined''" by (simp add: gcName_def)
  then show ?thesis using ignore_gcName by (auto simp: addGCFunction_def gcSeeds_def Let_def gc_def)
qed

lemma calls_update [simp]: "calls (s\<lparr>g_suppressed := ys, g_gc := gc\<rparr>) = calls s" "graph_ok (s\<lparr>g_suppressed := ys, g_gc := gc\<rparr>) = graph_ok s"
  by (simp_all add: calls_def graph_ok_def fun_eq_iff)

lemma loadCallgraph_run:
  assumes "mapM loadLine (splitLines text) emptyGraph = (Inr u, s)" "gcName \<in> keys (g_callers s)" "''undefined'' \<notin> keys (g_callees s)"
  shows "\<exists>gc ys. loadCallgraph text emptyGraph = (Inr (), s\<lparr>g_suppressed := ys, g_gc := gc\<rparr>) \<and>
    set ys = {f. suppressedIn s f} \<and> keys gc = {f. mayGC s f} \<and> reasonsOk s gc"
proof -
  have ok: "loaded_ok s" using loaded_ok_lines [OF loaded_ok_empty assms(1)] .
  then have g: "graph_ok s" "g_suppressed s = []" by (auto simp: loaded_ok_def)
  obtain xs where xs: "markAll s = (Inr (roots s), s\<lparr>g_suppressed := xs\<rparr>)" "set xs = {f. inGraph s f}"
    using markAll_run [OF g(2)] by blast
  obtain ys where ys: "loopM visitLive (roots s) (s\<lparr>g_suppressed := xs\<rparr>) = (Inr None, s\<lparr>g_suppressed := ys\<rparr>)"
    "set ys = {f. suppressedIn s f}"
    using loop_live [OF g(1) xs(2)] by (auto simp: suppressedIn_def)
  let ?g = "s\<lparr>g_suppressed := ys, g_gc := gcSeeds s ys\<rparr>"
  obtain b where b: "addGCFunction gcName ''GC'' (s\<lparr>g_suppressed := ys, g_gc := filter (\<lambda>(name, _). name \<notin> set ys) (g_gc s)\<rparr>) = (Inr b, ?g)"
    using seed_run by blast
  have callers: "h \<noteq> ''undefined''" if "calls ?g h f" for f h
    using that assms(3) by (auto simp: calls_def dest: entries_key)
  have seeds: "mayGC s f" if "f \<in> keys (g_gc ?g)" for f
    using that gcSeeds_ok(2) [OF ok, of ys] ys(2) by (auto intro: mayGC.seed mayGC.collector)
  have up: "mayGC s h" if "mayGC s f" "calls ?g h f" "h \<notin> set (g_suppressed ?g)" "\<not> ignoreGCFunction h" for f h
    using that ys(2) by (auto intro: mayGC.caller)
  have base: "graph_ok ?g" "reasonsOk ?g (g_gc ?g)" using g(1) gcSeeds_ok(1) [OF ok] by simp_all
  have "\<exists>gc. loopM visitGC (map fst (g_gc ?g)) ?g = (Inr None, ?g\<lparr>g_gc := gc\<rparr>) \<and> reasonsOk ?g gc \<and> keys (g_gc ?g) \<subseteq> keys gc \<and>
    (\<forall>f\<in>keys gc. mayGC s f) \<and>
    (\<forall>f h. f \<in> keys gc \<and> calls ?g h f \<and> h \<notin> set (g_suppressed ?g) \<and> \<not> ignoreGCFunction h \<longrightarrow> h \<in> keys gc)"
    by (rule loop_gc [where Q = "mayGC s"]) (fact base callers seeds up)+
  then obtain gc where
    gc: "loopM visitGC (map fst (g_gc ?g)) ?g = (Inr None, ?g\<lparr>g_gc := gc\<rparr>)" "reasonsOk ?g gc" "keys (g_gc ?g) \<subseteq> keys gc"
    "\<forall>f\<in>keys gc. mayGC s f"
    "\<forall>f h. f \<in> keys gc \<and> calls ?g h f \<and> h \<notin> set (g_suppressed ?g) \<and> \<not> ignoreGCFunction h \<longrightarrow> h \<in> keys gc"
    by blast
  have "f \<in> keys gc" if "mayGC s f" for f
    using that
  proof (induction rule: mayGC.induct)
    case (caller g f)
    then show ?case using gc(5) ys(2) by auto
  qed (use gc(3) gcSeeds_ok(2) [OF ok, of ys] ys(2) in auto)
  then have "keys gc = {f. mayGC s f}" using gc(4) by blast
  moreover have "loadCallgraph text emptyGraph = (Inr (), s\<lparr>g_suppressed := ys, g_gc := gc\<rparr>)"
    using assms(1,2) xs(1) ys(1) b gc(1)
    by (simp add: loadCallgraph_def bindM_def dropSuppressed_run assert_def ret_def)
  moreover have "reasonsOk s gc" using gc(2) by (simp add: reasonsOk_def)
  ultimately show ?thesis using ys(2) by blast
qed

section \<open>Chains of reasons\<close>

text \<open>Following reasons goes back in the table, so it ends, and passes along calls to the text of a seed.\<close>

lemma reasonLines_chain:
  assumes "reasonsOk g gc" "i < length gc" "\<forall>f\<in>keys gc. \<not> seedReason f"
  shows "\<exists>ls r. while_option (\<lambda>(name, out). the (map_of gc name) \<in> keys gc) (\<lambda>(name, out). (the (map_of gc name), out @ [the (map_of gc name)]))
      (fst (gc ! i), out) = Some (List.last (fst (gc ! i) # ls), out @ ls) \<and>
    the (map_of gc (List.last (fst (gc ! i) # ls))) = r \<and> seedReason r \<and> successively (calls g) (fst (gc ! i) # ls) \<and>
    set ls \<subseteq> keys gc"
  using assms(2)
proof (induction i arbitrary: out rule: less_induct)
  case (less i)
  let ?n = "fst (gc ! i)" and ?r = "snd (gc ! i)"
  have lookup: "map_of gc ?n = Some ?r"
    using assms(1) less.prems by (simp add: reasonsOk_def map_of_eq_Some_iff)
  show ?case
  proof (cases "?r \<in> keys gc")
    case False
    have "fst (gc ! j) \<in> keys gc" if "j < i" for j using that less.prems by (simp add: keys_def)
    then have "seedReason ?r" using assms(1) less.prems False unfolding reasonsOk_def by metis
    then show ?thesis using False lookup
      by (intro exI [of _ "[]"] exI [of _ ?r]) (subst while_option_unfold, simp)
  next
    case True
    then have "\<not> seedReason ?r" using assms(3) by blast
    then obtain j where j: "j < i" "fst (gc ! j) = ?r" "calls g ?n ?r" using assms(1) less.prems by (auto simp: reasonsOk_def)
    obtain ls r where ls: "while_option (\<lambda>(name, out). the (map_of gc name) \<in> keys gc)
        (\<lambda>(name, out). (the (map_of gc name), out @ [the (map_of gc name)])) (?r, out @ [?r]) = Some (List.last (?r # ls), (out @ [?r]) @ ls)"
      "the (map_of gc (List.last (?r # ls))) = r" "seedReason r" "successively (calls g) (?r # ls)" "set ls \<subseteq> keys gc"
      using less.IH [OF j(1), of "out @ [?r]"] less.prems j(1,2) by auto
    then show ?thesis using True lookup j(3)
      by (intro exI [of _ "?r # ls"] exI [of _ r]) (subst while_option_unfold, simp)
  qed
qed

lemma nth_key: "f \<in> keys gc \<Longrightarrow> \<exists>i<length gc. fst (gc ! i) = f"
  by (metis imageE in_set_conv_nth keys_def)

section \<open>A small graph\<close>

text \<open>\<open>f\<close> calls the collector; \<open>g\<close> does too, and is called by itself only.\<close>

definition sampleText :: string where
  "sampleText = joinLines [''#1 f()'', ''#2 '' @ gcName, ''#3 g()'', ''D 1 2'', ''D 3 3'', ''D 3 2'']"

definition sampleLoaded :: callgraph where
  "sampleLoaded = \<lparr>g_callees = [(''f()'', [(gcName, False)]), (''g()'', [(''g()'', False), (gcName, False)])],
     g_callers = [(gcName, [(''f()'', False), (''g()'', False)]), (''g()'', [(''g()'', False)])],
     g_gc = [], g_suppressed = [], g_names = [[], ''f()'', gcName, ''g()'']\<rparr>"

lemma sample_loads:
  "mapM loadLine (splitLines sampleText) emptyGraph = (Inr [(), (), (), (), (), (), ()], sampleLoaded)"
  by code_simp

lemma sample_side:
  "gcName \<in> keys (g_callers sampleLoaded)" "''undefined'' \<notin> keys (g_callees sampleLoaded)"
  by code_simp+

lemma sample_calls: "calls sampleLoaded h f \<longleftrightarrow> (h, f) \<in> {(''f()'', gcName), (''g()'', ''g()''), (''g()'', gcName)}"
  by (auto simp: calls_def sampleLoaded_def entries_def)

lemma sample_mayGC: "mayGC sampleLoaded ''f()''" "mayGC sampleLoaded f \<Longrightarrow> f \<in> {''f()'', gcName}"
proof -
  have gc: "\<not> shouldSuppressGC gcName" "\<not> shouldSuppressGC ''f()''" "\<not> ignoreGCFunction ''f()''" by code_simp+
  have f: "live sampleLoaded ''f()''"
    by (rule live.root) (use gc in \<open>auto simp: sampleLoaded_def keys_def gcName_def\<close>)
  then have "live sampleLoaded gcName" by (rule live.call) (use gc sample_calls in auto)
  then have "mayGC sampleLoaded gcName" by (intro mayGC.collector) (simp add: suppressedIn_def)
  then show "mayGC sampleLoaded ''f()''" by (rule mayGC.caller) (use f gc sample_calls in \<open>auto simp: suppressedIn_def\<close>)
  have dead: "f \<noteq> ''g()''" if "live sampleLoaded f" for f using that
  proof (induction rule: live.induct)
    case (root f)
    then show ?case by (auto simp: sampleLoaded_def keys_def)
  next
    case (call f g)
    then show ?case using sample_calls by (auto simp: gcName_def)
  qed
  have no_gc: "keys (g_gc sampleLoaded) = {}" by (simp add: sampleLoaded_def keys_def)
  have sup: "suppressedIn sampleLoaded ''g()''"
    using dead by (auto simp: suppressedIn_def inGraph_def sampleLoaded_def keys_def)
  show "mayGC sampleLoaded f \<Longrightarrow> f \<in> {''f()'', gcName}"
    by (induction rule: mayGC.induct) (use sup no_gc in \<open>auto simp: sample_calls\<close>)
qed

section \<open>Properties\<close>

text \<open>
  C21: Every line keeps the call graph well formed: its two tables list the same calls in both directions, a name is a
  key of a table only when it has a call there, the functions that may collect are listed once, with the text of an
  unknown call as the reason, and none of them is ignored.
\<close>

theorem graph_well_formed:
  assumes "mapM loadLine ls emptyGraph = (Inr u, s)"
  shows "graph_ok s \<and> distinct (map fst (g_gc s)) \<and> (\<forall>(f, r)\<in>set (g_gc s). \<not> ignoreGCFunction f \<and> seedReason r)"
proof -
  have "loaded_ok s" using loaded_ok_lines [OF loaded_ok_empty assms] .
  then have "graph_ok s" "distinct (map fst (g_gc s))" "\<forall>f\<in>keys (g_gc s). \<not> ignoreGCFunction f" "\<forall>e\<in>set (g_gc s). seedReason (snd e)"
    by (auto simp: loaded_ok_def)
  then show ?thesis by (force simp: keys_def)
qed

lemma graph_well_formed_witness:
  "graph_ok sampleLoaded \<and> distinct (map fst (g_gc sampleLoaded))"
  using graph_well_formed [OF sample_loads] by blast

text \<open>
  Loading a call graph ends without an exception, and the functions it reports as able to collect
  garbage are exactly those from which a chain of unsuppressed calls, through functions that neither only
  run suppressed nor are ignored, leads to the collector or to a call with an unknown target.
\<close>

theorem gc_functions_exact:
  assumes "mapM loadLine (splitLines text) emptyGraph = (Inr u, s)" "gcName \<in> keys (g_callers s)" "''undefined'' \<notin> keys (g_callees s)"
  shows "\<exists>t. loadCallgraph text emptyGraph = (Inr (), t) \<and> keys (g_gc t) = {f. mayGC s f} \<and>
    set (g_suppressed t) = {f. inGraph s f \<and> \<not> live s f}"
  using loadCallgraph_run [OF assms] by (auto simp: suppressedIn_def)

lemma gc_functions_exact_witness:
  "\<exists>t. loadCallgraph sampleText emptyGraph = (Inr (), t) \<and> ''f()'' \<in> keys (g_gc t) \<and> ''g()'' \<notin> keys (g_gc t)"
  using gc_functions_exact [OF sample_loads sample_side] sample_mayGC by (auto simp: gcName_def)

text \<open>
  C20: The report of every function that may collect ends: following the reasons from it passes along
  unsuppressed calls to a function whose reason is the collector or an unknown call, when no
  function is named like such a reason.
\<close>

theorem reasons_are_calls:
  assumes "mapM loadLine (splitLines text) emptyGraph = (Inr u, s)" "gcName \<in> keys (g_callers s)" "''undefined'' \<notin> keys (g_callees s)"
    and "\<And>f. mayGC s f \<Longrightarrow> \<not> seedReason f" "mayGC s f"
  shows "\<exists>ls r. reasonLines (g_gc (snd (loadCallgraph text emptyGraph))) f = Some (ls @ [r]) \<and> seedReason r \<and> successively (calls s) (f # ls)"
proof -
  obtain gc ys where gc: "loadCallgraph text emptyGraph = (Inr (), s\<lparr>g_suppressed := ys, g_gc := gc\<rparr>)"
    "keys gc = {f. mayGC s f}" "reasonsOk s gc"
    using loadCallgraph_run [OF assms(1-3)] by blast
  obtain i where i: "i < length gc" "fst (gc ! i) = f" using nth_key [of f gc] gc(2) assms(5) by auto
  from reasonLines_chain [OF gc(3) i(1), of "[]"] assms(4) gc(2) i(2) show ?thesis
    by (auto simp: reasonLines_def gc(1))
qed

lemma reasons_are_calls_witness:
  "\<exists>ls r. reasonLines (g_gc (snd (loadCallgraph sampleText emptyGraph))) ''f()'' = Some (ls @ [r]) \<and> seedReason r"
proof -
  have "\<not> seedReason ''f()''" "\<not> seedReason gcName" by code_simp+
  then show ?thesis using reasons_are_calls [OF sample_loads sample_side _ sample_mayGC(1)] sample_mayGC(2) by blast
qed

text \<open>
  C22: Functions that only call each other are taken as suppressed, as if nothing ever called them: when every
  caller of a function in a set is in the set and each has a caller, none of them is reported as able to
  collect, and all are listed as suppressed, whatever they call.
\<close>

theorem recursive_roots_suppressed:
  assumes "mapM loadLine (splitLines text) emptyGraph = (Inr u, s)" "gcName \<in> keys (g_callers s)" "''undefined'' \<notin> keys (g_callees s)"
    and "\<And>f. f \<in> C \<Longrightarrow> f \<in> keys (g_callers s)" "\<And>f h. f \<in> C \<Longrightarrow> calls s h f \<Longrightarrow> h \<in> C" "f \<in> C"
  shows "f \<in> set (g_suppressed (snd (loadCallgraph text emptyGraph))) \<and> f \<notin> keys (g_gc (snd (loadCallgraph text emptyGraph)))"
proof -
  have dead: "f \<notin> C" if "live s f" for f using that
    by (induction rule: live.induct) (use assms(4,5) in blast)+
  have "suppressedIn s f" using assms(4,6) dead by (auto simp: suppressedIn_def inGraph_def)
  moreover have "\<not> mayGC s f" if "suppressedIn s f" for f using that by (auto elim: mayGC.cases)
  ultimately show ?thesis using loadCallgraph_run [OF assms(1-3)] by auto
qed

lemma recursive_roots_suppressed_witness:
  "''g()'' \<in> set (g_suppressed (snd (loadCallgraph sampleText emptyGraph)))"
  using recursive_roots_suppressed [OF sample_loads sample_side, of "{''g()''}" "''g()''"] sample_calls
  by (simp add: sampleLoaded_def keys_def gcName_def)

end
