(* ===== verification/Hazard_Suppress.thy ===== *)
theory Hazard_Suppress
  imports Hazard_Data Worklist
begin

text \<open>
  \<open>suppressedPoints.js\<close>: the points of a function at which an object is alive whose constructor suppresses
  garbage collection. The search follows the edges from the end of the constructor's call and stops at a
  call of the destructor on the same variable; a loop that is entered is suppressed as a whole.

  The points are pairs of the index of a body and a point of it. A recursion into nested loops has fuel;
  one more than the depth of the nesting is enough.
\<close>

section \<open>Blocks\<close>

text \<open>The body of a block, which must be the only one.\<close>

definition findBody :: "body list \<Rightarrow> blockid \<Rightarrow> ('s, nat) jsm" where
  "findBody bodies k =
     bindM (forLoop [0..<length bodies] None (\<lambda>i found.
              bindM (sameBlockId (b_block (bodies ! i)) k) (\<lambda>same.
              if \<not> same then ret found
              else bindM (assert (found = None) ''body'') (\<lambda>_. ret (Some i))))) (\<lambda>found.
     case found of None \<Rightarrow> throw (AssertionFailed ''body'') | Some i \<Rightarrow> ret i)"

definition blockOf :: "edge \<Rightarrow> ('s, blockid) jsm" where
  "blockOf e = (case e_block e of None \<Rightarrow> throw TypeError | Some k \<Rightarrow> ret k)"

type_synonym points = "(nat \<times> nat) set"

definition suppressPoint :: "nat \<Rightarrow> nat \<Rightarrow> (points, unit) jsm" where
  "suppressPoint i p S = (Inr (), insert (i, p) S)"

fun suppressAllPoints :: "nat \<Rightarrow> body list \<Rightarrow> blockid \<Rightarrow> (points, unit) jsm" where
  "suppressAllPoints 0 bodies k = throw RecursionGuard"
| "suppressAllPoints (Suc fuel) bodies k =
     bindM (ask (findBody bodies k)) (\<lambda>i.
     bindM (mapM (\<lambda>e.
              bindM (suppressPoint i (e_src e)) (\<lambda>_.
              if e_kind e = ''Loop'' then bindM (ask (blockOf e)) (suppressAllPoints fuel bodies) else ret ()))
            (b_edges (bodies ! i))) (\<lambda>_. ret ()))"

section \<open>Destructors\<close>

definition instanceOf :: "edge \<Rightarrow> ('s, gexp) jsm" where
  "instanceOf e = (case e_inst e of None \<Rightarrow> throw TypeError | Some x \<Rightarrow> ret x)"

definition isMatchingDestructor :: "edge \<Rightarrow> edge \<Rightarrow> ('s, bool) jsm" where
  "isMatchingDestructor constructor e =
     (if e_kind e \<noteq> ''Call'' then ret False
      else bindM (expAt e 0) (\<lambda>callee.
      case callee of EVar v \<Rightarrow>
        bindM (calleeName v) (\<lambda>name.
        if \<not> has ''::~'' name then ret False
        else
          bindM (instanceOf constructor) (\<lambda>constructExp.
          case constructExp of EVar cv \<Rightarrow>
            bindM (instanceOf e) (\<lambda>destructExp.
            case destructExp of EVar dv \<Rightarrow> sameVariable cv dv | _ \<Rightarrow> ret False)
          | _ \<Rightarrow> throw (AssertionFailed ''constructExp'')))
      | _ \<Rightarrow> ret False))"

section \<open>The search\<close>

text \<open>The state is the points that the search has seen and the points that are suppressed.\<close>

definition visitSuppressed :: "body list \<Rightarrow> nat \<Rightarrow> edge \<Rightarrow> nat \<Rightarrow> (nat set \<times> points, nat list + unit) jsm" where
  "visitSuppressed bodies i constructor point =
     (\<lambda>(seen, S).
        if point \<in> seen then (Inr (Inl []), (seen, S))
        else case bindM (suppressPoint i point) (\<lambda>_.
                  mapM (\<lambda>e. bindM (ask (isMatchingDestructor constructor e)) (\<lambda>matches.
                         if matches then ret []
                         else bindM (if e_kind e = ''Loop''
                                     then bindM (ask (blockOf e)) (suppressAllPoints (Suc (length bodies)) bodies) else ret ())
                                    (\<lambda>_. ret [e_dst e])))
                    (filter (\<lambda>e. e_src e = point) (b_edges (bodies ! i)))) S of
               (Inl e, S') \<Rightarrow> (Inl e, (insert point seen, S'))
             | (Inr new, S') \<Rightarrow> (Inr (Inl (concat new)), (insert point seen, S')))"

text \<open>The edges that call a suppressing constructor on a variable.\<close>

definition suppressesFrom :: "edge \<Rightarrow> ('s, bool) jsm" where
  "suppressesFrom e =
     (if e_kind e \<noteq> ''Call'' then ret False
      else bindM (expAt e 0) (\<lambda>callee.
      case callee of EVar v \<Rightarrow>
        bindM (calleeName v) (\<lambda>name.
        if \<not> isSuppressConstructor name then ret False
        else bindM (instanceOf e) (\<lambda>x. ret (case x of EVar _ \<Rightarrow> True | _ \<Rightarrow> False)))
      | _ \<Rightarrow> ret False))"

definition suppressFrom :: "body list \<Rightarrow> nat \<Rightarrow> edge \<Rightarrow> (points, unit) jsm" where
  "suppressFrom bodies i e S =
     (case loopM (visitSuppressed bodies i e) [e_dst e] ({}, S) of (Inl x, (_, S')) \<Rightarrow> (Inl x, S') | (Inr _, (_, S')) \<Rightarrow> (Inr (), S'))"

definition computeSuppressedPoints :: "body list \<Rightarrow> nat \<Rightarrow> (points, unit) jsm" where
  "computeSuppressedPoints bodies i =
     bindM (mapM (\<lambda>e. bindM (ask (suppressesFrom e)) (\<lambda>b. if b then suppressFrom bodies i e else ret ())) (b_edges (bodies ! i)))
       (\<lambda>_. ret ())"

text \<open>The points of all bodies of a function, which start with none suppressed.\<close>

definition suppressedPoints :: "body list \<Rightarrow> points question" where
  "suppressedPoints bodies u = (case mapM (computeSuppressedPoints bodies) [0..<length bodies] {} of
       (Inl x, _) \<Rightarrow> (Inl x, u)
     | (Inr _, S) \<Rightarrow> (Inr S, u))"

section \<open>What is suppressed\<close>

text \<open>The points of a loop: those of its block and of the loops inside it.\<close>

inductive inLoop :: "body list \<Rightarrow> blockid \<Rightarrow> nat \<times> nat \<Rightarrow> bool" for bodies where
  point: "answers (findBody bodies k) i \<Longrightarrow> e \<in> set (b_edges (bodies ! i)) \<Longrightarrow> inLoop bodies k (i, e_src e)"
| nested: "answers (findBody bodies k) i \<Longrightarrow> e \<in> set (b_edges (bodies ! i)) \<Longrightarrow> e_kind e = ''Loop'' \<Longrightarrow> e_block e = Some k' \<Longrightarrow>
    inLoop bodies k' q \<Longrightarrow> inLoop bodies k q"

text \<open>Every loop edge has one block, and loops are nested to a depth.\<close>

definition nesting :: "body list \<Rightarrow> (nat \<Rightarrow> nat) \<Rightarrow> bool" where
  "nesting bodies h \<longleftrightarrow> (\<forall>i<length bodies. h i \<le> length bodies \<and> (\<forall>e\<in>set (b_edges (bodies ! i)). e_kind e = ''Loop'' \<longrightarrow>
     (\<exists>k j. e_block e = Some k \<and> answers (findBody bodies k) j \<and> j < length bodies \<and> h j < h i)))"

lemma mapM_union:
  assumes "\<And>e S. e \<in> set es \<Longrightarrow> f e S = (Inr (y e), S \<union> A e)"
  shows "mapM f es S = (Inr (map y es), S \<union> (\<Union>e\<in>set es. A e))"
  using assms by (induction es arbitrary: S) (auto simp: bindM_def ret_def Un_assoc)

lemma blockOf_answers: "e_block e = Some k \<Longrightarrow> answers (blockOf e) k"
  by (simp add: answers_def blockOf_def ret_def)

lemma inLoop_iff:
  assumes "answers (findBody bodies k) i"
  shows "{q. inLoop bodies k q} = (\<Union>e\<in>set (b_edges (bodies ! i)). insert (i, e_src e)
    (if e_kind e = ''Loop'' then {q. \<exists>k'. e_block e = Some k' \<and> inLoop bodies k' q} else {}))" (is "?L = ?R")
proof
  show "?L \<subseteq> ?R"
  proof
    fix q assume "q \<in> ?L"
    then have "inLoop bodies k q" by simp
    then show "q \<in> ?R"
    proof (cases rule: inLoop.cases)
      case (point j e)
      then show ?thesis using answers_unique [OF assms point(2)] by auto
    next
      case (nested j e k')
      then show ?thesis using answers_unique [OF assms nested(1)] by auto
    qed
  qed
  show "?R \<subseteq> ?L" using assms by (auto intro: inLoop.intros split: if_splits)
qed

lemma nestingD:
  assumes "nesting bodies h" "i < length bodies" "e \<in> set (b_edges (bodies ! i))" "e_kind e = ''Loop''"
  obtains k j where "e_block e = Some k" "answers (findBody bodies k) j" "j < length bodies" "h j < h i"
  using assms unfolding nesting_def by blast

lemma suppressAll_run:
  assumes "nesting bodies h" "answers (findBody bodies k) i" "i < length bodies" "h i < fuel"
  shows "suppressAllPoints fuel bodies k S = (Inr (), S \<union> {q. inLoop bodies k q})"
  using assms(2-4)
proof (induction fuel arbitrary: k i S)
  case (Suc fuel)
  let ?A = "\<lambda>e. insert (i, e_src e) (if e_kind e = ''Loop'' then {q. \<exists>k'. e_block e = Some k' \<and> inLoop bodies k' q} else {})"
  let ?f = "\<lambda>e. bindM (suppressPoint i (e_src e)) (\<lambda>_.
      if e_kind e = ''Loop'' then bindM (ask (blockOf e)) (suppressAllPoints fuel bodies) else ret ())"
  have step: "?f e S = (Inr (), S \<union> ?A e)" if e: "e \<in> set (b_edges (bodies ! i))" for e S
  proof (cases "e_kind e = ''Loop''")
    case False
    then show ?thesis by (simp add: bindM_def suppressPoint_def ret_def)
  next
    case True
    then obtain k' j where k': "e_block e = Some k'" "answers (findBody bodies k') j" "j < length bodies" "h j < h i"
      using nestingD [OF assms(1) Suc.prems(2) e] by blast
    have "suppressAllPoints fuel bodies k' S = (Inr (), S \<union> {q. inLoop bodies k' q})" for S
      using Suc.IH [OF k'(2,3)] k'(4) Suc.prems(3) by simp
    then show ?thesis using True k'(1) by (auto simp: bindM_def suppressPoint_def ask_answers [OF blockOf_answers] ret_def)
  qed
  have "mapM ?f (b_edges (bodies ! i)) S = (Inr (map (\<lambda>_. ()) (b_edges (bodies ! i))), S \<union> {q. inLoop bodies k q})"
    unfolding inLoop_iff [OF Suc.prems(1)] by (rule mapM_union) (rule step)
  then show ?case by (simp add: ask_answers [OF Suc.prems(1)] bindM_def ret_def)
qed simp

definition matches :: "edge \<Rightarrow> edge \<Rightarrow> bool" where
  "matches c e \<longleftrightarrow> answers (isMatchingDestructor c e) True"

definition succs :: "body list \<Rightarrow> nat \<Rightarrow> edge \<Rightarrow> nat \<Rightarrow> edge set" where
  "succs bodies i c p = {e \<in> set (b_edges (bodies ! i)). e_src e = p \<and> \<not> matches c e}"

text \<open>What a set of visited points makes suppressed.\<close>

definition scopeOf :: "body list \<Rightarrow> nat \<Rightarrow> edge \<Rightarrow> nat set \<Rightarrow> points" where
  "scopeOf bodies i c seen = (\<Union>p\<in>seen. insert (i, p)
     (\<Union>e\<in>succs bodies i c p. if e_kind e = ''Loop'' then {q. \<exists>k. e_block e = Some k \<and> inLoop bodies k q} else {}))"

text \<open>The well-formed bodies: the question about a destructor has an answer at every edge.\<close>

definition askable :: "body list \<Rightarrow> nat \<Rightarrow> edge \<Rightarrow> bool" where
  "askable bodies i c \<longleftrightarrow> i < length bodies \<and> (\<exists>h. nesting bodies h) \<and>
     (\<forall>e\<in>set (b_edges (bodies ! i)). \<exists>b. answers (isMatchingDestructor c e) b)"

lemma visitSuppressed_run:
  assumes "askable bodies i c" "p \<notin> seen"
  shows "\<exists>new. visitSuppressed bodies i c p (seen, S) = (Inr (Inl new), (insert p seen, S \<union> scopeOf bodies i c {p})) \<and>
    set new = e_dst ` succs bodies i c p"
proof -
  obtain h where h: "nesting bodies h" using assms(1) by (auto simp: askable_def)
  let ?es = "filter (\<lambda>e. e_src e = p) (b_edges (bodies ! i))"
  let ?A = "\<lambda>e. if \<not> matches c e \<and> e_kind e = ''Loop'' then {q. \<exists>k. e_block e = Some k \<and> inLoop bodies k q} else {}"
  let ?f = "\<lambda>e. bindM (ask (isMatchingDestructor c e)) (\<lambda>matches.
      if matches then ret []
      else bindM (if e_kind e = ''Loop'' then bindM (ask (blockOf e)) (suppressAllPoints (Suc (length bodies)) bodies) else ret ())
             (\<lambda>_. ret [e_dst e]))"
  have step: "?f e S = (Inr (if matches c e then [] else [e_dst e]), S \<union> ?A e)" if e: "e \<in> set ?es" for e S
  proof -
    obtain b where b: "answers (isMatchingDestructor c e) b" using assms(1) e by (auto simp: askable_def)
    then have m: "b = matches c e" using answers_unique [OF b, of True] by (auto simp: matches_def)
    show ?thesis
    proof (cases "e_kind e = ''Loop''")
      case False
      then show ?thesis using m by (simp add: ask_answers [OF b] ret_def)
    next
      case True
      then obtain k j where k: "e_block e = Some k" "answers (findBody bodies k) j" "j < length bodies" "h j < h i"
        using nestingD [OF h, of i e] e assms(1) by (auto simp: askable_def)
      then have "h j < Suc (length bodies)" using h by (simp add: nesting_def le_imp_less_Suc)
      from suppressAll_run [OF h k(2,3) this] show ?thesis
        using m True k(1) by (auto simp: ask_answers [OF b] ask_answers [OF blockOf_answers] bindM_def ret_def)
    qed
  qed
  have "mapM ?f ?es S' = (Inr (map (\<lambda>e. if matches c e then [] else [e_dst e]) ?es), S' \<union> (\<Union>e\<in>set ?es. ?A e))" for S'
    by (rule mapM_union) (rule step)
  moreover have "insert (i, p) S \<union> (\<Union>e\<in>set ?es. ?A e) = S \<union> scopeOf bodies i c {p}"
    by (auto simp: scopeOf_def succs_def split: if_splits)
  moreover have "set (concat (map (\<lambda>e. if matches c e then [] else [e_dst e]) ?es)) = e_dst ` succs bodies i c p"
    by (auto simp: succs_def split: if_splits)
  ultimately show ?thesis
    using assms(2) by (intro exI conjI) (auto simp: visitSuppressed_def bindM_def suppressPoint_def)
qed

section \<open>The search\<close>

definition reachable :: "body list \<Rightarrow> nat \<Rightarrow> edge \<Rightarrow> nat set" where
  "reachable bodies i c = {p. (\<lambda>a b. b \<in> e_dst ` succs bodies i c a)\<^sup>*\<^sup>* (e_dst c) p}"

definition suppressInv :: "body list \<Rightarrow> nat \<Rightarrow> edge \<Rightarrow> points \<Rightarrow> nat set \<times> points \<Rightarrow> bool" where
  "suppressInv bodies i c S0 s \<longleftrightarrow> askable bodies i c \<and> snd s = S0 \<union> scopeOf bodies i c (fst s)"

definition targets :: "body list \<Rightarrow> nat \<Rightarrow> edge \<Rightarrow> nat set" where
  "targets bodies i c = insert (e_dst c) (e_dst ` set (b_edges (bodies ! i)))"

lemma scopeOf_insert: "scopeOf bodies i c (insert p seen) = scopeOf bodies i c seen \<union> scopeOf bodies i c {p}"
  by (auto simp: scopeOf_def)

interpretation scopeSearch: search "visitSuppressed bodies i c" "suppressInv bodies i c S0" "\<lambda>p. p \<in> targets bodies i c"
    "\<lambda>s. card (targets bodies i c - fst s)" fst "\<lambda>p. e_dst ` succs bodies i c p" "(=)" for bodies i c S0
proof
  fix p and s :: "nat set \<times> points"
  obtain seen S where s: "s = (seen, S)" by (cases s)
  assume h: "suppressInv bodies i c S0 s" "p \<in> targets bodies i c"
  then have a: "askable bodies i c" "S = S0 \<union> scopeOf bodies i c seen" by (auto simp: suppressInv_def s)
  show "case visitSuppressed bodies i c p s of (Inl e, t) \<Rightarrow> False | (Inr (Inr a), t) \<Rightarrow> True
      | (Inr (Inl new), t) \<Rightarrow> suppressInv bodies i c S0 t \<and> set new \<subseteq> e_dst ` succs bodies i c p \<and> (\<forall>y\<in>set new. y \<in> targets bodies i c) \<and>
         (card (targets bodies i c - fst t) < card (targets bodies i c - fst s) \<or>
          card (targets bodies i c - fst t) = card (targets bodies i c - fst s) \<and> new = []) \<and>
         p \<in> fst t \<and> fst s \<subseteq> fst t \<and>
         (\<forall>y\<in>fst t - fst s. y = p \<and> (\<forall>z\<in>e_dst ` succs bodies i c y. \<exists>u\<in>fst t \<union> set new. z = u))"
  proof (cases "p \<in> seen")
    case True
    then show ?thesis using h(1) by (simp add: visitSuppressed_def s)
  next
    case False
    obtain new where new: "visitSuppressed bodies i c p (seen, S) = (Inr (Inl new), (insert p seen, S \<union> scopeOf bodies i c {p}))"
      "set new = e_dst ` succs bodies i c p"
      using visitSuppressed_run [OF a(1) False] by blast
    have "finite (targets bodies i c - seen)" by (simp add: targets_def)
    moreover have "targets bodies i c - insert p seen \<subset> targets bodies i c - seen" using h(2) False by blast
    ultimately have "card (targets bodies i c - insert p seen) < card (targets bodies i c - seen)" by (rule psubset_card_mono)
    moreover have "suppressInv bodies i c S0 (insert p seen, S \<union> scopeOf bodies i c {p})"
      using a by (auto simp: suppressInv_def scopeOf_insert [of _ _ _ p seen])
    moreover have "set new \<subseteq> targets bodies i c" using new(2) by (auto simp: targets_def succs_def)
    ultimately show ?thesis using new by (auto simp: s)
  qed
qed auto

lemma suppressFrom_run:
  assumes "askable bodies i c"
  shows "suppressFrom bodies i c S = (Inr (), S \<union> scopeOf bodies i c (reachable bodies i c))"
proof -
  have "suppressInv bodies i c S ({}, S)" using assms by (simp add: suppressInv_def scopeOf_def)
  moreover have "e_dst c \<in> targets bodies i c" by (simp add: targets_def)
  moreover have "scopeSearch.closedBy bodies i c [] ({}, S)" by (simp add: scopeSearch.closedBy_def)
  ultimately obtain r t where r: "loopM (visitSuppressed bodies i c) [e_dst c] ({}, S) = (Inr r, t)"
    "case r of None \<Rightarrow> scopeSearch.searching bodies i c S [e_dst c] ({}, S) [] t
      | Some a \<Rightarrow> \<exists>x s'. scopeSearch.reach bodies i c [e_dst c] x \<and> x \<in> targets bodies i c \<and> suppressInv bodies i c S s' \<and>
          visitSuppressed bodies i c x s' = (Inr (Inr a), t)"
    using scopeSearch.search_result [of bodies i c S "({}, S)" "[e_dst c]"] by auto
  have "r = None"
  proof (cases r)
    case (Some a)
    then obtain x s' where x: "askable bodies i c" "visitSuppressed bodies i c x s' = (Inr (Inr a), t)"
      using r(2) assms by auto
    obtain seen S' where "s' = (seen, S')" by (cases s')
    then show ?thesis using x visitSuppressed_run [OF x(1), of x seen S'] by (cases "x \<in> seen") (auto simp: visitSuppressed_def)
  qed
  then have t: "scopeSearch.searching bodies i c S [e_dst c] ({}, S) [] t" using r(2) by simp
  have "fst t = reachable bodies i c"
  proof
    show "fst t \<subseteq> reachable bodies i c"
      using scopeSearch.search_sound [OF t] by (auto simp: scopeSearch.reach_def reachable_def)
    show "reachable bodies i c \<subseteq> fst t"
      using scopeSearch.search_complete [OF t] by (auto simp: scopeSearch.reach_def reachable_def)
  qed
  moreover have "snd t = S \<union> scopeOf bodies i c (fst t)" using t by (simp add: scopeSearch.searching_def suppressInv_def)
  ultimately show ?thesis using r(1) by (cases t) (simp add: suppressFrom_def)
qed

lemma suppressed_run:
  assumes "i < length bodies" "nesting bodies h"
    and "\<And>e. e \<in> set (b_edges (bodies ! i)) \<Longrightarrow> \<exists>b. answers (suppressesFrom e) b"
    and "\<And>c e. c \<in> set (b_edges (bodies ! i)) \<Longrightarrow> answers (suppressesFrom c) True \<Longrightarrow> e \<in> set (b_edges (bodies ! i)) \<Longrightarrow>
           \<exists>b. answers (isMatchingDestructor c e) b"
  shows "computeSuppressedPoints bodies i S = (Inr (), S \<union>
    (\<Union>c\<in>{c \<in> set (b_edges (bodies ! i)). answers (suppressesFrom c) True}. scopeOf bodies i c (reachable bodies i c)))"
proof -
  let ?A = "\<lambda>c. if answers (suppressesFrom c) True then scopeOf bodies i c (reachable bodies i c) else {}"
  let ?f = "\<lambda>e. bindM (ask (suppressesFrom e)) (\<lambda>b. if b then suppressFrom bodies i e else ret ())"
  have "?f c S = (Inr (), S \<union> ?A c)" if c: "c \<in> set (b_edges (bodies ! i))" for c S
  proof -
    obtain b where b: "answers (suppressesFrom c) b" using assms(3) [OF c] by blast
    show ?thesis
    proof (cases b)
      case True
      then have "askable bodies i c" using assms b c by (auto simp: askable_def)
      then show ?thesis using True b suppressFrom_run by (simp add: ask_answers [OF b])
    next
      case False
      then have "\<not> answers (suppressesFrom c) True" using answers_unique [OF b, of True] by auto
      then show ?thesis using False by (simp add: ask_answers [OF b] ret_def)
    qed
  qed
  then have "mapM ?f (b_edges (bodies ! i)) S = (Inr (map (\<lambda>_. ()) (b_edges (bodies ! i))), S \<union> (\<Union>c\<in>set (b_edges (bodies ! i)). ?A c))"
    by (rule mapM_union)
  moreover have "(\<Union>c\<in>set (b_edges (bodies ! i)). ?A c) =
      (\<Union>c\<in>{c \<in> set (b_edges (bodies ! i)). answers (suppressesFrom c) True}. scopeOf bodies i c (reachable bodies i c))"
    by (auto split: if_splits)
  ultimately show ?thesis unfolding computeSuppressedPoints_def bindM_def by (simp only: prod.case sum.case ret_def)
qed

section \<open>Properties\<close>

text \<open>
  C15: Computing the suppressed points of a body ends without an exception, and adds exactly the points that
  are reached from the end of a call of a suppressing constructor on a variable without passing a call of
  that variable's destructor, with every point of the loops that are entered on the way.
\<close>

theorem suppressed_points_exact:
  assumes "i < length bodies" "nesting bodies h"
    and "\<And>e. e \<in> set (b_edges (bodies ! i)) \<Longrightarrow> \<exists>b. answers (suppressesFrom e) b"
    and "\<And>c e. c \<in> set (b_edges (bodies ! i)) \<Longrightarrow> answers (suppressesFrom c) True \<Longrightarrow> e \<in> set (b_edges (bodies ! i)) \<Longrightarrow>
           \<exists>b. answers (isMatchingDestructor c e) b"
  shows "computeSuppressedPoints bodies i S = (Inr (), S \<union>
    (\<Union>c\<in>{c \<in> set (b_edges (bodies ! i)). answers (suppressesFrom c) True}. scopeOf bodies i c (reachable bodies i c)))"
  by (rule suppressed_run) (fact assms)+

text \<open>A scope: its constructor, a call, and its destructor.\<close>

definition funcVar :: "string \<Rightarrow> gvar" where
  "funcVar name = \<lparr>v_kind = ''Func'', v_name = Some name\<rparr>"

definition localVar :: "string \<Rightarrow> gvar" where
  "localVar name = \<lparr>v_kind = ''Local'', v_name = Some name\<rparr>"

definition callEdge :: "nat \<Rightarrow> nat \<Rightarrow> string \<Rightarrow> gexp option \<Rightarrow> edge" where
  "callEdge p q name this = \<lparr>e_kind = ''Call'', e_src = p, e_dst = q, e_exps = [EVar (funcVar name)], e_inst = this, e_args = [],
     e_block = None\<rparr>"

definition sampleScope :: "edge list" where
  "sampleScope = [callEdge 1 2 ''js::AutoSuppressGC::AutoSuppressGC(JSContext*)'' (Some (EVar (localVar ''s''))),
     callEdge 2 3 ''f()'' None,
     callEdge 3 4 ''js::AutoSuppressGC::~AutoSuppressGC()'' (Some (EVar (localVar ''s''))),
     callEdge 4 5 ''g()'' None]"

definition functionBody :: "edge list \<Rightarrow> body" where
  "functionBody es = \<lparr>b_block = \<lparr>k_kind = ''Function'', k_var = funcVar ''h()'', k_loop = []\<rparr>, b_entry = 1, b_exit = 5,
     b_edges = es, b_parents = [], b_vars = [], b_points = []\<rparr>"

lemma sampleScope_answers:
  "map (\<lambda>e. fst (suppressesFrom e ())) sampleScope = [Inr True, Inr False, Inr True, Inr False]"
  "map (\<lambda>e. fst (isMatchingDestructor (sampleScope ! 0) e ())) sampleScope = [Inr False, Inr False, Inr True, Inr False]"
  "map (\<lambda>e. fst (isMatchingDestructor (sampleScope ! 2) e ())) sampleScope = [Inr False, Inr False, Inr True, Inr False]"
  by code_simp+

lemma map_answers:
  assumes "map f xs = map Inr ys" "x \<in> set xs"
  shows "\<exists>y. f x = Inr y"
proof -
  have "f x \<in> set (map Inr ys)" using assms by (metis image_eqI list.set_map)
  then show ?thesis by auto
qed

lemma sampleScope_ok:
  shows "b_edges (functionBody sampleScope) = sampleScope" "nesting [functionBody sampleScope] (\<lambda>_. 0)"
    "e \<in> set sampleScope \<Longrightarrow> \<exists>b. answers (suppressesFrom e) b"
    "c \<in> set sampleScope \<Longrightarrow> answers (suppressesFrom c) True \<Longrightarrow> e \<in> set sampleScope \<Longrightarrow> \<exists>b. answers (isMatchingDestructor c e) b"
proof -
  show edges: "b_edges (functionBody sampleScope) = sampleScope" by (simp add: functionBody_def)
  have "e_kind e \<noteq> ''Loop''" if "e \<in> set sampleScope" for e using that by (auto simp: sampleScope_def callEdge_def)
  then show "nesting [functionBody sampleScope] (\<lambda>_. 0)" using edges by (simp add: nesting_def)
  have "map (\<lambda>e. fst (suppressesFrom e ())) sampleScope = map Inr [True, False, True, False]" using sampleScope_answers(1) by simp
  then show "e \<in> set sampleScope \<Longrightarrow> \<exists>b. answers (suppressesFrom e) b" unfolding answers_def by (rule map_answers)
  assume c: "c \<in> set sampleScope" "answers (suppressesFrom c) True" "e \<in> set sampleScope"
  have four: "set sampleScope = {sampleScope ! 0, sampleScope ! 1, sampleScope ! 2, sampleScope ! 3}" by (simp add: sampleScope_def)
  have "fst (suppressesFrom (sampleScope ! 1) ()) = Inr False" "fst (suppressesFrom (sampleScope ! 3) ()) = Inr False"
    using sampleScope_answers(1) by (simp_all add: sampleScope_def)
  then have "c = sampleScope ! 0 \<or> c = sampleScope ! 2" using c(1,2) four by (auto simp: answers_def)
  then have "map (\<lambda>e. fst (isMatchingDestructor c e ())) sampleScope = map Inr [False, False, True, False]"
    by (elim disjE) (simp_all only: sampleScope_answers list.map)
  then show "\<exists>b. answers (isMatchingDestructor c e) b" unfolding answers_def using c(3) by (rule map_answers)
qed

lemma suppressed_points_exact_witness:
  "fst (computeSuppressedPoints [functionBody sampleScope] 0 {}) = Inr () \<and> (0, 2) \<in> snd (computeSuppressedPoints [functionBody sampleScope] 0 {})"
proof -
  let ?bs = "[functionBody sampleScope]" and ?c = "sampleScope ! 0"
  have run: "computeSuppressedPoints ?bs 0 {} = (Inr (), {} \<union>
      (\<Union>c\<in>{c \<in> set (b_edges (?bs ! 0)). answers (suppressesFrom c) True}. scopeOf ?bs 0 c (reachable ?bs 0 c)))"
    by (rule suppressed_points_exact [OF _ sampleScope_ok(2)])
      (use sampleScope_ok(3,4) in \<open>auto simp: sampleScope_ok(1)\<close>)
  have "?c \<in> set sampleScope" "answers (suppressesFrom ?c) True" "e_dst ?c = 2"
    using sampleScope_answers(1) by (simp_all add: sampleScope_def answers_def callEdge_def)
  moreover have "(0, e_dst ?c) \<in> scopeOf ?bs 0 ?c (reachable ?bs 0 ?c)" by (auto simp: scopeOf_def reachable_def)
  ultimately show ?thesis unfolding run using sampleScope_ok(1) by auto
qed

text \<open>
  C23: The scope of \<open>AutoSuppressGC\<close> never ends: the pattern for its constructor also matches its destructor,
  so the points after the destructor's call are suppressed too.
\<close>

theorem suppressed_scope_leaks:
  assumes "i < length bodies" "nesting bodies h"
    and "\<And>e. e \<in> set (b_edges (bodies ! i)) \<Longrightarrow> \<exists>b. answers (suppressesFrom e) b"
    and "\<And>c e. c \<in> set (b_edges (bodies ! i)) \<Longrightarrow> answers (suppressesFrom c) True \<Longrightarrow> e \<in> set (b_edges (bodies ! i)) \<Longrightarrow>
           \<exists>b. answers (isMatchingDestructor c e) b"
    and "d \<in> set (b_edges (bodies ! i))" "e_kind d = ''Call''" "e_exps d = EVar \<lparr>v_kind = ''Func'', v_name = Some name\<rparr> # xs"
    and "name = ns @ ''::AutoSuppressGC::~AutoSuppressGC()''" "e_inst d = Some (EVar v)"
  shows "\<forall>p\<in>reachable bodies i d. (i, p) \<in> snd (computeSuppressedPoints bodies i S)"
proof -
  have "name = ns @ ''::AutoSuppressGC'' @ ''::~AutoSuppressGC()''" using assms(8) by simp
  then have "isSuppressConstructor name" unfolding isSuppressConstructor_def has_iff by blast
  then have "(suppressesFrom d :: bool question) = ret True"
    using assms(6,7,9) by (simp add: suppressesFrom_def expAt_def calleeName_def assert_def nameOf_def instanceOf_def)
  then have "answers (suppressesFrom d) True" by (simp add: answers_def ret_def)
  moreover have "(i, p) \<in> scopeOf bodies i d (reachable bodies i d)" if "p \<in> reachable bodies i d" for p
    using that by (auto simp: scopeOf_def)
  moreover note suppressed_run [OF assms(1-4), of S]
  ultimately show ?thesis using assms(5) by auto
qed

lemma suppressed_scope_leaks_witness:
  "(0, 4) \<in> snd (computeSuppressedPoints [functionBody sampleScope] 0 {})"
proof -
  let ?bs = "[functionBody sampleScope]" and ?d = "sampleScope ! 2"
  have "\<forall>p\<in>reachable ?bs 0 ?d. (0, p) \<in> snd (computeSuppressedPoints ?bs 0 {})"
    by (rule suppressed_scope_leaks [OF _ sampleScope_ok(2), where ns = "''js''" and xs = "[]" and v = "localVar ''s''"])
      (use sampleScope_ok(3,4) in \<open>simp_all add: sampleScope_ok(1)\<close>,
       simp_all add: sampleScope_def callEdge_def funcVar_def)
  moreover have "4 \<in> reachable ?bs 0 ?d" by (simp add: reachable_def sampleScope_def callEdge_def)
  ultimately show ?thesis by blast
qed

end
