(* ===== verification/Hazard_Classes.thy ===== *)
theory Hazard_Classes
  imports Hazard_Data Worklist "HOL-Library.AList"
begin

text \<open>
  The class hierarchy of \<open>computeCallgraph.js\<close>: the tables of sub- and superclasses and of the functions that
  implement a field, and the search for the functions that a virtual call may reach.
\<close>

section \<open>The tables\<close>

type_synonym index = "(string \<times> string list) list"

record classes =
  c_subs :: index
  c_supers :: index
  c_functions :: index

record funfield =
  ff_super :: "(string \<times> string) option"
  ff_variable :: "string option"
  ff_name :: string

definition listAt :: "index \<Rightarrow> string \<Rightarrow> string list" where
  "listAt m k = (case map_of m k of None \<Rightarrow> [] | Some xs \<Rightarrow> xs)"

definition addClassEntry :: "string \<Rightarrow> string \<Rightarrow> index \<Rightarrow> index" where
  "addClassEntry name other m = (case map_of m name of
       None \<Rightarrow> m @ [(name, [other])]
     | Some xs \<Rightarrow> (if other \<in> set xs then m else AList.update name (xs @ [other]) m))"

definition classKey :: "string \<Rightarrow> string \<Rightarrow> string" where
  "classKey csu field = csu @ '':'' @ field"

definition processField :: "string \<Rightarrow> funfield \<Rightarrow> (classes, unit) jsm" where
  "processField csuName field =
     bindM (case ff_super field of
              None \<Rightarrow> ret ()
            | Some (superclass, subclass) \<Rightarrow>
                bindM (assert (subclass = csuName) ''subclass'') (\<lambda>_ s.
                (Inr (), s\<lparr>c_subs := addClassEntry superclass subclass (c_subs s),
                          c_supers := addClassEntry subclass superclass (c_supers s)\<rparr>))) (\<lambda>_ s.
     case ff_variable field of
       None \<Rightarrow> (Inr (), s)
     | Some name \<Rightarrow> (let key = classKey csuName (ff_name field) in
         (Inr (), s\<lparr>c_functions := AList.update key (listAt (c_functions s) key @ [name]) (c_functions s)\<rparr>)))"

definition processCSU :: "string \<Rightarrow> funfield list \<Rightarrow> (classes, unit) jsm" where
  "processCSU csuName funs = bindM (mapM (processField csuName) funs) (\<lambda>_. ret ())"

section \<open>Virtual calls\<close>

text \<open>
  The two loops of the search share the variable \<open>csu\<close>, which is the state of the first: at its end it
  is the class popped last, and the second loop starts from there.
\<close>

definition visitUp :: "classes \<Rightarrow> string \<Rightarrow> string \<Rightarrow> (string, string list + string list option) jsm" where
  "visitUp cls field csu s =
     (if csu = ''nsISupports''
      then (Inr (Inr (if field = ''AddRef'' \<or> field = ''Release'' then Some [] else None)), csu)
      else (Inr (Inl (listAt (c_supers cls) csu)), csu))"

definition visitDown :: "classes \<Rightarrow> string \<Rightarrow> string \<Rightarrow> (string list, string list + unit) jsm" where
  "visitDown cls field csu functions =
     (Inr (Inl (listAt (c_subs cls) csu)), functions @ listAt (c_functions cls) (classKey csu field))"

definition findVirtualFunctions :: "classes \<Rightarrow> string \<Rightarrow> string \<Rightarrow> string list option question" where
  "findVirtualFunctions cls csu field u = (case loopM (visitUp cls field) [csu] csu of
       (Inl e, _) \<Rightarrow> (Inl e, u)
     | (Inr (Some r), _) \<Rightarrow> (Inr r, u)
     | (Inr None, base) \<Rightarrow> (case loopM (visitDown cls field) [base] [] of
         (Inl e, _) \<Rightarrow> (Inl e, u)
       | (Inr _, functions) \<Rightarrow> (Inr (Some functions), u)))"

section \<open>Hierarchies\<close>

definition isSuper :: "classes \<Rightarrow> string \<Rightarrow> string \<Rightarrow> bool" where
  "isSuper cls c d \<longleftrightarrow> d \<in> set (listAt (c_supers cls) c)"

definition isSub :: "classes \<Rightarrow> string \<Rightarrow> string \<Rightarrow> bool" where
  "isSub cls c d \<longleftrightarrow> d \<in> set (listAt (c_subs cls) c)"

text \<open>The tables are inverse to each other.\<close>

definition inverses :: "classes \<Rightarrow> bool" where
  "inverses cls \<longleftrightarrow> (\<forall>c d. isSuper cls c d \<longleftrightarrow> isSub cls d c)"

lemma listAt_addClassEntry:
  "set (listAt (addClassEntry k x m) k') = (if k' = k then insert x (set (listAt m k)) else set (listAt m k'))"
proof (cases "map_of m k")
  case None
  have "map_of (m @ [(k, [x])]) k' = (if k' = k then Some [x] else map_of m k')"
  proof (cases "k' = k")
    case True
    then show ?thesis using None by (simp add: map_add_def)
  next
    case False
    then show ?thesis by (cases "map_of m k'") (simp_all add: map_add_def)
  qed
  then have "listAt (m @ [(k, [x])]) k' = (if k' = k then [x] else listAt m k')" by (simp add: listAt_def)
  moreover have "listAt m k = []" using None by (simp only: listAt_def option.case)
  moreover have "addClassEntry k x m = m @ [(k, [x])]" using None by (simp only: addClassEntry_def option.case)
  ultimately show ?thesis by simp
next
  case (Some xs)
  then show ?thesis
    by (cases "x \<in> set xs"; cases "k' = k") (simp_all add: addClassEntry_def listAt_def update_conv' insert_absorb)
qed

lemma processField_inverses:
  assumes "inverses s" "processField csu field s = (r, t)"
  shows "inverses t"
proof (cases "ff_super field")
  case None
  then show ?thesis using assms
    by (auto simp: processField_def inverses_def isSuper_def isSub_def Let_def split: option.splits)
next
  case (Some p)
  obtain sup sub where p: "p = (sup, sub)" by (cases p)
  show ?thesis
  proof (cases "sub = csu")
    case False
    then show ?thesis using assms Some p by (auto simp: processField_def assert_def bindM_def throw_def)
  next
    case True
    then have "c_subs t = addClassEntry sup csu (c_subs s)" "c_supers t = addClassEntry csu sup (c_supers s)"
      using assms(2) Some p by (auto simp: processField_def assert_def bindM_def Let_def split: option.splits)
    then show ?thesis using assms(1) by (auto simp: inverses_def isSuper_def isSub_def listAt_addClassEntry split: if_splits)
  qed
qed

definition emptyClasses :: classes where
  "emptyClasses = \<lparr>c_subs = [], c_supers = [], c_functions = []\<rparr>"

definition loadClasses :: "(string \<times> funfield list) list \<Rightarrow> (classes, unit) jsm" where
  "loadClasses csus = bindM (mapM (\<lambda>(csuName, funs). processCSU csuName funs) csus) (\<lambda>_. ret ())"

lemma bindM_ret_state: "bindM m (\<lambda>_. ret ()) s = (r, t) \<Longrightarrow> \<exists>r'. m s = (r', t)"
  by (auto simp: bindM_def ret_def split: prod.splits sum.splits)

lemma loadClasses_inverses:
  assumes "loadClasses csus emptyClasses = (r, cls)"
  shows "inverses cls"
proof -
  obtain r' where m: "mapM (\<lambda>(csuName, funs). processCSU csuName funs) csus emptyClasses = (r', cls)"
    using bindM_ret_state [OF assms [unfolded loadClasses_def]] by blast
  have csu: "inverses t" if run: "processCSU n funs s = (r, t)" "inverses s" for n funs s t and r :: "jserr + unit"
  proof -
    obtain r' where "mapM (processField n) funs s = (r', t)"
      using bindM_ret_state [OF run(1) [unfolded processCSU_def]] by blast
    then show ?thesis using that(2) processField_inverses by (rule mapM_invariant)
  qed
  have empty: "inverses emptyClasses"
    by (simp add: inverses_def emptyClasses_def isSuper_def isSub_def listAt_def)
  show ?thesis by (rule mapM_invariant [where P = inverses, OF m empty]) (use csu in \<open>auto split: prod.splits\<close>)
qed

section \<open>The search\<close>

definition ancestor :: "classes \<Rightarrow> string \<Rightarrow> string \<Rightarrow> bool" where
  "ancestor cls c d \<longleftrightarrow> (isSuper cls)\<^sup>*\<^sup>* c d"

definition descendant :: "classes \<Rightarrow> string \<Rightarrow> string \<Rightarrow> bool" where
  "descendant cls c d \<longleftrightarrow> (isSub cls)\<^sup>*\<^sup>* c d"

text \<open>The functions that implement a field in a class or in one derived from it.\<close>

definition implementations :: "classes \<Rightarrow> string \<Rightarrow> string \<Rightarrow> string set" where
  "implementations cls field c = {f. \<exists>d. descendant cls c d \<and> f \<in> set (listAt (c_functions cls) (classKey d field))}"

text \<open>No class is derived from itself.\<close>

definition hierarchy :: "classes \<Rightarrow> bool" where
  "hierarchy cls \<longleftrightarrow> acyclicP (isSub cls)"

lemma isSub_finite: "finite {(c, d). isSub cls c d}"
proof -
  have "\<exists>ds. (c, ds) \<in> set (c_subs cls) \<and> d \<in> set ds" if "isSub cls c d" for c d
    using that by (cases "map_of (c_subs cls) c") (auto simp: isSub_def listAt_def dest: map_of_SomeD)
  then have "{(c, d). isSub cls c d} \<subseteq> fst ` set (c_subs cls) \<times> (\<Union>e\<in>set (c_subs cls). set (snd e))" by force
  then show ?thesis by (rule finite_subset) auto
qed

lemma hierarchy_wf:
  assumes "hierarchy cls" "inverses cls"
  shows "wf {(d, c). isSub cls c d}" "wf {(d, c). isSuper cls c d}"
proof -
  have "{(d, c). isSub cls c d} = {(c, d). isSub cls c d}\<inverse>" "{(d, c). isSuper cls c d} = {(c, d). isSub cls c d}"
    using assms(2) by (auto simp: inverses_def)
  then show "wf {(d, c). isSub cls c d}" "wf {(d, c). isSuper cls c d}"
    using assms(1) isSub_finite [of cls]
    by (simp_all add: hierarchy_def finite_acyclic_wf finite_acyclic_wf_converse)
qed

lemma pushes_below:
  assumes "\<And>y. y \<in> set new \<Longrightarrow> (y, x) \<in> r"
  shows "((w @ new, t), (w @ [x], s)) \<in> inv_image (mult r) (\<lambda>(w, s). mset w)"
proof -
  have "(mset w + mset new, mset w + {#x#}) \<in> mult r"
    by (rule one_step_implies_mult) (use assms in auto)
  then show ?thesis by (simp add: inv_image_def)
qed

lemma implementations_step:
  "implementations cls field c = set (listAt (c_functions cls) (classKey c field)) \<union>
     (\<Union>d\<in>set (listAt (c_subs cls) c). implementations cls field d)"
  (is "?L = ?R")
proof
  show "?L \<subseteq> ?R" by (auto simp: implementations_def descendant_def isSub_def elim: converse_rtranclpE)
  have "descendant cls c d'" if "d \<in> set (listAt (c_subs cls) c)" "descendant cls d d'" for d d'
    using that unfolding descendant_def isSub_def by (rule converse_rtranclp_into_rtranclp)
  then show "?R \<subseteq> ?L" by (auto simp: implementations_def) (auto simp: descendant_def)
qed

lemma visitDown_loop:
  assumes "wf {(d, c). isSub cls c d}"
  shows "\<exists>funs. loopM (visitDown cls field) [base] [] = (Inr None, funs) \<and> set funs = implementations cls field base"
proof -
  let ?P = "\<lambda>w fs. set fs \<union> (\<Union>c\<in>set w. implementations cls field c) = implementations cls field base"
  have "\<exists>r t. loopM (visitDown cls field) [base] [] = (r, t) \<and> (case r of Inl e \<Rightarrow> False | Inr None \<Rightarrow> ?P [] t | Inr (Some a) \<Rightarrow> False)"
  proof (rule loopM_rule)
    show "wf (inv_image (mult {(d, c). isSub cls c d}) (\<lambda>(w, s). mset w))" using assms by (intro wf_inv_image wf_mult)
    fix w x fs assume P: "?P (w @ [x]) fs"
    have "((w @ listAt (c_subs cls) x, fs @ listAt (c_functions cls) (classKey x field)), (w @ [x], fs))
        \<in> inv_image (mult {(d, c). isSub cls c d}) (\<lambda>(w, s). mset w)"
      by (rule pushes_below) (simp add: isSub_def)
    moreover have "?P (w @ listAt (c_subs cls) x) (fs @ listAt (c_functions cls) (classKey x field))"
      using P implementations_step [of cls field x] by auto
    ultimately show "case visitDown cls field x fs of (Inl e, t) \<Rightarrow> False | (Inr (Inr a), t) \<Rightarrow> False
      | (Inr (Inl new), t) \<Rightarrow> ?P (w @ new) t \<and> ((w @ new, t), (w @ [x], fs)) \<in> inv_image (mult {(d, c). isSub cls c d}) (\<lambda>(w, s). mset w)"
      by (simp add: visitDown_def)
  qed simp
  then obtain r t where "loopM (visitDown cls field) [base] [] = (r, t)"
    "case r of Inl e \<Rightarrow> False | Inr None \<Rightarrow> ?P [] t | Inr (Some a) \<Rightarrow> False" by blast
  then show ?thesis by (cases r) (auto split: option.splits)
qed

text \<open>The way up ends at an ancestor that has none, or at an \<open>nsISupports\<close>, which it does not miss.\<close>

lemma visitUp_loop:
  assumes "wf {(d, c). isSuper cls c d}"
  shows "\<exists>r base. loopM (visitUp cls field) [csu] csu = (Inr r, base) \<and>
    (case r of Some a \<Rightarrow> ancestor cls csu ''nsISupports'' \<and> a = (if field \<in> {''AddRef'', ''Release''} then Some [] else None)
     | None \<Rightarrow> \<not> ancestor cls csu ''nsISupports'' \<and> ancestor cls csu base \<and> listAt (c_supers cls) base = [])"
proof -
  let ?ns = "''nsISupports''"
  let ?R = "inv_image (mult {(d, c). isSuper cls c d}) (\<lambda>(w, s). mset w)"
  define P where "P w base \<longleftrightarrow> (\<forall>c\<in>set w. ancestor cls csu c) \<and> (ancestor cls csu ?ns \<longrightarrow> (\<exists>c\<in>set w. ancestor cls c ?ns)) \<and>
    ancestor cls csu base \<and> (w = [] \<longrightarrow> listAt (c_supers cls) base = [])" for w base
  define Q where "Q a base \<longleftrightarrow> ancestor cls csu ?ns \<and> a = (if field \<in> {''AddRef'', ''Release''} then Some [] else (None :: string list option))"
    for a and base :: string
  have "\<exists>r t. loopM (visitUp cls field) [csu] csu = (r, t) \<and> (case r of Inl e \<Rightarrow> False | Inr None \<Rightarrow> P [] t | Inr (Some a) \<Rightarrow> Q a t)"
  proof (rule loopM_rule)
    show "P [csu] csu" by (simp add: P_def) (simp add: ancestor_def)
    show "wf ?R" using assms by (intro wf_inv_image wf_mult)
    fix w x base assume h: "P (w @ [x]) base"
    then have x: "ancestor cls csu x" by (simp add: P_def)
    show "case visitUp cls field x base of (Inl e, t) \<Rightarrow> False | (Inr (Inr a), t) \<Rightarrow> Q a t
        | (Inr (Inl new), t) \<Rightarrow> P (w @ new) t \<and> ((w @ new, t), (w @ [x], base)) \<in> ?R"
    proof (cases "x = ?ns")
      case True
      then show ?thesis using x by (simp add: visitUp_def Q_def)
    next
      case False
      have "((w @ listAt (c_supers cls) x, x), (w @ [x], base)) \<in> ?R"
        by (rule pushes_below) (simp add: isSuper_def)
      moreover have "P (w @ listAt (c_supers cls) x) x"
      proof -
        have "\<forall>c\<in>set (listAt (c_supers cls) x). ancestor cls csu c"
          using x by (auto simp: ancestor_def isSuper_def intro: rtranclp.rtrancl_into_rtrancl)
        moreover have "\<exists>c\<in>set (listAt (c_supers cls) x). ancestor cls c ?ns" if "ancestor cls x ?ns"
          using that False unfolding ancestor_def isSuper_def by (auto elim: converse_rtranclpE)
        ultimately show ?thesis using h x unfolding P_def by auto
      qed
      ultimately show ?thesis using False by (simp add: visitUp_def)
    qed
  qed
  then obtain r t where "loopM (visitUp cls field) [csu] csu = (r, t)"
    "case r of Inl e \<Rightarrow> False | Inr None \<Rightarrow> P [] t | Inr (Some a) \<Rightarrow> Q a t" by blast
  then show ?thesis by (cases r) (auto simp: P_def Q_def split: option.splits)
qed

section \<open>Properties\<close>

text \<open>A diamond-free example: \<open>C\<close> and \<open>D\<close> are derived from \<open>B\<close>, and \<open>C\<close> and \<open>D\<close> implement \<open>f\<close>.\<close>

definition sampleClasses :: "(string \<times> funfield list) list" where
  "sampleClasses = (let up = \<lambda>c f. \<lparr>ff_super = Some (''B'', c), ff_variable = Some f, ff_name = ''f''\<rparr> in
     [(''C'', [up ''C'' ''C::f'']), (''D'', [up ''D'' ''D::f''])])"

definition sampleTables :: classes where
  "sampleTables = \<lparr>c_subs = [(''B'', [''C'', ''D''])], c_supers = [(''C'', [''B'']), (''D'', [''B''])],
     c_functions = [(''C:f'', [''C::f'']), (''D:f'', [''D::f''])]\<rparr>"

lemma sampleClasses_load: "loadClasses sampleClasses emptyClasses = (Inr (), sampleTables)"
  by code_simp

text \<open>
  C18: The search for the targets of a virtual call ends. On a class with \<open>nsISupports\<close> among its ancestors the
  targets are unknown, except that \<open>AddRef\<close> and \<open>Release\<close> have none; on any other class they are the
  implementations of the field in the classes derived from one of the topmost ancestors, which include those
  in the class itself and the classes derived from it.
\<close>

theorem virtual_functions:
  assumes "loadClasses csus emptyClasses = (r, cls)" "hierarchy cls"
  shows "\<exists>targets. findVirtualFunctions cls csu field () = (Inr targets, ()) \<and>
    (if ancestor cls csu ''nsISupports'' then targets = (if field \<in> {''AddRef'', ''Release''} then Some [] else None)
     else \<exists>funs base. targets = Some funs \<and> ancestor cls csu base \<and> listAt (c_supers cls) base = [] \<and>
       set funs = implementations cls field base \<and> implementations cls field csu \<subseteq> set funs)"
proof -
  have inverses: "inverses cls" using loadClasses_inverses [OF assms(1)] .
  note wfs = hierarchy_wf [OF assms(2) inverses]
  have up: "descendant cls base csu" if "ancestor cls csu base" for base
    using that unfolding ancestor_def descendant_def
  proof (induction rule: rtranclp_induct)
    case (step b c)
    then show ?case using inverses unfolding inverses_def by (metis converse_rtranclp_into_rtranclp)
  qed simp
  have "implementations cls field csu \<subseteq> implementations cls field base" if "ancestor cls csu base" for base
    using up [OF that] by (auto simp: implementations_def descendant_def intro: rtranclp_trans)
  moreover obtain r base where u: "loopM (visitUp cls field) [csu] csu = (Inr r, base)"
    "case r of Some a \<Rightarrow> ancestor cls csu ''nsISupports'' \<and> a = (if field \<in> {''AddRef'', ''Release''} then Some [] else None)
     | None \<Rightarrow> \<not> ancestor cls csu ''nsISupports'' \<and> ancestor cls csu base \<and> listAt (c_supers cls) base = []"
    using visitUp_loop [OF wfs(2), of field csu] by blast
  moreover obtain funs where "loopM (visitDown cls field) [base] [] = (Inr None, funs)" "set funs = implementations cls field base"
    using visitDown_loop [OF wfs(1), of field base] by blast
  ultimately show ?thesis by (cases r) (auto simp: findVirtualFunctions_def)
qed

lemma virtual_functions_witness:
  "\<exists>funs. findVirtualFunctions sampleTables ''C'' ''f'' () = (Inr (Some funs), ()) \<and> ''D::f'' \<in> set funs"
proof -
  have sub: "isSub sampleTables c d \<longleftrightarrow> c = ''B'' \<and> d \<in> {''C'', ''D''}" for c d
    by (auto simp: isSub_def listAt_def sampleTables_def)
  have super: "isSuper sampleTables c d \<longleftrightarrow> c \<in> {''C'', ''D''} \<and> d = ''B''" for c d
    by (auto simp: isSuper_def listAt_def sampleTables_def)
  have "(c, d) \<in> {(c, d). isSub sampleTables c d}\<^sup>+ \<Longrightarrow> c = ''B'' \<and> d \<noteq> ''B''" for c d
    by (induction rule: trancl_induct) (auto simp: sub)
  then have h: "hierarchy sampleTables" by (auto simp: hierarchy_def acyclic_def)
  have anc: "ancestor sampleTables ''C'' d \<Longrightarrow> d \<in> {''B'', ''C''}" for d
    unfolding ancestor_def by (induction rule: rtranclp_induct) (auto simp: super)
  then have "\<not> ancestor sampleTables ''C'' ''nsISupports''" by fastforce
  then obtain funs base where f: "findVirtualFunctions sampleTables ''C'' ''f'' () = (Inr (Some funs), ())"
    "ancestor sampleTables ''C'' base" "listAt (c_supers sampleTables) base = []" "set funs = implementations sampleTables ''f'' base"
    using virtual_functions [OF sampleClasses_load h, of "''C''" "''f''"] by auto
  then have "base = ''B''" using anc [of base] by (auto simp: listAt_def sampleTables_def)
  moreover have "descendant sampleTables ''B'' ''D''" by (auto simp: descendant_def sub)
  moreover have "''D::f'' \<in> set (listAt (c_functions sampleTables) (classKey ''D'' ''f''))"
    by (simp add: sampleTables_def listAt_def classKey_def)
  ultimately have "''D::f'' \<in> set funs" using f(4) unfolding implementations_def by blast
  then show ?thesis using f(1) by blast
qed

end
