(* ===== verification/Hazard_Calls.thy ===== *)
theory Hazard_Calls
  imports Hazard_Graph Hazard_Suppress Hazard_Classes
begin

text \<open>
  The main part of \<open>computeCallgraph.js\<close>: every function of the database gets its suppressed points, and
  its calls are printed, one line for each target. Names are printed once, with a number that stands
  for them in the lines that follow. The properties show that \<open>loadCallgraph.js\<close> reads from those lines the calls
  of the code.

  The printed lines are kept in the state. The functions are the entries of the body database.
\<close>

section \<open>Printing\<close>

record printer =
  m_table :: "(string \<times> string) list"
  m_count :: nat
  seenCallees :: "string set"
  seenSuppressedCallees :: "string set"
  printed :: "string list"

definition printLine :: "string \<Rightarrow> (printer, unit) jsm" where
  "printLine l s = (Inr (), s\<lparr>printed := printed s @ [l]\<rparr>)"

definition memo :: "string \<Rightarrow> (printer, string) jsm" where
  "memo name s = (case map_of (m_table s) name of
       Some d \<Rightarrow> (Inr d, s)
     | None \<Rightarrow> (let d = show_nat (m_count s + 1) in
         bindM (printLine (''#'' @ d @ '' '' @ name)) (\<lambda>_. ret d)
           (s\<lparr>m_count := m_count s + 1, m_table := m_table s @ [(name, d)]\<rparr>)))"

text \<open>A direct call is printed once for each callee, separately for suppressed calls.\<close>

definition seenIn :: "bool \<Rightarrow> printer \<Rightarrow> string set" where
  "seenIn suppressed s = (if suppressed then seenSuppressedCallees s else seenCallees s)"

definition setSeen :: "bool \<Rightarrow> string \<Rightarrow> (printer, unit) jsm" where
  "setSeen suppressed name s = (Inr (),
     if suppressed then s\<lparr>seenSuppressedCallees := insert name (seenSuppressedCallees s)\<rparr>
     else s\<lparr>seenCallees := insert name (seenCallees s)\<rparr>)"

definition printCallee :: "bool \<Rightarrow> string \<Rightarrow> string \<Rightarrow> (printer, unit) jsm" where
  "printCallee suppressed prologue name s =
     (if name \<in> seenIn suppressed s then (Inr (), s)
      else bindM (memo name) (\<lambda>d.
           bindM (printLine (''D '' @ prologue @ d)) (\<lambda>_.
           setSeen suppressed name)) s)"

definition suppressText :: "bool \<Rightarrow> string" where
  "suppressText suppressed = (if suppressed then ''SUPPRESS_GC '' else [])"

definition processCall :: "classes \<Rightarrow> string \<Rightarrow> bool \<Rightarrow> edge \<Rightarrow> (printer, unit) jsm" where
  "processCall cls caller suppressed e =
     bindM (memo caller) (\<lambda>d.
     bindM (expAt e 0) (\<lambda>callee.
     let prologue = suppressText suppressed @ d @ '' '' in
     case callee of
       EVar v \<Rightarrow>
         bindM (calleeName v) (\<lambda>name.
         bindM (printCallee suppressed prologue name) (\<lambda>_.
         case otherDestructorName name of
           None \<Rightarrow> ret ()
         | Some otherName \<Rightarrow> printCallee suppressed prologue otherName))
     | EDrf (EFld _ field) \<Rightarrow>
         bindM (if f_virtual field then ask (findVirtualFunctions cls (f_csu field) (f_name field)) else ret None) (\<lambda>functions.
         case functions of
           Some names \<Rightarrow> bindM (mapM (printCallee suppressed prologue) names) (\<lambda>_. ret ())
         | None \<Rightarrow> printLine (''F '' @ prologue @ ''CLASS '' @ f_csu field @ '' FIELD '' @ f_name field))
     | EDrf (EVar v) \<Rightarrow>
         bindM (nameOf v) (\<lambda>name. printLine (''I '' @ prologue @ ''VARIABLE '' @ name))
     | EDrf _ \<Rightarrow> printLine (''I '' @ prologue @ ''VARIABLE UNKNOWN'')
     | _ \<Rightarrow> throw (AssertionFailed ''Drf'')))"

definition processBody :: "classes \<Rightarrow> string \<Rightarrow> points \<Rightarrow> body list \<Rightarrow> nat \<Rightarrow> (printer, unit) jsm" where
  "processBody cls caller S bodies i =
     bindM (mapM (\<lambda>e. if e_kind e \<noteq> ''Call'' then ret () else processCall cls caller ((i, e_src e) \<in> S) e) (b_edges (bodies ! i)))
       (\<lambda>_. ret ())"

definition processFunction :: "classes \<Rightarrow> string \<times> body list \<Rightarrow> (printer, unit) jsm" where
  "processFunction cls = (\<lambda>(name, bodies).
     bindM (ask (suppressedPoints bodies)) (\<lambda>S s.
     bindM (mapM (processBody cls name S bodies) [0..<length bodies]) (\<lambda>_. ret ())
       (s\<lparr>seenCallees := {}, seenSuppressedCallees := {}\<rparr>)))"

definition computeCallgraph :: "(string \<times> funfield list) list \<Rightarrow> (string \<times> body list) list \<Rightarrow> (printer, unit) jsm" where
  "computeCallgraph csus functions s = (case loadClasses csus emptyClasses of
       (Inl x, _) \<Rightarrow> (Inl x, s)
     | (Inr _, cls) \<Rightarrow> bindM (mapM (processFunction cls) functions) (\<lambda>_. ret ()) s)"

definition noLines :: printer where
  "noLines = \<lparr>m_table = [], m_count = 0, seenCallees = {}, seenSuppressedCallees = {}, printed = []\<rparr>"

section \<open>Lines\<close>

text \<open>The text of a line, and the names that can be read back from it.\<close>

fun showLine :: "cg_line \<Rightarrow> string" where
  "showLine (NameLine d name) = ''#'' @ d @ '' '' @ name"
| "showLine (IndirectLine d name b) = ''I '' @ suppressText b @ d @ '' VARIABLE '' @ name"
| "showLine (FieldLine d csu field b) = ''F '' @ suppressText b @ d @ '' CLASS '' @ csu @ '' FIELD '' @ field"
| "showLine (DirectLine d d' b) = ''D '' @ suppressText b @ d @ '' '' @ d'"
| "showLine OtherLine = []"

definition number :: "string \<Rightarrow> bool" where
  "number d \<longleftrightarrow> d \<noteq> [] \<and> list_all isDigit d"

definition plain :: "string \<Rightarrow> bool" where
  "plain name \<longleftrightarrow> list_all isDot name \<and> name \<noteq> ''undefined''"

definition plainVariable :: "string \<Rightarrow> bool" where
  "plainVariable name \<longleftrightarrow> list_all isDot name \<and> CHR '','' \<notin> set name \<and> \<not> has ''SUPPRESS_GC'' name"

definition plainField :: "string \<Rightarrow> string \<Rightarrow> bool" where
  "plainField csu field \<longleftrightarrow> list_all isDot csu \<and> list_all isDot field \<and> \<not> has ''SUPPRESS_GC'' csu \<and> \<not> has ''SUPPRESS_GC'' field \<and>
     indexOf '' FIELD '' (csu @ '' FIELD '' @ field) = Some (length csu)"

fun lineOk :: "cg_line \<Rightarrow> bool" where
  "lineOk (NameLine d name) = (number d \<and> list_all isDot name)"
| "lineOk (IndirectLine d name b) = (number d \<and> plainVariable name)"
| "lineOk (FieldLine d csu field b) = (number d \<and> plainField csu field)"
| "lineOk (DirectLine d d' b) = (number d \<and> number d')"
| "lineOk OtherLine = True"

lemma has_self: "has p p"
  unfolding has_iff by (rule exI [of _ "[]"], rule exI [of _ "[]"]) simp

lemma has_split:
  assumes "c \<notin> set p" "p \<noteq> []"
  shows "has p (a @ c # b) \<longleftrightarrow> has p a \<or> has p b"
proof
  assume "has p (a @ c # b)"
  then obtain x y where "a @ c # b = x @ p @ y" by (auto simp: has_iff)
  then show "has p a \<or> has p b"
  proof (induction x arbitrary: a)
    case Nil
    then obtain us where "a = p @ us \<and> us @ c # b = y \<or> a @ us = p \<and> c # b = us @ y" by (auto simp: append_eq_append_conv2)
    then show ?case
    proof
      assume "a = p @ us \<and> us @ c # b = y"
      then show ?thesis using has_iff [of p a] by (metis append_Nil)
    next
      assume "a @ us = p \<and> c # b = us @ y"
      then show ?thesis using assms has_self [of p] by (cases us) auto
    qed
  next
    case (Cons x xs)
    then show ?case
    proof (cases a)
      case Nil
      then show ?thesis using Cons.prems by (auto simp: has_iff)
    next
      case (Cons a' as)
      then have "has p as \<or> has p b" using Cons.IH [of as] Cons.prems by simp
      then show ?thesis using Cons by (auto simp: has_iff) (metis append_Cons)
    qed
  qed
next
  assume "has p a \<or> has p b"
  then obtain x y where "a = x @ p @ y \<or> b = x @ p @ y" by (auto simp: has_iff)
  then have "a @ c # b = x @ p @ (y @ c # b) \<or> a @ c # b = (a @ c # x) @ p @ y" by auto
  then show "has p (a @ c # b)" unfolding has_iff by blast
qed

lemma number_no_SUPPRESS: "number d \<Longrightarrow> \<not> has ''SUPPRESS_GC'' d"
proof
  assume "number d" "has ''SUPPRESS_GC'' d"
  then have "CHR ''S'' \<in> set d" by (auto simp: has_iff)
  then show False using \<open>number d\<close> by (auto simp: number_def list_all_iff isDigit_def)
qed

lemma number_run: "number d \<Longrightarrow> s = [] \<or> \<not> isDigit (hd s) \<Longrightarrow> digitRun (d @ s) = Some (d, s)"
  by (simp add: number_def digitRun_append)

lemma number_isDot: "number d \<Longrightarrow> list_all isDot d"
  by (auto simp: number_def list_all_iff isDigit_def isDot_def)

lemma takeWhile_all: "list_all P xs \<Longrightarrow> takeWhile P xs = xs"
  by (simp add: list_all_iff)

text \<open>What follows the kind of a line and the text that marks it as suppressed.\<close>

fun restOf :: "cg_line \<Rightarrow> string" where
  "restOf (IndirectLine d name b) = d @ '' VARIABLE '' @ name"
| "restOf (FieldLine d csu field b) = d @ '' CLASS '' @ csu @ '' FIELD '' @ field"
| "restOf (DirectLine d d' b) = d @ '' '' @ d'"
| "restOf _ = []"

fun kindOf :: "cg_line \<Rightarrow> char" where
  "kindOf (IndirectLine d name b) = CHR ''I''"
| "kindOf (FieldLine d csu field b) = CHR ''F''"
| "kindOf _ = CHR ''D''"

fun callLine :: "cg_line \<Rightarrow> bool option" where
  "callLine (IndirectLine d name b) = Some b"
| "callLine (FieldLine d csu field b) = Some b"
| "callLine (DirectLine d d' b) = Some b"
| "callLine _ = None"

lemma showLine_call: "callLine l = Some b \<Longrightarrow> showLine l = kindOf l # CHR '' '' # suppressText b @ restOf l"
  by (cases l) auto

lemma restOf_isDot: "lineOk l \<Longrightarrow> list_all isDot (restOf l)"
proof -
  have texts: "list_all isDot '' VARIABLE ''" "list_all isDot '' CLASS ''" "list_all isDot '' FIELD ''" "list_all isDot '' ''"
    by code_simp+
  assume "lineOk l"
  then show ?thesis
    by (cases l) (simp_all only: restOf.simps lineOk.simps list_all_append number_isDot plainVariable_def plainField_def
      texts simp_thms list.pred_inject(1))
qed

lemma restOf_no_SUPPRESS:
  assumes "lineOk l"
  shows "\<not> has ''SUPPRESS_GC'' (restOf l)"
proof -
  have split: "has ''SUPPRESS_GC'' (a @ CHR '' '' # b) \<longleftrightarrow> has ''SUPPRESS_GC'' a \<or> has ''SUPPRESS_GC'' b" for a b
    by (rule has_split) simp_all
  have texts: "\<not> has ''SUPPRESS_GC'' ''VARIABLE''" "\<not> has ''SUPPRESS_GC'' ''CLASS''" "\<not> has ''SUPPRESS_GC'' ''FIELD''"
    "\<not> has ''SUPPRESS_GC'' []"
    by code_simp+
  show ?thesis
  proof (cases l)
    case (IndirectLine d name b)
    have r: "restOf l = d @ CHR '' '' # ''VARIABLE'' @ CHR '' '' # name" using IndirectLine by simp
    show ?thesis unfolding r split using IndirectLine assms texts number_no_SUPPRESS [of d] by (simp only: lineOk.simps plainVariable_def plainField_def) blast
  next
    case (FieldLine d csu field b)
    have r: "restOf l = d @ CHR '' '' # ''CLASS'' @ CHR '' '' # csu @ CHR '' '' # ''FIELD'' @ CHR '' '' # field" using FieldLine by simp
    show ?thesis unfolding r split using FieldLine assms texts number_no_SUPPRESS [of d] by (simp only: lineOk.simps plainVariable_def plainField_def) blast
  next
    case (DirectLine d d' b)
    have r: "restOf l = d @ CHR '' '' # d'" using DirectLine by simp
    show ?thesis unfolding r split using DirectLine assms texts number_no_SUPPRESS [of d] number_no_SUPPRESS [of d'] by (simp only: lineOk.simps plainVariable_def plainField_def) blast
  qed (use texts in auto)
qed

lemma parseCall_rest:
  assumes "lineOk l" "callLine l = Some b"
  shows "parseCall b (kindOf l # CHR '' '' # restOf l) = l"
proof (cases l)
  case (IndirectLine d name b')
  then have "takeWhile (\<lambda>c. c \<noteq> CHR '','') name = name" using assms by (auto simp: plainVariable_def takeWhile_eq_all_conv)
  then have "matchIndirect (''I '' @ restOf l) = Some (d, name)"
    using IndirectLine assms number_run [of d "'' VARIABLE '' @ name"]
    by (simp add: matchIndirect_def stripPrefix_append del: append.simps) (simp add: isDigit_def stripPrefix_def startsWith_def)
  then show ?thesis using IndirectLine assms by (simp add: parseCall_def)
next
  case (FieldLine d csu field b')
  then have f: "number d" "plainField csu field" using assms by simp_all
  have "matchIndirect (''F '' @ restOf l) = None"
    by (simp add: matchIndirect_def stripPrefix_def startsWith_def)
  moreover have "matchField (''F '' @ restOf l) = Some (d, csu, field)"
    using FieldLine f number_run [of d "'' CLASS '' @ csu @ '' FIELD '' @ field"]
    by (simp add: matchField_def stripPrefix_append takeWhile_all plainField_def del: append.simps)
      (simp add: isDigit_def stripPrefix_def startsWith_def takeWhile_all)
  ultimately show ?thesis using FieldLine assms by (simp add: parseCall_def)
next
  case (DirectLine d d' b')
  have "matchIndirect (''D '' @ restOf l) = None" "matchField (''D '' @ restOf l) = None"
    by (simp_all add: matchIndirect_def matchField_def stripPrefix_def startsWith_def)
  moreover have "matchDirect (''D '' @ restOf l) = Some (d, d')"
    using DirectLine assms number_run [of d "'' '' @ d'"] number_run [of d' "[]"]
    by (simp add: matchDirect_def stripPrefix_append del: append.simps) (simp add: isDigit_def stripPrefix_def startsWith_def)
  ultimately show ?thesis using DirectLine assms by (simp add: parseCall_def)
qed (use assms in auto)
lemma kindOf_facts: "list_all isDot (kindOf l # '' '')" "\<not> has ''SUPPRESS_GC'' [kindOf l]" "kindOf l \<noteq> CHR ''#''"
proof -
  have "list_all isDot (k # '' '') \<and> \<not> has ''SUPPRESS_GC'' [k] \<and> k \<noteq> CHR ''#''" if "k \<in> set ''IFD''" for k
  proof -
    have "list_all (\<lambda>k. list_all isDot (k # '' '') \<and> \<not> has ''SUPPRESS_GC'' [k] \<and> k \<noteq> CHR ''#'') ''IFD''" by code_simp
    then show ?thesis using that unfolding list_all_iff by blast
  qed
  moreover have "kindOf l \<in> set ''IFD''" by (cases l) auto
  ultimately show "list_all isDot (kindOf l # '' '')" "\<not> has ''SUPPRESS_GC'' [kindOf l]" "kindOf l \<noteq> CHR ''#''" by blast+
qed

text \<open>Every printed line is read back as what it says.\<close>

lemma parseLine_show:
  assumes "lineOk l"
  shows "parseLine (showLine l) = Inr l"
proof (cases "callLine l")
  case (Some b)
  have name: "matchName (showLine l) = None"
    using kindOf_facts(3) by (simp add: showLine_call [OF Some] matchName_def stripPrefix_def startsWith_def)
  show ?thesis
  proof (cases b)
    case False
    have "\<not> has ''SUPPRESS_GC'' ([kindOf l] @ CHR '' '' # restOf l)"
      by (subst has_split) (use kindOf_facts(2) restOf_no_SUPPRESS [OF assms] in simp_all)
    then show ?thesis using name parseCall_rest [OF assms Some] False
      by (simp add: parseLine_def showLine_call [OF Some] suppressText_def)
  next
    case True
    have show_eq: "showLine l = (kindOf l # '' '') @ ''SUPPRESS_GC '' @ restOf l"
      using True by (simp add: showLine_call [OF Some] suppressText_def)
    have "showLine l = (kindOf l # '' '') @ ''SUPPRESS_GC'' @ ('' '' @ restOf l)" by (simp add: show_eq)
    then have "has ''SUPPRESS_GC'' (showLine l)" unfolding has_iff by blast
    moreover have "matchSuppress (showLine l) = Some (kindOf l # CHR '' '' # restOf l)"
    proof -
      have "take 2 (showLine l) = kindOf l # '' ''" "drop 2 (showLine l) = ''SUPPRESS_GC '' @ restOf l"
        unfolding show_eq by simp_all
      moreover have "\<not> length (showLine l) < 2" unfolding show_eq by simp
      moreover have "takeWhile isDot (restOf l) = restOf l" by (rule takeWhile_all [OF restOf_isDot [OF assms]])
      ultimately show ?thesis unfolding matchSuppress_def
        using kindOf_facts(1) [of l] by (simp only: stripPrefix_append if_False de_Morgan_disj not_not simp_thms option.map) simp
    qed
    ultimately show ?thesis using name parseCall_rest [OF assms Some] True by (simp add: parseLine_def)
  qed
next
  case None
  show ?thesis
  proof (cases l)
    case (NameLine d name)
    then have "digitRun (d @ '' '' @ name) = Some (d, '' '' @ name)" "takeWhile isDot name = name"
      using assms number_run [of d "'' '' @ name"] by (auto simp: isDigit_def takeWhile_all)
    then have "matchName (''#'' @ d @ '' '' @ name) = Some (d, name)" by (simp add: matchName_def stripPrefix_def startsWith_def)
    then show ?thesis using NameLine by (simp add: parseLine_def)
  next
    case OtherLine
    have "parseLine [] = Inr OtherLine" by code_simp
    then show ?thesis using OtherLine by simp
  qed (use None in auto)
qed

lemma showLine_isDot: "lineOk l \<Longrightarrow> list_all isDot (showLine l)"
proof (cases "callLine l")
  case (Some b)
  have "list_all isDot ''SUPPRESS_GC ''" by code_simp
  then have "list_all isDot (suppressText b)" by (simp add: suppressText_def)
  then show "lineOk l \<Longrightarrow> ?thesis" using restOf_isDot kindOf_facts(1) [of l] by (simp add: showLine_call [OF Some])
next
  case None
  have "list_all isDot ''#''" "list_all isDot '' ''" by code_simp+
  then show "lineOk l \<Longrightarrow> ?thesis" using None by (cases l) (auto simp: number_isDot)
qed

section \<open>What the lines say\<close>

text \<open>A call to a function, and an unsuppressed call with an unknown target.\<close>

datatype fact = Calls string string bool | Seed string

definition factsOf :: "callgraph \<Rightarrow> fact set" where
  "factsOf t = {Calls f g b |f g b. (g, b) \<in> set (entries (g_callees t) f)} \<union> Seed ` keys (g_gc t)"

text \<open>What a call says: the functions it may call, or the variable or the field that holds the callee.\<close>

datatype callTarget = Known "string list" | ViaVariable string | ViaField string string

definition targetOf :: "classes \<Rightarrow> edge \<Rightarrow> callTarget option" where
  "targetOf cls e = (case e_exps e of
       EVar v # _ \<Rightarrow>
         (if v_kind v = ''Func''
          then map_option (\<lambda>n. Known (n # (case otherDestructorName n of None \<Rightarrow> [] | Some m \<Rightarrow> [m]))) (v_name v) else None)
     | EDrf (EFld _ fd) # _ \<Rightarrow>
         (if f_virtual fd
          then case fst (findVirtualFunctions cls (f_csu fd) (f_name fd) ()) of
                 Inl _ \<Rightarrow> None
               | Inr (Some fs) \<Rightarrow> Some (Known fs)
               | Inr None \<Rightarrow> Some (ViaField (f_csu fd) (f_name fd))
          else Some (ViaField (f_csu fd) (f_name fd)))
     | EDrf (EVar v) # _ \<Rightarrow> map_option ViaVariable (v_name v)
     | EDrf _ # _ \<Rightarrow> Some (ViaVariable ''UNKNOWN'')
     | _ \<Rightarrow> None)"

fun targetFacts :: "string \<Rightarrow> bool \<Rightarrow> callTarget \<Rightarrow> fact set" where
  "targetFacts f b (Known gs) = (\<lambda>g. Calls f g b) ` set gs"
| "targetFacts f b (ViaVariable v) = (if b \<or> indirectCallCannotGC f v \<or> ignoreGCFunction f then {} else {Seed f})"
| "targetFacts f b (ViaField c n) = (if b \<or> fieldCallCannotGC c (c @ ''.'' @ n) \<or> ignoreGCFunction f then {} else {Seed f})"

fun targetOk :: "callTarget \<Rightarrow> bool" where
  "targetOk (Known gs) = list_all plain gs"
| "targetOk (ViaVariable v) = plainVariable v"
| "targetOk (ViaField c n) = plainField c n"

text \<open>
  The printer has printed lines from which the call graph with some facts is read, and its table numbers
  the names as the reader does.
\<close>

definition refers :: "printer \<Rightarrow> string \<Rightarrow> string \<Rightarrow> bool" where
  "refers s name d \<longleftrightarrow> map_of (m_table s) name = Some d"

definition numbered :: "(string \<times> string) list \<Rightarrow> bool" where
  "numbered m \<longleftrightarrow> map snd m = map (\<lambda>i. show_nat (Suc i)) [0..<length m] \<and> distinct (map fst m) \<and> (\<forall>n\<in>keys m. plain n)"

definition mirrors :: "fact set \<Rightarrow> printer \<Rightarrow> bool" where
  "mirrors E s \<longleftrightarrow> m_count s = length (m_table s) \<and> numbered (m_table s) \<and> (\<forall>l\<in>set (printed s). list_all isDot l) \<and>
     (\<exists>u t. mapM loadLine (printed s) emptyGraph = (Inr u, t) \<and> factsOf t = E \<and> g_suppressed t = [] \<and>
        g_names t = [] # map fst (m_table s))"

lemma mapM_snoc:
  "mapM f xs s = (Inr ys, t) \<Longrightarrow> f x t = (Inr y, t') \<Longrightarrow> mapM f (xs @ [x]) s = (Inr (ys @ [y]), t')"
  by (induction xs arbitrary: s ys) (auto simp: bindM_Inr_iff ret_def)

lemma mirrors_line:
  assumes "mirrors E s" "lineOk l" "numbered m"
    and "\<And>t. factsOf t = E \<Longrightarrow> g_suppressed t = [] \<Longrightarrow> g_names t = [] # map fst (m_table s) \<Longrightarrow>
      \<exists>t'. runLine l t = (Inr (), t') \<and> factsOf t' = E' \<and> g_suppressed t' = [] \<and> g_names t' = [] # map fst m"
  shows "mirrors E' (s\<lparr>m_table := m, m_count := length m, printed := printed s @ [showLine l]\<rparr>)"
proof -
  obtain u t where t: "mapM loadLine (printed s) emptyGraph = (Inr u, t)" "factsOf t = E" "g_suppressed t = []"
    "g_names t = [] # map fst (m_table s)"
    using assms(1) by (auto simp: mirrors_def)
  obtain t' where t': "runLine l t = (Inr (), t')" "factsOf t' = E'" "g_suppressed t' = []" "g_names t' = [] # map fst m"
    using assms(4) [OF t(2-4)] by blast
  have "loadLine (showLine l) t = (Inr (), t')" using parseLine_show [OF assms(2)] t'(1) by (simp add: loadLine_def)
  from mapM_snoc [OF t(1) this] show ?thesis
    using assms(1,3) t'(2-4) showLine_isDot [OF assms(2)] by (auto simp: mirrors_def)
qed

lemma numbered_number: "numbered m \<Longrightarrow> map_of m n = Some d \<Longrightarrow> number d"
proof -
  assume m: "numbered m" "map_of m n = Some d"
  then have "d \<in> set (map snd m)" by (force dest: map_of_SomeD)
  then have "d \<in> set (map (\<lambda>i. show_nat (Suc i)) [0..<length m])" using m(1) by (simp only: numbered_def)
  then obtain i where "d = show_nat (Suc i)" by auto
  then show "number d" unfolding number_def by (metis show_nat_digits)
qed

lemma nameAt_refers:
  assumes "numbered m" "map_of m n = Some d" "g_names t = [] # map fst m"
  shows "nameAt t d = n"
proof -
  obtain i where i: "i < length m" "m ! i = (n, d)"
    using assms(2) by (auto dest!: map_of_SomeD simp: in_set_conv_nth)
  have "map snd m ! i = show_nat (Suc i)" using assms(1) i(1) by (simp add: numbered_def)
  then have "d = show_nat (Suc i)" using i by simp
  then show ?thesis using i assms(3) by (simp add: nameAt_def Let_def digits_value_show_nat)
qed

lemma memo_mirrors:
  assumes "mirrors E s" "plain n"
  shows "\<exists>s' d. memo n s = (Inr d, s') \<and> mirrors E s' \<and> refers s' n d \<and> seenCallees s' = seenCallees s \<and>
    seenSuppressedCallees s' = seenSuppressedCallees s \<and> (\<forall>n d. refers s n d \<longrightarrow> refers s' n d)"
proof (cases "map_of (m_table s) n")
  case (Some d)
  then show ?thesis using assms(1) by (auto simp: memo_def refers_def)
next
  case None
  let ?d = "show_nat (Suc (length (m_table s)))" and ?m = "m_table s @ [(n, show_nat (Suc (length (m_table s))))]"
  have c: "m_count s = length (m_table s)" "numbered (m_table s)" using assms(1) by (auto simp: mirrors_def)
  have "n \<notin> keys (m_table s)" using None by (simp add: keys_def map_of_eq_None_iff)
  then have m: "numbered ?m" using c(2) assms(2) by (auto simp: numbered_def keys_def)
  have dots: "list_all isDot n" using assms(2) by (simp add: plain_def)
  let ?s = "s\<lparr>m_table := ?m, m_count := length ?m, printed := printed s @ [showLine (NameLine ?d n)]\<rparr>"
  have "mirrors E ?s"
  proof (rule mirrors_line [OF assms(1) _ m])
    show "lineOk (NameLine ?d n)" using show_nat_digits dots by (simp add: number_def)
    fix t assume t: "factsOf t = E" "g_suppressed t = []" "g_names t = [] # map fst (m_table s)"
    then have "runLine (NameLine ?d n) t = (Inr (), t\<lparr>g_names := g_names t @ [n]\<rparr>)"
      by (simp add: runLine_def assert_def digits_value_show_nat)
    then show "\<exists>t'. runLine (NameLine ?d n) t = (Inr (), t') \<and> factsOf t' = E \<and> g_suppressed t' = [] \<and> g_names t' = [] # map fst ?m"
      using t by (auto simp: factsOf_def)
  qed
  moreover have "refers ?s n ?d" "\<forall>n' d'. refers s n' d' \<longrightarrow> refers ?s n' d'"
    using None by (simp_all add: refers_def map_add_def)
  moreover have "memo n s = (Inr ?d, ?s)" using None c(1) by (simp add: memo_def Let_def printLine_def bindM_def ret_def)
  ultimately show ?thesis by (intro exI [of _ ?s] exI [of _ ?d] conjI) simp_all
qed
section \<open>Simulation\<close>

lemma mirrors_print:
  assumes "mirrors E s" "lineOk l"
    and "\<And>t. factsOf t = E \<Longrightarrow> g_suppressed t = [] \<Longrightarrow> g_names t = [] # map fst (m_table s) \<Longrightarrow>
      \<exists>t'. runLine l t = (Inr (), t') \<and> factsOf t' = E' \<and> g_suppressed t' = [] \<and> g_names t' = g_names t"
  shows "mirrors E' (s\<lparr>printed := printed s @ [showLine l]\<rparr>)"
proof -
  have c: "m_count s = length (m_table s)" "numbered (m_table s)" using assms(1) by (auto simp: mirrors_def)
  have "mirrors E' (s\<lparr>m_table := m_table s, m_count := length (m_table s), printed := printed s @ [showLine l]\<rparr>)"
    by (rule mirrors_line [OF assms(1,2) c(2)]) (use assms(3) in metis)
  moreover have "s\<lparr>m_table := m_table s, m_count := length (m_table s), printed := printed s @ [showLine l]\<rparr> = s\<lparr>printed := printed s @ [showLine l]\<rparr>"
    using c(1) by (metis printer.surjective printer.update_convs(1,2,5))
  ultimately show ?thesis by simp
qed

lemma refers_ok:
  assumes "mirrors E s" "refers s n d"
  shows "number d" "plain n" "\<And>t. g_names t = [] # map fst (m_table s) \<Longrightarrow> nameAt t d = n"
proof -
  have m: "numbered (m_table s)" "map_of (m_table s) n = Some d" using assms by (auto simp: mirrors_def refers_def)
  show "number d" using numbered_number m by blast
  have "n \<in> keys (m_table s)" using m(2) by (force simp: keys_def dest: map_of_SomeD)
  then show "plain n" using m(1) by (simp add: numbered_def)
  show "\<And>t. g_names t = [] # map fst (m_table s) \<Longrightarrow> nameAt t d = n" using nameAt_refers m by blast
qed

lemma factsOf_addCallEdge:
  "factsOf (snd (addCallEdge f g b t)) = insert (Calls f g b) (factsOf t)"
  by (auto simp: factsOf_def addCallEdge_def entries_pushEntry)

lemma print_direct:
  assumes "mirrors E s" "refers s f d" "refers s g d'"
  shows "mirrors (insert (Calls f g b) E) (s\<lparr>printed := printed s @ [showLine (DirectLine d d' b)]\<rparr>)"
proof (rule mirrors_print [OF assms(1)])
  show "lineOk (DirectLine d d' b)" using refers_ok(1) assms by simp
  fix t assume t: "factsOf t = E" "g_suppressed t = []" "g_names t = [] # map fst (m_table s)"
  have "runLine (DirectLine d d' b) t = addCallEdge f g b t"
    using refers_ok(3) [OF assms(1)] assms(2,3) t(3) by (simp add: runLine_def)
  then show "\<exists>t'. runLine (DirectLine d d' b) t = (Inr (), t') \<and> factsOf t' = insert (Calls f g b) E \<and> g_suppressed t' = [] \<and> g_names t' = g_names t"
    using factsOf_addCallEdge [of f g b t] t by (simp add: addCallEdge_def)
qed

lemma addGC_facts:
  assumes "g_suppressed t = []" "f \<noteq> ''undefined''"
  shows "\<exists>b t'. addGCFunction f r t = (Inr b, t') \<and> factsOf t' = factsOf t \<union> (if ignoreGCFunction f then {} else {Seed f}) \<and>
    g_suppressed t' = [] \<and> g_names t' = g_names t"
  using assms by (auto simp: addGCFunction_def factsOf_def keys_def)

lemma print_indirect:
  assumes "mirrors E s" "refers s f d" "plainVariable v"
  shows "mirrors (E \<union> targetFacts f b (ViaVariable v)) (s\<lparr>printed := printed s @ [showLine (IndirectLine d v b)]\<rparr>)"
proof (rule mirrors_print [OF assms(1)])
  note f = refers_ok [OF assms(1,2)]
  show "lineOk (IndirectLine d v b)" using f(1) assms(3) by simp
  fix t assume t: "factsOf t = E" "g_suppressed t = []" "g_names t = [] # map fst (m_table s)"
  have "f \<noteq> ''undefined''" using f(2) by (simp add: plain_def)
  from addGC_facts [OF t(2) this, of "''IndirectCall: '' @ v"]
  show "\<exists>t'. runLine (IndirectLine d v b) t = (Inr (), t') \<and> factsOf t' = E \<union> targetFacts f b (ViaVariable v) \<and>
      g_suppressed t' = [] \<and> g_names t' = g_names t"
    using t f(3) by (auto simp: runLine_def Let_def bindM_def ret_def)
qed

lemma print_field:
  assumes "mirrors E s" "refers s f d" "plainField c n"
  shows "mirrors (E \<union> targetFacts f b (ViaField c n)) (s\<lparr>printed := printed s @ [showLine (FieldLine d c n b)]\<rparr>)"
proof (rule mirrors_print [OF assms(1)])
  note f = refers_ok [OF assms(1,2)]
  show "lineOk (FieldLine d c n b)" using f(1) assms(3) by simp
  fix t assume t: "factsOf t = E" "g_suppressed t = []" "g_names t = [] # map fst (m_table s)"
  have "f \<noteq> ''undefined''" using f(2) by (simp add: plain_def)
  from addGC_facts [OF t(2) this, of "''FieldCall: '' @ c @ ''.'' @ n"]
  show "\<exists>t'. runLine (FieldLine d c n b) t = (Inr (), t') \<and> factsOf t' = E \<union> targetFacts f b (ViaField c n) \<and>
      g_suppressed t' = [] \<and> g_names t' = g_names t"
    using t f(3) by (auto simp: runLine_def Let_def bindM_def ret_def)
qed

text \<open>While a function is processed, a callee that is seen has its line.\<close>

definition tracks :: "string \<Rightarrow> fact set \<Rightarrow> printer \<Rightarrow> bool" where
  "tracks f E s \<longleftrightarrow> mirrors E s \<and> (\<forall>b. \<forall>g\<in>seenIn b s. Calls f g b \<in> E)"

lemma tracks_printed:
  "mirrors E' (s\<lparr>printed := ls\<rparr>) \<Longrightarrow> tracks f E s \<Longrightarrow> E \<subseteq> E' \<Longrightarrow> tracks f E' (s\<lparr>printed := ls\<rparr>)"
  by (auto simp: tracks_def seenIn_def split: if_splits)

lemma printCallee_tracks:
  assumes "tracks f E s" "refers s f d" "plain g"
  shows "\<exists>s'. printCallee b (suppressText b @ d @ '' '') g s = (Inr (), s') \<and> tracks f (insert (Calls f g b) E) s' \<and> refers s' f d"
proof (cases "g \<in> seenIn b s")
  case True
  then have "insert (Calls f g b) E = E" using assms(1) by (auto simp: tracks_def)
  then show ?thesis using True assms by (simp add: printCallee_def)
next
  case False
  have m: "mirrors E s" using assms(1) by (simp add: tracks_def)
  obtain s1 d' where s1: "memo g s = (Inr d', s1)" "mirrors E s1" "refers s1 g d'" "seenCallees s1 = seenCallees s"
    "seenSuppressedCallees s1 = seenSuppressedCallees s" "\<forall>n d. refers s n d \<longrightarrow> refers s1 n d"
    using memo_mirrors [OF m assms(3)] by blast
  let ?s2 = "s1\<lparr>printed := printed s1 @ [showLine (DirectLine d d' b)]\<rparr>"
  have f: "refers s1 f d" using s1(6) assms(2) by blast
  have m2: "mirrors (insert (Calls f g b) E) ?s2" by (rule print_direct [OF s1(2) f s1(3)])
  obtain s3 where s3: "setSeen b g ?s2 = (Inr (), s3)" by (simp add: setSeen_def)
  have "seenIn b' s3 = (if b' = b then insert g (seenIn b s) else seenIn b' s)" for b'
    using s3 s1(4,5) by (auto simp: setSeen_def seenIn_def split: if_splits)
  moreover have "mirrors (insert (Calls f g b) E) s3" "refers s3 f d"
    using m2 f s3 by (auto simp: setSeen_def mirrors_def refers_def split: if_splits)
  ultimately have "tracks f (insert (Calls f g b) E) s3" using assms(1) by (auto simp: tracks_def)
  moreover have "printCallee b (suppressText b @ d @ '' '') g s = (Inr (), s3)"
    using False s1(1) s3 by (simp add: printCallee_def bindM_def printLine_def)
  ultimately show ?thesis using \<open>refers s3 f d\<close> by blast
qed

lemma printCallees_tracks:
  assumes "tracks f E s" "refers s f d" "list_all plain gs"
  shows "\<exists>s'. bindM (mapM (printCallee b (suppressText b @ d @ '' '')) gs) (\<lambda>_. ret ()) s = (Inr (), s') \<and>
    tracks f (E \<union> targetFacts f b (Known gs)) s'"
proof -
  have "\<exists>ys s'. mapM (printCallee b (suppressText b @ d @ '' '')) gs s = (Inr ys, s') \<and>
      (tracks f (E \<union> (\<Union>g\<in>set gs. {Calls f g b})) s' \<and> refers s' f d)"
  proof (rule mapM_collect [where I = "\<lambda>E s. tracks f E s \<and> refers s f d"])
    fix g E s assume "g \<in> set gs" "tracks f E s \<and> refers s f d"
    then show "\<exists>y s'. printCallee b (suppressText b @ d @ '' '') g s = (Inr y, s') \<and> tracks f (E \<union> {Calls f g b}) s' \<and> refers s' f d"
      using printCallee_tracks [of f E s d g b] assms(3) by (auto simp: list_all_iff)
  qed (use assms in simp)
  moreover have "(\<Union>g\<in>set gs. {Calls f g b}) = targetFacts f b (Known gs)" by auto
  ultimately show ?thesis by (auto simp: bindM_def ret_def)
qed

lemma expAt_first: "e_exps e = x # xs \<Longrightarrow> expAt e 0 = ret x"
  by (simp add: expAt_def)

lemma mapM_two: "bindM (f x) (\<lambda>_. case y of None \<Rightarrow> ret () | Some z \<Rightarrow> f z) s = (Inr (), s') \<longleftrightarrow>
   bindM (mapM f (x # (case y of None \<Rightarrow> [] | Some z \<Rightarrow> [z]))) (\<lambda>_. ret ()) s = (Inr (), s')"
  by (cases y) (auto simp: bindM_def ret_def split: prod.splits sum.splits)

lemma processCall_tracks:
  assumes "tracks f E s" "plain f" "targetOf cls e = Some T" "targetOk T"
  shows "\<exists>s'. processCall cls f b e s = (Inr (), s') \<and> tracks f (E \<union> targetFacts f b T) s'"
proof -
  have m: "mirrors E s" using assms(1) by (simp add: tracks_def)
  obtain s1 d where s1: "memo f s = (Inr d, s1)" "mirrors E s1" "refers s1 f d" "seenCallees s1 = seenCallees s"
    "seenSuppressedCallees s1 = seenSuppressedCallees s"
    using memo_mirrors [OF m assms(2)] by blast
  have t1: "tracks f E s1" using assms(1) s1(2,4,5) by (simp add: tracks_def seenIn_def)
  obtain x xs where x: "e_exps e = x # xs" using assms(3) by (cases "e_exps e") (auto simp: targetOf_def)
  note start = processCall_def expAt_first [OF x] bindM_ret bindM_Inr [where m = "memo f", OF s1(1)] Let_def
  have line: "tracks f (E \<union> targetFacts f b T) (s1\<lparr>printed := printed s1 @ [l]\<rparr>)"
    if "mirrors (E \<union> targetFacts f b T) (s1\<lparr>printed := printed s1 @ [l]\<rparr>)" for l
    by (rule tracks_printed [OF that t1]) simp
  have known: ?thesis
    if "T = Known gs" "\<And>s'. bindM (mapM (printCallee b (suppressText b @ d @ '' '')) gs) (\<lambda>_. ret ()) s1 = (Inr (), s') \<Longrightarrow>
      processCall cls f b e s = (Inr (), s')" for gs
    using printCallees_tracks [OF t1 s1(3), of gs b] that assms(4) by auto
  have variable: ?thesis
    if "T = ViaVariable v" "processCall cls f b e s = printLine (''I '' @ (suppressText b @ d @ '' '') @ ''VARIABLE '' @ v) s1" for v
    using line [of "showLine (IndirectLine d v b)"] print_indirect [OF s1(2,3), of v b] that assms(4)
    by (simp add: printLine_def)
  have field: ?thesis
    if "T = ViaField c n" "processCall cls f b e s = printLine (''F '' @ (suppressText b @ d @ '' '') @ ''CLASS '' @ c @ '' FIELD '' @ n) s1" for c n
    using line [of "showLine (FieldLine d c n b)"] print_field [OF s1(2,3), of c n b] that assms(4)
    by (simp add: printLine_def)
  show ?thesis
  proof (cases x)
    case (EVar v)
    then obtain n where n: "v_kind v = ''Func''" "v_name v = Some n" "T = Known (n # (case otherDestructorName n of None \<Rightarrow> [] | Some m \<Rightarrow> [m]))"
      using assms(3) x by (auto simp: targetOf_def split: if_splits)
    show ?thesis
      by (rule known [OF n(3)]) (use n(1,2) EVar in \<open>simp add: start calleeName_def nameOf_def assert_def mapM_two del: mapM.simps\<close>)
  next
    case (EDrf y)
    show ?thesis
    proof (cases y)
      case (EVar v)
      then obtain n where n: "v_name v = Some n" "T = ViaVariable n" using assms(3) x EDrf by (auto simp: targetOf_def)
      show ?thesis by (rule variable [OF n(2)]) (use n(1) EVar EDrf in \<open>simp add: start nameOf_def\<close>)
    next
      case (EFld z fd)
      define funs where "funs = (if f_virtual fd then fst (findVirtualFunctions cls (f_csu fd) (f_name fd) ()) else Inr None)"
      have T: "Some T = (case funs of Inl _ \<Rightarrow> None | Inr (Some fs) \<Rightarrow> Some (Known fs) | Inr None \<Rightarrow> Some (ViaField (f_csu fd) (f_name fd)))"
        using assms(3) x EDrf EFld by (cases "f_virtual fd") (simp_all add: targetOf_def funs_def)
      then obtain r where r: "funs = Inr r" by (cases funs) auto
      have q: "(if f_virtual fd then ask (findVirtualFunctions cls (f_csu fd) (f_name fd)) else ret None) = ret r"
        using r by (auto simp: funs_def ask_def ret_def split: if_splits)
      show ?thesis
      proof (cases r)
        case None
        then have TF: "T = ViaField (f_csu fd) (f_name fd)" using T r by simp
        show ?thesis by (rule field [OF TF]) (use None EDrf EFld in \<open>simp add: start q\<close>)
      next
        case (Some fs)
        then have TF: "T = Known fs" using T r by simp
        show ?thesis by (rule known [OF TF]) (use Some EDrf EFld in \<open>simp add: start q\<close>)
      qed
    next
      case (EDrf z)
      have TF: "T = ViaVariable ''UNKNOWN''" using assms(3) x EDrf \<open>x = EDrf y\<close> by (simp add: targetOf_def)
      show ?thesis by (rule variable [OF TF]) (use EDrf \<open>x = EDrf y\<close> in \<open>simp add: start\<close>)
    next
      case (EOther k zs)
      have TF: "T = ViaVariable ''UNKNOWN''" using assms(3) x EOther \<open>x = EDrf y\<close> by (simp add: targetOf_def)
      show ?thesis by (rule variable [OF TF]) (use EOther \<open>x = EDrf y\<close> in \<open>simp add: start\<close>)
    qed
  qed (use assms(3) x in \<open>auto simp: targetOf_def\<close>)
qed

text \<open>The facts of a function: those of the calls in its bodies.\<close>

definition bodyFacts :: "classes \<Rightarrow> string \<Rightarrow> points \<Rightarrow> body list \<Rightarrow> nat \<Rightarrow> fact set" where
  "bodyFacts cls f S bodies i = (\<Union>e\<in>set (b_edges (bodies ! i)).
     if e_kind e = ''Call'' then targetFacts f ((i, e_src e) \<in> S) (the (targetOf cls e)) else {})"

definition functionFacts :: "classes \<Rightarrow> string \<times> body list \<Rightarrow> fact set" where
  "functionFacts cls = (\<lambda>(f, bodies). \<Union>S\<in>{S. answers (suppressedPoints bodies) S}. \<Union>i<length bodies. bodyFacts cls f S bodies i)"

definition functionOk :: "classes \<Rightarrow> string \<times> body list \<Rightarrow> bool" where
  "functionOk cls = (\<lambda>(f, bodies). plain f \<and> (\<exists>S. answers (suppressedPoints bodies) S) \<and>
     (\<forall>i<length bodies. \<forall>e\<in>set (b_edges (bodies ! i)). e_kind e = ''Call'' \<longrightarrow> (\<exists>T. targetOf cls e = Some T \<and> targetOk T)))"

lemma processBody_tracks:
  assumes "functionOk cls (f, bodies)" "i < length bodies" "tracks f E s"
  shows "\<exists>s'. processBody cls f S bodies i s = (Inr (), s') \<and> tracks f (E \<union> bodyFacts cls f S bodies i) s'"
proof -
  let ?h = "\<lambda>e. if e_kind e \<noteq> ''Call'' then ret () else processCall cls f ((i, e_src e) \<in> S) e"
  have "\<exists>ys s'. mapM ?h (b_edges (bodies ! i)) s = (Inr ys, s') \<and> tracks f (E \<union> bodyFacts cls f S bodies i) s'"
    unfolding bodyFacts_def
  proof (rule mapM_collect)
    fix e E s assume e: "e \<in> set (b_edges (bodies ! i))" "tracks f E s"
    show "\<exists>y s'. ?h e s = (Inr y, s') \<and> tracks f (E \<union> (if e_kind e = ''Call'' then targetFacts f ((i, e_src e) \<in> S) (the (targetOf cls e)) else {})) s'"
    proof (cases "e_kind e = ''Call''")
      case True
      then obtain T where "targetOf cls e = Some T" "targetOk T" "plain f" using assms(1,2) e(1) by (auto simp: functionOk_def)
      then show ?thesis using processCall_tracks [OF e(2), of cls e T] True by auto
    qed (use e in \<open>simp add: ret_def\<close>)
  qed fact
  then show ?thesis by (auto simp: processBody_def bindM_def ret_def)
qed

lemma processFunction_mirrors:
  assumes "functionOk cls fn" "mirrors E s"
  shows "\<exists>s'. processFunction cls fn s = (Inr (), s') \<and> mirrors (E \<union> functionFacts cls fn) s'"
proof -
  obtain f bodies where fn: "fn = (f, bodies)" by (cases fn)
  obtain S where S: "answers (suppressedPoints bodies) S" using assms(1) by (auto simp: functionOk_def fn)
  have one: "{S. answers (suppressedPoints bodies) S} = {S}" using S by (auto dest: answers_unique [OF S])
  have start: "tracks f E (s\<lparr>seenCallees := {}, seenSuppressedCallees := {}\<rparr>)"
    using assms(2) by (auto simp: tracks_def seenIn_def mirrors_def)
  have "\<exists>ys s'. mapM (processBody cls f S bodies) [0..<length bodies] (s\<lparr>seenCallees := {}, seenSuppressedCallees := {}\<rparr>) = (Inr ys, s') \<and>
      tracks f (E \<union> (\<Union>i\<in>set [0..<length bodies]. bodyFacts cls f S bodies i)) s'"
    by (rule mapM_collect) (use processBody_tracks [OF assms(1) [unfolded fn]] start in auto)
  moreover have "functionFacts cls fn = (\<Union>i\<in>set [0..<length bodies]. bodyFacts cls f S bodies i)"
    unfolding functionFacts_def fn prod.case one by (simp add: lessThan_atLeast0)
  ultimately show ?thesis
    by (auto simp: processFunction_def fn ask_answers [OF S] bindM_def ret_def tracks_def)
qed
text \<open>The facts of a program, and the condition on its names and calls under which they can be printed.\<close>

definition programFacts :: "classes \<Rightarrow> (string \<times> body list) list \<Rightarrow> fact set" where
  "programFacts cls functions = (\<Union>fn\<in>set functions. functionFacts cls fn)"

lemma mirrors_noLines: "mirrors {} noLines"
  by (simp add: mirrors_def noLines_def numbered_def keys_def factsOf_def emptyGraph_def entries_def ret_def)

lemma computeCallgraph_mirrors:
  assumes "loadClasses csus emptyClasses = (Inr u, cls)" "\<forall>fn\<in>set functions. functionOk cls fn"
  shows "\<exists>s. computeCallgraph csus functions noLines = (Inr (), s) \<and> mirrors (programFacts cls functions) s"
proof -
  have "\<exists>ys s. mapM (processFunction cls) functions noLines = (Inr ys, s) \<and> mirrors ({} \<union> (\<Union>fn\<in>set functions. functionFacts cls fn)) s"
    by (rule mapM_collect [where I = mirrors]) (use processFunction_mirrors assms(2) mirrors_noLines in blast)+
  then show ?thesis using assms(1) by (auto simp: computeCallgraph_def programFacts_def bindM_def ret_def)
qed

text \<open>The text ends with a line feed, after which an empty line is read.\<close>

lemma mirrors_loads:
  assumes "mirrors E s"
  shows "\<exists>u t. mapM loadLine (splitLines (joinLines (printed s))) emptyGraph = (Inr u, t) \<and> factsOf t = E"
proof -
  obtain u t where t: "mapM loadLine (printed s) emptyGraph = (Inr u, t)" "factsOf t = E"
    using assms by (auto simp: mirrors_def)
  have "\<not> isDot (char_of (10 :: nat))" by (simp add: isDot_def)
  then have "\<forall>l\<in>set (printed s). char_of (10 :: nat) \<notin> set l" using assms by (auto simp: mirrors_def list_all_iff)
  then have lines: "splitLines (joinLines (printed s)) = printed s @ [[]]" by (rule splitLines_joinLines)
  have "loadLine [] t = (Inr (), t)" using parseLine_show [of OtherLine] by (simp add: loadLine_def runLine_def)
  then show ?thesis using mapM_snoc [OF t(1)] t(2) lines by auto
qed

section \<open>The analysis of the code\<close>

text \<open>Which functions the facts let run unsuppressed and which collect.\<close>

inductive unsuppressed :: "fact set \<Rightarrow> string \<Rightarrow> bool" for F where
  root: "Calls f g b \<in> F \<Longrightarrow> (\<And>h b. Calls h f b \<notin> F) \<Longrightarrow> \<not> shouldSuppressGC f \<Longrightarrow> unsuppressed F f"
| call: "unsuppressed F f \<Longrightarrow> Calls f g False \<in> F \<Longrightarrow> \<not> shouldSuppressGC g \<Longrightarrow> unsuppressed F g"

definition mentioned :: "fact set \<Rightarrow> string \<Rightarrow> bool" where
  "mentioned F f \<longleftrightarrow> (\<exists>g b. Calls f g b \<in> F \<or> Calls g f b \<in> F)"

inductive collects :: "fact set \<Rightarrow> string \<Rightarrow> bool" for F where
  unknown: "Seed f \<in> F \<Longrightarrow> mentioned F f \<longrightarrow> unsuppressed F f \<Longrightarrow> collects F f"
| collector: "mentioned F gcName \<longrightarrow> unsuppressed F gcName \<Longrightarrow> collects F gcName"
| caller: "collects F g \<Longrightarrow> Calls f g False \<in> F \<Longrightarrow> unsuppressed F f \<Longrightarrow> \<not> ignoreGCFunction f \<Longrightarrow> collects F f"

lemma facts_calls: "calls t f g \<longleftrightarrow> Calls f g False \<in> factsOf t"
  by (auto simp: calls_def factsOf_def)

lemma facts_keys:
  assumes "graph_ok t"
  shows "f \<in> keys (g_callees t) \<longleftrightarrow> (\<exists>g b. Calls f g b \<in> factsOf t)" "f \<in> keys (g_callers t) \<longleftrightarrow> (\<exists>h b. Calls h f b \<in> factsOf t)"
proof -
  have ne: "xs \<noteq> [] \<longleftrightarrow> (\<exists>g b. (g, b) \<in> set xs)" for xs :: "(string \<times> bool) list" by (cases xs) auto
  have inF: "Calls f g b \<in> factsOf t \<longleftrightarrow> (g, b) \<in> set (entries (g_callees t) f)" for f g b by (auto simp: factsOf_def)
  have sym: "(g, b) \<in> set (entries (g_callees t) f) \<longleftrightarrow> (f, b) \<in> set (entries (g_callers t) g)" for f g b
    using assms by (simp add: graph_ok_def)
  have key: "k \<in> keys m \<longleftrightarrow> (\<exists>g b. (g, b) \<in> set (entries m k))" if "\<forall>f\<in>keys m. entries m f \<noteq> []" for k m
    using that ne [of "entries m k"] entries_key [of _ m k] by blast
  show "f \<in> keys (g_callees t) \<longleftrightarrow> (\<exists>g b. Calls f g b \<in> factsOf t)" "f \<in> keys (g_callers t) \<longleftrightarrow> (\<exists>h b. Calls h f b \<in> factsOf t)"
    using assms key [of "g_callees t" f] key [of "g_callers t" f] sym unfolding graph_ok_def inF by blast+
qed

lemma live_unsuppressed:
  assumes "graph_ok t"
  shows "live t f \<longleftrightarrow> unsuppressed (factsOf t) f"
proof
  assume "live t f"
  then show "unsuppressed (factsOf t) f"
    by (induction rule: live.induct) (use facts_keys [OF assms] facts_calls in \<open>metis unsuppressed.intros\<close>)+
next
  assume "unsuppressed (factsOf t) f"
  then show "live t f"
    by (induction rule: unsuppressed.induct) (use facts_keys [OF assms] facts_calls in \<open>metis live.intros\<close>)+
qed

lemma suppressed_facts:
  assumes "graph_ok t"
  shows "\<not> suppressedIn t f \<longleftrightarrow> (mentioned (factsOf t) f \<longrightarrow> unsuppressed (factsOf t) f)"
  using facts_keys [OF assms] live_unsuppressed [OF assms] by (auto simp: suppressedIn_def inGraph_def mentioned_def)

lemma mayGC_collects:
  assumes "graph_ok t"
  shows "mayGC t f \<longleftrightarrow> collects (factsOf t) f"
proof
  have seeds: "f \<in> keys (g_gc t) \<longleftrightarrow> Seed f \<in> factsOf t" for f by (auto simp: factsOf_def)
  have mention: "calls t f g \<Longrightarrow> mentioned (factsOf t) f" for f g by (auto simp: facts_calls mentioned_def)
  show "collects (factsOf t) f" if "mayGC t f"
    using that
    by (induction rule: mayGC.induct)
      (use seeds mention facts_calls suppressed_facts [OF assms] in \<open>metis collects.intros\<close>)+
  show "mayGC t f" if "collects (factsOf t) f"
    using that
    by (induction rule: collects.induct)
      (use seeds facts_calls suppressed_facts [OF assms] in \<open>metis mayGC.intros\<close>)+
qed

section \<open>Properties\<close>

text \<open>A function that calls the collector, then through a variable, then a virtual method, and frees a local object.\<close>

definition callTo :: "nat \<Rightarrow> nat \<Rightarrow> gexp \<Rightarrow> edge" where
  "callTo p q x = \<lparr>e_kind = ''Call'', e_src = p, e_dst = q, e_exps = [x], e_inst = None, e_args = [], e_block = None\<rparr>"

definition functionVar :: "string \<Rightarrow> gexp" where
  "functionVar name = EVar (funcVar name)"

definition sampleFunctions :: "(string \<times> body list) list" where
  "sampleFunctions = [(''f()'', [\<lparr>b_block = \<lparr>k_kind = ''Function'', k_var = \<lparr>v_kind = ''Func'', v_name = Some ''f()''\<rparr>, k_loop = []\<rparr>,
     b_entry = 1, b_exit = 5,
     b_edges = [callTo 1 2 (functionVar gcName), callTo 2 3 (EDrf (EVar \<lparr>v_kind = ''Local'', v_name = Some ''op''\<rparr>)),
       callTo 3 4 (EDrf (EFld (EOther ''This'' []) \<lparr>f_name = ''f'', f_csu = ''C'', f_virtual = True\<rparr>)),
       callTo 4 5 (functionVar ''T::~T()'')],
     b_parents = [], b_vars = [], b_points = []\<rparr>])]"

lemma sampleFunctions_ok:
  "\<forall>fn\<in>set sampleFunctions. functionOk sampleTables fn"
proof -
  have S: "fst (suppressedPoints (snd (hd sampleFunctions)) ()) = Inr {}" by code_simp
  have plain: "list_all (\<lambda>e. case targetOf sampleTables e of None \<Rightarrow> False | Some T \<Rightarrow> targetOk T)
      (b_edges (hd (snd (hd sampleFunctions)))) \<and> plain (fst (hd sampleFunctions))"
    by code_simp
  have "\<exists>T. targetOf sampleTables e = Some T \<and> targetOk T" if "e \<in> set (b_edges (hd (snd (hd sampleFunctions))))" for e
    using that plain unfolding list_all_iff by (cases "targetOf sampleTables e") auto
  moreover have "\<exists>S. answers (suppressedPoints (snd (hd sampleFunctions))) S" using S by (auto simp: answers_def)
  ultimately show ?thesis using plain by (auto simp: functionOk_def sampleFunctions_def)
qed
text \<open>
  C17: The call graph of a program is computed without an exception, and the reader of its text finds exactly
  the calls of the code: each direct or virtual call of a function with each of its possible targets, marked
  as suppressed when its point is, and an unknown call for each function that makes one that is neither
  suppressed nor known to be harmless.
\<close>

theorem callgraph_roundtrip:
  assumes "loadClasses csus emptyClasses = (Inr u, cls)" "\<forall>fn\<in>set functions. functionOk cls fn"
  shows "\<exists>s v t. computeCallgraph csus functions noLines = (Inr (), s) \<and>
    mapM loadLine (splitLines (joinLines (printed s))) emptyGraph = (Inr v, t) \<and> factsOf t = programFacts cls functions"
  using computeCallgraph_mirrors [OF assms] mirrors_loads by blast

lemma callgraph_roundtrip_witness:
  "\<exists>s v t. computeCallgraph sampleClasses sampleFunctions noLines = (Inr (), s) \<and>
    mapM loadLine (splitLines (joinLines (printed s))) emptyGraph = (Inr v, t) \<and> factsOf t = programFacts sampleTables sampleFunctions"
  by (rule callgraph_roundtrip [OF sampleClasses_load sampleFunctions_ok])

lemma plain_callers:
  assumes "\<forall>fn\<in>set functions. functionOk cls fn" "Calls f g b \<in> programFacts cls functions"
  shows "f \<noteq> ''undefined''"
proof -
  have "f' = f" if "Calls f g b \<in> targetFacts f' b' T" for f' b' T using that by (cases T) (auto split: if_splits)
  then show ?thesis using assms by (fastforce simp: programFacts_def functionFacts_def bodyFacts_def functionOk_def plain_def split: if_splits)
qed

text \<open>
  C13: The two passes together: the functions reported for a program as able to collect garbage are those from
  which unsuppressed calls of the code lead to the collector or to a call with an unknown target, through
  functions that an unsuppressed chain of calls from a function without callers reaches and that are not ignored.
\<close>

theorem gc_functions_of_code:
  assumes "loadClasses csus emptyClasses = (Inr u, cls)" "\<forall>fn\<in>set functions. functionOk cls fn"
    and "Calls f gcName b \<in> programFacts cls functions"
  shows "\<exists>s t. computeCallgraph csus functions noLines = (Inr (), s) \<and> loadCallgraph (joinLines (printed s)) emptyGraph = (Inr (), t) \<and>
    keys (g_gc t) = {f. collects (programFacts cls functions) f}"
proof -
  obtain s where s: "computeCallgraph csus functions noLines = (Inr (), s)" "mirrors (programFacts cls functions) s"
    using computeCallgraph_mirrors [OF assms(1,2)] by blast
  obtain v t where t: "mapM loadLine (splitLines (joinLines (printed s))) emptyGraph = (Inr v, t)" "factsOf t = programFacts cls functions"
    using mirrors_loads [OF s(2)] by blast
  have "graph_ok t" using loaded_ok_lines [OF loaded_ok_empty t(1)] by (simp add: loaded_ok_def)
  note keys = facts_keys [OF this] and gc = mayGC_collects [OF this]
  have "gcName \<in> keys (g_callers t)" "''undefined'' \<notin> keys (g_callees t)"
    using keys t(2) assms(3) plain_callers [OF assms(2)] by blast+
  from loadCallgraph_run [OF t(1) this] gc t(2) s(1) show ?thesis by auto
qed

lemma gc_functions_of_code_witness:
  "\<exists>s t. computeCallgraph sampleClasses sampleFunctions noLines = (Inr (), s) \<and>
    loadCallgraph (joinLines (printed s)) emptyGraph = (Inr (), t) \<and> keys (g_gc t) = {f. collects (programFacts sampleTables sampleFunctions) f}"
proof (rule gc_functions_of_code [OF sampleClasses_load sampleFunctions_ok])
  have S: "answers (suppressedPoints (snd (hd sampleFunctions))) {}" unfolding answers_def by code_simp
  have "targetOf sampleTables (callTo 1 2 (functionVar gcName)) = Some (Known [gcName])" by code_simp
  then have "Calls ''f()'' gcName False \<in> bodyFacts sampleTables ''f()'' {} (snd (hd sampleFunctions)) 0"
    by (simp add: bodyFacts_def sampleFunctions_def callTo_def)
  then show "Calls ''f()'' gcName False \<in> programFacts sampleTables sampleFunctions"
    using S by (auto simp: programFacts_def functionFacts_def sampleFunctions_def)
qed

end
