(* ===== verification/Hazard_Types.thy ===== *)
theory Hazard_Types
  imports Hazard_Data Hazard_Classes
begin

text \<open>
  \<open>computeGCTypes.js\<close> and the part of \<open>analyzeRoots.js\<close> that reads its output: which classes are garbage
  collected things, and which hold a pointer to one without rooting it.

  The printed lines are the state. The nesting of classes has a depth; the recursion has fuel, one more than
  the number of classes that are nested in another, which is enough.
\<close>

section \<open>The tables\<close>

record nested =
  t_structures :: index
  t_pointers :: index

definition noNested :: nested where
  "noNested = \<lparr>t_structures = [], t_pointers = []\<rparr>"

definition pushParent :: "string \<Rightarrow> string \<Rightarrow> index \<Rightarrow> index" where
  "pushParent inner csu m = AList.update inner (listAt m inner @ [csu]) m"

definition addNestedStructure :: "string \<Rightarrow> string \<Rightarrow> nested \<Rightarrow> nested" where
  "addNestedStructure csu inner s = s\<lparr>t_structures := pushParent inner csu (t_structures s)\<rparr>"

definition addNestedPointer :: "string \<Rightarrow> string \<Rightarrow> nested \<Rightarrow> nested" where
  "addNestedPointer csu inner s = s\<lparr>t_pointers := pushParent inner csu (t_pointers s)\<rparr>"

text \<open>A field that is an automatic rooter ends the loop over the fields.\<close>

fun processDataFields :: "string \<Rightarrow> gtype list \<Rightarrow> nested \<Rightarrow> nested" where
  "processDataFields csu [] s = s"
| "processDataFields csu (TPointer (TCSU name) # types) s = processDataFields csu types (addNestedPointer csu name s)"
| "processDataFields csu (TCSU name # types) s =
     (if name = ''JS::AutoGCRooter'' \<or> name = ''JS::CustomAutoRooter'' then s
      else processDataFields csu types (addNestedStructure csu name s))"
| "processDataFields csu (_ # types) s = processDataFields csu types s"

definition loadNested :: "(string \<times> gtype list) list \<Rightarrow> nested" where
  "loadNested csus = fold (\<lambda>(csu, types). processDataFields csu types) csus noNested"

section \<open>Types that are collected\<close>

definition printType :: "string \<Rightarrow> string \<Rightarrow> (string list, unit) jsm" where
  "printType kind name out = (Inr (), out @ [kind @ name])"

fun addGCPointer :: "nat \<Rightarrow> nested \<Rightarrow> string \<Rightarrow> (string list, unit) jsm" where
  "addGCPointer 0 t name = throw RecursionGuard"
| "addGCPointer (Suc fuel) t name =
     (if isRootedPointerTypeName name then ret ()
      else bindM (printType ''GCPointer: '' name) (\<lambda>_.
           bindM (mapM (addGCPointer fuel t) (listAt (t_structures t) name)) (\<lambda>_. ret ())))"

fun addGCType :: "nat \<Rightarrow> nested \<Rightarrow> string \<Rightarrow> (string list, unit) jsm" where
  "addGCType 0 t name = throw RecursionGuard"
| "addGCType (Suc fuel) t name =
     (if isRootedTypeName name then ret ()
      else bindM (printType ''GCThing: '' name) (\<lambda>_.
           bindM (mapM (addGCType fuel t) (listAt (t_structures t) name)) (\<lambda>_.
           bindM (mapM (addGCPointer (Suc (length (t_structures t))) t) (listAt (t_pointers t) name)) (\<lambda>_. ret ()))))"

definition gcRoots :: "string list" where
  "gcRoots = [''js::ObjectImpl'', ''JSString'', ''js::Shape'', ''js::BaseShape'', ''JSScript'', ''js::ion::IonCode'']"

definition gcPointerRoots :: "string list" where
  "gcPointerRoots = [''JS::Value'', ''jsid'']"

definition computeGCTypes :: "(string \<times> gtype list) list \<Rightarrow> (string list, unit) jsm" where
  "computeGCTypes csus = (let t = loadNested csus; fuel = Suc (length (t_structures t)) in
     bindM (mapM (addGCType fuel t) gcRoots) (\<lambda>_.
     bindM (mapM (addGCPointer fuel t) gcPointerRoots) (\<lambda>_. ret ())))"

section \<open>The reader\<close>

text \<open>The first occurrence of the keyword anywhere in the line, and what follows it.\<close>

definition matchType :: "string \<Rightarrow> string \<Rightarrow> string option" where
  "matchType keyword line = map_option (\<lambda>i. takeWhile isDot (drop (i + length keyword) line)) (indexOf keyword line)"

definition readTypes :: "string \<Rightarrow> string set \<times> string set" where
  "readTypes text = (let ls = splitLines text in
     (set (List.map_filter (matchType ''GCThing: '') ls), set (List.map_filter (matchType ''GCPointer: '') ls)))"

definition isUnrootedType :: "string set \<times> string set \<Rightarrow> gtype \<Rightarrow> bool" where
  "isUnrootedType types t = (case t of
       TPointer (TCSU name) \<Rightarrow> name \<in> fst types
     | TCSU name \<Rightarrow> name \<in> snd types
     | _ \<Rightarrow> False)"

definition isRootedType :: "gtype \<Rightarrow> bool" where
  "isRootedType t = (case t of TCSU name \<Rightarrow> isRootedTypeName name | _ \<Rightarrow> False)"

fun typeDesc :: "gtype \<Rightarrow> string" where
  "typeDesc (TCSU name) = name"
| "typeDesc (TPointer t) = typeDesc t @ ''*''"
| "typeDesc (TArray t) = typeDesc t @ ''[]''"
| "typeDesc (TOther k (Some t)) = typeDesc t @ ''?''"
| "typeDesc (TOther k None) = ''???''"

section \<open>Which types they are\<close>

text \<open>A class with a field of the class, or a field that points to it.\<close>

definition holds :: "nested \<Rightarrow> string \<Rightarrow> string \<Rightarrow> bool" where
  "holds t c d \<longleftrightarrow> d \<in> set (listAt (t_structures t) c)"

definition pointsTo :: "nested \<Rightarrow> string \<Rightarrow> string \<Rightarrow> bool" where
  "pointsTo t c d \<longleftrightarrow> d \<in> set (listAt (t_pointers t) c)"

inductive gcThing :: "nested \<Rightarrow> string \<Rightarrow> bool" for t where
  base: "c \<in> set gcRoots \<Longrightarrow> \<not> isRootedTypeName c \<Longrightarrow> gcThing t c"
| inside: "gcThing t c \<Longrightarrow> holds t c d \<Longrightarrow> \<not> isRootedTypeName d \<Longrightarrow> gcThing t d"

inductive gcPointer :: "nested \<Rightarrow> string \<Rightarrow> bool" for t where
  base: "c \<in> set gcPointerRoots \<Longrightarrow> \<not> isRootedPointerTypeName c \<Longrightarrow> gcPointer t c"
| pointer: "gcThing t c \<Longrightarrow> pointsTo t c d \<Longrightarrow> \<not> isRootedPointerTypeName d \<Longrightarrow> gcPointer t d"
| inside: "gcPointer t c \<Longrightarrow> holds t c d \<Longrightarrow> \<not> isRootedPointerTypeName d \<Longrightarrow> gcPointer t d"
section \<open>The recursion\<close>

text \<open>The nesting has a depth: a class is not nested in itself.\<close>

definition nestable :: "nested \<Rightarrow> (string \<Rightarrow> nat) \<Rightarrow> bool" where
  "nestable t h \<longleftrightarrow> (\<forall>c. h c \<le> length (t_structures t) \<and> (\<forall>d. holds t c d \<longrightarrow> h d < h c))"

text \<open>A printed line says that a class is a thing (left) or holds a pointer (right).\<close>

definition typeLine :: "string + string \<Rightarrow> string" where
  "typeLine x = (case x of Inl name \<Rightarrow> ''GCThing: '' @ name | Inr name \<Rightarrow> ''GCPointer: '' @ name)"

definition says :: "(string + string) set \<Rightarrow> string list \<Rightarrow> bool" where
  "says E out \<longleftrightarrow> set out = typeLine ` E"

definition pointersFrom :: "nested \<Rightarrow> string \<Rightarrow> (string + string) set" where
  "pointersFrom t c = (if isRootedPointerTypeName c then {}
     else Inr ` {d. (\<lambda>a b. holds t a b \<and> \<not> isRootedPointerTypeName b)\<^sup>*\<^sup>* c d})"

definition thingsFrom :: "nested \<Rightarrow> string \<Rightarrow> (string + string) set" where
  "thingsFrom t c = (if isRootedTypeName c then {}
     else (\<Union>d\<in>{d. (\<lambda>a b. holds t a b \<and> \<not> isRootedTypeName b)\<^sup>*\<^sup>* c d}. insert (Inl d) (\<Union>e\<in>{e. pointsTo t d e}. pointersFrom t e)))"

lemma rtranclp_unfold_set:
  "{d. (\<lambda>a b. r a b \<and> p b)\<^sup>*\<^sup>* c d} = insert c (\<Union>b\<in>{b. r c b \<and> p b}. {d. (\<lambda>a b. r a b \<and> p b)\<^sup>*\<^sup>* b d})" (is "?L = ?R")
proof
  show "?L \<subseteq> ?R" by (auto elim: converse_rtranclpE)
  show "?R \<subseteq> ?L" by (auto intro: converse_rtranclp_into_rtranclp)
qed

lemma pointersFrom_unfold:
  "pointersFrom t c = (if isRootedPointerTypeName c then {} else insert (Inr c) (\<Union>d\<in>set (listAt (t_structures t) c). pointersFrom t d))"
proof (cases "isRootedPointerTypeName c")
  case False
  have "pointersFrom t c = Inr ` {d. (\<lambda>a b. holds t a b \<and> \<not> isRootedPointerTypeName b)\<^sup>*\<^sup>* c d}"
    using False by (simp add: pointersFrom_def)
  also have "\<dots> = insert (Inr c) (\<Union>d\<in>set (listAt (t_structures t) c). pointersFrom t d)"
    by (subst rtranclp_unfold_set) (auto simp: pointersFrom_def holds_def)
  finally show ?thesis using False by simp
qed (simp add: pointersFrom_def)

lemma thingsFrom_unfold:
  "thingsFrom t c = (if isRootedTypeName c then {}
     else insert (Inl c) ((\<Union>d\<in>set (listAt (t_structures t) c). thingsFrom t d) \<union> (\<Union>e\<in>set (listAt (t_pointers t) c). pointersFrom t e)))"
proof (cases "isRootedTypeName c")
  case False
  have "thingsFrom t c = (\<Union>d\<in>{d. (\<lambda>a b. holds t a b \<and> \<not> isRootedTypeName b)\<^sup>*\<^sup>* c d}. insert (Inl d) (\<Union>e\<in>{e. pointsTo t d e}. pointersFrom t e))"
    using False by (simp add: thingsFrom_def)
  also have "\<dots> = insert (Inl c) ((\<Union>d\<in>set (listAt (t_structures t) c). thingsFrom t d) \<union> (\<Union>e\<in>set (listAt (t_pointers t) c). pointersFrom t e))"
    by (subst rtranclp_unfold_set) (auto simp: thingsFrom_def holds_def pointsTo_def)
  finally show ?thesis using False by simp
qed (simp add: thingsFrom_def)

lemma says_print:
  "says E out \<Longrightarrow> says (insert (Inr name) E) (out @ [''GCPointer: '' @ name])"
  "says E out \<Longrightarrow> says (insert (Inl name) E) (out @ [''GCThing: '' @ name])"
  by (auto simp: says_def typeLine_def)

lemma addGCPointer_says:
  assumes "nestable t h" "h name < fuel" "says E out"
  shows "\<exists>u out'. addGCPointer fuel t name out = (Inr u, out') \<and> says (E \<union> pointersFrom t name) out'"
  using assms(2,3)
proof (induction fuel arbitrary: name E out)
  case (Suc fuel)
  show ?case
  proof (cases "isRootedPointerTypeName name")
    case True
    then show ?thesis using Suc.prems by (subst pointersFrom_unfold) (simp add: ret_def)
  next
    case False
    have "\<exists>ys out'. mapM (addGCPointer fuel t) (listAt (t_structures t) name) (out @ [''GCPointer: '' @ name]) = (Inr ys, out') \<and>
        says (insert (Inr name) E \<union> (\<Union>d\<in>set (listAt (t_structures t) name). pointersFrom t d)) out'"
    proof (rule mapM_collect [where I = says])
      fix d E out assume "d \<in> set (listAt (t_structures t) name)" "says E out"
      moreover have "h d < fuel" if "holds t name d" using assms(1) that Suc.prems(1) by (fastforce simp: nestable_def)
      ultimately show "\<exists>u out'. addGCPointer fuel t d out = (Inr u, out') \<and> says (E \<union> pointersFrom t d) out'"
        using Suc.IH by (simp add: holds_def)
    qed (use says_print Suc.prems in blast)
    then obtain ys out' where run: "mapM (addGCPointer fuel t) (listAt (t_structures t) name) (out @ [''GCPointer: '' @ name]) = (Inr ys, out')"
      "says (insert (Inr name) E \<union> (\<Union>d\<in>set (listAt (t_structures t) name). pointersFrom t d)) out'" by blast
    have "addGCPointer (Suc fuel) t name out = (Inr (), out')"
      using False run(1) by (simp add: bindM_def printType_def ret_def)
    moreover have "says (E \<union> pointersFrom t name) out'" using run(2) False by (subst pointersFrom_unfold) simp
    ultimately show ?thesis by blast
  qed
qed simp

lemma addGCType_says:
  assumes "nestable t h" "h name < fuel" "says E out"
  shows "\<exists>u out'. addGCType fuel t name out = (Inr u, out') \<and> says (E \<union> thingsFrom t name) out'"
  using assms(2,3)
proof (induction fuel arbitrary: name E out)
  case (Suc fuel)
  show ?case
  proof (cases "isRootedTypeName name")
    case True
    then show ?thesis using Suc.prems by (subst thingsFrom_unfold) (simp add: ret_def)
  next
    case False
    let ?S = "\<Union>d\<in>set (listAt (t_structures t) name). thingsFrom t d" and ?P = "\<Union>e\<in>set (listAt (t_pointers t) name). pointersFrom t e"
    have "\<exists>ys out'. mapM (addGCType fuel t) (listAt (t_structures t) name) (out @ [''GCThing: '' @ name]) = (Inr ys, out') \<and>
        says (insert (Inl name) E \<union> ?S) out'"
    proof (rule mapM_collect [where I = says])
      fix d E out assume "d \<in> set (listAt (t_structures t) name)" "says E out"
      moreover have "h d < fuel" if "holds t name d" using assms(1) that Suc.prems(1) by (fastforce simp: nestable_def)
      ultimately show "\<exists>u out'. addGCType fuel t d out = (Inr u, out') \<and> says (E \<union> thingsFrom t d) out'"
        using Suc.IH by (simp add: holds_def)
    qed (use says_print Suc.prems in blast)
    then obtain ys out1 where run1: "mapM (addGCType fuel t) (listAt (t_structures t) name) (out @ [''GCThing: '' @ name]) = (Inr ys, out1)"
      "says (insert (Inl name) E \<union> ?S) out1" by blast
    have "\<exists>zs out'. mapM (addGCPointer (Suc (length (t_structures t))) t) (listAt (t_pointers t) name) out1 = (Inr zs, out') \<and>
        says (insert (Inl name) E \<union> ?S \<union> ?P) out'"
      by (rule mapM_collect [where I = says])
        (use addGCPointer_says [OF assms(1)] assms(1) run1(2) in \<open>auto simp: nestable_def less_Suc_eq_le simp del: addGCPointer.simps\<close>)
    then obtain zs out' where run2: "mapM (addGCPointer (Suc (length (t_structures t))) t) (listAt (t_pointers t) name) out1 = (Inr zs, out')"
      "says (insert (Inl name) E \<union> ?S \<union> ?P) out'" by blast
    have "addGCType (Suc fuel) t name out = (Inr (), out')"
      using False run1(1) run2(1) by (simp add: bindM_def printType_def ret_def del: addGCPointer.simps)
    moreover have "says (E \<union> thingsFrom t name) out'" using run2(2) False by (subst thingsFrom_unfold) (simp add: Un_assoc)
    ultimately show ?thesis by blast
  qed
qed simp

section \<open>What is printed\<close>

definition allTypes :: "nested \<Rightarrow> (string + string) set" where
  "allTypes t = Inl ` {c. gcThing t c} \<union> Inr ` {c. gcPointer t c}"

lemma computeGCTypes_says:
  assumes "nestable (loadNested csus) h"
  shows "\<exists>out. computeGCTypes csus [] = (Inr (), out) \<and>
    says ((\<Union>c\<in>set gcRoots. thingsFrom (loadNested csus) c) \<union> (\<Union>c\<in>set gcPointerRoots. pointersFrom (loadNested csus) c)) out"
proof -
  let ?t = "loadNested csus"
  let ?n = "Suc (length (t_structures ?t))"
  have n: "h c < ?n" for c using assms by (simp add: nestable_def less_Suc_eq_le)
  have "\<exists>ys out. mapM (addGCType ?n ?t) gcRoots [] = (Inr ys, out) \<and> says ({} \<union> (\<Union>c\<in>set gcRoots. thingsFrom ?t c)) out"
    by (rule mapM_collect [where I = says]) (use addGCType_says [OF assms n] in \<open>auto simp: says_def simp del: addGCType.simps\<close>)
  then obtain ys out1 where run1: "mapM (addGCType ?n ?t) gcRoots [] = (Inr ys, out1)" "says ({} \<union> (\<Union>c\<in>set gcRoots. thingsFrom ?t c)) out1" by blast
  have "\<exists>ys out. mapM (addGCPointer ?n ?t) gcPointerRoots out1 = (Inr ys, out) \<and>
      says ({} \<union> (\<Union>c\<in>set gcRoots. thingsFrom ?t c) \<union> (\<Union>c\<in>set gcPointerRoots. pointersFrom ?t c)) out"
    by (rule mapM_collect [where I = says]) (use addGCPointer_says [OF assms n] run1(2) in \<open>auto simp del: addGCPointer.simps\<close>)
  then obtain zs out where run2: "mapM (addGCPointer ?n ?t) gcPointerRoots out1 = (Inr zs, out)"
    "says ({} \<union> (\<Union>c\<in>set gcRoots. thingsFrom ?t c) \<union> (\<Union>c\<in>set gcPointerRoots. pointersFrom ?t c)) out" by blast
  have "computeGCTypes csus [] = (Inr (), out)"
    unfolding computeGCTypes_def Let_def bindM_def by (simp only: run1(1) run2(1) prod.case sum.case ret_def)
  then show ?thesis using run2(2) by auto
qed
lemma gcThing_star:
  "gcThing t d \<longleftrightarrow> (\<exists>c\<in>set gcRoots. \<not> isRootedTypeName c \<and> (\<lambda>a b. holds t a b \<and> \<not> isRootedTypeName b)\<^sup>*\<^sup>* c d)" (is "_ \<longleftrightarrow> ?R d")
proof
  show "?R d" if "gcThing t d"
    using that by (induction rule: gcThing.induct) (blast intro: rtranclp.rtrancl_into_rtrancl)+
  assume "?R d"
  then obtain c where c: "c \<in> set gcRoots" "\<not> isRootedTypeName c" "(\<lambda>a b. holds t a b \<and> \<not> isRootedTypeName b)\<^sup>*\<^sup>* c d" by blast
  from c(3,1,2) show "gcThing t d" by (induction rule: rtranclp_induct) (auto intro: gcThing.intros)
qed

lemma gcPointer_star:
  "gcPointer t d \<longleftrightarrow> (\<exists>c. (c \<in> set gcPointerRoots \<or> (\<exists>b. gcThing t b \<and> pointsTo t b c)) \<and> \<not> isRootedPointerTypeName c \<and>
     (\<lambda>a b. holds t a b \<and> \<not> isRootedPointerTypeName b)\<^sup>*\<^sup>* c d)" (is "_ \<longleftrightarrow> ?R d")
proof
  show "?R d" if "gcPointer t d"
    using that by (induction rule: gcPointer.induct) (blast intro: rtranclp.rtrancl_into_rtrancl)+
  assume "?R d"
  then obtain c where c: "c \<in> set gcPointerRoots \<or> (\<exists>b. gcThing t b \<and> pointsTo t b c)" "\<not> isRootedPointerTypeName c"
    "(\<lambda>a b. holds t a b \<and> \<not> isRootedPointerTypeName b)\<^sup>*\<^sup>* c d" by blast
  from c(3,1,2) show "gcPointer t d" by (induction rule: rtranclp_induct) (auto intro: gcPointer.intros)
qed

lemma printed_allTypes:
  "(\<Union>c\<in>set gcRoots. thingsFrom t c) \<union> (\<Union>c\<in>set gcPointerRoots. pointersFrom t c) = allTypes t"
proof (intro equalityI subsetI)
  fix x assume "x \<in> (\<Union>c\<in>set gcRoots. thingsFrom t c) \<union> (\<Union>c\<in>set gcPointerRoots. pointersFrom t c)"
  then show "x \<in> allTypes t"
    by (auto simp: allTypes_def thingsFrom_def pointersFrom_def gcPointer_star gcThing_star split: if_splits) blast+
next
  fix x assume "x \<in> allTypes t"
  then consider d where "x = Inl d" "gcThing t d" | d where "x = Inr d" "gcPointer t d" by (auto simp: allTypes_def)
  then show "x \<in> (\<Union>c\<in>set gcRoots. thingsFrom t c) \<union> (\<Union>c\<in>set gcPointerRoots. pointersFrom t c)"
  proof cases
    case 1
    then show ?thesis by (auto simp: gcThing_star thingsFrom_def)
  next
    case 2
    then obtain c where c0: "c \<in> set gcPointerRoots \<or> (\<exists>b. gcThing t b \<and> pointsTo t b c)" "\<not> isRootedPointerTypeName c"
      "(\<lambda>a b. holds t a b \<and> \<not> isRootedPointerTypeName b)\<^sup>*\<^sup>* c d"
      unfolding gcPointer_star by blast
    then have c: "c \<in> set gcPointerRoots \<or> (\<exists>b. gcThing t b \<and> pointsTo t b c)" "x \<in> pointersFrom t c"
      using 2(1) by (simp_all add: pointersFrom_def)
    from c(1) show ?thesis
    proof
      assume "c \<in> set gcPointerRoots"
      then show ?thesis using c(2) by blast
    next
      assume "\<exists>b. gcThing t b \<and> pointsTo t b c"
      then obtain b r where "r \<in> set gcRoots" "\<not> isRootedTypeName r" "(\<lambda>a b. holds t a b \<and> \<not> isRootedTypeName b)\<^sup>*\<^sup>* r b" "pointsTo t b c"
        by (auto simp: gcThing_star)
      then show ?thesis using c(2) by (auto simp: thingsFrom_def)
    qed
  qed
qed

section \<open>Reading the lines\<close>

definition typeName :: "string \<Rightarrow> bool" where
  "typeName name \<longleftrightarrow> list_all isDot name \<and> \<not> has ''GCThing: '' name \<and> \<not> has ''GCPointer: '' name"

lemma isDot_takeWhile: "list_all isDot name \<Longrightarrow> takeWhile isDot name = name"
  by (simp add: list_all_iff)

lemma matchType_lines:
  assumes "typeName name"
  shows "matchType ''GCThing: '' (''GCThing: '' @ name) = Some name" "matchType ''GCPointer: '' (''GCPointer: '' @ name) = Some name"
    "matchType ''GCThing: '' (''GCPointer: '' @ name) = None" "matchType ''GCPointer: '' (''GCThing: '' @ name) = None"
proof -
  have none: "indexOf ''GCThing: '' name = None" "indexOf ''GCPointer: '' name = None" using assms by (auto simp: typeName_def has_def)
  have name: "takeWhile isDot name = name" using assms by (simp add: typeName_def isDot_takeWhile)
  show "matchType ''GCThing: '' (''GCThing: '' @ name) = Some name" "matchType ''GCPointer: '' (''GCPointer: '' @ name) = Some name"
    unfolding matchType_def indexOf_start by (simp_all add: name)
  show "matchType ''GCThing: '' (''GCPointer: '' @ name) = None" "matchType ''GCPointer: '' (''GCThing: '' @ name) = None"
    using none by (simp_all add: matchType_def startsWith_def)
qed

lemma matchType_typeLine:
  assumes "typeName (case x of Inl name \<Rightarrow> name | Inr name \<Rightarrow> name)"
  shows "matchType ''GCThing: '' (typeLine x) = (case x of Inl name \<Rightarrow> Some name | Inr name \<Rightarrow> None)"
    "matchType ''GCPointer: '' (typeLine x) = (case x of Inl name \<Rightarrow> None | Inr name \<Rightarrow> Some name)"
proof -
  have "matchType ''GCThing: '' (typeLine x) = (case x of Inl name \<Rightarrow> Some name | Inr name \<Rightarrow> None) \<and>
    matchType ''GCPointer: '' (typeLine x) = (case x of Inl name \<Rightarrow> None | Inr name \<Rightarrow> Some name)"
    using assms by (cases x) (simp_all only: typeLine_def sum.case matchType_lines simp_thms)
  then show "matchType ''GCThing: '' (typeLine x) = (case x of Inl name \<Rightarrow> Some name | Inr name \<Rightarrow> None)"
    "matchType ''GCPointer: '' (typeLine x) = (case x of Inl name \<Rightarrow> None | Inr name \<Rightarrow> Some name)"
    by blast+
qed

lemma set_matches: "set (List.map_filter f xs) = {y. \<exists>x\<in>set xs. f x = Some y}"
  by (induction xs) (auto simp: map_filter_simps split: option.splits)

lemma readTypes_says:
  assumes "says (allTypes t) out" "\<And>c. gcThing t c \<or> gcPointer t c \<Longrightarrow> typeName c"
  shows "readTypes (joinLines out) = ({c. gcThing t c}, {c. gcPointer t c})"
proof -
  have ok: "typeName (case x of Inl name \<Rightarrow> name | Inr name \<Rightarrow> name)" if "x \<in> allTypes t" for x
    using that assms(2) by (auto simp: allTypes_def)
  have dots: "list_all isDot ''GCThing: ''" "list_all isDot ''GCPointer: ''" by code_simp+
  have "list_all isDot (typeLine x)" if "x \<in> allTypes t" for x
    using ok [OF that] dots by (cases x) (simp_all only: typeLine_def sum.case list_all_append typeName_def simp_thms)
  moreover have "\<not> isDot (char_of (10 :: nat))" by (simp add: isDot_def)
  ultimately have "\<forall>l\<in>set out. char_of (10 :: nat) \<notin> set l" using assms(1) by (auto simp: says_def list_all_iff)
  then have lines: "splitLines (joinLines out) = out @ [[]]" by (rule splitLines_joinLines)
  have empty: "matchType ''GCThing: '' [] = None" "matchType ''GCPointer: '' [] = None" by code_simp+
  have read: "set (List.map_filter (matchType k) (out @ [[]])) = {c. \<exists>x\<in>allTypes t. matchType k (typeLine x) = Some c}"
    if "matchType k [] = None" for k
    using assms(1) that by (auto simp: set_matches says_def)
  have "(\<exists>x\<in>allTypes t. matchType ''GCThing: '' (typeLine x) = Some c) \<longleftrightarrow> Inl c \<in> allTypes t"
    "(\<exists>x\<in>allTypes t. matchType ''GCPointer: '' (typeLine x) = Some c) \<longleftrightarrow> Inr c \<in> allTypes t" for c
    using matchType_typeLine [OF ok] by (simp_all cong: bex_cong) (metis (no_types, lifting) old.sum.exhaust old.sum.simps(5,6) option.distinct(1) option.inject)+
  then show ?thesis
    unfolding readTypes_def lines Let_def read [OF empty(1)] read [OF empty(2)] by (auto simp: allTypes_def)
qed

section \<open>Properties\<close>

text \<open>\<open>Holder\<close> has a pointer to a string, and \<open>Outer\<close> has a \<open>Holder\<close>; \<open>Guarded\<close> has one too, after a rooter.\<close>

definition sampleNested :: "(string \<times> gtype list) list" where
  "sampleNested = [(''Holder'', [TPointer (TCSU ''JSString'')]), (''Outer'', [TOther ''Int'' None, TCSU ''Holder'']),
     (''Guarded'', [TCSU ''JS::AutoGCRooter'', TCSU ''Holder''])]"

definition sampleTypes :: nested where
  "sampleTypes = \<lparr>t_structures = [(''Holder'', [''Outer''])], t_pointers = [(''JSString'', [''Holder''])]\<rparr>"

lemma sampleNested_loads: "loadNested sampleNested = sampleTypes"
  by code_simp

text \<open>
  C16: The classification of the types ends, and the analysis reads back exactly the classes that are collected
  things or have one inside them, and the classes that hold a pointer to one, directly or in a field, as far as they
  are not rooted themselves.
\<close>

theorem gc_types_exact:
  assumes "nestable (loadNested csus) h"
    and "\<And>c. gcThing (loadNested csus) c \<or> gcPointer (loadNested csus) c \<Longrightarrow> typeName c"
  shows "\<exists>out. computeGCTypes csus [] = (Inr (), out) \<and>
    readTypes (joinLines out) = ({c. gcThing (loadNested csus) c}, {c. gcPointer (loadNested csus) c})"
  using computeGCTypes_says [OF assms(1)] readTypes_says assms(2) unfolding printed_allTypes by blast

lemma gc_types_exact_witness:
  "\<exists>out. computeGCTypes sampleNested [] = (Inr (), out) \<and> isUnrootedType (readTypes (joinLines out)) (TPointer (TCSU ''JSString'')) \<and>
    isUnrootedType (readTypes (joinLines out)) (TCSU ''Outer'') \<and> \<not> isUnrootedType (readTypes (joinLines out)) (TCSU ''Guarded'')"
proof -
  let ?h = "\<lambda>c. if c = ''Holder'' then 1 else (0 :: nat)"
  have holds: "holds sampleTypes c d \<longleftrightarrow> c = ''Holder'' \<and> d = ''Outer''" for c d
    by (auto simp: holds_def listAt_def sampleTypes_def)
  have points: "pointsTo sampleTypes c d \<longleftrightarrow> c = ''JSString'' \<and> d = ''Holder''" for c d
    by (auto simp: pointsTo_def listAt_def sampleTypes_def)
  have h: "nestable (loadNested sampleNested) ?h" by (auto simp: sampleNested_loads nestable_def holds) (simp add: sampleTypes_def)
  have rooted: "list_all (\<lambda>c. \<not> isRootedTypeName c) gcRoots" "\<not> isRootedPointerTypeName ''Holder''" "\<not> isRootedPointerTypeName ''Outer''"
    by code_simp+
  have thing: "gcThing sampleTypes c \<Longrightarrow> c \<in> set gcRoots" for c
    by (induction rule: gcThing.induct) (auto simp: holds gcRoots_def)
  have pointer: "gcPointer sampleTypes c \<Longrightarrow> c \<in> set (gcPointerRoots @ [''Holder'', ''Outer''])" for c
    by (induction rule: gcPointer.induct) (auto simp: holds points)
  have "list_all typeName (gcRoots @ gcPointerRoots @ [''Holder'', ''Outer''])" by code_simp
  then have names: "gcThing (loadNested sampleNested) c \<or> gcPointer (loadNested sampleNested) c \<Longrightarrow> typeName c" for c
    using thing [of c] pointer [of c] unfolding sampleNested_loads list_all_iff by auto
  have string: "gcThing sampleTypes ''JSString''"
    by (rule gcThing.base) (use rooted(1) in \<open>auto simp: gcRoots_def\<close>)
  have "gcPointer sampleTypes ''Holder''" by (rule gcPointer.pointer [OF string]) (use points rooted in auto)
  then have "gcPointer sampleTypes ''Outer''" by (rule gcPointer.inside) (use holds rooted in auto)
  moreover have "\<not> gcPointer sampleTypes ''Guarded''" using pointer [of "''Guarded''"] by (auto simp: gcPointerRoots_def)
  ultimately show ?thesis
    using gc_types_exact [OF h names] string unfolding sampleNested_loads by (auto simp: isUnrootedType_def)
qed

end
