(* ===== verification/Hazard_Roots.thy ===== *)
theory Hazard_Roots
  imports Hazard_Suppress Hazard_Types
begin

text \<open>
  \<open>analyzeRoots.js\<close>: for every local variable that holds an unrooted pointer to a collected thing, whether
  the pointer may be used after a call that can collect garbage. The search goes backwards from a use, over the
  blocks of the function, and carries the first collecting call it meets.

  The state is the table of the points seen, with the call carried there, and the lowest point at which the
  variable is used in each body. The predecessors of a point are computed from the edges where the code
  keeps a table of them.
\<close>

section \<open>Uses\<close>

fun expressionUsesVariable :: "gexp \<Rightarrow> gvar \<Rightarrow> bool question" and anyUsesVariable :: "gexp list \<Rightarrow> gvar \<Rightarrow> bool question" where
  "expressionUsesVariable (EVar w) v = sameVariable w v"
| "expressionUsesVariable (EFld x f) v = expressionUsesVariable x v"
| "expressionUsesVariable (EDrf x) v = expressionUsesVariable x v"
| "expressionUsesVariable (EOther k xs) v = anyUsesVariable xs v"
| "anyUsesVariable [] v = ret False"
| "anyUsesVariable (x # xs) v = bindM (expressionUsesVariable x v) (\<lambda>b. if b then ret True else anyUsesVariable xs v)"

definition orElse :: "bool question \<Rightarrow> bool question \<Rightarrow> bool question" where
  "orElse p q = bindM p (\<lambda>b. if b then ret True else q)"

definition maybeUses :: "gexp option \<Rightarrow> gvar \<Rightarrow> bool question" where
  "maybeUses x v = (case x of None \<Rightarrow> ret False | Some y \<Rightarrow> expressionUsesVariable y v)"

definition secondExp :: "edge \<Rightarrow> gexp option" where
  "secondExp e = (if 1 < length (e_exps e) then Some (e_exps e ! 1) else None)"

definition edgeUsesVariable :: "edge \<Rightarrow> gvar \<Rightarrow> bool question" where
  "edgeUsesVariable e v =
     bindM (ignoreEdgeUse e) (\<lambda>ignored.
     if ignored then ret False
     else if e_kind e = ''Assign'' then
       bindM (expAt e 0) (\<lambda>x. orElse (expressionUsesVariable x v) (bindM (expAt e 1) (\<lambda>y. expressionUsesVariable y v)))
     else if e_kind e = ''Assume'' then bindM (expAt e 0) (\<lambda>x. expressionUsesVariable x v)
     else if e_kind e = ''Call'' then
       bindM (expAt e 0) (\<lambda>x. orElse (expressionUsesVariable x v)
         (orElse (maybeUses (secondExp e) v) (orElse (maybeUses (e_inst e) v) (anyUsesVariable (e_args e) v))))
     else if e_kind e = ''Loop'' then ret False
     else throw (AssertionFailed ''false''))"

fun expressionIsVariableAddress :: "gexp \<Rightarrow> gvar \<Rightarrow> bool question" where
  "expressionIsVariableAddress (EFld x f) v = expressionIsVariableAddress x v"
| "expressionIsVariableAddress (EVar w) v = sameVariable w v"
| "expressionIsVariableAddress _ v = ret False"

fun anyIsVariableAddress :: "gexp list \<Rightarrow> gvar \<Rightarrow> bool question" where
  "anyIsVariableAddress [] v = ret False"
| "anyIsVariableAddress (x # xs) v = orElse (expressionIsVariableAddress x v) (anyIsVariableAddress xs v)"

definition edgeTakesVariableAddress :: "edge \<Rightarrow> gvar \<Rightarrow> bool question" where
  "edgeTakesVariableAddress e v =
     bindM (ignoreEdgeUse e) (\<lambda>ignored.
     if ignored then ret False
     else bindM (ignoreEdgeAddressTaken e) (\<lambda>ignored.
     if ignored then ret False
     else if e_kind e = ''Assign'' then bindM (expAt e 1) (\<lambda>x. expressionIsVariableAddress x v)
     else if e_kind e = ''Call'' then anyIsVariableAddress (e_args e) v
     else ret False))"

section \<open>Kills\<close>

definition isVariable :: "gexp \<Rightarrow> gvar \<Rightarrow> bool question" where
  "isVariable x v = (case x of EVar w \<Rightarrow> sameVariable w v | _ \<Rightarrow> ret False)"

text \<open>The name of a function is one of a constructor: \<open>Name::Name(\<close> or \<open>Name<...>::Name(\<close>.\<close>

definition isConstructorName :: "string \<Rightarrow> bool" where
  "isConstructorName name = (case indexOf ''('' name of
       None \<Rightarrow> False
     | Some openParen \<Rightarrow> (let name1 = take openParen name in
         case lastIndexOf ''::'' name1 of
           None \<Rightarrow> False
         | Some lastColon \<Rightarrow> (let constructorName = drop (lastColon + 2) name1; name2 = take lastColon name1;
             name3 = (case lastIndexOf ''<'' name2 of None \<Rightarrow> name2 | Some i \<Rightarrow> take i name2)
             in endsWith constructorName name3)))"

definition constructs :: "edge \<Rightarrow> gvar \<Rightarrow> bool question" where
  "constructs e v = (case e_inst e of
       None \<Rightarrow> ret False
     | Some inst \<Rightarrow>
         bindM (isVariable (case inst of EDrf x \<Rightarrow> x | _ \<Rightarrow> inst) v) (\<lambda>same.
         if \<not> same then ret False
         else bindM (expAt e 0) (\<lambda>callee. case callee of
                EVar f \<Rightarrow> bindM (calleeName f) (\<lambda>name. ret (isConstructorName name))
              | _ \<Rightarrow> ret False)))"

definition edgeKillsVariable :: "edge \<Rightarrow> gvar \<Rightarrow> bool question" where
  "edgeKillsVariable e v =
     (if e_kind e = ''Assign'' then bindM (expAt e 0) (\<lambda>lhs. isVariable lhs v)
      else if e_kind e \<noteq> ''Call'' then ret False
      else orElse (case secondExp e of None \<Rightarrow> ret False | Some lhs \<Rightarrow> isVariable lhs v) (constructs e v))"

section \<open>Calls that collect\<close>

text \<open>The function that is analysed, and what the files of the earlier passes say.\<close>

record analysis =
  a_function :: string
  a_bodies :: "body list"
  a_points :: points
  a_gcFunctions :: "string set"
  a_suppressed :: "string set"

definition quoted :: "string \<Rightarrow> string" where
  "quoted name = CHR 0x27 # name @ [CHR 0x27]"

definition edgeCanGC :: "analysis \<Rightarrow> edge \<Rightarrow> string option question" where
  "edgeCanGC a e =
     (if a_function a \<in> a_suppressed a then ret None
      else if e_kind e \<noteq> ''Call'' then ret None
      else bindM (expAt e 0) (\<lambda>callee. case callee of
          EVar v \<Rightarrow> bindM (calleeName v) (\<lambda>name.
            if name \<in> a_gcFunctions a then ret (Some (quoted name))
            else let otherName = (case otherDestructorName name of None \<Rightarrow> ''null'' | Some n \<Rightarrow> n) in
              if otherName \<in> a_gcFunctions a then ret (Some (quoted otherName)) else ret None)
        | EDrf (EFld _ field) \<Rightarrow> (let fullFieldName = f_csu field @ ''.'' @ f_name field in
            ret (if fieldCallCannotGC (f_csu field) fullFieldName then None else Some fullFieldName))
        | EDrf x \<Rightarrow> (case x of
            EVar v \<Rightarrow> bindM (nameOf v) (\<lambda>name.
              ret (if indirectCallCannotGC (a_function a) name then None else Some (''*'' @ name)))
          | _ \<Rightarrow> throw (AssertionFailed ''Var''))
        | _ \<Rightarrow> throw (AssertionFailed ''Drf'')))"

section \<open>The backward search\<close>

record gcinfo =
  gi_name :: string
  gi_body :: nat
  gi_point :: nat

text \<open>An entry of the worklist knows the one that led to it.\<close>

datatype entry = Entry (en_body: nat) (en_point: nat) (en_gc: "gcinfo option") (en_why: "entry option")

record liveness =
  l_seen :: "(nat \<times> nat) \<Rightarrow> gcinfo option option"
  l_minimum :: "nat \<Rightarrow> nat"

definition setMinimum :: "nat \<Rightarrow> nat \<Rightarrow> (liveness, unit) jsm" where
  "setMinimum i source s = (Inr (),
     if l_minimum s i = 0 \<or> source < l_minimum s i then s\<lparr>l_minimum := (l_minimum s)(i := source)\<rparr> else s)"

definition predecessors :: "body \<Rightarrow> nat \<Rightarrow> edge list" where
  "predecessors b p = filter (\<lambda>e. e_dst e = p) (b_edges b)"

text \<open>The call carried beyond an edge: that of the entry, or else that of the edge, outside suppressed points.\<close>

definition carried :: "analysis \<Rightarrow> entry \<Rightarrow> edge \<Rightarrow> gcinfo option question" where
  "carried a en e = (case en_gc en of
       Some g \<Rightarrow> ret (Some g)
     | None \<Rightarrow>
         (if (en_body en, e_src e) \<in> a_points a then ret None
          else bindM (edgeCanGC a e) (\<lambda>gcName.
            ret (map_option (\<lambda>n. \<lparr>gi_name = n, gi_body = en_body en, gi_point = e_src e\<rparr>) gcName))))"

text \<open>The loop over the edges into a point; an edge into a loop is the last that is looked at.\<close>

fun followEdges :: "analysis \<Rightarrow> gvar \<Rightarrow> entry \<Rightarrow> edge list \<Rightarrow> entry list \<Rightarrow> (liveness, entry list + (gcinfo \<times> entry)) jsm" where
  "followEdges a v en [] new = ret (Inl new)"
| "followEdges a v en (e # es) new =
     bindM (ask (edgeKillsVariable e v)) (\<lambda>kills.
     if kills then (case en_gc en of
         Some g \<Rightarrow> ret (Inr (g, en))
       | None \<Rightarrow> bindM (setMinimum (en_body en) (e_src e)) (\<lambda>_. followEdges a v en es new))
     else
       bindM (ask (carried a en e)) (\<lambda>gcInfo.
       bindM (ask (edgeUsesVariable e v)) (\<lambda>uses.
       if uses \<and> gcInfo \<noteq> None then ret (Inr (the gcInfo, en))
       else
         bindM (if uses then setMinimum (en_body en) (e_src e) else ret ()) (\<lambda>_.
         if e_kind e = ''Loop'' then
           bindM (ask (blockOf e)) (\<lambda>k.
           bindM (ask (findBody (a_bodies a) k)) (\<lambda>j.
           ret (Inl (new @ [Entry j (b_exit (a_bodies a ! j)) gcInfo (Some en)]))))
         else followEdges a v en es (new @ [Entry (en_body en) (e_src e) gcInfo (Some en)])))))"

text \<open>The parents that enter a loop.\<close>

definition enterParents :: "analysis \<Rightarrow> entry \<Rightarrow> (liveness, entry list) jsm" where
  "enterParents a en = mapM (\<lambda>(k, p). bindM (ask (findBody (a_bodies a) k)) (\<lambda>j. ret (Entry j p (en_gc en) (Some en))))
     (b_parents (a_bodies a ! en_body en))"

definition alreadySeen :: "liveness \<Rightarrow> entry \<Rightarrow> bool" where
  "alreadySeen s en = (case l_seen s (en_body en, en_point en) of None \<Rightarrow> False | Some g \<Rightarrow> en_gc en = None \<or> g \<noteq> None)"

definition visitUse :: "analysis \<Rightarrow> gvar \<Rightarrow> entry \<Rightarrow> (liveness, entry list + (gcinfo \<times> entry)) jsm" where
  "visitUse a v en s =
     (let i = en_body en; p = en_point en; b = a_bodies a ! i in
      if alreadySeen s en then (Inr (Inl []), s)
      else bindM
        (if p = b_entry b then
           (if k_kind (b_block b) = ''Loop'' then bindM (enterParents a en) (\<lambda>new. ret (Inl new))
            else if v_kind v = ''Arg'' \<and> en_gc en \<noteq> None then ret (Inr (the (en_gc en), en))
            else ret (Inl []))
         else ret (Inl []))
        (\<lambda>r. case r of
            Inr x \<Rightarrow> ret (Inr x)
          | Inl new \<Rightarrow> followEdges a v en (predecessors b p) new)
        (s\<lparr>l_seen := (l_seen s)((i, p) := Some (en_gc en))\<rparr>))"

definition variableUseFollowsGC :: "analysis \<Rightarrow> gvar \<Rightarrow> entry list \<Rightarrow> (liveness, (gcinfo \<times> entry) option) jsm" where
  "variableUseFollowsGC a v worklist = loopM (visitUse a v) worklist"

definition usesFrom :: "gvar \<Rightarrow> edge \<Rightarrow> bool question" where
  "usesFrom v e = bindM (edgeUsesVariable e v) (\<lambda>uses.
     if uses then bindM (edgeKillsVariable e v) (\<lambda>kills. ret (\<not> kills)) else ret False)"

definition followFrom :: "analysis \<Rightarrow> gvar \<Rightarrow> nat \<times> edge \<Rightarrow> (liveness, (gcinfo \<times> entry) option) jsm" where
  "followFrom a v = (\<lambda>(i, e). bindM (ask (usesFrom v e)) (\<lambda>b.
     if b then variableUseFollowsGC a v [Entry i (e_src e) None None] else ret None))"

definition allEdges :: "body list \<Rightarrow> (nat \<times> edge) list" where
  "allEdges bodies = concat (map (\<lambda>i. map (\<lambda>e. (i, e)) (b_edges (bodies ! i))) [0..<length bodies])"

definition variableLiveAcrossGC :: "analysis \<Rightarrow> gvar \<Rightarrow> (liveness, (gcinfo \<times> entry) option) jsm" where
  "variableLiveAcrossGC a v s =
     firstM (followFrom a v) (allEdges (a_bodies a)) (s\<lparr>l_seen := (\<lambda>_. None), l_minimum := (\<lambda>_. 0)\<rparr>)"

definition unsafeVariableAddressTaken :: "analysis \<Rightarrow> gvar \<Rightarrow> (nat \<times> nat) option question" where
  "unsafeVariableAddressTaken a v =
     firstM (\<lambda>(i, e). bindM (edgeTakesVariableAddress e v) (\<lambda>takes.
        if \<not> takes then ret None
        else if e_kind e = ''Assign'' then ret (Some (i, e_src e))
        else bindM (edgeCanGC a e) (\<lambda>gcName. ret (if gcName = None then None else Some (i, e_src e)))))
       (allEdges (a_bodies a))"
section \<open>What a hazard is\<close>

definition uses :: "gvar \<Rightarrow> edge \<Rightarrow> bool" where
  "uses v e \<longleftrightarrow> answers (edgeUsesVariable e v) True"

definition kills :: "gvar \<Rightarrow> edge \<Rightarrow> bool" where
  "kills v e \<longleftrightarrow> answers (edgeKillsVariable e v) True"

text \<open>An edge whose call may collect, at a point that is not suppressed.\<close>

definition collectsAt :: "analysis \<Rightarrow> nat \<Rightarrow> edge \<Rightarrow> bool" where
  "collectsAt a i e \<longleftrightarrow> (i, e_src e) \<notin> a_points a \<and> (\<exists>n. answers (edgeCanGC a e) (Some n))"

text \<open>The edges into a point that are looked at: none after an edge into a loop.\<close>

fun upToLoop :: "gvar \<Rightarrow> edge list \<Rightarrow> edge list" where
  "upToLoop v [] = []"
| "upToLoop v (e # es) = (if \<not> kills v e \<and> e_kind e = ''Loop'' then [e] else e # upToLoop v es)"

definition into :: "analysis \<Rightarrow> gvar \<Rightarrow> nat \<Rightarrow> nat \<Rightarrow> edge set" where
  "into a v i p = set (upToLoop v (predecessors (a_bodies a ! i) p))"

text \<open>
  The points before a use of the variable from which it is not assigned on the way to the use, and whether a
  collecting call is on the way.
\<close>

inductive flows :: "analysis \<Rightarrow> gvar \<Rightarrow> nat \<Rightarrow> nat \<Rightarrow> bool \<Rightarrow> bool" for a v where
  start: "(i, e) \<in> set (allEdges (a_bodies a)) \<Longrightarrow> uses v e \<Longrightarrow> \<not> kills v e \<Longrightarrow> flows a v i (e_src e) False"
| straight: "flows a v i p g \<Longrightarrow> e \<in> into a v i p \<Longrightarrow> \<not> kills v e \<Longrightarrow> e_kind e \<noteq> ''Loop'' \<Longrightarrow>
    flows a v i (e_src e) (g \<or> collectsAt a i e)"
| loop: "flows a v i p g \<Longrightarrow> e \<in> into a v i p \<Longrightarrow> \<not> kills v e \<Longrightarrow> e_kind e = ''Loop'' \<Longrightarrow> e_block e = Some k \<Longrightarrow>
    answers (findBody (a_bodies a) k) j \<Longrightarrow> flows a v j (b_exit (a_bodies a ! j)) (g \<or> collectsAt a i e)"
| outer: "flows a v i p g \<Longrightarrow> p = b_entry (a_bodies a ! i) \<Longrightarrow> k_kind (b_block (a_bodies a ! i)) = ''Loop'' \<Longrightarrow>
    (k, q) \<in> set (b_parents (a_bodies a ! i)) \<Longrightarrow> answers (findBody (a_bodies a) k) j \<Longrightarrow> flows a v j q g"

text \<open>Where the variable has its value before the collecting call: it is assigned, used or an argument there.\<close>

definition valueAt :: "analysis \<Rightarrow> gvar \<Rightarrow> nat \<Rightarrow> nat \<Rightarrow> bool \<Rightarrow> bool" where
  "valueAt a v i p g \<longleftrightarrow>
     p = b_entry (a_bodies a ! i) \<and> k_kind (b_block (a_bodies a ! i)) \<noteq> ''Loop'' \<and> v_kind v = ''Arg'' \<and> g \<or>
     (\<exists>e\<in>into a v i p. if kills v e then g else uses v e \<and> (g \<or> collectsAt a i e))"

definition hazard :: "analysis \<Rightarrow> gvar \<Rightarrow> bool" where
  "hazard a v \<longleftrightarrow> (\<exists>i p g. flows a v i p g \<and> valueAt a v i p g)"

text \<open>The bodies for which every question of the search has an answer.\<close>

definition readable :: "analysis \<Rightarrow> gvar \<Rightarrow> bool" where
  "readable a v \<longleftrightarrow>
     (\<forall>(i, e)\<in>set (allEdges (a_bodies a)).
        (\<exists>b. answers (edgeKillsVariable e v) b) \<and> (\<exists>b. answers (edgeUsesVariable e v) b) \<and> (\<exists>r. answers (edgeCanGC a e) r) \<and>
        (e_kind e = ''Loop'' \<longrightarrow> (\<exists>k j. e_block e = Some k \<and> answers (findBody (a_bodies a) k) j \<and> j < length (a_bodies a)))) \<and>
     (\<forall>i<length (a_bodies a). \<forall>(k, q)\<in>set (b_parents (a_bodies a ! i)).
        \<exists>j<length (a_bodies a). answers (findBody (a_bodies a) k) j)"

lemma readable_edge:
  assumes "readable a v" "i < length (a_bodies a)" "e \<in> set (b_edges (a_bodies a ! i))"
  shows "answers (edgeKillsVariable e v) (kills v e)" "answers (edgeUsesVariable e v) (uses v e)" "\<exists>r. answers (edgeCanGC a e) r"
    "e_kind e = ''Loop'' \<Longrightarrow> \<exists>k j. e_block e = Some k \<and> answers (findBody (a_bodies a) k) j \<and> j < length (a_bodies a)"
proof -
  have e: "(i, e) \<in> set (allEdges (a_bodies a))" using assms(2,3) by (auto simp: allEdges_def)
  then obtain b c where q: "answers (edgeKillsVariable e v) b" "answers (edgeUsesVariable e v) c" "\<exists>r. answers (edgeCanGC a e) r"
    "e_kind e = ''Loop'' \<longrightarrow> (\<exists>k j. e_block e = Some k \<and> answers (findBody (a_bodies a) k) j \<and> j < length (a_bodies a))"
    using assms(1) unfolding readable_def by blast
  have "answers m (answers m True)" if "answers m b" for m :: "bool question" and b
    using that answers_unique by (cases b) (force simp: answers_def)+
  then show "answers (edgeKillsVariable e v) (kills v e)" "answers (edgeUsesVariable e v) (uses v e)"
    using q(1,2) unfolding kills_def uses_def by blast+
  show "\<exists>r. answers (edgeCanGC a e) r" "e_kind e = ''Loop'' \<Longrightarrow> \<exists>k j. e_block e = Some k \<and> answers (findBody (a_bodies a) k) j \<and> j < length (a_bodies a)"
    using q(3,4) by blast+
qed

section \<open>Bodies that the search can read\<close>

text \<open>
  What the search needs of the bodies, as a condition on their shape: variables have names, an edge has the
  expressions of its kind, a callee is a function, a field of a dereferenced object or a dereferenced variable, and
  a loop edge and a parent name exactly one body. The assertions of the code rule out the rest, with them a call
  through a pointer that is computed.
\<close>

fun namedExp :: "gexp \<Rightarrow> bool" where
  "namedExp (EVar w) \<longleftrightarrow> named w"
| "namedExp (EFld x f) \<longleftrightarrow> namedExp x"
| "namedExp (EDrf x) \<longleftrightarrow> namedExp x"
| "namedExp (EOther k xs) \<longleftrightarrow> (\<forall>x\<in>set xs. namedExp x)"

definition plainCallee :: "gexp \<Rightarrow> bool" where
  "plainCallee x = (case x of
       EVar f \<Rightarrow> v_kind f = ''Func'' \<and> v_name f \<noteq> None
     | EDrf y \<Rightarrow> (case y of EFld _ _ \<Rightarrow> True | EVar w \<Rightarrow> v_name w \<noteq> None | _ \<Rightarrow> False)
     | _ \<Rightarrow> False)"

definition edgeFormed :: "edge \<Rightarrow> bool" where
  "edgeFormed e \<longleftrightarrow>
     (\<forall>x\<in>set (e_exps e) \<union> set_option (e_inst e) \<union> set (e_args e). namedExp x) \<and>
     (e_kind e = ''Assign'' \<and> 2 \<le> length (e_exps e) \<or>
      e_kind e = ''Assume'' \<and> e_exps e \<noteq> [] \<or>
      e_kind e = ''Call'' \<and> e_exps e \<noteq> [] \<and> plainCallee (e_exps e ! 0) \<or>
      e_kind e = ''Loop'')"

definition sameName :: "gvar \<Rightarrow> gvar \<Rightarrow> bool" where
  "sameName v w \<longleftrightarrow> (case v_name v of Some n \<Rightarrow> v_name w = Some n | None \<Rightarrow> v_kind v = v_kind w)"

definition sameId :: "blockid \<Rightarrow> blockid \<Rightarrow> bool" where
  "sameId k l \<longleftrightarrow> k_kind k = k_kind l \<and> sameName (k_var k) (k_var l) \<and> (k_kind k = ''Loop'' \<longrightarrow> k_loop k = k_loop l)"

definition bodiesOf :: "body list \<Rightarrow> blockid \<Rightarrow> nat list" where
  "bodiesOf bodies k = filter (\<lambda>i. sameId (b_block (bodies ! i)) k) [0..<length bodies]"

definition oneBody :: "body list \<Rightarrow> blockid \<Rightarrow> bool" where
  "oneBody bodies k \<longleftrightarrow> named (k_var k) \<and> length (bodiesOf bodies k) = 1"

definition wellFormed :: "body list \<Rightarrow> bool" where
  "wellFormed bodies \<longleftrightarrow> (\<forall>b\<in>set bodies. named (k_var (b_block b)) \<and>
     (\<forall>e\<in>set (b_edges b). edgeFormed e \<and>
        (e_kind e = ''Loop'' \<longrightarrow> (case e_block e of None \<Rightarrow> False | Some k \<Rightarrow> oneBody bodies k))) \<and>
     (\<forall>(k, q)\<in>set (b_parents b). oneBody bodies k))"

lemma sameVariable_run: "named v \<Longrightarrow> named w \<Longrightarrow> sameVariable v w s = (Inr (sameName v w), s)"
  by (simp add: sameVariable_def assert_def guardM_def bindM_def ret_def sameName_def split: option.splits)

lemma uses_runs:
  "namedExp x \<Longrightarrow> named v \<Longrightarrow> \<exists>b. expressionUsesVariable x v () = (Inr b, ())"
  "(\<forall>x\<in>set xs. namedExp x) \<Longrightarrow> named v \<Longrightarrow> \<exists>b. anyUsesVariable xs v () = (Inr b, ())"
proof (induction x v and xs v rule: expressionUsesVariable_anyUsesVariable.induct)
qed (auto simp: sameVariable_run bindM_def ret_def)

definition settled :: "'a question \<Rightarrow> bool" where
  "settled q \<longleftrightarrow> (\<exists>x. q () = (Inr x, ()))"

lemma settled_answers: "settled q \<longleftrightarrow> (\<exists>x. answers q x)"
  by (auto simp: settled_def answers_def prod_eq_iff)

lemma settled_ret [simp]: "settled (ret x)"
  by (simp add: settled_def ret_def)

lemma settled_bind: "settled q \<Longrightarrow> (\<And>x. settled (f x)) \<Longrightarrow> settled (bindM q f)"
  by (fastforce simp: settled_def bindM_def)

lemma settled_bind_ret: "settled (bindM (ret x) f) = settled (f x)"
  by (simp add: settled_def bindM_def ret_def)

lemma settled_orElse: "settled p \<Longrightarrow> settled q \<Longrightarrow> settled (orElse p q)"
  by (auto simp: orElse_def intro!: settled_bind)

lemma settled_uses:
  assumes "named v"
  shows "namedExp x \<Longrightarrow> settled (expressionUsesVariable x v)" "(\<forall>x\<in>set xs. namedExp x) \<Longrightarrow> settled (anyUsesVariable xs v)"
    "namedExp x \<Longrightarrow> settled (isVariable x v)"
  using assms uses_runs by (auto simp: settled_def isVariable_def sameVariable_run ret_def split: gexp.splits)

lemma expAt_ret: "i < length (e_exps e) \<Longrightarrow> expAt e i = ret (e_exps e ! i)"
  by (simp add: expAt_def)

lemma settled_name: "v_name f \<noteq> None \<Longrightarrow> settled (nameOf f)" "v_kind f = ''Func'' \<Longrightarrow> v_name f \<noteq> None \<Longrightarrow> settled (calleeName f)"
  by (auto simp: nameOf_def calleeName_def assert_def guardM_def settled_def bindM_def ret_def)

lemma edge_settled:
  assumes "edgeFormed e" "named v"
  shows "settled (edgeUsesVariable e v)" "settled (edgeKillsVariable e v)" "settled (edgeCanGC a e)"
proof -
  have named: "x \<in> set (e_exps e) \<Longrightarrow> namedExp x" "e_inst e = Some x \<Longrightarrow> namedExp x" "\<forall>x\<in>set (e_args e). namedExp x" for x
    using assms(1) by (auto simp: edgeFormed_def)
  have at: "i < length (e_exps e) \<Longrightarrow> namedExp (e_exps e ! i)" for i using named(1) by simp
  have callee: "e_kind e = ''Call'' \<Longrightarrow> e_exps e \<noteq> [] \<and> plainCallee (e_exps e ! 0)" and
    assign: "e_kind e = ''Assign'' \<Longrightarrow> 2 \<le> length (e_exps e)" and cond: "e_kind e = ''Assume'' \<Longrightarrow> e_exps e \<noteq> []" and
    kinds: "e_kind e \<in> {''Assign'', ''Assume'', ''Call'', ''Loop''}"
    using assms(1) by (auto simp: edgeFormed_def)
  have first: "expAt e 0 = (ret (e_exps e ! 0) :: gexp question)" "namedExp (e_exps e ! 0)" if "e_kind e \<noteq> ''Loop''"
  proof -
    have "e_exps e \<noteq> []" using that kinds callee assign cond by auto
    then show "expAt e 0 = (ret (e_exps e ! 0) :: gexp question)" "namedExp (e_exps e ! 0)" using at by (auto simp: expAt_ret)
  qed
  have second_of: "expAt e (Suc 0) = (ret (e_exps e ! 1) :: gexp question)" "namedExp (e_exps e ! 1)" if "e_kind e = ''Assign''"
    using assign [OF that] at by (auto simp: expAt_ret)
  have direct: "settled (directCallee e)"
    using callee by (auto simp: directCallee_def expAt_ret settled_bind_ret plainCallee_def intro!: settled_bind settled_name split: gexp.splits)
  have second: "settled (case secondExp e of None \<Rightarrow> ret False | Some x \<Rightarrow> isVariable x v)" "settled (maybeUses (secondExp e) v)"
    using at settled_uses [OF assms(2)] by (auto simp: secondExp_def maybeUses_def)
  have inst: "settled (maybeUses (e_inst e) v)"
    using named(2) settled_uses [OF assms(2)] by (auto simp: maybeUses_def split: option.splits)
  have ignore: "settled (ignoreEdgeUse e)" unfolding ignoreEdgeUse_def by (intro settled_bind direct settled_ret)
  show "settled (edgeUsesVariable e v)"
    unfolding edgeUsesVariable_def
  proof (rule settled_bind [OF ignore])
    fix ignored
    show "settled (if ignored then ret False
     else if e_kind e = ''Assign'' then
       bindM (expAt e 0) (\<lambda>x. orElse (expressionUsesVariable x v) (bindM (expAt e 1) (\<lambda>y. expressionUsesVariable y v)))
     else if e_kind e = ''Assume'' then bindM (expAt e 0) (\<lambda>x. expressionUsesVariable x v)
     else if e_kind e = ''Call'' then
       bindM (expAt e 0) (\<lambda>x. orElse (expressionUsesVariable x v)
         (orElse (maybeUses (secondExp e) v) (orElse (maybeUses (e_inst e) v) (anyUsesVariable (e_args e) v))))
     else if e_kind e = ''Loop'' then ret False
     else throw (AssertionFailed ''false''))"
      using kinds first second_of by (auto simp: settled_bind_ret intro!: settled_orElse settled_uses [OF assms(2)] named(3) second inst)
  qed
  have constructed: "settled (constructs e v)" if "e_kind e = ''Call''"
  proof (cases "e_inst e")
    case (Some inst)
    have "namedExp (case inst of EDrf x \<Rightarrow> x | _ \<Rightarrow> inst)" using named(2) [OF Some] by (cases inst) auto
    then have same: "settled (isVariable (case inst of EDrf x \<Rightarrow> x | _ \<Rightarrow> inst) v)" by (rule settled_uses(3) [OF assms(2)])
    have "settled (bindM (expAt e 0) (\<lambda>callee. case callee of
                EVar f \<Rightarrow> bindM (calleeName f) (\<lambda>name. ret (isConstructorName name))
              | _ \<Rightarrow> ret False))"
      using callee [OF that] by (auto simp: expAt_ret settled_bind_ret plainCallee_def intro!: settled_bind settled_name split: gexp.splits)
    then show ?thesis using Some same by (auto simp: constructs_def intro!: settled_bind)
  qed (simp add: constructs_def)
  show "settled (edgeKillsVariable e v)"
    unfolding edgeKillsVariable_def using first constructed second(1)
    by (auto simp: settled_bind_ret intro!: settled_orElse settled_uses [OF assms(2)])
  show "settled (edgeCanGC a e)"
  proof (cases "e_kind e = ''Call''")
    case True
    then show ?thesis unfolding edgeCanGC_def using callee [OF True]
      by (auto simp: expAt_ret settled_bind_ret plainCallee_def Let_def intro!: settled_bind settled_name split: gexp.splits)
  qed (simp add: edgeCanGC_def)
qed

lemma findBody_one:
  assumes "oneBody bodies k" "\<And>b. b \<in> set bodies \<Longrightarrow> named (k_var (b_block b))"
  shows "\<exists>j<length bodies. answers (findBody bodies k) j"
proof -
  let ?step = "\<lambda>i found. bindM (sameBlockId (b_block (bodies ! i)) k) (\<lambda>same.
      if \<not> same then ret found else bindM (assert (found = None) ''body'') (\<lambda>_. ret (Some i)))"
  have same: "sameBlockId (b_block (bodies ! i)) k s = (Inr (sameId (b_block (bodies ! i)) k), s)" if "i < length bodies" for i s
    using assms that by (auto simp: sameBlockId_def sameId_def sameVariable_run oneBody_def bindM_def ret_def)
  have none: "forLoop is x ?step s = (Inr x, s)" if "set is \<subseteq> {..<length bodies}" "filter (\<lambda>i. sameId (b_block (bodies ! i)) k) is = []" for "is" x s
    using that by (induction "is") (auto simp: same bindM_def ret_def split: if_splits)
  have one: "forLoop is None ?step s = (Inr (Some j), s)"
    if "set is \<subseteq> {..<length bodies}" "filter (\<lambda>i. sameId (b_block (bodies ! i)) k) is = [j]" for "is" s j
    using that by (induction "is") (auto simp: same none bindM_def ret_def assert_def guardM_def split: if_splits)
  obtain j where j: "bodiesOf bodies k = [j]" using assms(1) by (auto simp: oneBody_def length_Suc_conv)
  then have "j \<in> set (bodiesOf bodies k)" by simp
  then have "j < length bodies" by (simp add: bodiesOf_def)
  moreover have "answers (findBody bodies k) j"
    using one [of "[0..<length bodies]" j "()"] j by (simp add: findBody_def answers_def bindM_def ret_def bodiesOf_def lessThan_atLeast0 split: prod.splits)
  ultimately show ?thesis by blast
qed

lemma wellFormed_readable:
  assumes "wellFormed (a_bodies a)" "named v"
  shows "readable a v"
proof -
  have b: "named (k_var (b_block b))" "e \<in> set (b_edges b) \<Longrightarrow> edgeFormed e"
    "e \<in> set (b_edges b) \<Longrightarrow> e_kind e = ''Loop'' \<Longrightarrow> \<exists>k. e_block e = Some k \<and> oneBody (a_bodies a) k"
    "(k, q) \<in> set (b_parents b) \<Longrightarrow> oneBody (a_bodies a) k" if "b \<in> set (a_bodies a)" for b e k q
    using assms(1) that by (auto simp: wellFormed_def split: option.splits) fastforce+
  have body: "\<exists>j<length (a_bodies a). answers (findBody (a_bodies a) k) j" if "oneBody (a_bodies a) k" for k
    using findBody_one [OF that] b(1) by blast
  have edge: "(\<exists>b. answers (edgeKillsVariable e v) b) \<and> (\<exists>b. answers (edgeUsesVariable e v) b) \<and> (\<exists>r. answers (edgeCanGC a e) r) \<and>
      (e_kind e = ''Loop'' \<longrightarrow> (\<exists>k j. e_block e = Some k \<and> answers (findBody (a_bodies a) k) j \<and> j < length (a_bodies a)))"
    if "i < length (a_bodies a)" "e \<in> set (b_edges (a_bodies a ! i))" for i e
  proof -
    have m: "a_bodies a ! i \<in> set (a_bodies a)" using that(1) by simp
    note s = edge_settled [OF b(2) [OF m that(2)] assms(2)]
    have "e_kind e = ''Loop'' \<longrightarrow> (\<exists>k j. e_block e = Some k \<and> answers (findBody (a_bodies a) k) j \<and> j < length (a_bodies a))"
      using b(3) [OF m that(2)] body by blast
    then show ?thesis using s unfolding settled_answers by blast
  qed
  have "\<exists>j<length (a_bodies a). answers (findBody (a_bodies a) k) j"
    if "i < length (a_bodies a)" "(k, q) \<in> set (b_parents (a_bodies a ! i))" for i k q
    using body [OF b(4) [OF nth_mem [OF that(1)] that(2)]] .
  then show ?thesis using edge unfolding readable_def by (auto simp: allEdges_def)
qed

section \<open>The entries\<close>

definition carries :: "entry \<Rightarrow> bool" where
  "carries en \<longleftrightarrow> en_gc en \<noteq> None"

definition hit :: "analysis \<Rightarrow> gvar \<Rightarrow> entry \<Rightarrow> bool" where
  "hit a v en \<longleftrightarrow> valueAt a v (en_body en) (en_point en) (carries en)"

text \<open>The entry that an edge pushes.\<close>

definition edgePush :: "analysis \<Rightarrow> entry \<Rightarrow> edge \<Rightarrow> entry set" where
  "edgePush a en e = {en'. \<exists>g. answers (carried a en e) g \<and>
     (if e_kind e = ''Loop''
      then \<exists>k j. e_block e = Some k \<and> answers (findBody (a_bodies a) k) j \<and> en' = Entry j (b_exit (a_bodies a ! j)) g (Some en)
      else en' = Entry (en_body en) (e_src e) g (Some en))}"

definition parentPush :: "analysis \<Rightarrow> entry \<Rightarrow> entry set" where
  "parentPush a en = (if en_point en = b_entry (a_bodies a ! en_body en) \<and> k_kind (b_block (a_bodies a ! en_body en)) = ''Loop''
     then {Entry j q (en_gc en) (Some en) |k q j. (k, q) \<in> set (b_parents (a_bodies a ! en_body en)) \<and> answers (findBody (a_bodies a) k) j}
     else {})"

definition pushes :: "analysis \<Rightarrow> gvar \<Rightarrow> entry \<Rightarrow> entry set" where
  "pushes a v en = parentPush a en \<union> (\<Union>e\<in>{e \<in> into a v (en_body en) (en_point en). \<not> kills v e}. edgePush a en e)"

lemma carried_run:
  assumes "readable a v" "en_body en < length (a_bodies a)" "e \<in> set (b_edges (a_bodies a ! en_body en))"
  shows "\<exists>g. answers (carried a en e) g \<and> (g \<noteq> None \<longleftrightarrow> carries en \<or> collectsAt a (en_body en) e)"
proof -
  obtain r where r: "answers (edgeCanGC a e) r" using readable_edge(3) [OF assms] by blast
  have some: "r \<noteq> None \<longleftrightarrow> (\<exists>n. answers (edgeCanGC a e) (Some n))"
    using r by (metis answers_unique not_None_eq)
  show ?thesis
  proof (cases "en_gc en")
    case (Some g)
    then have "carried a en e = ret (Some g)" by (simp add: carried_def)
    then show ?thesis using Some by (simp add: answers_def ret_def carries_def)
  next
    case None
    show ?thesis
    proof (cases "(en_body en, e_src e) \<in> a_points a")
      case True
      then have "carried a en e = ret None" using None by (simp add: carried_def)
      then show ?thesis using None True by (simp add: answers_def ret_def carries_def collectsAt_def)
    next
      case False
      let ?g = "map_option (\<lambda>n. \<lparr>gi_name = n, gi_body = en_body en, gi_point = e_src e\<rparr>) r"
      have "answers (carried a en e) ?g"
        using r None False by (cases "edgeCanGC a e ()") (simp add: answers_def carried_def bindM_def ret_def)
      then show ?thesis using some None False by (intro exI [of _ ?g]) (simp add: carries_def collectsAt_def)
    qed
  qed
qed

text \<open>An edge at which the value is found, and what a list of edges comes to.\<close>

definition hitBy :: "analysis \<Rightarrow> gvar \<Rightarrow> entry \<Rightarrow> edge \<Rightarrow> bool" where
  "hitBy a v en e \<longleftrightarrow> (if kills v e then carries en else uses v e \<and> (carries en \<or> collectsAt a (en_body en) e))"

text \<open>The call of a report: that of the entry, or that of an edge into its point.\<close>

definition reports :: "analysis \<Rightarrow> entry \<Rightarrow> gcinfo \<Rightarrow> bool" where
  "reports a en g \<longleftrightarrow> en_gc en = Some g \<or>
     (\<exists>e\<in>set (b_edges (a_bodies a ! en_body en)). answers (carried a en e) (Some g))"

definition outcome :: "analysis \<Rightarrow> gvar \<Rightarrow> entry \<Rightarrow> edge list \<Rightarrow> entry list \<Rightarrow> entry list + (gcinfo \<times> entry) \<Rightarrow> bool" where
  "outcome a v en es new r \<longleftrightarrow>
     (if \<exists>e\<in>set (upToLoop v es). hitBy a v en e then \<exists>g. r = Inr (g, en) \<and> reports a en g
      else \<exists>ns. r = Inl (new @ ns) \<and> set ns = (\<Union>e\<in>{e \<in> set (upToLoop v es). \<not> kills v e}. edgePush a en e))"

lemma upToLoop_subset: "set (upToLoop v es) \<subseteq> set es"
  by (induction es) auto

lemma outcome_hit:
  "hitBy a v en e \<Longrightarrow> reports a en g \<Longrightarrow> outcome a v en (e # es) new (Inr (g, en))"
  by (simp add: outcome_def)

lemma outcome_next:
  assumes "\<not> hitBy a v en e" "kills v e \<or> e_kind e \<noteq> ''Loop''" "set m = (if kills v e then {} else edgePush a en e)"
    and "outcome a v en es (new @ m) r"
  shows "outcome a v en (e # es) new r"
proof (cases "\<exists>e\<in>set (upToLoop v es). hitBy a v en e")
  case True
  then show ?thesis using assms by (auto simp: outcome_def)
next
  case False
  then obtain ns where ns: "r = Inl (new @ m @ ns)" "set ns = (\<Union>e\<in>{e \<in> set (upToLoop v es). \<not> kills v e}. edgePush a en e)"
    using assms(4) by (auto simp: outcome_def)
  have up: "set (upToLoop v (e # es)) = insert e (set (upToLoop v es))" using assms(2) by auto
  have "set (m @ ns) = (\<Union>x\<in>{x \<in> set (upToLoop v (e # es)). \<not> kills v x}. edgePush a en x)"
    unfolding up set_append ns(2) assms(3) by auto
  moreover have "\<not> (\<exists>x\<in>set (upToLoop v (e # es)). hitBy a v en x)" using False assms(1) unfolding up by blast
  ultimately show ?thesis using ns(1) unfolding outcome_def by (metis append.assoc)
qed

lemma followEdges_run:
  assumes "readable a v" "en_body en < length (a_bodies a)" "set es \<subseteq> set (b_edges (a_bodies a ! en_body en))"
  shows "\<exists>r t. followEdges a v en es new s = (Inr r, t) \<and> l_seen t = l_seen s \<and> outcome a v en es new r"
  using assms(3)
proof (induction es arbitrary: new s)
  case Nil
  then show ?case by (simp add: ret_def outcome_def)
next
  case (Cons e es)
  have e: "e \<in> set (b_edges (a_bodies a ! en_body en))" "set es \<subseteq> set (b_edges (a_bodies a ! en_body en))" using Cons.prems by auto
  note q = readable_edge [OF assms(1,2) e(1)]
  obtain g where g: "answers (carried a en e) g" "g \<noteq> None \<longleftrightarrow> carries en \<or> collectsAt a (en_body en) e"
    using carried_run [OF assms(1,2) e(1)] by blast
  have only_g: "answers (carried a en e) g' \<longleftrightarrow> g' = g" for g' by (metis answers_unique g(1))
  have push: "edgePush a en e = (if e_kind e = ''Loop''
      then {Entry j (b_exit (a_bodies a ! j)) g (Some en) |k j. e_block e = Some k \<and> answers (findBody (a_bodies a) k) j}
      else {Entry (en_body en) (e_src e) g (Some en)})"
    by (simp add: edgePush_def only_g) auto
  have minimum: "\<exists>t. setMinimum i p s = (Inr (), t) \<and> l_seen t = l_seen s" for i p s
    by (simp add: setMinimum_def)
  note IH = Cons.IH [OF e(2)]
  show ?case
  proof (cases "kills v e")
    case True
    show ?thesis
    proof (cases "en_gc en")
      case None
      obtain s' where s': "setMinimum (en_body en) (e_src e) s = (Inr (), s')" "l_seen s' = l_seen s" using minimum by blast
      obtain r t where r: "followEdges a v en es new s' = (Inr r, t)" "l_seen t = l_seen s'" "outcome a v en es new r"
        using IH by blast
      have "followEdges a v en (e # es) new s = (Inr r, t)"
        using True None s'(1) r(1) by (simp add: ask_answers [OF q(1)] bindM_def)
      moreover have "outcome a v en (e # es) new r"
        by (rule outcome_next [where m = "[]"]) (use True None r(3) in \<open>simp_all add: hitBy_def carries_def\<close>)
      ultimately show ?thesis using r(2) s'(2) by auto
    next
      case (Some g')
      then have "hitBy a v en e" using True by (simp add: hitBy_def carries_def)
      moreover have "followEdges a v en (e # es) new s = (Inr (Inr (g', en)), s)"
        using Some True by (simp add: ask_answers [OF q(1)] ret_def)
      moreover have "reports a en g'" using Some by (simp add: reports_def)
      ultimately show ?thesis using outcome_hit by blast
    qed
  next
    case False
    note start = ask_answers [OF q(1)] ask_answers [OF q(2)] ask_answers [OF g(1)]
    show ?thesis
    proof (cases "uses v e \<and> g \<noteq> None")
      case True
      then have "hitBy a v en e" using False g(2) by (simp add: hitBy_def)
      moreover have "followEdges a v en (e # es) new s = (Inr (Inr (the g, en)), s)"
        using True False by (simp add: start ret_def)
      moreover have "reports a en (the g)" using True g(1) e(1) unfolding reports_def by force
      ultimately show ?thesis using outcome_hit by blast
    next
      case unused: False
      then have miss: "\<not> hitBy a v en e" using False g(2) by (auto simp: hitBy_def)
      obtain s' where s': "(if uses v e then setMinimum (en_body en) (e_src e) else ret ()) s = (Inr (), s')" "l_seen s' = l_seen s"
        using minimum [of "en_body en" "e_src e" s] by (cases "uses v e") (auto simp: ret_def)
      have follow: "followEdges a v en (e # es) new s = (if e_kind e = ''Loop'' then
           bindM (ask (blockOf e)) (\<lambda>k. bindM (ask (findBody (a_bodies a) k)) (\<lambda>j. ret (Inl (new @ [Entry j (b_exit (a_bodies a ! j)) g (Some en)]))))
         else followEdges a v en es (new @ [Entry (en_body en) (e_src e) g (Some en)])) s'"
      proof (cases "uses v e")
        case True
        then have m: "setMinimum (en_body en) (e_src e) s = (Inr (), s')" "g = None" using s'(1) unused by simp_all
        then show ?thesis using False True by (simp add: start bindM_Inr [where m = "setMinimum (en_body en) (e_src e)", OF m(1)])
      next
        case no: False
        then have "s' = s" using s'(1) by (simp add: ret_def)
        then show ?thesis using False no by (simp add: start)
      qed
      show ?thesis
      proof (cases "e_kind e = ''Loop''")
        case True
        then obtain k j where k: "e_block e = Some k" "answers (findBody (a_bodies a) k) j" using q(4) by blast
        have "followEdges a v en (e # es) new s = (Inr (Inl (new @ [Entry j (b_exit (a_bodies a ! j)) g (Some en)])), s')"
          using follow True by (simp add: ask_answers [OF blockOf_answers [OF k(1)]] ask_answers [OF k(2)] ret_def)
        moreover have "edgePush a en e = {Entry j (b_exit (a_bodies a ! j)) g (Some en)}"
          using k True by (auto simp: push dest: answers_unique [OF k(2)])
        ultimately show ?thesis using False True miss s'(2) by (auto simp: outcome_def)
      next
        case straight: False
        obtain r t where r: "followEdges a v en es (new @ [Entry (en_body en) (e_src e) g (Some en)]) s' = (Inr r, t)" "l_seen t = l_seen s'"
          "outcome a v en es (new @ [Entry (en_body en) (e_src e) g (Some en)]) r"
          using IH by blast
        have "outcome a v en (e # es) new r"
          by (rule outcome_next [OF miss _ _ r(3)]) (use False straight push in simp_all)
        then show ?thesis using follow straight r(1,2) s'(2) by auto
      qed
    qed
  qed
qed
section \<open>The search\<close>

text \<open>All points that the search may come to.\<close>

definition allPoints :: "body list \<Rightarrow> (nat \<times> nat) set" where
  "allPoints bodies = {..<length bodies} \<times>
     (\<Union>b\<in>set bodies. insert (b_exit b) (e_src ` set (b_edges b) \<union> snd ` set (b_parents b)))"

definition inBodies :: "analysis \<Rightarrow> entry \<Rightarrow> bool" where
  "inBodies a en \<longleftrightarrow> (en_body en, en_point en) \<in> allPoints (a_bodies a)"

definition level :: "gcinfo option option \<Rightarrow> nat" where
  "level x = (case x of None \<Rightarrow> 2 | Some None \<Rightarrow> 1 | Some (Some _) \<Rightarrow> 0)"

definition unseen :: "analysis \<Rightarrow> liveness \<Rightarrow> nat" where
  "unseen a s = (\<Sum>q\<in>allPoints (a_bodies a). level (l_seen s q))"

definition below :: "entry \<Rightarrow> entry \<Rightarrow> bool" where
  "below x y \<longleftrightarrow> en_body x = en_body y \<and> en_point x = en_point y \<and> (carries x \<longrightarrow> carries y)"

definition noHits :: "analysis \<Rightarrow> gvar \<Rightarrow> liveness \<Rightarrow> bool" where
  "noHits a v s \<longleftrightarrow> readable a v \<and> (\<forall>en. alreadySeen s en \<longrightarrow> \<not> hit a v en)"

lemma finite_allPoints: "finite (allPoints bodies)"
  by (simp add: allPoints_def)

lemma alreadySeen_carries: "alreadySeen s en \<longleftrightarrow> (case l_seen s (en_body en, en_point en) of None \<Rightarrow> False | Some g \<Rightarrow> carries en \<longrightarrow> g \<noteq> None)"
  by (auto simp: alreadySeen_def carries_def split: option.splits)

lemma alreadySeen_below: "alreadySeen s y \<Longrightarrow> below x y \<Longrightarrow> alreadySeen s x"
  by (auto simp: alreadySeen_carries below_def split: option.splits)

lemma hit_below: "hit a v x \<Longrightarrow> below x y \<Longrightarrow> hit a v y"
  unfolding hit_def valueAt_def below_def by (auto split: if_splits)

lemma carried_below:
  assumes "readable a v" "en_body x < length (a_bodies a)" "e \<in> set (b_edges (a_bodies a ! en_body x))" "below x y" "answers (carried a x e) g"
  shows "\<exists>g'. answers (carried a y e) g' \<and> (g \<noteq> None \<longrightarrow> g' \<noteq> None)"
proof -
  have xy: "en_body x = en_body y" "carries x \<longrightarrow> carries y" using assms(4) by (auto simp: below_def)
  obtain g1 where g1: "answers (carried a x e) g1" "g1 \<noteq> None \<longleftrightarrow> carries x \<or> collectsAt a (en_body x) e"
    using carried_run [OF assms(1-3)] by blast
  obtain g2 where g2: "answers (carried a y e) g2" "g2 \<noteq> None \<longleftrightarrow> carries y \<or> collectsAt a (en_body y) e"
    using carried_run [of a v y e] assms(1-3) xy(1) by auto
  have "g = g1" using answers_unique [OF assms(5) g1(1)] .
  then show ?thesis using g1(2) g2 xy by auto
qed

lemma into_edges: "e \<in> into a v i p \<Longrightarrow> e \<in> set (b_edges (a_bodies a ! i))"
  using upToLoop_subset by (fastforce simp: into_def predecessors_def)

lemma pushes_below_mono:
  assumes "readable a v" "en_body x < length (a_bodies a)" "below x y" "z \<in> pushes a v x"
  shows "\<exists>u\<in>pushes a v y. below z u"
proof -
  have xy: "en_body x = en_body y" "en_point x = en_point y" "carries x \<longrightarrow> carries y" using assms(3) by (auto simp: below_def)
  consider "z \<in> parentPush a x" | e where "e \<in> into a v (en_body x) (en_point x)" "\<not> kills v e" "z \<in> edgePush a x e"
    using assms(4) unfolding pushes_def by blast
  then show ?thesis
  proof cases
    case 1
    then obtain k q j where z: "z = Entry j q (en_gc x) (Some x)" "(k, q) \<in> set (b_parents (a_bodies a ! en_body x))"
      "answers (findBody (a_bodies a) k) j"
      "en_point x = b_entry (a_bodies a ! en_body x)" "k_kind (b_block (a_bodies a ! en_body x)) = ''Loop''"
      unfolding parentPush_def by (auto split: if_splits)
    have "Entry j q (en_gc y) (Some y) \<in> parentPush a y"
      using z xy unfolding parentPush_def by auto
    moreover have "below z (Entry j q (en_gc y) (Some y))" using z(1) xy(3) by (simp add: below_def carries_def)
    ultimately show ?thesis unfolding pushes_def by blast
  next
    case 2
    then obtain g where g: "answers (carried a x e) g"
      "if e_kind e = ''Loop'' then \<exists>k j. e_block e = Some k \<and> answers (findBody (a_bodies a) k) j \<and> z = Entry j (b_exit (a_bodies a ! j)) g (Some x)
       else z = Entry (en_body x) (e_src e) g (Some x)"
      unfolding edgePush_def by blast
    obtain g' where g': "answers (carried a y e) g'" "g \<noteq> None \<longrightarrow> g' \<noteq> None"
      using carried_below [OF assms(1,2) into_edges [OF 2(1)] assms(3) g(1)] by blast
    have "\<exists>u\<in>edgePush a y e. below z u"
    proof (cases "e_kind e = ''Loop''")
      case True
      then obtain k j where k: "e_block e = Some k" "answers (findBody (a_bodies a) k) j" "z = Entry j (b_exit (a_bodies a ! j)) g (Some x)"
        using g(2) by auto
      have "Entry j (b_exit (a_bodies a ! j)) g' (Some y) \<in> edgePush a y e" using True k(1,2) g'(1) unfolding edgePush_def by auto
      moreover have "below z (Entry j (b_exit (a_bodies a ! j)) g' (Some y))" using k(3) g'(2) by (simp add: below_def carries_def)
      ultimately show ?thesis by blast
    next
      case False
      then have "Entry (en_body y) (e_src e) g' (Some y) \<in> edgePush a y e" using g'(1) unfolding edgePush_def by auto
      moreover have "below z (Entry (en_body y) (e_src e) g' (Some y))" using False g(2) g'(2) xy(1) by (simp add: below_def carries_def)
      ultimately show ?thesis by blast
    qed
    then show ?thesis using 2 xy unfolding pushes_def by auto
  qed
qed

lemma pushes_inBodies:
  assumes "readable a v" "inBodies a en" "z \<in> pushes a v en"
  shows "inBodies a z"
proof -
  have i: "en_body en < length (a_bodies a)" using assms(2) by (auto simp: inBodies_def allPoints_def)
  have member: "a_bodies a ! j \<in> set (a_bodies a)" if "j < length (a_bodies a)" for j using that by simp
  consider "z \<in> parentPush a en" | e where "e \<in> into a v (en_body en) (en_point en)" "\<not> kills v e" "z \<in> edgePush a en e"
    using assms(3) unfolding pushes_def by blast
  then show ?thesis
  proof cases
    case 1
    then obtain k q j where z: "z = Entry j q (en_gc en) (Some en)" "(k, q) \<in> set (b_parents (a_bodies a ! en_body en))"
      "answers (findBody (a_bodies a) k) j"
      unfolding parentPush_def by (auto split: if_splits)
    then obtain j' where "j' < length (a_bodies a)" "answers (findBody (a_bodies a) k) j'" using assms(1) i unfolding readable_def by fast
    then have "j < length (a_bodies a)" using answers_unique [OF z(3)] by auto
    moreover have "q \<in> snd ` set (b_parents (a_bodies a ! en_body en))" using z(2) by force
    ultimately show ?thesis using z(1) member [OF i] by (auto simp: inBodies_def allPoints_def)
  next
    case 2
    then have e: "e \<in> set (b_edges (a_bodies a ! en_body en))" using into_edges by blast
    from 2(3) obtain g where g: "if e_kind e = ''Loop'' then \<exists>k j. e_block e = Some k \<and> answers (findBody (a_bodies a) k) j \<and> z = Entry j (b_exit (a_bodies a ! j)) g (Some en)
       else z = Entry (en_body en) (e_src e) g (Some en)"
      unfolding edgePush_def by blast
    show ?thesis
    proof (cases "e_kind e = ''Loop''")
      case True
      then obtain k j where k: "e_block e = Some k" "answers (findBody (a_bodies a) k) j" "z = Entry j (b_exit (a_bodies a ! j)) g (Some en)"
        using g by auto
      obtain k' j' where k': "e_block e = Some k'" "answers (findBody (a_bodies a) k') j'" "j' < length (a_bodies a)"
        using readable_edge(4) [OF assms(1) i e True] by blast
      then have "answers (findBody (a_bodies a) k) j'" using k(1) by simp
      from answers_unique [OF k(2) this] have "j < length (a_bodies a)" using k'(3) by simp
      then show ?thesis using k(3) member by (auto simp: inBodies_def allPoints_def)
    next
      case False
      then show ?thesis using g e i member [OF i] by (auto simp: inBodies_def allPoints_def)
    qed
  qed
qed
lemma enterParents_run:
  assumes "\<forall>(k, q)\<in>set ps. \<exists>j. answers (findBody bodies k) j"
  shows "\<exists>ns. mapM (\<lambda>(k, q). bindM (ask (findBody bodies k)) (\<lambda>j. ret (Entry j q g w))) ps s = (Inr ns, s) \<and>
    set ns = {Entry j q g w |k q j. (k, q) \<in> set ps \<and> answers (findBody bodies k) j}"
  using assms
proof (induction ps)
  case (Cons x ps)
  obtain k q where x: "x = (k, q)" by (cases x)
  obtain j where j: "answers (findBody bodies k) j" using Cons.prems x by auto
  obtain ns where ns: "mapM (\<lambda>(k, q). bindM (ask (findBody bodies k)) (\<lambda>j. ret (Entry j q g w))) ps s = (Inr ns, s)"
    "set ns = {Entry j q g w |k q j. (k, q) \<in> set ps \<and> answers (findBody bodies k) j}"
    using Cons by auto
  have "answers (findBody bodies k) j' \<longleftrightarrow> j' = j" for j' by (metis answers_unique j)
  then have "set (Entry j q g w # ns) = {Entry j q g w |k q j. (k, q) \<in> set (x # ps) \<and> answers (findBody bodies k) j}"
    using ns(2) x by auto
  moreover have "mapM (\<lambda>(k, q). bindM (ask (findBody bodies k)) (\<lambda>j. ret (Entry j q g w))) (x # ps) s = (Inr (Entry j q g w # ns), s)"
    using ns(1) x by (simp add: ask_answers [OF j] bindM_def ret_def)
  ultimately show ?case by blast
qed (simp add: ret_def)

lemma visitUse_run:
  assumes "readable a v" "inBodies a en" "\<not> alreadySeen s en"
  shows "\<exists>r t. visitUse a v en s = (Inr r, t) \<and> l_seen t = (l_seen s)((en_body en, en_point en) := Some (en_gc en)) \<and>
    (if hit a v en then \<exists>g. r = Inr (g, en) \<and> reports a en g else \<exists>ns. r = Inl ns \<and> set ns = pushes a v en)"
proof -
  let ?i = "en_body en" and ?p = "en_point en"
  let ?b = "a_bodies a ! ?i" and ?s = "s\<lparr>l_seen := (l_seen s)((?i, ?p) := Some (en_gc en))\<rparr>"
  let ?es = "predecessors ?b ?p"
  have i: "?i < length (a_bodies a)" using assms(2) by (auto simp: inBodies_def allPoints_def)
  have es: "set ?es \<subseteq> set (b_edges ?b)" by (auto simp: predecessors_def)
  have follow: "\<exists>r t. followEdges a v en ?es new ?s = (Inr r, t) \<and> l_seen t = l_seen ?s \<and>
     (if \<exists>e\<in>into a v ?i ?p. hitBy a v en e then \<exists>g. r = Inr (g, en) \<and> reports a en g
      else \<exists>ns. r = Inl (new @ ns) \<and> set ns = (\<Union>e\<in>{e \<in> into a v ?i ?p. \<not> kills v e}. edgePush a en e))" for new
    using followEdges_run [OF assms(1) i es] unfolding outcome_def into_def by blast
  have hits: "hit a v en \<longleftrightarrow> ?p = b_entry ?b \<and> k_kind (b_block ?b) \<noteq> ''Loop'' \<and> v_kind v = ''Arg'' \<and> carries en \<or>
      (\<exists>e\<in>into a v ?i ?p. hitBy a v en e)"
    unfolding hit_def valueAt_def hitBy_def by blast
  show ?thesis
  proof (cases "?p = b_entry ?b \<and> k_kind (b_block ?b) \<noteq> ''Loop'' \<and> v_kind v = ''Arg'' \<and> carries en")
    case True
    then have "visitUse a v en s = (Inr (Inr (the (en_gc en), en)), ?s)"
      using assms(3) by (simp add: visitUse_def Let_def carries_def ret_def)
    moreover have "reports a en (the (en_gc en))" using True by (auto simp: reports_def carries_def)
    ultimately show ?thesis using True hits by auto
  next
    case outside: False
    have "\<exists>new. set new = parentPush a en \<and> visitUse a v en s = followEdges a v en ?es new ?s"
    proof (cases "?p = b_entry ?b \<and> k_kind (b_block ?b) = ''Loop''")
      case True
      have "\<forall>(k, q)\<in>set (b_parents ?b). \<exists>j. answers (findBody (a_bodies a) k) j"
        using assms(1) i unfolding readable_def by blast
      from enterParents_run [OF this, of "en_gc en" "Some en" ?s]
      obtain ns where ns: "enterParents a en ?s = (Inr ns, ?s)" "set ns = parentPush a en"
        using True unfolding enterParents_def parentPush_def by auto
      then have "visitUse a v en s = followEdges a v en ?es ns ?s"
        using assms(3) True by (simp add: visitUse_def Let_def bindM_def ret_def)
      then show ?thesis using ns(2) by blast
    next
      case False
      have "visitUse a v en s = followEdges a v en ?es [] ?s"
        using assms(3) False outside by (cases "en_gc en"; cases "?p = b_entry ?b") (simp_all add: visitUse_def Let_def carries_def)
      moreover have "parentPush a en = {}" using False unfolding parentPush_def by auto
      ultimately show ?thesis by (metis list.set(1))
    qed
    then obtain new where new: "set new = parentPush a en" "visitUse a v en s = followEdges a v en ?es new ?s" by blast
    have hit: "hit a v en \<longleftrightarrow> (\<exists>e\<in>into a v ?i ?p. hitBy a v en e)" using hits outside by blast
    obtain r t where "followEdges a v en ?es new ?s = (Inr r, t)" "l_seen t = l_seen ?s"
      "if \<exists>e\<in>into a v ?i ?p. hitBy a v en e then \<exists>g. r = Inr (g, en) \<and> reports a en g
       else \<exists>ns. r = Inl (new @ ns) \<and> set ns = (\<Union>e\<in>{e \<in> into a v ?i ?p. \<not> kills v e}. edgePush a en e)"
      using follow by blast
    then show ?thesis unfolding new(2) pushes_def hit new(1) [symmetric]
      by (intro exI [of _ r] exI [of _ t]) (auto split: if_splits)
  qed
qed

lemma seen_update:
  assumes "\<not> alreadySeen s x" "l_seen t = (l_seen s)((en_body x, en_point x) := Some (en_gc x))"
  shows "alreadySeen t x" "alreadySeen s y \<Longrightarrow> alreadySeen t y" "alreadySeen t y \<Longrightarrow> \<not> alreadySeen s y \<Longrightarrow> below y x"
  using assms by (auto simp: alreadySeen_carries below_def carries_def split: if_splits option.splits)

lemma unseen_update:
  assumes "inBodies a x" "\<not> alreadySeen s x" "l_seen t = (l_seen s)((en_body x, en_point x) := Some (en_gc x))"
  shows "unseen a t < unseen a s"
  unfolding unseen_def
proof (rule sum_strict_mono_ex1 [OF finite_allPoints])
  have low: "level (Some (en_gc x)) < level (l_seen s (en_body x, en_point x))"
    using assms(2) by (auto simp: alreadySeen_def level_def split: option.splits)
  then show "\<forall>q\<in>allPoints (a_bodies a). level (l_seen t q) \<le> level (l_seen s q)" using assms(3) by auto
  show "\<exists>q\<in>allPoints (a_bodies a). level (l_seen t q) < level (l_seen s q)"
    using assms(1,3) low by (intro bexI [of _ "(en_body x, en_point x)"]) (auto simp: inBodies_def)
qed

interpretation useSearch: search "visitUse a v" "noHits a v" "inBodies a" "unseen a" "\<lambda>s. {en. alreadySeen s en}" "pushes a v" below for a v
proof
  show "below x x" for x by (simp add: below_def)
  show "x \<in> {en. alreadySeen s en}" if "y \<in> {en. alreadySeen s en}" "below x y" for s x y
    using that alreadySeen_below by blast
  fix s x assume h: "noHits a v s" "inBodies a x"
  then have rd: "readable a v" by (simp add: noHits_def)
  have i: "en_body x < length (a_bodies a)" using h(2) by (auto simp: inBodies_def allPoints_def)
  show "case visitUse a v x s of (Inl e, t) \<Rightarrow> False | (Inr (Inr r), t) \<Rightarrow> True
      | (Inr (Inl new), t) \<Rightarrow> noHits a v t \<and> set new \<subseteq> pushes a v x \<and> (\<forall>y\<in>set new. inBodies a y) \<and>
          (unseen a t < unseen a s \<or> unseen a t = unseen a s \<and> new = []) \<and> x \<in> {en. alreadySeen t en} \<and>
          {en. alreadySeen s en} \<subseteq> {en. alreadySeen t en} \<and>
          (\<forall>y\<in>{en. alreadySeen t en} - {en. alreadySeen s en}. below y x \<and>
             (\<forall>z\<in>pushes a v y. \<exists>u\<in>{en. alreadySeen t en} \<union> set new. below z u))"
  proof (cases "alreadySeen s x")
    case True
    then show ?thesis using h by (simp add: visitUse_def Let_def)
  next
    case False
    obtain r t where v: "visitUse a v x s = (Inr r, t)" "l_seen t = (l_seen s)((en_body x, en_point x) := Some (en_gc x))"
      "if hit a v x then \<exists>g. r = Inr (g, x) \<and> reports a x g else \<exists>ns. r = Inl ns \<and> set ns = pushes a v x"
      using visitUse_run [OF rd h(2) False] by blast
    note upd = seen_update [OF False v(2)]
    show ?thesis
    proof (cases "hit a v x")
      case True
      then show ?thesis using v by auto
    next
      case miss: False
      then obtain ns where ns: "r = Inl ns" "set ns = pushes a v x" using v(3) by auto
      have "noHits a v t" using h(1) upd(3) hit_below miss unfolding noHits_def by blast
      moreover have "\<forall>y\<in>set ns. inBodies a y" using pushes_inBodies [OF rd h(2)] ns(2) by blast
      moreover have "unseen a t < unseen a s" by (rule unseen_update [OF h(2) False v(2)])
      moreover have "below y x \<and> (\<forall>z\<in>pushes a v y. \<exists>u\<in>{en. alreadySeen t en} \<union> set ns. below z u)"
        if "alreadySeen t y" "\<not> alreadySeen s y" for y
      proof -
        have yx: "below y x" using upd(3) that by blast
        then have "en_body y < length (a_bodies a)" using i by (simp add: below_def)
        then show ?thesis using pushes_below_mono [OF rd _ yx] ns(2) yx by blast
      qed
      ultimately show ?thesis using v(1) ns upd(1,2) by auto
    qed
  qed
qed
section \<open>Uses after a collecting call\<close>

text \<open>The entries that lead from one to the next, the first of them at a use.\<close>

inductive chain :: "analysis \<Rightarrow> gvar \<Rightarrow> entry \<Rightarrow> bool" for a v where
  start: "(i, e) \<in> set (allEdges (a_bodies a)) \<Longrightarrow> uses v e \<Longrightarrow> \<not> kills v e \<Longrightarrow> chain a v (Entry i (e_src e) None None)"
| pushed: "chain a v en \<Longrightarrow> en' \<in> pushes a v en \<Longrightarrow> chain a v en'"

lemma allEdges_iff: "(i, e) \<in> set (allEdges bodies) \<longleftrightarrow> i < length bodies \<and> e \<in> set (b_edges (bodies ! i))"
  by (auto simp: allEdges_def)

lemma start_inBodies: "(i, e) \<in> set (allEdges (a_bodies a)) \<Longrightarrow> inBodies a (Entry i (e_src e) None None)"
  by (auto simp: allEdges_iff inBodies_def allPoints_def)

lemma pushes_flows:
  assumes "readable a v" "inBodies a en" "flows a v (en_body en) (en_point en) (carries en)" "en' \<in> pushes a v en"
  shows "flows a v (en_body en') (en_point en') (carries en')"
proof -
  have i: "en_body en < length (a_bodies a)" using assms(2) by (auto simp: inBodies_def allPoints_def)
  consider "en' \<in> parentPush a en" | e where "e \<in> into a v (en_body en) (en_point en)" "\<not> kills v e" "en' \<in> edgePush a en e"
    using assms(4) unfolding pushes_def by blast
  then show ?thesis
  proof cases
    case 1
    then show ?thesis using flows.outer [OF assms(3)] unfolding parentPush_def by (auto simp: carries_def split: if_splits)
  next
    case 2
    from 2(3) obtain g where g: "answers (carried a en e) g"
      "if e_kind e = ''Loop'' then \<exists>k j. e_block e = Some k \<and> answers (findBody (a_bodies a) k) j \<and> en' = Entry j (b_exit (a_bodies a ! j)) g (Some en)
       else en' = Entry (en_body en) (e_src e) g (Some en)"
      unfolding edgePush_def by blast
    obtain g' where g': "answers (carried a en e) g'" "g' \<noteq> None \<longleftrightarrow> carries en \<or> collectsAt a (en_body en) e"
      using carried_run [OF assms(1) i into_edges [OF 2(1)]] by blast
    have gc: "g \<noteq> None \<longleftrightarrow> carries en \<or> collectsAt a (en_body en) e" using answers_unique [OF g(1) g'(1)] g'(2) by simp
    show ?thesis
    proof (cases "e_kind e = ''Loop''")
      case True
      then obtain k j where k: "e_block e = Some k" "answers (findBody (a_bodies a) k) j" "en' = Entry j (b_exit (a_bodies a ! j)) g (Some en)"
        using g(2) by auto
      have "carries en' \<longleftrightarrow> carries en \<or> collectsAt a (en_body en) e" using gc k(3) by (simp add: carries_def)
      then show ?thesis using flows.loop [OF assms(3) 2(1,2) True k(1,2)] k(3) by simp
    next
      case False
      then have en': "en' = Entry (en_body en) (e_src e) g (Some en)" using g(2) by simp
      then have "carries en' \<longleftrightarrow> carries en \<or> collectsAt a (en_body en) e" using gc by (simp add: carries_def)
      then show ?thesis using flows.straight [OF assms(3) 2(1,2) False] en' by simp
    qed
  qed
qed

lemma chain_flows:
  assumes "readable a v" "chain a v en"
  shows "inBodies a en \<and> flows a v (en_body en) (en_point en) (carries en)"
  using assms(2)
proof (induction rule: chain.induct)
  case (start i e)
  then show ?case using start_inBodies flows.start by (auto simp: carries_def)
next
  case (pushed en en')
  then show ?case using pushes_inBodies [OF assms(1)] pushes_flows [OF assms(1)] by blast
qed

lemma reach_chain:
  assumes "useSearch.reach a v [en0] en" "chain a v en0"
  shows "chain a v en"
proof -
  have "(\<lambda>a' b. b \<in> pushes a v a')\<^sup>*\<^sup>* en0 en" using assms(1) by (auto simp: useSearch.reach_def)
  then show ?thesis using assms(2) by (induction rule: rtranclp_induct) (auto intro: chain.pushed)
qed

definition found :: "analysis \<Rightarrow> gvar \<Rightarrow> gcinfo \<times> entry \<Rightarrow> bool" where
  "found a v x \<longleftrightarrow> chain a v (snd x) \<and> hit a v (snd x) \<and> reports a (snd x) (fst x)"

lemma followFrom_run:
  assumes "noHits a v s" "useSearch.closedBy a v [] s" "(i, e) \<in> set (allEdges (a_bodies a))"
  shows "\<exists>r t. followFrom a v (i, e) s = (Inr r, t) \<and> (case r of
      Some x \<Rightarrow> found a v x
    | None \<Rightarrow> noHits a v t \<and> useSearch.closedBy a v [] t \<and> (\<forall>en. alreadySeen s en \<longrightarrow> alreadySeen t en) \<and>
        (uses v e \<and> \<not> kills v e \<longrightarrow> alreadySeen t (Entry i (e_src e) None None)))"
proof -
  have rd: "readable a v" using assms(1) by (simp add: noHits_def)
  have e: "i < length (a_bodies a)" "e \<in> set (b_edges (a_bodies a ! i))" using assms(3) by (simp_all add: allEdges_iff)
  note q = readable_edge(1,2) [OF rd e]
  have start: "answers (usesFrom v e) (uses v e \<and> \<not> kills v e)"
    using q by (cases "edgeUsesVariable e v ()"; cases "edgeKillsVariable e v ()") (auto simp: answers_def usesFrom_def bindM_def ret_def)
  show ?thesis
  proof (cases "uses v e \<and> \<not> kills v e")
    case False
    then show ?thesis using assms by (auto simp: followFrom_def ask_answers [OF start] ret_def)
  next
    case True
    let ?x = "Entry i (e_src e) None None"
    have chain: "chain a v ?x" using chain.start [OF assms(3)] True by blast
    have run: "followFrom a v (i, e) s = loopM (visitUse a v) [?x] s"
      using True by (simp add: followFrom_def ask_answers [OF start] variableUseFollowsGC_def)
    obtain r t where r: "loopM (visitUse a v) [?x] s = (Inr r, t)"
      "case r of None \<Rightarrow> useSearch.searching a v [?x] s [] t
       | Some y \<Rightarrow> \<exists>x s'. useSearch.reach a v [?x] x \<and> inBodies a x \<and> noHits a v s' \<and> visitUse a v x s' = (Inr (Inr y), t)"
      using useSearch.search_result [OF assms(1) _ assms(2), of "[?x]"] start_inBodies [OF assms(3)] by auto
    show ?thesis
    proof (cases r)
      case None
      then have "useSearch.searching a v [?x] s [] t" using r(2) by simp
      then show ?thesis using None r(1) run unfolding useSearch.searching_def by auto
    next
      case (Some y)
      then obtain x s' where x: "useSearch.reach a v [?x] x" "inBodies a x" "visitUse a v x s' = (Inr (Inr y), t)" using r(2) by auto
      have unseen: "\<not> alreadySeen s' x" using x(3) by (auto simp: visitUse_def Let_def)
      have "hit a v x \<and> snd y = x \<and> reports a x (fst y)"
        using visitUse_run [OF rd x(2) unseen] x(3) by (auto split: if_splits)
      then have "found a v y" using reach_chain [OF x(1) chain] by (simp add: found_def)
      then show ?thesis using Some r(1) run by auto
    qed
  qed
qed

lemma firstM_follow:
  assumes "noHits a v s" "useSearch.closedBy a v [] s" "set es \<subseteq> set (allEdges (a_bodies a))"
  shows "\<exists>r t. firstM (followFrom a v) es s = (Inr r, t) \<and> (case r of
      Some x \<Rightarrow> found a v x
    | None \<Rightarrow> noHits a v t \<and> useSearch.closedBy a v [] t \<and> (\<forall>en. alreadySeen s en \<longrightarrow> alreadySeen t en) \<and>
        (\<forall>(i, e)\<in>set es. uses v e \<and> \<not> kills v e \<longrightarrow> alreadySeen t (Entry i (e_src e) None None)))"
  using assms
proof (induction es arbitrary: s)
  case Nil
  then show ?case by (simp add: ret_def)
next
  case (Cons x es)
  obtain i e where x: "x = (i, e)" by (cases x)
  have "(i, e) \<in> set (allEdges (a_bodies a))" using Cons.prems(3) x by simp
  from followFrom_run [OF Cons.prems(1,2) this] obtain r t where r: "followFrom a v (i, e) s = (Inr r, t)" "case r of Some x \<Rightarrow> found a v x
    | None \<Rightarrow> noHits a v t \<and> useSearch.closedBy a v [] t \<and> (\<forall>en. alreadySeen s en \<longrightarrow> alreadySeen t en) \<and>
        (uses v e \<and> \<not> kills v e \<longrightarrow> alreadySeen t (Entry i (e_src e) None None))"
    by (elim exE conjE)
  show ?case
  proof (cases r)
    case (Some y)
    then show ?thesis using r x by (auto simp: bindM_def ret_def)
  next
    case None
    then have t: "noHits a v t" "useSearch.closedBy a v [] t" "\<forall>en. alreadySeen s en \<longrightarrow> alreadySeen t en"
      "uses v e \<and> \<not> kills v e \<longrightarrow> alreadySeen t (Entry i (e_src e) None None)" using r(2) by auto
    obtain r' t' where r': "firstM (followFrom a v) es t = (Inr r', t')" "case r' of Some x \<Rightarrow> found a v x
      | None \<Rightarrow> noHits a v t' \<and> useSearch.closedBy a v [] t' \<and> (\<forall>en. alreadySeen t en \<longrightarrow> alreadySeen t' en) \<and>
          (\<forall>(i, e)\<in>set es. uses v e \<and> \<not> kills v e \<longrightarrow> alreadySeen t' (Entry i (e_src e) None None))"
      using Cons.IH [OF t(1,2)] Cons.prems(3) by auto
    have "firstM (followFrom a v) (x # es) s = (Inr r', t')" using r(1) None r'(1) x by (simp add: bindM_def)
    then show ?thesis using r'(2) t x by (auto split: option.splits)
  qed
qed

text \<open>When the search ends without a result, it has seen every point of a flow.\<close>

definition pointEntry :: "nat \<Rightarrow> nat \<Rightarrow> bool \<Rightarrow> entry" where
  "pointEntry i p g = Entry i p (if g then Some \<lparr>gi_name = [], gi_body = i, gi_point = p\<rparr> else None) None"

lemma flows_seen:
  assumes "noHits a v t" "useSearch.closedBy a v [] t"
    and "\<forall>(i, e)\<in>set (allEdges (a_bodies a)). uses v e \<and> \<not> kills v e \<longrightarrow> alreadySeen t (Entry i (e_src e) None None)"
    and "flows a v i p g"
  shows "inBodies a (pointEntry i p g) \<and> alreadySeen t (pointEntry i p g)"
  using assms(4)
proof (induction rule: flows.induct)
  case (start i e)
  then show ?case using assms(3) start_inBodies [OF start(1)] by (auto simp: pointEntry_def inBodies_def)
next
  have rd: "readable a v" using assms(1) by (simp add: noHits_def)
  have step: "inBodies a (pointEntry j q g') \<and> alreadySeen t (pointEntry j q g')"
    if "inBodies a (pointEntry i p g) \<and> alreadySeen t (pointEntry i p g)" "z \<in> pushes a v (pointEntry i p g)"
      "en_body z = j" "en_point z = q" "carries z = g'" for i p g j q g' z
  proof -
    have "inBodies a z" using pushes_inBodies [OF rd _ that(2)] that(1) by blast
    moreover have "alreadySeen t z" using assms(2) that(1,2) unfolding useSearch.closedBy_def by auto
    moreover have "below (pointEntry j q g') z" using that(3-5) by (auto simp: below_def pointEntry_def carries_def)
    ultimately show ?thesis using alreadySeen_below that(3,4) by (auto simp: inBodies_def pointEntry_def)
  qed
  have edge: "\<exists>z g'. (z \<in> edgePush a (pointEntry i p g) e) \<and> en_body z = (if e_kind e = ''Loop'' then j else i) \<and>
      en_point z = (if e_kind e = ''Loop'' then b_exit (a_bodies a ! j) else e_src e) \<and> carries z = (g \<or> collectsAt a i e)"
    if "inBodies a (pointEntry i p g)" "e \<in> into a v i p"
      "e_kind e = ''Loop'' \<Longrightarrow> e_block e = Some k \<and> answers (findBody (a_bodies a) k) j" for i p g e k j
  proof -
    note e = into_edges [OF that(2)]
    have i: "i < length (a_bodies a)" using that(1) by (auto simp: inBodies_def allPoints_def pointEntry_def)
    obtain g' where g': "answers (carried a (pointEntry i p g) e) g'" "g' \<noteq> None \<longleftrightarrow> carries (pointEntry i p g) \<or> collectsAt a i e"
      using carried_run [OF rd, of "pointEntry i p g" e] e i by (auto simp: pointEntry_def)
    have "carries (pointEntry i p g) = g" by (simp add: carries_def pointEntry_def)
    then show ?thesis using g' that(3) unfolding edgePush_def
      by (cases "e_kind e = ''Loop''")
        (auto simp: carries_def pointEntry_def intro!: exI [of _ "Entry _ _ g' _"])
  qed
  {
    case (straight i p g e)
    from edge [OF conjunct1 [OF straight.IH] straight(2)] straight(4) obtain z where z: "z \<in> edgePush a (pointEntry i p g) e"
      "en_body z = i" "en_point z = e_src e" "carries z = (g \<or> collectsAt a i e)" by auto
    have "z \<in> pushes a v (pointEntry i p g)" using z(1) straight(2,3) unfolding pushes_def by (auto simp: pointEntry_def)
    then show ?case using step [OF straight.IH _ z(2-4)] by blast
  next
    case (loop i p g e k j)
    from edge [OF conjunct1 [OF loop.IH] loop(2), of k j] loop(4-6) obtain z where z: "z \<in> edgePush a (pointEntry i p g) e"
      "en_body z = j" "en_point z = b_exit (a_bodies a ! j)" "carries z = (g \<or> collectsAt a i e)" by auto
    have "z \<in> pushes a v (pointEntry i p g)" using z(1) loop(2,3) unfolding pushes_def by (auto simp: pointEntry_def)
    then show ?case using step [OF loop.IH _ z(2-4)] by blast
  next
    case (outer i p g k q j)
    let ?z = "Entry j q (en_gc (pointEntry i p g)) (Some (pointEntry i p g))"
    have "?z \<in> pushes a v (pointEntry i p g)"
      using outer(2-5) unfolding pushes_def parentPush_def by (auto simp: pointEntry_def)
    then show ?case using step [OF outer.IH] by (simp add: carries_def pointEntry_def)
  }
qed

lemma variableLive_run:
  assumes "readable a v"
  shows "\<exists>r t. variableLiveAcrossGC a v s = (Inr r, t) \<and> (case r of Some x \<Rightarrow> found a v x | None \<Rightarrow> \<not> hazard a v)"
proof -
  let ?s = "s\<lparr>l_seen := (\<lambda>_. None), l_minimum := (\<lambda>_. 0)\<rparr>"
  have none: "\<not> alreadySeen ?s en" for en by (simp add: alreadySeen_def)
  have start: "noHits a v ?s" "useSearch.closedBy a v [] ?s" using assms none by (auto simp: noHits_def useSearch.closedBy_def)
  obtain r t where r: "firstM (followFrom a v) (allEdges (a_bodies a)) ?s = (Inr r, t)" "case r of
      Some x \<Rightarrow> found a v x
    | None \<Rightarrow> noHits a v t \<and> useSearch.closedBy a v [] t \<and> (\<forall>en. alreadySeen ?s en \<longrightarrow> alreadySeen t en) \<and>
        (\<forall>(i, e)\<in>set (allEdges (a_bodies a)). uses v e \<and> \<not> kills v e \<longrightarrow> alreadySeen t (Entry i (e_src e) None None))"
    using firstM_follow [OF start subset_refl] by (elim exE conjE)
  show ?thesis
  proof (cases r)
    case (Some x)
    then show ?thesis using r by (simp add: variableLiveAcrossGC_def)
  next
    case None
    then have t: "noHits a v t" "useSearch.closedBy a v [] t"
      "\<forall>(i, e)\<in>set (allEdges (a_bodies a)). uses v e \<and> \<not> kills v e \<longrightarrow> alreadySeen t (Entry i (e_src e) None None)"
      using r(2) by simp_all
    have "\<not> valueAt a v i p g" if "flows a v i p g" for i p g
    proof -
      have "\<not> hit a v (pointEntry i p g)" using flows_seen [OF t that] t(1) unfolding noHits_def by blast
      then show ?thesis by (cases g) (simp_all add: hit_def pointEntry_def carries_def)
    qed
    then show ?thesis using None r(1) by (simp add: variableLiveAcrossGC_def hazard_def)
  qed
qed
section \<open>The trace of a report\<close>

text \<open>The points of an entry and of those before it in the search, which come after it in the program.\<close>

fun traceOf :: "entry \<Rightarrow> (nat \<times> nat) list" where
  "traceOf (Entry i p g w) = (i, p) # (case w of None \<Rightarrow> [] | Some en \<Rightarrow> traceOf en)"

text \<open>One point leads to another: by an edge, out of a loop to where it ends, or into a loop where it starts.\<close>

definition leadsTo :: "body list \<Rightarrow> nat \<times> nat \<Rightarrow> nat \<times> nat \<Rightarrow> bool" where
  "leadsTo bodies = (\<lambda>(i, p) (j, q).
     (\<exists>e\<in>set (b_edges (bodies ! j)). e_dst e = q \<and>
        (if e_kind e = ''Loop'' then \<exists>k. e_block e = Some k \<and> answers (findBody bodies k) i \<and> p = b_exit (bodies ! i)
         else i = j \<and> p = e_src e)) \<or>
     q = b_entry (bodies ! j) \<and> (\<exists>k. (k, p) \<in> set (b_parents (bodies ! j)) \<and> answers (findBody bodies k) i))"

text \<open>The call of a report is an edge of the code that may collect, at a point that is not suppressed.\<close>

definition realCall :: "analysis \<Rightarrow> gcinfo \<Rightarrow> bool" where
  "realCall a g \<longleftrightarrow> (gi_body g, gi_point g) \<notin> a_points a \<and>
     (\<exists>e\<in>set (b_edges (a_bodies a ! gi_body g)). e_src e = gi_point g \<and> answers (edgeCanGC a e) (Some (gi_name g)))"

lemma carried_real:
  assumes "answers (carried a en e) (Some g)" "\<And>h. en_gc en = Some h \<Longrightarrow> realCall a h" "e \<in> set (b_edges (a_bodies a ! en_body en))"
  shows "realCall a g"
proof (cases "en_gc en")
  case (Some h)
  then show ?thesis using assms(1,2) by (simp add: carried_def answers_def ret_def)
next
  case None
  then have p: "(en_body en, e_src e) \<notin> a_points a" using assms(1) by (auto simp: carried_def answers_def ret_def)
  then obtain n where "answers (edgeCanGC a e) (Some n)" "g = \<lparr>gi_name = n, gi_body = en_body en, gi_point = e_src e\<rparr>"
    using assms(1) None by (auto simp: carried_def answers_def bindM_def ret_def split: prod.splits sum.splits)
  then show ?thesis using p assms(3) by (auto simp: realCall_def)
qed

lemma pushed_facts:
  assumes "en' \<in> pushes a v en" "\<And>h. en_gc en = Some h \<Longrightarrow> realCall a h"
  shows "en_why en' = Some en" "leadsTo (a_bodies a) (en_body en', en_point en') (en_body en, en_point en)"
    "en_gc en' = Some g \<Longrightarrow> realCall a g"
proof -
  consider (parent) "en' \<in> parentPush a en" | (edge) e where "e \<in> into a v (en_body en) (en_point en)" "en' \<in> edgePush a en e"
    using assms(1) unfolding pushes_def by blast
  then have "en_why en' = Some en \<and> leadsTo (a_bodies a) (en_body en', en_point en') (en_body en, en_point en) \<and>
    (en_gc en' = Some g \<longrightarrow> realCall a g)"
  proof cases
    case parent
    then show ?thesis using assms(2) by (auto simp: parentPush_def leadsTo_def split: if_splits)
  next
    case edge
    have e: "e \<in> set (b_edges (a_bodies a ! en_body en))" "e_dst e = en_point en"
      using into_edges [OF edge(1)] edge(1) upToLoop_subset by (fastforce simp: into_def predecessors_def)+
    from edge(2) obtain h where h: "answers (carried a en e) h" "en_gc en' = h \<and> en_why en' = Some en"
      "if e_kind e = ''Loop'' then \<exists>k. e_block e = Some k \<and> answers (findBody (a_bodies a) k) (en_body en') \<and> en_point en' = b_exit (a_bodies a ! en_body en')
       else en_body en' = en_body en \<and> en_point en' = e_src e"
      unfolding edgePush_def by (auto split: if_splits)
    have leads: "leadsTo (a_bodies a) (en_body en', en_point en') (en_body en, en_point en)"
      using h(3) e unfolding leadsTo_def by auto
    have "realCall a g" if "answers (carried a en e) (Some g)" for g by (rule carried_real [OF that assms(2) e(1)])
    then have "en_gc en' = Some g \<longrightarrow> realCall a g" using h(1,2) by (cases h) auto
    then show ?thesis using h(2) leads by blast
  qed
  then show "en_why en' = Some en" "leadsTo (a_bodies a) (en_body en', en_point en') (en_body en, en_point en)"
    "en_gc en' = Some g \<Longrightarrow> realCall a g" by blast+
qed

lemma chain_trace:
  assumes "chain a v en"
  shows "successively (leadsTo (a_bodies a)) (traceOf en) \<and> (\<forall>g. en_gc en = Some g \<longrightarrow> realCall a g) \<and>
    (\<exists>i e. (i, e) \<in> set (allEdges (a_bodies a)) \<and> uses v e \<and> \<not> kills v e \<and> List.last (traceOf en) = (i, e_src e)) \<and>
    hd (traceOf en) = (en_body en, en_point en) \<and> traceOf en \<noteq> []"
  using assms
proof (induction rule: chain.induct)
  case (pushed en en')
  have real: "\<And>h. en_gc en = Some h \<Longrightarrow> realCall a h" using pushed.IH by blast
  note f = pushed_facts [OF pushed(2) real]
  have t: "traceOf en' = (en_body en', en_point en') # traceOf en" using f(1) by (cases en') simp
  have "successively (leadsTo (a_bodies a)) (traceOf en')"
    using pushed.IH f(2) unfolding t by (cases "traceOf en") auto
  moreover have "List.last (traceOf en') = List.last (traceOf en)" using pushed.IH unfolding t by simp
  ultimately show ?case using pushed.IH f(3) unfolding t by simp
qed auto

section \<open>Properties\<close>

text \<open>The object that \<open>f()\<close> gives is used after the call of \<open>gc()\<close>; \<open>y\<close> is not.\<close>

definition sampleUse :: "edge list" where
  "sampleUse =
     [\<lparr>e_kind = ''Assign'', e_src = 1, e_dst = 2, e_exps = [EVar (localVar ''x''), EOther ''Int'' []], e_inst = None, e_args = [], e_block = None\<rparr>,
      callEdge 2 3 ''gc()'' None,
      \<lparr>e_kind = ''Assume'', e_src = 3, e_dst = 4, e_exps = [EDrf (EVar (localVar ''x''))], e_inst = None, e_args = [], e_block = None\<rparr>]"

definition sampleAnalysis :: analysis where
  "sampleAnalysis = \<lparr>a_function = ''h()'', a_bodies = [(functionBody sampleUse)\<lparr>b_points := map (\<lambda>l. (''/f.cpp'', l)) [1..<6]\<rparr>], a_points = {}, a_gcFunctions = {''gc()''}, a_suppressed = {}\<rparr>"

lemma sampleUse_answers:
  "map (\<lambda>e. fst (edgeUsesVariable e (localVar ''x'') ())) sampleUse = [Inr True, Inr False, Inr True]"
  "map (\<lambda>e. fst (edgeKillsVariable e (localVar ''x'') ())) sampleUse = [Inr True, Inr False, Inr False]"
  "map (\<lambda>e. fst (edgeCanGC sampleAnalysis e ())) sampleUse = [Inr None, Inr (Some (quoted ''gc()'')), Inr None]"
  "map e_kind sampleUse = [''Assign'', ''Call'', ''Assume'']"
  by code_simp+

lemma sample_wellFormed: "wellFormed (a_bodies sampleAnalysis)" "named (localVar ''x'')"
  by code_simp+

text \<open>
  C12: On well-formed bodies (a call through a computed pointer is excluded: it fails an assertion) and for a
  named variable, the search for a use after a collecting call ends without an exception, and it reports the
  variable exactly when there is one: some way back from a use, over the edges that are looked at, passes a call that
  may collect, outside the suppressed points, and comes to where the variable has its value, with no assignment between.
\<close>

theorem live_across_gc_exact:
  assumes "wellFormed (a_bodies a)" "named v"
  shows "\<exists>r t. variableLiveAcrossGC a v s = (Inr r, t) \<and> (r \<noteq> None \<longleftrightarrow> hazard a v)"
proof -
  note rd = wellFormed_readable [OF assms]
  obtain r t where r: "variableLiveAcrossGC a v s = (Inr r, t)" "case r of Some x \<Rightarrow> found a v x | None \<Rightarrow> \<not> hazard a v"
    using variableLive_run [OF rd] by blast
  have "hazard a v" if "found a v x" for x
    using chain_flows [OF rd] that unfolding found_def hazard_def hit_def by blast
  then show ?thesis using r by (cases r) auto
qed

lemma live_across_gc_exact_witness:
  "\<forall>s. \<exists>x t. variableLiveAcrossGC sampleAnalysis (localVar ''x'') s = (Inr (Some x), t)"
proof -
  let ?v = "localVar ''x''" and ?a = sampleAnalysis
  have u: "uses ?v e = (fst (edgeUsesVariable e ?v ()) = Inr True)" "kills ?v e = (fst (edgeKillsVariable e ?v ()) = Inr True)" for e
    by (simp_all add: uses_def kills_def answers_def)
  have preds: "into ?a ?v 0 3 = {sampleUse ! 1}" "into ?a ?v 0 2 = {sampleUse ! 0}"
    using sampleUse_answers(2)
    by (simp_all add: into_def predecessors_def sampleAnalysis_def functionBody_def sampleUse_def callEdge_def u)
  have facts: "uses ?v (sampleUse ! 2)" "\<not> kills ?v (sampleUse ! 2)" "\<not> kills ?v (sampleUse ! 1)" "kills ?v (sampleUse ! 0)"
    "e_kind (sampleUse ! 1) \<noteq> ''Loop''" "e_src (sampleUse ! 2) = 3" "e_src (sampleUse ! 1) = 2" "(0, sampleUse ! 2) \<in> set (allEdges (a_bodies ?a))"
    using sampleUse_answers unfolding u by (simp_all add: sampleUse_def callEdge_def sampleAnalysis_def functionBody_def allEdges_def)
  have gc: "collectsAt ?a 0 (sampleUse ! 1)"
    using sampleUse_answers(3) by (auto simp: collectsAt_def answers_def sampleUse_def) (simp add: sampleAnalysis_def)
  have "flows ?a ?v 0 3 False" using flows.start [OF facts(8,1,2)] facts(6) by simp
  then have "flows ?a ?v 0 2 True"
    using flows.straight [of ?a ?v 0 3 False "sampleUse ! 1"] preds(1) facts(3,5,7) gc by simp
  moreover have "valueAt ?a ?v 0 2 True" using preds(2) facts(4) by (simp add: valueAt_def)
  ultimately have "hazard ?a ?v" unfolding hazard_def by blast
  then show ?thesis using live_across_gc_exact [OF sample_wellFormed] by fast
qed

text \<open>
  C19: On well-formed bodies and for a named variable, a report is backed by the code: the points of its trace lead from one to the next by edges, loop exits and
  loop entries, the last of them is at a use of the variable, and the call that it names is an edge of the
  function that may collect at a point that is not suppressed.
\<close>

theorem reported_trace:
  assumes "wellFormed (a_bodies a)" "named v" "variableLiveAcrossGC a v s = (Inr (Some (g, en)), t)"
  shows "successively (leadsTo (a_bodies a)) (traceOf en) \<and> realCall a g \<and>
    (\<exists>i e. (i, e) \<in> set (allEdges (a_bodies a)) \<and> uses v e \<and> \<not> kills v e \<and> List.last (traceOf en) = (i, e_src e))"
proof -
  have f: "chain a v en" "reports a en g" using variableLive_run [OF wellFormed_readable [OF assms(1,2)], of s] assms(3) by (auto simp: found_def)
  note c = chain_trace [OF f(1)]
  have real: "\<And>h. en_gc en = Some h \<Longrightarrow> realCall a h" using c by blast
  have "realCall a g" if "e \<in> set (b_edges (a_bodies a ! en_body en))" "answers (carried a en e) (Some g)" for e
    by (rule carried_real [OF that(2) real that(1)])
  then have "realCall a g" using f(2) real unfolding reports_def by blast
  then show ?thesis using c by blast
qed

lemma reported_trace_witness:
  "\<exists>g en t. variableLiveAcrossGC sampleAnalysis (localVar ''x'') \<lparr>l_seen = (\<lambda>_. None), l_minimum = (\<lambda>_. 0)\<rparr> = (Inr (Some (g, en)), t) \<and>
    traceOf en = [(0, 2), (0, 3)] \<and> successively (leadsTo (a_bodies sampleAnalysis)) (traceOf en) \<and> realCall sampleAnalysis g"
proof -
  have run: "(case fst (variableLiveAcrossGC sampleAnalysis (localVar ''x'') \<lparr>l_seen = (\<lambda>_. None), l_minimum = (\<lambda>_. 0)\<rparr>) of
      Inr (Some (g, en)) \<Rightarrow> traceOf en = [(0, 2), (0, 3)] | _ \<Rightarrow> False)"
    by code_simp
  obtain r t where r: "variableLiveAcrossGC sampleAnalysis (localVar ''x'') \<lparr>l_seen = (\<lambda>_. None), l_minimum = (\<lambda>_. 0)\<rparr> = (r, t)"
    by (cases "variableLiveAcrossGC sampleAnalysis (localVar ''x'') \<lparr>l_seen = (\<lambda>_. None), l_minimum = (\<lambda>_. 0)\<rparr>")
  then obtain g en where "r = Inr (Some (g, en))" "traceOf en = [(0, 2), (0, 3)]"
    using run by (auto split: sum.splits option.splits)
  then show ?thesis using reported_trace [OF sample_wellFormed, of _ g en t] r by blast
qed

end
