(* ===== verification/Hazard_Report.thy ===== *)
theory Hazard_Report
  imports Hazard_Roots
begin

text \<open>
  The reports of \<open>analyzeRoots.js\<close>: the lines that are printed for the variables of a function, the trace of a
  report with the text of the edges it passes, and the share of the functions that one batch analyses.

  The text that \<open>xdbfind\<close> prints for a function, the source root and the files of the earlier passes are
  parameters. The variable \<open>lineText\<close> belongs to one call of \<open>processBodies\<close>: it is undefined where the call
  starts, and within the call it keeps its value from one variable of the function to the next.
\<close>

section \<open>Locations\<close>

definition findLocation :: "string \<Rightarrow> body \<Rightarrow> nat \<Rightarrow> string question" where
  "findLocation sourceRoot b ppoint =
     (if 1 \<le> ppoint \<and> ppoint \<le> length (b_points b)
      then let (file, line) = b_points b ! (ppoint - 1); text = file @ '':'' @ show_nat line
           in ret (if startsWith sourceRoot text then drop (length sourceRoot) text else text)
      else throw TypeError)"

definition locationLine :: "string \<Rightarrow> string option" where
  "locationLine text = (let d = rev (takeWhile isDigit (rev text)); before = rev (dropWhile isDigit (rev text)) in
     if d \<noteq> [] \<and> before \<noteq> [] \<and> List.last before = CHR '':'' then Some d else None)"

text \<open>Strings are compared by their characters; the number 0 stands for a missing line.\<close>

fun strLess :: "string \<Rightarrow> string \<Rightarrow> bool" where
  "strLess _ [] = False"
| "strLess [] (d # ds) = True"
| "strLess (c # cs) (d # ds) = ((of_char c :: nat) < of_char d \<or> c = d \<and> strLess cs ds)"

definition laterLine :: "string option \<Rightarrow> string option \<Rightarrow> bool" where
  "laterLine x y = (case (x, y) of
       (Some a, Some b) \<Rightarrow> strLess b a
     | (Some a, None) \<Rightarrow> 0 < digits_value a
     | (None, _) \<Rightarrow> False)"

section \<open>The listing of a function\<close>

fun matchLoop :: "string \<Rightarrow> string option" where
  "matchLoop [] = None"
| "matchLoop (c # cs) =
     (let d = takeWhile (\<lambda>c. isDigit c \<or> c = CHR ''#'') (drop 6 (c # cs)) in
      if startsWith '':loop#'' (c # cs) \<and> d \<noteq> [] then Some (''loop#'' @ d) else matchLoop cs)"

definition findLoop :: "body list \<Rightarrow> string \<Rightarrow> nat question" where
  "findLoop bodies loop =
     bindM (forLoop [0..<length bodies] None (\<lambda>i found.
              if k_kind (b_block (bodies ! i)) = ''Loop'' \<and> k_loop (b_block (bodies ! i)) = loop
              then bindM (assert (found = None) ''found'') (\<lambda>_. ret (Some i)) else ret found)) (\<lambda>found.
     case found of None \<Rightarrow> throw (AssertionFailed ''found'') | Some i \<Rightarrow> ret i)"

definition lastFunction :: "body list \<Rightarrow> nat option \<Rightarrow> nat option" where
  "lastFunction bodies cur = fold (\<lambda>i cur. if k_kind (b_block (bodies ! i)) = ''Function'' then Some i else cur) [0..<length bodies] cur"

fun distribute :: "body list \<Rightarrow> string list \<Rightarrow> nat option \<Rightarrow> string list list \<Rightarrow> string list list question" where
  "distribute bodies [] cur acc = ret acc"
| "distribute bodies (line # lines) cur acc =
     bindM (if startsWith ''block:'' line
            then case matchLoop line of
                   Some loop \<Rightarrow> bindM (findLoop bodies loop) (\<lambda>i. ret (Some i))
                 | None \<Rightarrow> ret (lastFunction bodies cur)
            else ret cur) (\<lambda>cur.
     distribute bodies lines cur (case cur of None \<Rightarrow> acc | Some i \<Rightarrow> acc[i := acc ! i @ [line]]))"

definition computePrintedLines :: "body list \<Rightarrow> string \<Rightarrow> string list list question" where
  "computePrintedLines bodies listing = distribute bodies (splitLines listing) None (replicate (length bodies) [])"

text \<open>The texts \<open>(p,q,\<close> and \<open>(p,\<close> in a line, at the first place where they occur.\<close>

fun matchPair :: "string \<Rightarrow> (nat \<times> nat) option" where
  "matchPair [] = None"
| "matchPair (c # cs) =
     (if c = CHR ''('' then
        (case digitRun cs of
           Some (p, CHR '','' # r) \<Rightarrow> (case digitRun r of
               Some (q, CHR '','' # _) \<Rightarrow> Some (digits_value p, digits_value q)
             | _ \<Rightarrow> matchPair cs)
         | _ \<Rightarrow> matchPair cs)
      else matchPair cs)"

fun matchSource :: "string \<Rightarrow> nat option" where
  "matchSource [] = None"
| "matchSource (c # cs) =
     (if c = CHR ''('' then
        (case digitRun cs of
           Some (p, CHR '','' # _) \<Rightarrow> Some (digits_value p)
         | _ \<Rightarrow> matchSource cs)
      else matchSource cs)"

definition edgeText :: "string list \<Rightarrow> entry \<Rightarrow> string option question" where
  "edgeText lines en = (case en_why en of
       Some why \<Rightarrow>
         (if en_body why = en_body en
          then case filter (\<lambda>line. matchPair line = Some (en_point en, en_point why)) lines of
                 [] \<Rightarrow> throw (AssertionFailed ''edgeText'')
               | l # ls \<Rightarrow> ret (Some (List.last (l # ls)))
          else ret (find (\<lambda>line. matchSource line = Some (en_point en)) lines))
     | None \<Rightarrow> ret (find (\<lambda>line. matchSource line = Some (en_point en)) lines))"

section \<open>Reports\<close>

record setting =
  p_analysis :: analysis
  p_root :: string
  p_types :: "string set \<times> string set"
  p_listing :: string

record reporter =
  rp_live :: liveness
  rp_lineText :: "string option"
  rp_out :: "string list"

definition sayReport :: "string \<Rightarrow> (reporter, unit) jsm" where
  "sayReport l s = (Inr (), s\<lparr>rp_out := rp_out s @ [l]\<rparr>)"

definition setLineText :: "string \<Rightarrow> (reporter, unit) jsm" where
  "setLineText l s = (Inr (), s\<lparr>rp_lineText := Some l\<rparr>)"

definition liveReport :: "analysis \<Rightarrow> gvar \<Rightarrow> (reporter, (gcinfo \<times> entry) option) jsm" where
  "liveReport a v s = (case variableLiveAcrossGC a v (rp_live s) of (r, t) \<Rightarrow> (r, s\<lparr>rp_live := t\<rparr>))"

definition locate :: "setting \<Rightarrow> nat \<Rightarrow> nat \<Rightarrow> string question" where
  "locate p i ppoint = findLocation (p_root p) (a_bodies (p_analysis p) ! i) ppoint"

fun traceLines :: "setting \<Rightarrow> string list list \<Rightarrow> entry \<Rightarrow> (reporter, unit) jsm" where
  "traceLines p lines (Entry i q g w) =
     bindM (ask (locate p i q)) (\<lambda>lineText.
     bindM (ask (edgeText (lines ! i) (Entry i q g w))) (\<lambda>text.
     bindM (sayReport (''    '' @ lineText @ (case text of None \<Rightarrow> [] | Some t \<Rightarrow> '': '' @ t))) (\<lambda>_.
     case w of None \<Rightarrow> ret () | Some en \<Rightarrow> traceLines p lines en)))"

definition printEntryTrace :: "setting \<Rightarrow> entry \<Rightarrow> (reporter, unit) jsm" where
  "printEntryTrace p en =
     bindM (ask (computePrintedLines (a_bodies (p_analysis p)) (p_listing p))) (\<lambda>lines. traceLines p lines en)"

definition reportHead :: "setting \<Rightarrow> string" where
  "reportHead p = [char_of (10 :: nat)] @ ''Function '' @ quoted (a_function (p_analysis p))"

definition rootText :: "setting \<Rightarrow> string \<Rightarrow> string option \<Rightarrow> string" where
  "rootText p name lineText = reportHead p @ '' has unnecessary root '' @ quoted name @ '' at '' @
     (case lineText of None \<Rightarrow> ''undefined'' | Some t \<Rightarrow> t)"

definition unrootedText :: "setting \<Rightarrow> string \<Rightarrow> gtype \<Rightarrow> string \<Rightarrow> string \<Rightarrow> string" where
  "unrootedText p name ty gc lineText = reportHead p @ '' has unrooted '' @ quoted name @ '' of type '' @ quoted (typeDesc ty) @
     '' live across GC call '' @ gc @ '' at '' @ lineText"

definition addressText :: "setting \<Rightarrow> string \<Rightarrow> string \<Rightarrow> string" where
  "addressText p name lineText = reportHead p @ '' takes unsafe address of unrooted '' @ quoted name @ '' at '' @ lineText"

definition noteUse :: "setting \<Rightarrow> nat \<Rightarrow> (reporter, unit) jsm" where
  "noteUse p i s = (let m = l_minimum (rp_live s) i in
     if m = 0 then (Inr (), s)
     else bindM (ask (locate p i m)) (\<lambda>text s.
       (case rp_lineText s of
          Some lineText \<Rightarrow> if lineText = [] \<or> laterLine (locationLine lineText) (locationLine text) then setLineText text s else (Inr (), s)
        | None \<Rightarrow> setLineText text s)) s)"

definition processRooted :: "setting \<Rightarrow> string \<Rightarrow> gvar \<Rightarrow> (reporter, unit) jsm" where
  "processRooted p name v =
     bindM (liveReport (p_analysis p) v) (\<lambda>result. case result of
       Some _ \<Rightarrow> ret ()
     | None \<Rightarrow>
         bindM (mapM (noteUse p) [0..<length (a_bodies (p_analysis p))]) (\<lambda>_ s.
         sayReport (rootText p name (rp_lineText s)) s))"

definition processUnrooted :: "setting \<Rightarrow> string \<Rightarrow> gvar \<Rightarrow> gtype \<Rightarrow> (reporter, unit) jsm" where
  "processUnrooted p name v ty =
     bindM (liveReport (p_analysis p) v) (\<lambda>result.
     bindM (case result of
         None \<Rightarrow> ret ()
       | Some (g, why) \<Rightarrow>
           bindM (ask (locate p (gi_body g) (gi_point g))) (\<lambda>lineText.
           bindM (setLineText lineText) (\<lambda>_.
           bindM (sayReport (unrootedText p name ty (gi_name g) lineText)) (\<lambda>_.
           printEntryTrace p why)))) (\<lambda>_.
     bindM (ask (unsafeVariableAddressTaken (p_analysis p) v)) (\<lambda>result. case result of
         None \<Rightarrow> ret ()
       | Some (i, ppoint) \<Rightarrow>
           bindM (ask (locate p i ppoint)) (\<lambda>lineText.
           bindM (setLineText lineText) (\<lambda>_.
           bindM (sayReport (addressText p name lineText)) (\<lambda>_.
           printEntryTrace p (Entry i ppoint None None)))))))"

definition processVariable :: "setting \<Rightarrow> gvar \<times> gtype \<Rightarrow> (reporter, unit) jsm" where
  "processVariable p = (\<lambda>(v, ty).
     if v_kind v = ''Return'' then ret ()
     else bindM (if v_kind v = ''This'' then ret ''this'' else nameOf v) (\<lambda>name.
       if isRootedType ty then processRooted p name v
       else if isUnrootedType (p_types p) ty then processUnrooted p name v ty
       else ret ()))"

definition processBodies :: "setting \<Rightarrow> (reporter, unit) jsm" where
  "processBodies p = (case a_bodies (p_analysis p) of
       [] \<Rightarrow> throw TypeError
     | b # _ \<Rightarrow> bindM (\<lambda>s. (Inr (), s\<lparr>rp_lineText := None\<rparr>)) (\<lambda>_. bindM (mapM (processVariable p) (b_vars b)) (\<lambda>_. ret ())))"

section \<open>Batches\<close>

text \<open>The first and the last index of the functions of a batch.\<close>

definition batchRange :: "int \<Rightarrow> int \<Rightarrow> int \<Rightarrow> int \<Rightarrow> int \<times> int" where
  "batchRange minStream maxStream numBatches batch =
     (let N = (maxStream - minStream) + 1; each = N div numBatches
      in (minStream + each * (batch - 1), min (minStream + each * batch - 1) maxStream))"

text \<open>A list of names, one on each line.\<close>

definition readNames :: "string \<Rightarrow> string set question" where
  "readNames text = (let ls = splitLines text in
     bindM (assert (List.last ls = []) ''length'') (\<lambda>_. ret (set (butlast ls))))"

text \<open>The analysis of a function, with the listing of it, and of the functions of a batch.\<close>

definition analyzeFunction :: "setting \<Rightarrow> (string \<Rightarrow> string) \<Rightarrow> string \<times> body list \<Rightarrow> (reporter, unit) jsm" where
  "analyzeFunction p listing = (\<lambda>(name, bodies).
     bindM (ask (suppressedPoints bodies)) (\<lambda>S.
     processBodies (p\<lparr>p_analysis := (p_analysis p)\<lparr>a_function := name, a_bodies := bodies, a_points := S\<rparr>, p_listing := listing name\<rparr>)))"

definition analyzeBatch :: "setting \<Rightarrow> (string \<Rightarrow> string) \<Rightarrow> int \<Rightarrow> (string \<times> body list) list \<Rightarrow> int \<Rightarrow> int \<Rightarrow> (reporter, unit) jsm" where
  "analyzeBatch p listing minStream functions numBatches batch =
     (let range = batchRange minStream (minStream + int (length functions) - 1) numBatches batch in
      bindM (mapM (\<lambda>i. analyzeFunction p listing (functions ! nat (i - minStream))) [fst range..snd range]) (\<lambda>_. ret ()))"

section \<open>Facts\<close>

lemma takes_unsafe_run:
  assumes "\<And>i e. (i, e) \<in> set es \<Longrightarrow> \<exists>b. answers (edgeTakesVariableAddress e v) b"
    and "\<And>i e. (i, e) \<in> set es \<Longrightarrow> \<exists>g. answers (edgeCanGC a e) g"
  shows "\<exists>r. answers (firstM (\<lambda>(i, e). bindM (edgeTakesVariableAddress e v) (\<lambda>takes.
        if \<not> takes then ret None
        else if e_kind e = ''Assign'' then ret (Some (i, e_src e))
        else bindM (edgeCanGC a e) (\<lambda>gcName. ret (if gcName = None then None else Some (i, e_src e))))) es) r \<and>
    (r \<noteq> None \<longleftrightarrow> (\<exists>(i, e)\<in>set es. answers (edgeTakesVariableAddress e v) True \<and>
       (e_kind e = ''Assign'' \<or> (\<exists>n. answers (edgeCanGC a e) (Some n)))))"
  using assms
proof (induction es)
  case Nil
  then show ?case by (simp add: answers_def ret_def)
next
  case (Cons x es)
  let ?f = "\<lambda>(i, e). bindM (edgeTakesVariableAddress e v) (\<lambda>takes.
        if \<not> takes then ret None
        else if e_kind e = ''Assign'' then ret (Some (i, e_src e))
        else bindM (edgeCanGC a e) (\<lambda>gcName. ret (if gcName = None then None else Some (i, e_src e))))"
  obtain i e where x: "x = (i, e)" by (cases x)
  obtain b g where q: "answers (edgeTakesVariableAddress e v) b" "answers (edgeCanGC a e) g"
    using Cons.prems(1) [of i e] Cons.prems(2) [of i e] x by auto
  have bg: "answers (edgeTakesVariableAddress e v) True \<longleftrightarrow> b" "(\<exists>n. answers (edgeCanGC a e) (Some n)) \<longleftrightarrow> g \<noteq> None"
    using q by (metis answers_unique) (metis q(2) answers_unique not_None_eq)
  let ?hit = "b \<and> (e_kind e = ''Assign'' \<or> g \<noteq> None)"
  have first: "answers (?f x) (if ?hit then Some (i, e_src e) else None)"
    using q unfolding x
    by (cases "edgeTakesVariableAddress e v ()"; cases "edgeCanGC a e ()") (auto simp: answers_def bindM_def ret_def)
  obtain r where r: "answers (firstM ?f es) r" "r \<noteq> None \<longleftrightarrow> (\<exists>(i, e)\<in>set es. answers (edgeTakesVariableAddress e v) True \<and>
      (e_kind e = ''Assign'' \<or> (\<exists>n. answers (edgeCanGC a e) (Some n))))"
    using Cons by (metis (no_types, lifting) list.set_intros(2))
  have "answers (firstM ?f (x # es)) (if ?hit then Some (i, e_src e) else r)"
    using first r(1) by (cases "?f x ()") (auto simp: answers_def bindM_def ret_def split: option.splits)
  moreover have "(if ?hit then Some (i, e_src e) else r) \<noteq> None \<longleftrightarrow> (\<exists>(i, e)\<in>set (x # es). answers (edgeTakesVariableAddress e v) True \<and>
      (e_kind e = ''Assign'' \<or> (\<exists>n. answers (edgeCanGC a e) (Some n))))"
    using r(2) bg x by auto
  ultimately show ?case by blast
qed

text \<open>Nothing that is printed is taken back.\<close>

definition extends :: "string list \<Rightarrow> string list \<Rightarrow> bool" where
  "extends xs ys \<longleftrightarrow> (\<exists>zs. ys = xs @ zs)"

lemma extends_refl [simp]: "extends xs xs"
  by (simp add: extends_def)

lemma extends_trans: "extends xs ys \<Longrightarrow> extends ys zs \<Longrightarrow> extends xs zs"
  by (auto simp: extends_def)

lemma extends_set: "extends xs ys \<Longrightarrow> x \<in> set xs \<Longrightarrow> x \<in> set ys"
  by (auto simp: extends_def)

definition keepsOut :: "(reporter, 'a) jsm \<Rightarrow> bool" where
  "keepsOut m \<longleftrightarrow> (\<forall>s. extends (rp_out s) (rp_out (snd (m s))))"

lemma keepsOut_bind: "keepsOut m \<Longrightarrow> (\<And>x. keepsOut (f x)) \<Longrightarrow> keepsOut (bindM m f)"
  unfolding keepsOut_def bindM_def by (auto split: prod.splits sum.splits) (metis extends_trans snd_conv)+

lemma keepsOut_basic: "keepsOut (ret x)" "keepsOut (throw e)" "keepsOut (ask q)" "keepsOut (sayReport l)" "keepsOut (setLineText l)"
  "keepsOut (liveReport a v)"
  by (auto simp: keepsOut_def ret_def throw_def ask_def sayReport_def setLineText_def liveReport_def extends_def split: prod.splits)

lemma keepsOut_mapM: "(\<And>x. keepsOut (f x)) \<Longrightarrow> keepsOut (mapM f xs)"
  by (induction xs) (auto intro!: keepsOut_bind keepsOut_basic)

lemma keepsOut_traceLines: "keepsOut (traceLines p lines en)"
proof (induction p lines en rule: traceLines.induct)
  case (1 p lines i q g w)
  then show ?case by (auto intro!: keepsOut_bind keepsOut_basic split: option.splits)
qed

lemma keepsOut_noteUse: "keepsOut (noteUse p i)"
proof -
  have "keepsOut (\<lambda>s. (case rp_lineText s of
      Some lineText \<Rightarrow> if lineText = [] \<or> laterLine (locationLine lineText) (locationLine loc) then setLineText loc s else (Inr (), s)
    | None \<Rightarrow> setLineText loc s))" for loc
    by (auto simp: keepsOut_def setLineText_def split: option.splits)
  then have "keepsOut (bindM (ask (locate p i m)) (\<lambda>text s. (case rp_lineText s of
      Some lineText \<Rightarrow> if lineText = [] \<or> laterLine (locationLine lineText) (locationLine text) then setLineText text s else (Inr (), s)
    | None \<Rightarrow> setLineText text s)))" for m
    by (intro keepsOut_bind keepsOut_basic)
  then show ?thesis unfolding noteUse_def keepsOut_def Let_def by auto
qed

lemma keepsOut_variable: "keepsOut (processVariable p x)"
proof -
  have say: "keepsOut (\<lambda>s. sayReport (rootText p name (rp_lineText s)) s)" for name
    by (simp add: keepsOut_def sayReport_def extends_def)
  have "keepsOut (processRooted p name v)" for name v
    unfolding processRooted_def
    by (intro keepsOut_bind keepsOut_basic) (auto split: option.splits intro!: keepsOut_bind keepsOut_basic keepsOut_mapM keepsOut_noteUse say)
  moreover have "keepsOut (processUnrooted p name v ty)" for name v ty
    unfolding processUnrooted_def printEntryTrace_def
    by (intro keepsOut_bind keepsOut_basic)
      (auto split: option.splits prod.splits intro!: keepsOut_bind keepsOut_basic keepsOut_traceLines)
  moreover have "keepsOut (nameOf v)" for v by (auto simp: nameOf_def split: option.splits intro: keepsOut_basic)
  ultimately show ?thesis
    by (auto simp: processVariable_def split: prod.splits intro!: keepsOut_bind keepsOut_basic)
qed
lemma ask_Inr: "ask q s = (Inr x, t) \<longleftrightarrow> t = s \<and> answers q x"
  by (auto simp: ask_def answers_def)

lemma liveReport_run:
  assumes "readable a v"
  shows "\<exists>r s'. liveReport a v s = (Inr r, s') \<and> rp_out s' = rp_out s \<and> rp_lineText s' = rp_lineText s \<and> (r \<noteq> None \<longleftrightarrow> hazard a v)"
proof -
  obtain r t where r: "variableLiveAcrossGC a v (rp_live s) = (Inr r, t)" "case r of Some x \<Rightarrow> found a v x | None \<Rightarrow> \<not> hazard a v"
    using variableLive_run [OF assms] by blast
  have "hazard a v" if "found a v x" for x
    using chain_flows [OF assms] that unfolding found_def hazard_def hit_def by blast
  then show ?thesis using r by (cases r) (auto simp: liveReport_def)
qed

text \<open>The lines of a trace are indented, so none of them is a report.\<close>

definition indented :: "string \<Rightarrow> bool" where
  "indented l \<longleftrightarrow> startsWith ''    '' l"

lemma traceLines_indented:
  "traceLines p lines en s = (r, t) \<Longrightarrow> \<exists>ls. rp_out t = rp_out s @ ls \<and> (\<forall>l\<in>set ls. indented l)"
proof (induction p lines en arbitrary: s r t rule: traceLines.induct)
  case (1 p lines i q g w)
  show ?case
  proof (cases "fst (locate p i q ())")
    case (Inl e)
    then show ?thesis using 1(2) by (auto simp: bindM_def ask_def)
  next
    case (Inr loc)
    show ?thesis
    proof (cases "fst (edgeText (lines ! i) (Entry i q g w) ())")
      case (Inl e)
      then show ?thesis using 1(2) Inr by (auto simp: bindM_def ask_def)
    next
      case line: (Inr x)
      define l where "l = ''    '' @ loc @ (case x of None \<Rightarrow> [] | Some t \<Rightarrow> '': '' @ t)"
      have l: "indented l" unfolding indented_def l_def by (simp only: startsWith_append)
      let ?s = "s\<lparr>rp_out := rp_out s @ [l]\<rparr>"
      have run: "(case w of None \<Rightarrow> ret () | Some en \<Rightarrow> traceLines p lines en) ?s = (r, t)"
        using 1(2) Inr line by (simp add: bindM_def ask_def sayReport_def l_def)
      show ?thesis
      proof (cases w)
        case None
        then show ?thesis using run l by (auto simp: ret_def)
      next
        case (Some en)
        then obtain ls where "rp_out t = rp_out ?s @ ls" "\<forall>l\<in>set ls. indented l" using 1(1) [OF Some] run by force
        then show ?thesis using l by auto
      qed
    qed
  qed
qed

lemma printEntryTrace_indented:
  "printEntryTrace p en s = (Inr u, t) \<Longrightarrow> \<exists>ls. rp_out t = rp_out s @ ls \<and> (\<forall>l\<in>set ls. indented l)"
  unfolding printEntryTrace_def bindM_Inr_iff ask_Inr by (auto dest: traceLines_indented)

lemma report_texts:
  "\<not> indented (unrootedText p name ty gc loc)" "addressText p name' loc' \<noteq> unrootedText p name ty gc loc"
  by (simp_all add: indented_def unrootedText_def addressText_def reportHead_def startsWith_def)

definition variableName :: "gvar \<Rightarrow> string" where
  "variableName v = (if v_kind v = ''This'' then ''this'' else case v_name v of None \<Rightarrow> [] | Some n \<Rightarrow> n)"

lemma address_part:
  assumes "(case result of None \<Rightarrow> ret () | Some (i, ppoint) \<Rightarrow>
        bindM (ask (locate p i ppoint)) (\<lambda>lineText.
        bindM (setLineText lineText) (\<lambda>_.
        bindM (sayReport (addressText p name lineText)) (\<lambda>_. printEntryTrace p (Entry i ppoint None None))))) s = (Inr (), t)"
  shows "\<exists>ls. rp_out t = rp_out s @ ls \<and> (\<forall>l\<in>set ls. indented l \<or> (\<exists>loc. l = addressText p name loc))"
proof (cases result)
  case None
  then show ?thesis using assms by (auto simp: ret_def)
next
  case (Some q)
  obtain i ppoint where q: "q = (i, ppoint)" by (cases q)
  obtain loc where "printEntryTrace p (Entry i ppoint None None)
      (s\<lparr>rp_lineText := Some loc, rp_out := rp_out s @ [addressText p name loc]\<rparr>) = (Inr (), t)"
    using assms Some q by (auto simp: bindM_Inr_iff ask_Inr setLineText_def sayReport_def)
  from printEntryTrace_indented [OF this] show ?thesis by auto
qed

section \<open>Properties\<close>

text \<open>
  C14: For a variable of an unrooted type of a function with well-formed bodies, when the processing returns
  normally (the locations and the listing have the points and edges that it looks up), what is printed contains the
  report that the variable is live across a collecting call exactly when it is; every other line is an indented line
  of a trace or the report of an unsafe address.
\<close>

theorem hazards_reported:
  assumes "processVariable p (v, ty) s = (Inr (), t)" "wellFormed (a_bodies (p_analysis p))"
    and "v_kind v \<noteq> ''Return''" "\<not> isRootedType ty" "isUnrootedType (p_types p) ty"
  shows "\<exists>new. rp_out t = rp_out s @ new \<and>
    ((\<exists>gc loc. unrootedText p (variableName v) ty gc loc \<in> set new) \<longleftrightarrow> hazard (p_analysis p) v) \<and>
    (\<forall>l\<in>set new. indented l \<or> (\<exists>loc. l = addressText p (variableName v) loc) \<or>
       (\<exists>gc loc. l = unrootedText p (variableName v) ty gc loc))"
proof -
  let ?name = "variableName v"
  have run: "processUnrooted p ?name v ty s = (Inr (), t)"
    using assms(1,3-5) by (auto simp: processVariable_def variableName_def nameOf_def bindM_Inr_iff run_simps split: if_splits option.splits)
  have name: "named v"
    using assms(1,3) by (auto simp: processVariable_def named_def nameOf_def bindM_Inr_iff run_simps split: if_splits option.splits)
  obtain r s1 where r: "liveReport (p_analysis p) v s = (Inr r, s1)" "rp_out s1 = rp_out s" "r \<noteq> None \<longleftrightarrow> hazard (p_analysis p) v"
    using liveReport_run [OF wellFormed_readable [OF assms(2) name]] by blast
  let ?first = "case r of None \<Rightarrow> ret () | Some (g, why) \<Rightarrow>
      bindM (ask (locate p (gi_body g) (gi_point g))) (\<lambda>lineText.
      bindM (setLineText lineText) (\<lambda>_.
      bindM (sayReport (unrootedText p ?name ty (gi_name g) lineText)) (\<lambda>_. printEntryTrace p why)))"
  obtain s2 x where s2: "?first s1 = (Inr (), s2)"
    "(case x of None \<Rightarrow> ret () | Some (i, ppoint) \<Rightarrow>
        bindM (ask (locate p i ppoint)) (\<lambda>lineText.
        bindM (setLineText lineText) (\<lambda>_.
        bindM (sayReport (addressText p ?name lineText)) (\<lambda>_. printEntryTrace p (Entry i ppoint None None))))) s2 = (Inr (), t)"
    using run r(1) unfolding processUnrooted_def bindM_Inr_iff ask_Inr by auto
  obtain ls where ls: "rp_out t = rp_out s2 @ ls" "\<forall>l\<in>set ls. indented l \<or> (\<exists>loc. l = addressText p ?name loc)"
    using address_part [OF s2(2)] by blast
  have none: "unrootedText p ?name ty gc loc \<notin> set ls" for gc loc using ls(2) report_texts by metis
  show ?thesis
  proof (cases r)
    case None
    then show ?thesis using s2(1) r ls none by (auto simp: ret_def)
  next
    case (Some y)
    obtain g why where y: "y = (g, why)" by (cases y)
    obtain loc where "printEntryTrace p why
        (s1\<lparr>rp_lineText := Some loc, rp_out := rp_out s @ [unrootedText p ?name ty (gi_name g) loc]\<rparr>) = (Inr (), s2)"
      using s2(1) Some y r(2) by (auto simp: bindM_Inr_iff ask_Inr setLineText_def sayReport_def)
    from printEntryTrace_indented [OF this]
    obtain ms where ms: "rp_out s2 = rp_out s @ [unrootedText p ?name ty (gi_name g) loc] @ ms" "\<forall>l\<in>set ms. indented l" by auto
    then have "rp_out t = rp_out s @ ([unrootedText p ?name ty (gi_name g) loc] @ ms @ ls)" using ls(1) by simp
    moreover have "\<forall>l\<in>set ([unrootedText p ?name ty (gi_name g) loc] @ ms @ ls). indented l \<or> (\<exists>loc. l = addressText p ?name loc) \<or>
        (\<exists>gc loc. l = unrootedText p ?name ty gc loc)"
      using ms(2) ls(2) by auto
    ultimately show ?thesis using Some r(3) by (intro exI [of _ "[unrootedText p ?name ty (gi_name g) loc] @ ms @ ls"]) auto
  qed
qed

definition sampleSetting :: setting where
  "sampleSetting = \<lparr>p_analysis = sampleAnalysis, p_root = ''/'', p_types = ({''JSObject''}, {}),
     p_listing = joinLines [''block: h()'', ''Assign(1,2, x := f())'', ''Call(2,3, gc())'', ''Assume(3,4, x*)'']\<rparr>"

definition startReporter :: reporter where
  "startReporter = \<lparr>rp_live = \<lparr>l_seen = (\<lambda>_. None), l_minimum = (\<lambda>_. 0)\<rparr>, rp_lineText = None, rp_out = []\<rparr>"

lemma hazards_reported_witness:
  "\<exists>t. processVariable sampleSetting (localVar ''x'', TPointer (TCSU ''JSObject'')) startReporter = (Inr (), t) \<and>
    ((\<exists>gc loc. unrootedText sampleSetting ''x'' (TPointer (TCSU ''JSObject'')) gc loc \<in> set (rp_out t)) \<longleftrightarrow> hazard sampleAnalysis (localVar ''x''))"
proof -
  let ?x = "(localVar ''x'', TPointer (TCSU ''JSObject''))"
  have run: "fst (processVariable sampleSetting ?x startReporter) = Inr ()" by code_simp
  obtain t where t: "processVariable sampleSetting ?x startReporter = (Inr (), t)"
    using run by (cases "processVariable sampleSetting ?x startReporter") simp
  have "wellFormed (a_bodies (p_analysis sampleSetting))" by (simp add: sampleSetting_def sample_wellFormed)
  moreover have "isUnrootedType (p_types sampleSetting) (TPointer (TCSU ''JSObject''))" by (simp add: isUnrootedType_def sampleSetting_def)
  ultimately show ?thesis
    using hazards_reported [OF t] t by (auto simp: isRootedType_def localVar_def variableName_def startReporter_def sampleSetting_def)
qed

text \<open>
  An address of the variable that is stored, or passed to a call that may collect, is found, and nothing else.
\<close>

theorem unsafe_address_exact:
  assumes "\<And>i e. (i, e) \<in> set (allEdges (a_bodies a)) \<Longrightarrow> \<exists>b. answers (edgeTakesVariableAddress e v) b"
    and "\<And>i e. (i, e) \<in> set (allEdges (a_bodies a)) \<Longrightarrow> \<exists>g. answers (edgeCanGC a e) g"
  shows "\<exists>r. answers (unsafeVariableAddressTaken a v) r \<and>
    (r \<noteq> None \<longleftrightarrow> (\<exists>(i, e)\<in>set (allEdges (a_bodies a)). answers (edgeTakesVariableAddress e v) True \<and>
       (e_kind e = ''Assign'' \<or> (\<exists>n. answers (edgeCanGC a e) (Some n)))))"
  unfolding unsafeVariableAddressTaken_def using assms by (rule takes_unsafe_run)

lemma unsafe_address_exact_witness:
  "answers (unsafeVariableAddressTaken sampleAnalysis (localVar ''x'')) None"
proof -
  have takes: "map (\<lambda>e. fst (edgeTakesVariableAddress e (localVar ''x'') ())) sampleUse = [Inr False, Inr False, Inr False]" by code_simp
  have all: "allEdges (a_bodies sampleAnalysis) = map (\<lambda>e. (0, e)) sampleUse"
    by (simp add: allEdges_def sampleAnalysis_def functionBody_def)
  have q: "answers (edgeTakesVariableAddress e (localVar ''x'')) False \<and> (\<exists>g. answers (edgeCanGC sampleAnalysis e) g)"
    if "(i, e) \<in> set (allEdges (a_bodies sampleAnalysis))" for i e
    using that takes sampleUse_answers(3) unfolding all by (auto simp: sampleUse_def answers_def)
  then have "\<not> answers (edgeTakesVariableAddress e (localVar ''x'')) True" if "(i, e) \<in> set (allEdges (a_bodies sampleAnalysis))" for i e
    using that by (metis answers_unique)
  then show ?thesis using unsafe_address_exact [of sampleAnalysis "localVar ''x''"] q by (metis (no_types, lifting) case_prodE)
qed

text \<open>
  C24: The location of an unnecessary root is not that of the variable: for a rooted variable that no edge uses or
  assigns, the report gives the location that the variable before it left behind, or \<open>undefined\<close>.
\<close>

theorem stale_location:
  assumes "\<And>i e. (i, e) \<in> set (allEdges (a_bodies (p_analysis p))) \<Longrightarrow> answers (edgeUsesVariable e v) False"
    and "v_kind v = ''Local''" "v_name v = Some name" "isRootedType ty"
  shows "\<exists>t. processVariable p (v, ty) s = (Inr (), t) \<and> rp_out t = rp_out s @ [rootText p name (rp_lineText s)]"
proof -
  let ?a = "p_analysis p"
  let ?s = "(rp_live s)\<lparr>l_seen := (\<lambda>_. None), l_minimum := (\<lambda>_. 0)\<rparr>"
  have no: "answers (usesFrom v e) False" if "(i, e) \<in> set (allEdges (a_bodies ?a))" for i e
    using assms(1) [OF that] by (cases "edgeUsesVariable e v ()") (simp add: answers_def usesFrom_def bindM_def ret_def)
  have "firstM (followFrom ?a v) es ?s = (Inr None, ?s)" if "set es \<subseteq> set (allEdges (a_bodies ?a))" for es
    using that
  proof (induction es)
    case (Cons x es)
    obtain i e where x: "x = (i, e)" by (cases x)
    then have "(i, e) \<in> set (allEdges (a_bodies ?a))" using Cons.prems by simp
    then have "followFrom ?a v x ?s = (Inr None, ?s)" by (simp add: followFrom_def ask_answers [OF no] ret_def x)
    then show ?case using Cons by (simp add: bindM_def)
  qed (simp add: ret_def)
  then have live: "liveReport ?a v s = (Inr None, s\<lparr>rp_live := ?s\<rparr>)" by (simp add: liveReport_def variableLiveAcrossGC_def)
  have "mapM (noteUse p) xs (s\<lparr>rp_live := ?s\<rparr>) = (Inr (map (\<lambda>_. ()) xs), s\<lparr>rp_live := ?s\<rparr>)" for xs
    by (induction xs) (simp_all add: noteUse_def bindM_def ret_def)
  then have "processRooted p name v s = (Inr (), s\<lparr>rp_live := ?s, rp_out := rp_out s @ [rootText p name (rp_lineText s)]\<rparr>)"
    using live by (simp add: processRooted_def bindM_def sayReport_def)
  then show ?thesis using assms(2-4) by (simp add: processVariable_def nameOf_def)
qed

lemma stale_location_witness:
  "\<exists>t. processVariable sampleSetting (localVar ''y'', TCSU ''ModuleCompiler'') (startReporter\<lparr>rp_lineText := Some ''f.cpp:3''\<rparr>) = (Inr (), t) \<and>
    rp_out t = [rootText sampleSetting ''y'' (Some ''f.cpp:3'')]"
proof -
  have "map (\<lambda>e. fst (edgeUsesVariable e (localVar ''y'') ())) sampleUse = [Inr False, Inr False, Inr False]" by code_simp
  then have "answers (edgeUsesVariable e (localVar ''y'')) False" if "(i, e) \<in> set (allEdges (a_bodies (p_analysis sampleSetting)))" for i e
    using that by (auto simp: allEdges_def sampleSetting_def sampleAnalysis_def functionBody_def sampleUse_def answers_def)
  moreover have "isRootedType (TCSU ''ModuleCompiler'')" by code_simp
  ultimately show ?thesis
    using stale_location [of sampleSetting "localVar ''y''" "''y''" "TCSU ''ModuleCompiler''" "startReporter\<lparr>rp_lineText := Some ''f.cpp:3''\<rparr>"]
    by (auto simp: localVar_def startReporter_def)
qed

text \<open>
  C25: The batches do not overlap, each one ends before the next begins, and they leave out functions: together they
  analyse the first functions of the database, as many as the largest multiple of the number of batches; the rest is
  in no batch.
\<close>

theorem batches_drop_last:
  assumes "0 < numBatches" "minStream \<le> maxStream"
  shows "((\<exists>batch. 1 \<le> batch \<and> batch \<le> numBatches \<and> fst (batchRange minStream maxStream numBatches batch) \<le> i \<and>
      i \<le> snd (batchRange minStream maxStream numBatches batch)) \<longleftrightarrow>
    minStream \<le> i \<and> i < minStream + ((maxStream - minStream) + 1) div numBatches * numBatches) \<and>
    (\<forall>b c. 1 \<le> b \<and> b < c \<and> c \<le> numBatches \<longrightarrow>
       snd (batchRange minStream maxStream numBatches b) < fst (batchRange minStream maxStream numBatches c))"
proof (rule conjI, goal_cases covered apart)
  case covered
  let ?N = "(maxStream - minStream) + 1"
  let ?each = "?N div numBatches"
  have each: "0 \<le> ?each" "?each * numBatches \<le> ?N" using assms by (simp_all add: pos_imp_zdiv_nonneg_iff) (metis mult.commute mult_div_mod_eq le_add_same_cancel1 pos_mod_sign)
  show ?case
  proof
    assume "\<exists>batch. 1 \<le> batch \<and> batch \<le> numBatches \<and> fst (batchRange minStream maxStream numBatches batch) \<le> i \<and>
      i \<le> snd (batchRange minStream maxStream numBatches batch)"
    then obtain batch where b: "1 \<le> batch" "batch \<le> numBatches" "minStream + ?each * (batch - 1) \<le> i" "i \<le> minStream + ?each * batch - 1"
      by (auto simp: batchRange_def Let_def)
    have "0 \<le> ?each * (batch - 1)" using each(1) b(1) by simp
    moreover have "?each * batch \<le> ?each * numBatches" using each(1) b(2) by (simp add: mult_left_mono)
    ultimately show "minStream \<le> i \<and> i < minStream + ?each * numBatches" using b(3,4) by linarith
  next
    assume i: "minStream \<le> i \<and> i < minStream + ?each * numBatches"
    then have pos: "0 < ?each" using each(1) assms(1) by (cases "?each = 0") auto
    let ?b = "(i - minStream) div ?each + 1"
    have q: "?each * ((i - minStream) div ?each) \<le> i - minStream" "i - minStream < ?each * ((i - minStream) div ?each) + ?each"
      using pos mult_div_mod_eq [of ?each "i - minStream"] pos_mod_sign [OF pos, of "i - minStream"] pos_mod_bound [OF pos, of "i - minStream"]
      by linarith+
    have "(i - minStream) div ?each < numBatches"
    proof (rule ccontr)
      assume "\<not> ?thesis"
      then have "?each * numBatches \<le> ?each * ((i - minStream) div ?each)" using pos by (simp add: mult_left_mono)
      then show False using q(1) i by linarith
    qed
    moreover have "0 \<le> (i - minStream) div ?each" using i pos by (simp add: pos_imp_zdiv_nonneg_iff)
    moreover note q
    moreover have "i \<le> maxStream" using i each(2) by linarith
    ultimately show "\<exists>batch. 1 \<le> batch \<and> batch \<le> numBatches \<and> fst (batchRange minStream maxStream numBatches batch) \<le> i \<and>
      i \<le> snd (batchRange minStream maxStream numBatches batch)"
      by (intro exI [of _ ?b]) (auto simp: batchRange_def Let_def algebra_simps)
  qed
next
  case apart
  show ?case
  proof (intro allI impI)
    fix b c assume bc: "1 \<le> b \<and> b < c \<and> c \<le> numBatches"
    let ?each = "((maxStream - minStream) + 1) div numBatches"
    have "0 \<le> ?each" using assms by (simp add: pos_imp_zdiv_nonneg_iff)
    then have "?each * b \<le> ?each * (c - 1)" using bc by (simp add: mult_left_mono)
    then show "snd (batchRange minStream maxStream numBatches b) < fst (batchRange minStream maxStream numBatches c)"
      by (simp add: batchRange_def Let_def)
  qed
qed

lemma batches_drop_last_witness:
  "\<not> (\<exists>batch. 1 \<le> batch \<and> batch \<le> 3 \<and> fst (batchRange 0 9 3 batch) \<le> 9 \<and> 9 \<le> snd (batchRange 0 9 3 batch)) \<and>
    snd (batchRange 0 9 3 1) < fst (batchRange 0 9 3 2)"
proof -
  have "(0::int) < 3" "(0::int) \<le> 9" by simp_all
  from batches_drop_last [OF this, of 9] show ?thesis by simp
qed

end
