(* ===== verification/Spec2Isabelle.thy ===== *)
theory Spec2Isabelle
  imports Ast_Traverse_Facts Ast_Events Ast_Print Ast_TreeView_Spec Ast_Draw Ast_Options Stage_Sync
    Parallel_Scan Parallel_Filter Parallel_ScatterVector
    SelfHosted_Array Staged_Lib
    Hazard_Calls Hazard_Report
begin

text \<open>
  MetaMonkey is SpiderMonkey extended with compile-time metaprogramming: a program is run in stages,
  whose code builds ASTs, escapes ASTs into quasi-quotes and inlines them into the program. This
  development models the JavaScript of the repository that carries that, and the parts of the engine
  that are written in JavaScript and that the staged programs run on.

  \<^bold>\<open>Parts and how they interact.\<close>

  \<^item> The \<^emph>\<open>evaluator\<close> runs the code of a stage in the browser
    (\<open>js/Project/MultiStagedExec/Src/staged_dbg/stageddbgevaluator/js/stagedbgeval/stagedlib.js\<close>).
    Its library escapes ASTs into arrays of nodes, sends ASTs to the server to be inlined or
    inspected, and asks the server for the next stage.
  \<^item> The \<^emph>\<open>visualizer\<close> (\<open>.../staged_dbg/stageddbgvisualizer/js\<close>) is the page of the stage
    debugger. It asks the server every four seconds what is new (\<open>app.js\<close>, \<open>Helpers/Connector.js\<close>), shows
    the stage (\<open>Views/Stage.js\<close>), and opens a tab for every AST that is inspected (\<open>Views/Ast.js\<close>). In a
    tab, \<open>Ast/asttreeviewwithoptions.js\<close> traverses the AST (\<open>Ast/asttraverse.js\<close>) with one visitor to
    build a tree of nodes (\<open>Ast/asttreeview.js\<close>), draws that tree (\<open>Ast/asttreeviewdraw.js\<close>) with
    options set in a form (\<open>Helpers/OptionsGen.js\<close>), and traverses the AST with another visitor to
    print it (\<open>Ast/asttreestringify.js\<close>).
  \<^item> The \<^emph>\<open>engine's library\<close> has \<open>builtin/ParallelArray.js\<close>, whose operations run in slices on
    several threads, with warm-ups and bailouts, and \<open>builtin/Array.js\<close>, the self-hosted methods of
    \<open>Array.prototype\<close>.
  \<^item> The \<^emph>\<open>root analysis\<close> (\<open>devtools/rootAnalysis\<close>) checks the engine's own C++ for pointers to collected
    things that are used after a call that can collect garbage. \<open>computeCallgraph.js\<close> prints the calls of every
    function, \<open>computeGCFunctions.js\<close> reads them (\<open>loadCallgraph.js\<close>) and finds the functions that may
    collect, \<open>computeGCTypes.js\<close> finds the types that hold such pointers, and \<open>analyzeRoots.js\<close> uses both lists to
    search every function. All share the suppressed points of a function (\<open>suppressedPoints.js\<close>) and what
    is trusted (\<open>annotations.js\<close>).

  \<^bold>\<open>Theories.\<close> \<open>JS_Prelude\<close> has the values of JavaScript the code works on, the primitives and
  underscore functions it calls, and the state-and-exception monad; a computation keeps what was
  mutated before an exception.

  \<^item> \<open>Ast_Traverse\<close>: \<open>asttraverse.js\<close>, one definition per function (\<open>trvsProgram\<close>, \<open>trvsStmtIf\<close>, ...), the
    two tables by node kind (\<open>exprsMap\<close>, \<open>stmtsMap\<close>) and the mutual recursion through them. A visitor is
    a map from a construct's name and an action (before, after, single) to a handler.
    \<open>Ast_Traverse_Facts\<close>: the recursion never meets its guard, unknown kinds, malformed nodes.
  \<^item> \<open>Ast_Syntax\<close>: the abstract syntax of the programs that the traversal supports and \<open>enc_program\<close>, its
    encoding as the objects that the parser emits for them. The parser also emits other trees, among them those with
    array holes, \<open>let\<close> and \<open>const\<close>, accessors, destructuring, expression closures, comprehensions,
    generators, default and rest parameters; for these there are the lemmas on unknown kinds and malformed nodes of
    \<open>Ast_Traverse_Facts\<close>, and the hole that stops the polling.
    \<open>Ast_Visit\<close>: for every visitor, the traversal of an encoded program is a visit by structural
    recursion on the syntax. \<open>Ast_Events\<close>: the order of the calls. \<open>Ast_Visitor\<close>: what both visitors share.
  \<^item> \<open>Ast_Stringify\<close>, \<open>Ast_Print\<close>: \<open>asttreestringify.js\<close>, with its tab depth as the state, and its
    refinement of a printer on the syntax.
  \<^item> \<open>Ast_TreeView\<close>, \<open>Ast_TreeView_Spec\<close>: \<open>asttreeview.js\<close> on a store of nodes with children and parent
    links, and its refinement of a tree specification with separation predicates; the walks down and up.
  \<^item> \<open>Ast_Draw\<close>: \<open>asttreeviewdraw.js\<close>, the state \<open>TVD_OPTS\<close>, the layout (slot depths, starting
    positions), collapsing, changed options and the source popover. The boxes and lines drawn are a list.
  \<^item> \<open>Ast_Options\<close>: \<open>OptionsGen.js\<close> and \<open>asttreeviewwithoptions.js\<close>, the form and the page of one program.
  \<^item> \<open>Stage_Sync\<close>: the page as a state with a step relation (poll, answer, failure, closing a tab, the
    form's events), which contains the view of every inspected AST.
  \<^item> \<open>Staged_Lib\<close>: \<open>stagedlib.js\<close>: escaping on an array of nodes, and the session as a step relation: the user
    starts it or its tasks run, the server answers or refuses. \<open>served_step\<close> is the session with a
    server that has a given list of stages and answers every request for the next one.
  \<^item> \<open>Parallel_Slices\<close>, \<open>Parallel_Fork\<close>: \<open>ComputeNumChunks\<close>, slice bounds and shapes; and the model of
    \<open>ForkJoin\<close>, which belongs to the engine's C++ and is known by its contract. The run of a slice is a
    program of single loads and stores (\<open>pjs\<close>), and a schedule a list of events (\<open>fork_event\<close>): a slice starts a
    call, as a warm-up or not, abandoning the one it is in; or executes the next operation of its call; or
    is called sequentially. So the operations of all slices interleave in any order on the shared memory,
    and a call may be abandoned between any two of them. One \<open>UnsafeSetElement\<close> with several stores is one
    operation. \<open>Parallel_Array\<close> (views, get, partition), \<open>Parallel_Map\<close> (map and build),
    \<open>Parallel_Reduce\<close>, \<open>Parallel_Scan\<close>, \<open>Parallel_Filter\<close>, \<open>Parallel_Scatter\<close>,
    \<open>Parallel_ScatterVector\<close>: the operations of \<open>ParallelArray.js\<close>, on shared buffers. The user's function is a HOL
    function of its arguments: it has no effects and always returns.
  \<^item> \<open>SelfHosted_Array\<close>: \<open>Array.js\<close> over a heap of objects that a callback may change.
  \<^item> \<open>Worklist\<close>: worklist loops as while loops, with a rule for total correctness, and searches that handle
    everything reachable. \<open>JS_Strings\<close>: string methods and the pieces of regular expressions.
  \<^item> \<open>Hazard_Data\<close>: the function bodies with their edges, \<open>utility.js\<close> and \<open>annotations.js\<close>.
    \<open>Hazard_Suppress\<close>: \<open>suppressedPoints.js\<close>. \<open>Hazard_Graph\<close>: \<open>loadCallgraph.js\<close> and the report of
    \<open>computeGCFunctions.js\<close>. \<open>Hazard_Classes\<close> and \<open>Hazard_Calls\<close>: \<open>computeCallgraph.js\<close>, the class tables with the
    virtual calls, and the printed lines. \<open>Hazard_Types\<close>: \<open>computeGCTypes.js\<close> and its reader.
    \<open>Hazard_Roots\<close> and \<open>Hazard_Report\<close>: \<open>analyzeRoots.js\<close>, the backward search for a use after a
    collecting call, and what is printed. Questions about edges may fail an assertion; the properties
    are about bodies on which they do not, by conditions on the code: \<open>askable\<close> for the suppressed points, \<open>functionOk\<close> for the call graph,
    \<open>wellFormed\<close> for the analysis of roots, which leaves out calls through a computed pointer, on which
    \<open>analyzeRoots.js\<close> asserts.

  \<^bold>\<open>What the lemmas show.\<close> Refinement: the traversal, the printer and the tree builder do what recursive
  functions on the syntax do, for every program; every parallel operation gives what its sequential
  specification gives, for every number of slices and every interleaving of their operations, with warm-ups and
  bailouts anywhere, because each slice reads and stores only what belongs to it or what no slice stores
  (\<open>viewOf\<close>), for callbacks without effects, associative ones where the slices' results are combined; the
  escape functions expand the escapes where their counts allow it; what the call graph's printer writes, its
  reader reads back. Exactness: the suppressed points, the functions that may collect, the collected types and
  the hazards are those of inductive definitions over the code's edges and tables. Invariants: the tab depth, node
  ids, well-bracketed visitor calls, one unanswered request at most, different tab ids, cells that show
  the model. Safety: boxes that do not overlap, nothing inlined after a refused inline request. Termination and
  liveness: the recursion of the traversal, the walks over the node store, every worklist of the root
  analysis, the chains of reasons, the session with a finite number of stages, which ends.
  Errors: unknown kinds, malformed bodies, missing callbacks, and what an exception in the view does to
  the polling. Bounds: the slices partition the chunks; views read past their rows; the batches of the root
  analysis leave out the last functions.

  \<^bold>\<open>Bounds and fuel.\<close> Recursion over values descends by \<open>vsize\<close>; a call that would not descend ends in
  \<open>RecursionGuard\<close>, which no handler catches and which is proved not to occur. Walks over the node store
  take the root's address plus one as fuel: children have smaller addresses than their parents, and
  \<open>treeview_topDown\<close>, \<open>treeview_parentToRoot\<close> and \<open>view_opens\<close> prove that the walks return. Loops over
  indices recurse on the list of indices. Worklists are while loops, for which an end is proved; nested loops
  and nested classes have one more than the number of bodies or of tables as fuel, which is more than any
  nesting without a cycle. Numbers are the integral ones; \<open>Array.js\<close> also has the infinities.

  \<^bold>\<open>Interfaces.\<close> Locales state what one component needs of another: \<open>visitor_frame\<close>, what the traversal
  needs of a visitor's handlers to keep a relation between states; \<open>slice_kernel\<close> and \<open>stepwise\<close>, what
  \<open>ForkJoin\<close> needs of the program of a slice: a run of it alone is safe, and it keeps to its own part; \<open>filling\<close>, a buffer that slices fill independently;
  \<open>search\<close>, what a worklist needs of the visit of an item to handle all that is reachable, three times; and
  \<open>array_like\<close>, the objects that the methods of \<open>Array.js\<close> take. Each is interpreted on the model's own
  definitions.

  \<^bold>\<open>Not modelled.\<close> The C++ of the engine and of the staging driver (\<open>jscorestaging.cpp\<close>, \<open>jsunparse.cpp\<close>):
  another language, and the contracts used of it are stated where they are used. The html, css and animation
  around the page's state, and the graph library's drawing primitives. \<open>Intl.js\<close>, \<open>IntlData.js\<close>, \<open>Date.js\<close>,
  \<open>Number.js\<close>, \<open>String.js\<close> and \<open>Utilities.js\<close> of \<open>builtin\<close>: left for a later extension. Of the root analysis the
  database and \<open>xdbfind\<close> are parameters, and the Python driver is another language. \<open>staged_client\<close>: a page of menus and editor glue. Vendored libraries (ace, jQuery,
  Backbone, underscore, require, bootstrap), the second copy of the visualizer under \<open>tmp\<close>, generated
  files, examples, tests and benchmarks.
\<close>

end
